(* ===== verification/Pintos_Prelude.thy ===== *)
theory Pintos_Prelude
  imports Main "HOL-Library.Monad_Syntax" "HOL-Library.Word" "HOL-Library.Multiset"
begin

text \<open>
  Vocabulary shared by the component theories.

  Kernel code that fails an \<open>ASSERT\<close>, calls \<open>PANIC\<close> or dereferences a null pointer never
  returns to its caller, so an operation that can do so is a function into \<open>'a option\<close> and
  \<^const>\<open>None\<close> is that outcome; the sequencing of statements is the bind of the option
  monad.  A loop whose termination depends on the shape of the data is a
  \<^theory_text>\<open>partial_function (option)\<close>, where \<^const>\<open>None\<close> also stands for "does not return";
  that it does return is always a separate theorem.

  Fixed-width integers are words, or natural numbers with the wrap-around written out
  through \<open>size_add\<close> where only the additions of a \<open>size_t\<close> can overflow (the kernel is a
  32-bit program).
\<close>

section \<open>Types\<close>

type_synonym u8 = "8 word"

type_synonym u16 = "16 word"

type_synonym u32 = "32 word"

type_synonym u64 = "64 word"

section \<open>Assertions and size arithmetic\<close>

definition ASSERT :: "bool \<Rightarrow> unit option" where
  "ASSERT b = (if b then Some () else None)"

text \<open>Addition of two \<open>size_t\<close> values, which are 32 bits wide.\<close>

definition size_add :: "nat \<Rightarrow> nat \<Rightarrow> nat" where
  "size_add a b = (a + b) mod 2 ^ 32"

text \<open>The rounding macros of \<open>lib/round.h\<close>, for arguments whose sum does not overflow.\<close>

definition ROUND_UP :: "nat \<Rightarrow> nat \<Rightarrow> nat" where
  "ROUND_UP x step = (x + step - 1) div step * step"

definition DIV_ROUND_UP :: "nat \<Rightarrow> nat \<Rightarrow> nat" where
  "DIV_ROUND_UP x step = (x + step - 1) div step"

definition ROUND_DOWN :: "nat \<Rightarrow> nat \<Rightarrow> nat" where
  "ROUND_DOWN x step = x div step * step"

text \<open>Reading and writing an array element; outside the array there is no memory of it.\<close>

definition nth_opt :: "'a list \<Rightarrow> nat \<Rightarrow> 'a option" where
  "nth_opt xs i = (if i < length xs then Some (xs ! i) else None)"

definition update_opt :: "'a list \<Rightarrow> nat \<Rightarrow> 'a \<Rightarrow> 'a list option" where
  "update_opt xs i v = (if i < length xs then Some (xs[i := v]) else None)"

section \<open>Shared lemmas\<close>

named_theorems kernel_simps \<open>equations that evaluate the option monad of the kernel operations\<close>

lemma ASSERT_True [simp, kernel_simps]: "ASSERT True = Some ()"
  by (simp add: ASSERT_def)

lemma ASSERT_False [simp, kernel_simps]: "ASSERT False = None"
  by (simp add: ASSERT_def)

lemma ASSERT_bind [kernel_simps]:
  "(ASSERT b \<bind> f) = (if b then f () else None)"
  by (simp add: ASSERT_def)

lemma ASSERT_eq_Some [simp]: "ASSERT b = Some u \<longleftrightarrow> b"
  by (simp add: ASSERT_def)

lemma ASSERT_eq_None [simp]: "ASSERT b = None \<longleftrightarrow> \<not> b"
  by (simp add: ASSERT_def)

lemma size_add_small [simp]: "a + b < 2 ^ 32 \<Longrightarrow> size_add a b = a + b"
  by (simp add: size_add_def)

lemma nth_opt_Some [simp, kernel_simps]: "i < length xs \<Longrightarrow> nth_opt xs i = Some (xs ! i)"
  by (simp add: nth_opt_def)

lemma update_opt_Some [simp, kernel_simps]:
  "i < length xs \<Longrightarrow> update_opt xs i v = Some (xs[i := v])"
  by (simp add: update_opt_def)

lemma in_set_tlD: "x \<in> set (tl xs) \<Longrightarrow> x \<in> set xs"
  by (cases xs) auto

lemma DIV_ROUND_UP_le_iff:
  "0 < s \<Longrightarrow> DIV_ROUND_UP x s \<le> n \<longleftrightarrow> x \<le> n * s"
proof -
  assume s: "0 < s"
  have "(x + s - 1) div s \<le> n \<longleftrightarrow> (x + s - 1) div s < Suc n" by auto
  also have "\<dots> \<longleftrightarrow> x + s - 1 < Suc n * s" using s by (simp add: div_less_iff_less_mult)
  also have "\<dots> \<longleftrightarrow> x \<le> n * s" using s by auto
  finally show ?thesis by (simp add: DIV_ROUND_UP_def)
qed

lemma less_DIV_ROUND_UP_iff:
  "0 < s \<Longrightarrow> n < DIV_ROUND_UP x s \<longleftrightarrow> n * s < x"
  using DIV_ROUND_UP_le_iff [of s x n] by linarith

lemma ROUND_DOWN_le: "ROUND_DOWN x s \<le> x"
  by (simp add: ROUND_DOWN_def)

lemma ROUND_UP_ge: "0 < s \<Longrightarrow> x \<le> ROUND_UP x s"
  using DIV_ROUND_UP_le_iff [of s x "DIV_ROUND_UP x s"]
  by (simp add: ROUND_UP_def DIV_ROUND_UP_def)

end
