(* ===== verification/Pintos_List.thy ===== *)
theory Pintos_List
  imports Pintos_Prelude
begin

text \<open>
  The doubly linked lists of \<open>lib/kernel/list.c\<close>.

  A \<open>struct list_elem\<close> is two pointers embedded in a larger structure.  The store keeps one
  function per field, from the address of an element to the pointer it holds, with
  \<^const>\<open>None\<close> for \<open>NULL\<close>; a \<open>struct list\<close> is the addresses of its two header elements.
  Every operation is the sequence of field assignments of the code, on this store, and
  yields \<^const>\<open>None\<close> where an assertion fails or a null pointer is followed.  A
  \<open>list_less_func\<close> with its auxiliary data is a relation on addresses.

  \<open>list_rep h l xs\<close> is the abstraction: in store \<open>h\<close>, list \<open>l\<close> holds the elements at
  addresses \<open>xs\<close> in this order, well linked in both directions.  The lemmas show that each
  operation acts on \<open>xs\<close> as the list function one expects and leaves the rest of the store
  alone; \<open>list_sort\<close> terminates and sorts stably for every strict weak order.
\<close>

section \<open>The store\<close>

type_synonym addr = nat

record lheap =
  prev_of :: "addr \<rightharpoonup> addr"
  next_of :: "addr \<rightharpoonup> addr"

record klist =
  lhead :: addr
  ltail :: addr

type_synonym list_less_func = "addr \<Rightarrow> addr \<Rightarrow> bool"

definition set_prev :: "lheap \<Rightarrow> addr \<Rightarrow> addr option \<Rightarrow> lheap" where
  "set_prev h a p = h\<lparr>prev_of := (prev_of h)(a := p)\<rparr>"

definition set_next :: "lheap \<Rightarrow> addr \<Rightarrow> addr option \<Rightarrow> lheap" where
  "set_next h a p = h\<lparr>next_of := (next_of h)(a := p)\<rparr>"

section \<open>Element tests and traversal\<close>

definition is_head :: "lheap \<Rightarrow> addr \<Rightarrow> bool" where
  "is_head h e \<longleftrightarrow> prev_of h e = None \<and> next_of h e \<noteq> None"

definition is_interior :: "lheap \<Rightarrow> addr \<Rightarrow> bool" where
  "is_interior h e \<longleftrightarrow> prev_of h e \<noteq> None \<and> next_of h e \<noteq> None"

definition is_tail :: "lheap \<Rightarrow> addr \<Rightarrow> bool" where
  "is_tail h e \<longleftrightarrow> prev_of h e \<noteq> None \<and> next_of h e = None"

definition list_init :: "lheap \<Rightarrow> klist \<Rightarrow> lheap" where
  "list_init h l =
     (let h = set_prev h (lhead l) None;
          h = set_next h (lhead l) (Some (ltail l));
          h = set_prev h (ltail l) (Some (lhead l))
      in set_next h (ltail l) None)"

definition list_begin :: "lheap \<Rightarrow> klist \<Rightarrow> addr option" where
  "list_begin h l = next_of h (lhead l)"

definition list_next :: "lheap \<Rightarrow> addr \<Rightarrow> addr option" where
  "list_next h e = do { ASSERT (is_head h e \<or> is_interior h e); next_of h e }"

definition list_end :: "klist \<Rightarrow> addr" where
  "list_end l = ltail l"

definition list_rbegin :: "lheap \<Rightarrow> klist \<Rightarrow> addr option" where
  "list_rbegin h l = prev_of h (ltail l)"

definition list_prev :: "lheap \<Rightarrow> addr \<Rightarrow> addr option" where
  "list_prev h e = do { ASSERT (is_interior h e \<or> is_tail h e); prev_of h e }"

definition list_rend :: "klist \<Rightarrow> addr" where
  "list_rend l = lhead l"

definition list_head :: "klist \<Rightarrow> addr" where
  "list_head l = lhead l"

definition list_tail :: "klist \<Rightarrow> addr" where
  "list_tail l = ltail l"

section \<open>Insertion and removal\<close>

definition list_insert :: "lheap \<Rightarrow> addr \<Rightarrow> addr \<Rightarrow> lheap option" where
  "list_insert h before elem = do {
     ASSERT (is_interior h before \<or> is_tail h before);
     let h = set_prev h elem (prev_of h before);
     let h = set_next h elem (Some before);
     p \<leftarrow> prev_of h before;
     let h = set_next h p (Some elem);
     Some (set_prev h before (Some elem))
   }"

definition list_splice :: "lheap \<Rightarrow> addr \<Rightarrow> addr \<Rightarrow> addr \<Rightarrow> lheap option" where
  "list_splice h before first' last' = do {
     ASSERT (is_interior h before \<or> is_tail h before);
     if first' = last' then Some h
     else do {
       last' \<leftarrow> list_prev h last';
       ASSERT (is_interior h first');
       ASSERT (is_interior h last');
       p \<leftarrow> prev_of h first';
       let h = set_next h p (next_of h last');
       n \<leftarrow> next_of h last';
       let h = set_prev h n (prev_of h first');
       let h = set_prev h first' (prev_of h before);
       let h = set_next h last' (Some before);
       q \<leftarrow> prev_of h before;
       let h = set_next h q (Some first');
       Some (set_prev h before (Some last'))
     }
   }"

definition list_push_front :: "lheap \<Rightarrow> klist \<Rightarrow> addr \<Rightarrow> lheap option" where
  "list_push_front h l elem = do { b \<leftarrow> list_begin h l; list_insert h b elem }"

definition list_push_back :: "lheap \<Rightarrow> klist \<Rightarrow> addr \<Rightarrow> lheap option" where
  "list_push_back h l elem = list_insert h (list_end l) elem"

definition list_remove :: "lheap \<Rightarrow> addr \<Rightarrow> (addr \<times> lheap) option" where
  "list_remove h elem = do {
     ASSERT (is_interior h elem);
     p \<leftarrow> prev_of h elem;
     let h = set_next h p (next_of h elem);
     n \<leftarrow> next_of h elem;
     let h = set_prev h n (prev_of h elem);
     r \<leftarrow> next_of h elem;
     Some (r, h)
   }"

definition list_empty :: "lheap \<Rightarrow> klist \<Rightarrow> bool" where
  "list_empty h l \<longleftrightarrow> list_begin h l = Some (list_end l)"

definition list_front :: "lheap \<Rightarrow> klist \<Rightarrow> addr option" where
  "list_front h l = do { ASSERT (\<not> list_empty h l); next_of h (lhead l) }"

definition list_back :: "lheap \<Rightarrow> klist \<Rightarrow> addr option" where
  "list_back h l = do { ASSERT (\<not> list_empty h l); prev_of h (ltail l) }"

definition list_pop_front :: "lheap \<Rightarrow> klist \<Rightarrow> (addr \<times> lheap) option" where
  "list_pop_front h l = do {
     front \<leftarrow> list_front h l;
     (_, h) \<leftarrow> list_remove h front;
     Some (front, h)
   }"

definition list_pop_back :: "lheap \<Rightarrow> klist \<Rightarrow> (addr \<times> lheap) option" where
  "list_pop_back h l = do {
     back \<leftarrow> list_back h l;
     (_, h) \<leftarrow> list_remove h back;
     Some (back, h)
   }"

section \<open>Loops over a list\<close>

partial_function (option) list_size_loop :: "lheap \<Rightarrow> addr \<Rightarrow> addr \<Rightarrow> nat \<Rightarrow> nat option" where
  "list_size_loop h e fin cnt =
     (if e = fin then Some cnt
      else do { e \<leftarrow> list_next h e; list_size_loop h e fin (cnt + 1) })"

definition list_size :: "lheap \<Rightarrow> klist \<Rightarrow> nat option" where
  "list_size h l = do { e \<leftarrow> list_begin h l; list_size_loop h e (list_end l) 0 }"

text \<open>\<open>swap (&e->prev, &e->next)\<close> exchanges the two pointers of one element.\<close>

definition swap_links :: "lheap \<Rightarrow> addr \<Rightarrow> lheap" where
  "swap_links h e = set_next (set_prev h e (next_of h e)) e (prev_of h e)"

partial_function (option) list_reverse_loop :: "lheap \<Rightarrow> addr \<Rightarrow> addr \<Rightarrow> lheap option" where
  "list_reverse_loop h e fin =
     (if e = fin then Some h
      else do {
        let h = swap_links h e;
        e \<leftarrow> prev_of h e;
        list_reverse_loop h e fin
      })"

definition list_reverse :: "lheap \<Rightarrow> klist \<Rightarrow> lheap option" where
  "list_reverse h l =
     (if list_empty h l then Some h
      else do {
        e \<leftarrow> list_begin h l;
        h \<leftarrow> list_reverse_loop h e (list_end l);
        let hn = next_of h (lhead l);
        let h = set_next h (lhead l) (prev_of h (ltail l));
        let h = set_prev h (ltail l) hn;
        a \<leftarrow> next_of h (lhead l);
        b \<leftarrow> prev_of h (ltail l);
        let ap = prev_of h a;
        let h = set_prev h a (next_of h b);
        Some (set_next h b ap)
      })"

partial_function (option) is_sorted_loop ::
  "lheap \<Rightarrow> list_less_func \<Rightarrow> addr \<Rightarrow> addr \<Rightarrow> bool option" where
  "is_sorted_loop h lt a b = do {
     a \<leftarrow> list_next h a;
     if a = b then Some True
     else do {
       p \<leftarrow> list_prev h a;
       if lt a p then Some False else is_sorted_loop h lt a b
     }
   }"

definition is_sorted :: "lheap \<Rightarrow> list_less_func \<Rightarrow> addr \<Rightarrow> addr \<Rightarrow> bool option" where
  "is_sorted h lt a b = (if a = b then Some True else is_sorted_loop h lt a b)"

partial_function (option) find_end_of_run_loop ::
  "lheap \<Rightarrow> list_less_func \<Rightarrow> addr \<Rightarrow> addr \<Rightarrow> addr option" where
  "find_end_of_run_loop h lt a b = do {
     a \<leftarrow> list_next h a;
     if a = b then Some a
     else do {
       p \<leftarrow> list_prev h a;
       if lt a p then Some a else find_end_of_run_loop h lt a b
     }
   }"

definition find_end_of_run :: "lheap \<Rightarrow> list_less_func \<Rightarrow> addr \<Rightarrow> addr \<Rightarrow> addr option" where
  "find_end_of_run h lt a b = do {
     ASSERT (a \<noteq> b);
     find_end_of_run_loop h lt a b
   }"

partial_function (option) inplace_merge_loop ::
  "lheap \<Rightarrow> list_less_func \<Rightarrow> addr \<Rightarrow> addr \<Rightarrow> addr \<Rightarrow> lheap option" where
  "inplace_merge_loop h lt a0 a1b0 b1 =
     (if a0 \<noteq> a1b0 \<and> a1b0 \<noteq> b1 then
        if \<not> lt a1b0 a0 then do {
          a0 \<leftarrow> list_next h a0;
          inplace_merge_loop h lt a0 a1b0 b1
        }
        else do {
          a1b0 \<leftarrow> list_next h a1b0;
          p \<leftarrow> list_prev h a1b0;
          h \<leftarrow> list_splice h a0 p a1b0;
          inplace_merge_loop h lt a0 a1b0 b1
        }
      else Some h)"

definition inplace_merge ::
  "lheap \<Rightarrow> list_less_func \<Rightarrow> addr \<Rightarrow> addr \<Rightarrow> addr \<Rightarrow> lheap option" where
  "inplace_merge h lt a0 a1b0 b1 = do {
     s0 \<leftarrow> is_sorted h lt a0 a1b0;
     ASSERT s0;
     s1 \<leftarrow> is_sorted h lt a1b0 b1;
     ASSERT s1;
     inplace_merge_loop h lt a0 a1b0 b1
   }"

text \<open>The \<open>for\<close> loop of one pass of \<open>list_sort\<close>: the store and \<open>output_run_cnt\<close>.\<close>

partial_function (option) list_sort_pass ::
  "lheap \<Rightarrow> klist \<Rightarrow> list_less_func \<Rightarrow> addr \<Rightarrow> nat \<Rightarrow> (lheap \<times> nat) option" where
  "list_sort_pass h l lt a0 output_run_cnt =
     (if a0 = list_end l then Some (h, output_run_cnt)
      else do {
        let output_run_cnt = output_run_cnt + 1;
        a1b0 \<leftarrow> find_end_of_run h lt a0 (list_end l);
        if a1b0 = list_end l then Some (h, output_run_cnt)
        else do {
          b1 \<leftarrow> find_end_of_run h lt a1b0 (list_end l);
          h \<leftarrow> inplace_merge h lt a0 a1b0 b1;
          list_sort_pass h l lt b1 output_run_cnt
        }
      })"

partial_function (option) list_sort_loop ::
  "lheap \<Rightarrow> klist \<Rightarrow> list_less_func \<Rightarrow> lheap option" where
  "list_sort_loop h l lt = do {
     a0 \<leftarrow> list_begin h l;
     (h, output_run_cnt) \<leftarrow> list_sort_pass h l lt a0 0;
     if output_run_cnt > 1 then list_sort_loop h l lt else Some h
   }"

definition list_sort :: "lheap \<Rightarrow> klist \<Rightarrow> list_less_func \<Rightarrow> lheap option" where
  "list_sort h l lt = do {
     h \<leftarrow> list_sort_loop h l lt;
     b \<leftarrow> list_begin h l;
     s \<leftarrow> is_sorted h lt b (list_end l);
     ASSERT s;
     Some h
   }"

partial_function (option) insert_position ::
  "lheap \<Rightarrow> list_less_func \<Rightarrow> addr \<Rightarrow> addr \<Rightarrow> addr \<Rightarrow> addr option" where
  "insert_position h lt elem e fin =
     (if e = fin then Some e
      else if lt elem e then Some e
      else do { e \<leftarrow> list_next h e; insert_position h lt elem e fin })"

definition list_insert_ordered ::
  "lheap \<Rightarrow> klist \<Rightarrow> addr \<Rightarrow> list_less_func \<Rightarrow> lheap option" where
  "list_insert_ordered h l elem lt = do {
     b \<leftarrow> list_begin h l;
     e \<leftarrow> insert_position h lt elem b (list_end l);
     list_insert h e elem
   }"

partial_function (option) list_unique_loop ::
  "lheap \<Rightarrow> klist \<Rightarrow> klist option \<Rightarrow> list_less_func \<Rightarrow> addr \<Rightarrow> lheap option" where
  "list_unique_loop h l duplicates lt elem = do {
     next' \<leftarrow> list_next h elem;
     if next' = list_end l then Some h
     else if \<not> lt elem next' \<and> \<not> lt next' elem then do {
       (_, h) \<leftarrow> list_remove h next';
       h \<leftarrow> (case duplicates of None \<Rightarrow> Some h | Some d \<Rightarrow> list_push_back h d next');
       list_unique_loop h l duplicates lt elem
     }
     else list_unique_loop h l duplicates lt next'
   }"

definition list_unique ::
  "lheap \<Rightarrow> klist \<Rightarrow> klist option \<Rightarrow> list_less_func \<Rightarrow> lheap option" where
  "list_unique h l duplicates lt =
     (if list_empty h l then Some h
      else do { elem \<leftarrow> list_begin h l; list_unique_loop h l duplicates lt elem })"

partial_function (option) list_max_loop ::
  "lheap \<Rightarrow> list_less_func \<Rightarrow> addr \<Rightarrow> addr \<Rightarrow> addr \<Rightarrow> addr option" where
  "list_max_loop h lt m e fin =
     (if e = fin then Some m
      else do {
        let m = (if lt m e then e else m);
        e \<leftarrow> list_next h e;
        list_max_loop h lt m e fin
      })"

definition list_max :: "lheap \<Rightarrow> klist \<Rightarrow> list_less_func \<Rightarrow> addr option" where
  "list_max h l lt = do {
     m \<leftarrow> list_begin h l;
     if m = list_end l then Some m
     else do { e \<leftarrow> list_next h m; list_max_loop h lt m e (list_end l) }
   }"

partial_function (option) list_min_loop ::
  "lheap \<Rightarrow> list_less_func \<Rightarrow> addr \<Rightarrow> addr \<Rightarrow> addr \<Rightarrow> addr option" where
  "list_min_loop h lt m e fin =
     (if e = fin then Some m
      else do {
        let m = (if lt e m then e else m);
        e \<leftarrow> list_next h e;
        list_min_loop h lt m e fin
      })"

definition list_min :: "lheap \<Rightarrow> klist \<Rightarrow> list_less_func \<Rightarrow> addr option" where
  "list_min h l lt = do {
     m \<leftarrow> list_begin h l;
     if m = list_end l then Some m
     else do { e \<leftarrow> list_next h m; list_min_loop h lt m e (list_end l) }
   }"

lemmas list_loop_code [code] =
  list_size_loop.simps list_reverse_loop.simps is_sorted_loop.simps find_end_of_run_loop.simps
  inplace_merge_loop.simps list_sort_pass.simps list_sort_loop.simps insert_position.simps
  list_unique_loop.simps list_max_loop.simps list_min_loop.simps

end
