(* ===== verification/Pintos_List_Rep.thy ===== *)
theory Pintos_List_Rep
  imports Pintos_List
begin

text \<open>
  The contract of \<open>lib/kernel/list.c\<close>: the abstraction relation \<open>list_rep\<close> between the
  store and a sequence of element addresses, the effect of every operation on that
  sequence, and the part of the store each operation leaves alone (\<open>frame\<close>).
\<close>

section \<open>Well-linked lists\<close>

fun linked :: "lheap \<Rightarrow> addr list \<Rightarrow> bool" where
  "linked h (a # b # xs) \<longleftrightarrow> next_of h a = Some b \<and> prev_of h b = Some a \<and> linked h (b # xs)"
| "linked h _ \<longleftrightarrow> True"

definition nodes :: "klist \<Rightarrow> addr list \<Rightarrow> addr list" where
  "nodes l xs = lhead l # xs @ [ltail l]"

definition list_rep :: "lheap \<Rightarrow> klist \<Rightarrow> addr list \<Rightarrow> bool" where
  "list_rep h l xs \<longleftrightarrow>
     distinct (nodes l xs) \<and> prev_of h (lhead l) = None \<and> next_of h (ltail l) = None \<and>
     linked h (nodes l xs)"

text \<open>The first node of a suffix \<open>ys\<close> of the list, and the last node of a prefix \<open>xs\<close>.\<close>

definition starts :: "klist \<Rightarrow> addr list \<Rightarrow> addr" where
  "starts l ys = hd (ys @ [ltail l])"

definition ends :: "klist \<Rightarrow> addr list \<Rightarrow> addr" where
  "ends l xs = last (lhead l # xs)"

definition frame :: "lheap \<Rightarrow> lheap \<Rightarrow> addr set \<Rightarrow> bool" where
  "frame h h' S \<longleftrightarrow> (\<forall>a. a \<notin> S \<longrightarrow> prev_of h' a = prev_of h a \<and> next_of h' a = next_of h a)"

lemma starts_simps [simp]: "starts l [] = ltail l" "starts l (y # ys) = y"
  by (simp_all add: starts_def)

lemma ends_simps [simp]: "ends l [] = lhead l" "ends l (xs @ [x]) = x"
  by (simp_all add: ends_def)

lemma ends_Cons [simp]: "xs \<noteq> [] \<Longrightarrow> ends l xs = last xs"
  by (simp add: ends_def)

lemma starts_in: "ys \<noteq> [] \<Longrightarrow> starts l ys = hd ys"
  by (cases ys) auto

lemma set_nodes [simp]: "set (nodes l xs) = insert (lhead l) (insert (ltail l) (set xs))"
  by (auto simp: nodes_def)

lemma field_simps [simp]:
  "prev_of (set_prev h a p) = (prev_of h)(a := p)" "next_of (set_prev h a p) = next_of h"
  "next_of (set_next h a p) = (next_of h)(a := p)" "prev_of (set_next h a p) = prev_of h"
  by (simp_all add: set_prev_def set_next_def)

lemma linked_Cons_other: "linked h (a # xs) \<Longrightarrow> linked h xs"
  by (cases xs) auto

lemma linked_append:
  "linked h (as @ b # cs) \<longleftrightarrow> linked h (as @ [b]) \<and> linked h (b # cs)"
proof (induction as)
  case (Cons a as)
  then show ?case by (cases as) auto
qed simp

lemma linked_snoc:
  "as \<noteq> [] \<Longrightarrow> linked h (as @ [b]) \<longleftrightarrow>
     linked h as \<and> next_of h (last as) = Some b \<and> prev_of h b = Some (last as)"
proof (induction as)
  case (Cons a as)
  then show ?case by (cases as) auto
qed simp

lemma linked_enclosed:
  "xs \<noteq> [] \<Longrightarrow> linked h (a # xs @ [b]) \<longleftrightarrow>
     linked h xs \<and> next_of h a = Some (hd xs) \<and> prev_of h (hd xs) = Some a \<and>
     next_of h (last xs) = Some b \<and> prev_of h b = Some (last xs)"
  using linked_snoc [of "a # xs" h b] by (cases xs) auto

lemma linked_adjacent:
  "linked h (as @ a # b # bs) \<Longrightarrow> next_of h a = Some b \<and> prev_of h b = Some a"
  using linked_append [of h as a "b # bs"] by simp

lemma linked_cong:
  assumes "\<And>x. x \<in> set (butlast xs) \<Longrightarrow> next_of h' x = next_of h x"
    and "\<And>x. x \<in> set (tl xs) \<Longrightarrow> prev_of h' x = prev_of h x"
  shows "linked h' xs = linked h xs"
  using assms
proof (induction h xs rule: linked.induct)
  case (1 h a b xs)
  have "linked h' (b # xs) = linked h (b # xs)"
    by (rule "1.IH") (use "1.prems" in \<open>cases xs; auto\<close>)+
  with "1.prems" show ?case by simp
qed auto

lemma linked_set_next [simp]:
  "a \<notin> set (butlast xs) \<Longrightarrow> linked (set_next h a v) xs = linked h xs"
  by (rule linked_cong) auto

lemma linked_set_prev [simp]:
  "a \<notin> set (tl xs) \<Longrightarrow> linked (set_prev h a v) xs = linked h xs"
  by (rule linked_cong) auto

lemma linked_frame: "frame h h' S \<Longrightarrow> S \<inter> set xs = {} \<Longrightarrow> linked h' xs = linked h xs"
  by (rule linked_cong) (auto simp: frame_def dest!: in_set_butlastD in_set_tlD)

lemma linked_left:
  assumes "linked h (as @ [p])"
    and "\<And>x. x \<in> set as \<Longrightarrow> next_of h' x = next_of h x"
    and "\<And>x. x \<in> insert p (set as) \<Longrightarrow> prev_of h' x = prev_of h x"
  shows "linked h' (as @ [p])"
  using assms(1) by (subst linked_cong [of _ _ h]) (auto simp: assms dest: in_set_tlD)

lemma linked_right:
  assumes "linked h (b # bs)"
    and "\<And>x. x \<in> insert b (set bs) \<Longrightarrow> next_of h' x = next_of h x"
    and "\<And>x. x \<in> set bs \<Longrightarrow> prev_of h' x = prev_of h x"
  shows "linked h' (b # bs)"
  using assms(1)
  by (subst linked_cong [of _ _ h]) (auto simp: assms split: if_splits dest: in_set_butlastD)

lemma frame_refl [simp]: "frame h h S"
  by (simp add: frame_def)

lemma frame_trans: "frame h h' S \<Longrightarrow> frame h' h'' S \<Longrightarrow> frame h h'' S"
  by (simp add: frame_def)

lemma frame_mono: "frame h h' S \<Longrightarrow> S \<subseteq> T \<Longrightarrow> frame h h' T"
  by (auto simp: frame_def)

lemma list_rep_frame:
  assumes "frame h h' S" and "S \<inter> set (nodes l xs) = {}" and "list_rep h l xs"
  shows "list_rep h' l xs"
proof -
  have "lhead l \<notin> S" "ltail l \<notin> S" using assms(2) by auto
  with assms linked_frame [OF assms(1,2)] show ?thesis
    by (auto simp: list_rep_def frame_def)
qed

section \<open>Reading a list\<close>

lemma nodes_split:
  "nodes l (xs @ ys) =
     butlast (lhead l # xs) @ ends l xs # starts l ys # tl (ys @ [ltail l])"
proof -
  have "lhead l # xs = butlast (lhead l # xs) @ [ends l xs]"
    unfolding ends_def by (metis append_butlast_last_id list.distinct(1))
  moreover have "ys @ [ltail l] = starts l ys # tl (ys @ [ltail l])"
    by (cases ys) auto
  ultimately show ?thesis unfolding nodes_def by (metis append.assoc append_Cons append_Nil)
qed

lemma header_neq:
  "distinct (nodes l (xs @ ys)) \<Longrightarrow> lhead l \<noteq> starts l ys \<and> ltail l \<noteq> ends l xs"
  by (cases ys; cases xs rule: rev_cases) (auto simp: nodes_def)

lemma rep_links:
  assumes "list_rep h l (xs @ ys)"
  shows "next_of h (ends l xs) = Some (starts l ys)" "prev_of h (starts l ys) = Some (ends l xs)"
  using assms linked_adjacent unfolding list_rep_def nodes_split by blast+

lemma rep_begin [simp]: "list_rep h l xs \<Longrightarrow> list_begin h l = Some (starts l xs)"
  using rep_links(1) [of h l "[]" xs] by (simp add: list_begin_def)

lemma rep_rbegin: "list_rep h l xs \<Longrightarrow> list_rbegin h l = Some (ends l xs)"
  using rep_links(2) [of h l xs "[]"] by (simp add: list_rbegin_def)

lemma rep_next_interior:
  "list_rep h l (xs @ x # ys) \<Longrightarrow> next_of h x = Some (starts l ys)"
  using rep_links(1) [of h l "xs @ [x]" ys] by simp

lemma rep_interior: "list_rep h l xs \<Longrightarrow> x \<in> set xs \<Longrightarrow> is_interior h x"
  using rep_next_interior rep_links(2)
  by (metis is_interior_def option.distinct(1) split_list starts_simps(2))

lemma rep_tail: "list_rep h l xs \<Longrightarrow> is_tail h (ltail l)"
  using rep_rbegin by (auto simp: is_tail_def list_rep_def list_rbegin_def)

lemma rep_interior_or_tail:
  "list_rep h l (xs @ ys) \<Longrightarrow> is_interior h (starts l ys) \<or> is_tail h (starts l ys)"
  by (cases ys) (auto intro: rep_interior rep_tail)

lemma rep_list_next:
  "list_rep h l (xs @ x # ys) \<Longrightarrow> list_next h x = Some (starts l ys)"
  using rep_interior [of h l "xs @ x # ys" x] rep_next_interior
  by (fastforce simp: list_next_def ASSERT_bind)

lemma rep_list_prev:
  "list_rep h l (xs @ ys) \<Longrightarrow> list_prev h (starts l ys) = Some (ends l xs)"
  using rep_interior_or_tail rep_links(2) by (fastforce simp: list_prev_def ASSERT_bind)

lemma rep_starts_eq_tail: "list_rep h l (xs @ ys) \<Longrightarrow> starts l ys = ltail l \<longleftrightarrow> ys = []"
  by (cases ys) (auto simp: list_rep_def nodes_def)

lemma rep_empty: "list_rep h l xs \<Longrightarrow> list_empty h l \<longleftrightarrow> xs = []"
  using rep_starts_eq_tail [of h l "[]" xs] by (simp add: list_empty_def list_end_def)

lemma list_rep_unique: "list_rep h l xs \<Longrightarrow> list_rep h l ys \<Longrightarrow> xs = ys"
proof -
  have "list_rep h l (zs @ xs) \<Longrightarrow> list_rep h l (zs @ ys) \<Longrightarrow> xs = ys" for zs
  proof (induction xs arbitrary: ys zs)
    case Nil
    then show ?case using rep_links(1) [of h l zs "[]"] rep_links(1) [of h l zs ys]
        rep_starts_eq_tail [of h l zs ys] by simp
  next
    case (Cons x xs)
    have "starts l ys = x"
      using rep_links(1) [OF Cons.prems(1)] rep_links(1) [OF Cons.prems(2)] by simp
    moreover have "ys \<noteq> []"
      using calculation rep_starts_eq_tail [OF Cons.prems(1)] by auto
    ultimately obtain ys' where ys: "ys = x # ys'" by (cases ys) auto
    then show ?case using Cons.IH [of "zs @ [x]" ys'] Cons.prems by simp
  qed
  from this [of "[]"] show "list_rep h l xs \<Longrightarrow> list_rep h l ys \<Longrightarrow> xs = ys" by simp
qed

lemma list_size_loop_rep:
  "list_rep h l (xs @ ys) \<Longrightarrow>
     list_size_loop h (starts l ys) (ltail l) cnt = Some (cnt + length ys)"
proof (induction ys arbitrary: xs cnt)
  case Nil
  then show ?case by (simp add: list_size_loop.simps)
next
  case (Cons y ys)
  have "y \<noteq> ltail l" using rep_starts_eq_tail [OF Cons.prems] by simp
  then show ?case
    using rep_list_next [OF Cons.prems] Cons.IH [of "xs @ [y]" "cnt + 1"] Cons.prems
    by (simp add: list_size_loop.simps [of h y])
qed

lemma list_size_rep: "list_rep h l xs \<Longrightarrow> list_size h l = Some (length xs)"
  using list_size_loop_rep [of h l "[]" xs 0] by (simp add: list_size_def list_end_def)

section \<open>Changing a list\<close>

lemma list_init_rep: "lhead l \<noteq> ltail l \<Longrightarrow> list_rep (list_init h l) l []"
  by (simp add: list_init_def list_rep_def nodes_def)

text \<open>
  Every change of a list takes a linked segment out of it, puts one into it, or both:
  \<open>list_remove\<close> and \<open>list_insert\<close> do this with one element, \<open>list_splice\<close> with a run of them.
\<close>

lemma unlink_segment:
  assumes rep: "list_rep h l (xs @ ms @ ys)" and ms: "ms \<noteq> []"
    and h': "h' = set_prev (set_next h (ends l xs) (Some (starts l ys)))
                    (starts l ys) (Some (ends l xs))"
  shows "list_rep h' l (xs @ ys)" "linked h' ms" "frame h h' (set (nodes l (xs @ ys)))"
proof -
  define as where "as = butlast (lhead l # xs)"
  define bs where "bs = tl (ys @ [ltail l])"
  let ?p = "ends l xs" and ?n = "starts l ys"
  have ns: "nodes l (xs @ ms @ ys) = as @ ?p # ms @ ?n # bs"
    using nodes_split [of l xs "ms @ ys"] ms by (cases ms; cases ys) (auto simp: as_def bs_def)
  have ns': "nodes l (xs @ ys) = as @ ?p # ?n # bs" by (simp add: nodes_split as_def bs_def)
  have d: "distinct (as @ ?p # ms @ ?n # bs)" and l: "linked h (as @ ?p # ms @ ?n # bs)"
    using rep ns by (auto simp: list_rep_def)
  have l1: "linked h (as @ [?p])" and "linked h ((?p # ms) @ ?n # bs)"
    using l linked_append [of h as ?p "ms @ ?n # bs"] by auto
  then have "linked h (?p # ms @ [?n])" and l2: "linked h (?n # bs)"
    using linked_append [of h "?p # ms" ?n bs] by auto
  then have lm: "linked h ms"
    using linked_Cons_other [of h ?p] linked_snoc [OF ms] by auto
  show "linked h' ms"
    using lm by (subst linked_cong [of _ _ h]) (use d h' in \<open>auto dest: in_set_tlD in_set_butlastD\<close>)
  have "linked h' (as @ [?p])" by (rule linked_left [OF l1]) (use d h' in auto)
  moreover have "linked h' (?n # bs)" by (rule linked_right [OF l2]) (use d h' in auto)
  ultimately have "linked h' (as @ ?p # ?n # bs)"
    using linked_append [of h' as ?p "?n # bs"] d h' by simp
  moreover have dd: "distinct (nodes l (xs @ ys))" using d unfolding ns' by auto
  ultimately show "list_rep h' l (xs @ ys)"
    using header_neq [OF dd] rep h' unfolding list_rep_def ns' by auto
  show "frame h h' (set (nodes l (xs @ ys)))"
    unfolding ns' h' frame_def by auto
qed

lemma link_segment:
  assumes rep: "list_rep h l (xs @ ys)" and lm: "linked h ms" and ms: "ms \<noteq> []" "distinct ms"
    and new: "set ms \<inter> set (nodes l (xs @ ys)) = {}"
    and h': "h' = set_prev (set_next (set_next (set_prev h (hd ms) (Some (ends l xs)))
                    (last ms) (Some (starts l ys))) (ends l xs) (Some (hd ms)))
                    (starts l ys) (Some (last ms))"
  shows "list_rep h' l (xs @ ms @ ys)" "frame h h' (set ms \<union> set (nodes l (xs @ ys)))"
proof -
  define as where "as = butlast (lhead l # xs)"
  define bs where "bs = tl (ys @ [ltail l])"
  let ?p = "ends l xs" and ?n = "starts l ys"
  have ns: "nodes l (xs @ ys) = as @ ?p # ?n # bs" by (simp add: nodes_split as_def bs_def)
  have ns': "nodes l (xs @ ms @ ys) = as @ ?p # ms @ ?n # bs"
    using nodes_split [of l xs "ms @ ys"] ms by (cases ms; cases ys) (auto simp: as_def bs_def)
  have d: "distinct (as @ ?p # ?n # bs)" and l: "linked h (as @ ?p # ?n # bs)"
    using rep ns by (auto simp: list_rep_def)
  have dm: "set ms \<inter> set (as @ ?p # ?n # bs) = {}" using new unfolding ns .
  have hl: "hd ms \<in> set ms" "last ms \<in> set ms" using ms by auto
  have l1: "linked h (as @ [?p])" and l2: "linked h (?n # bs)"
    using l linked_append [of h as ?p "?n # bs"] by auto
  have bl: "last ms \<notin> set (butlast ms)"
    using ms by (metis append_butlast_last_id distinct_butlast not_distinct_conv_prefix)
  have ht: "hd ms \<notin> set (tl ms)" using ms by (cases ms) auto
  have "linked h' ms"
    using lm by (subst linked_cong [of _ _ h])
      (use dm h' bl ht hl in \<open>auto dest: in_set_tlD in_set_butlastD\<close>)
  moreover have "next_of h' (last ms) = Some ?n" "prev_of h' ?n = Some (last ms)"
    "next_of h' ?p = Some (hd ms)" "prev_of h' (hd ms) = Some ?p"
    using dm hl h' by auto
  moreover have "linked h' (as @ [?p])" by (rule linked_left [OF l1]) (use d dm hl h' in auto)
  moreover have "linked h' (?n # bs)" by (rule linked_right [OF l2]) (use d dm hl h' in auto)
  ultimately have "linked h' (as @ ?p # ms @ ?n # bs)"
    using linked_append [of h' as ?p "ms @ ?n # bs"] linked_append [of h' "?p # ms" ?n bs]
      linked_snoc [of "?p # ms" h' ?n] ms by (cases ms) auto
  moreover have "distinct (nodes l (xs @ ms @ ys))" using d dm ms unfolding ns' by auto
  moreover have "prev_of h' (lhead l) = None" "next_of h' (ltail l) = None"
    using header_neq [of l xs ys] new hl rep h' by (auto simp: list_rep_def)
  ultimately show "list_rep h' l (xs @ ms @ ys)" unfolding list_rep_def ns' by blast
  show "frame h h' (set ms \<union> set (nodes l (xs @ ys)))"
    unfolding ns h' frame_def using hl by auto
qed

lemma list_insert_rep:
  assumes rep: "list_rep h l (xs @ ys)" and new: "e \<notin> set (nodes l (xs @ ys))"
  shows "\<exists>h'. list_insert h (starts l ys) e = Some h' \<and> list_rep h' l (xs @ e # ys) \<and>
           frame h h' (insert e (set (nodes l (xs @ ys))))"
proof -
  let ?h = "set_prev (set_next (set_next (set_prev h e (Some (ends l xs))) e (Some (starts l ys)))
              (ends l xs) (Some e)) (starts l ys) (Some e)"
  have "starts l ys \<in> set (nodes l (xs @ ys))" by (cases ys) auto
  with new have "e \<noteq> starts l ys" by metis
  then have "list_insert h (starts l ys) e = Some ?h"
    using rep_interior_or_tail [OF rep] rep_links(2) [OF rep]
    by (simp add: list_insert_def ASSERT_bind)
  then show ?thesis
    using link_segment [OF rep, of "[e]" ?h] new by (auto simp: insert_commute)
qed

lemma list_remove_rep:
  assumes rep: "list_rep h l (xs @ x # ys)"
  shows "\<exists>h'. list_remove h x = Some (starts l ys, h') \<and> list_rep h' l (xs @ ys) \<and>
           frame h h' (set (nodes l (xs @ ys)))"
proof -
  let ?h = "set_prev (set_next h (ends l xs) (Some (starts l ys))) (starts l ys) (Some (ends l xs))"
  have "prev_of h x = Some (ends l xs)" "next_of h x = Some (starts l ys)"
    using rep_links(2) [OF rep] rep_next_interior [OF rep] by auto
  moreover have "x \<noteq> ends l xs" "x \<noteq> starts l ys"
    using rep by (cases xs rule: rev_cases; cases ys; auto simp: list_rep_def nodes_def)+
  ultimately have "list_remove h x = Some (starts l ys, ?h)"
    using rep_interior [OF rep, of x] by (auto simp: list_remove_def ASSERT_bind)
  then show ?thesis using unlink_segment [of h l xs "[x]" ys ?h] rep by auto
qed

text \<open>\<open>list_splice\<close> moves a run \<open>ms\<close> of a list \<open>l\<close> to another place of \<open>l\<close>, or to another list.\<close>

lemma list_splice_run:
  assumes rep: "list_rep h l (xs @ ms @ ys)" and ms: "ms \<noteq> []"
    and h1: "h1 = set_prev (set_next h (ends l xs) (Some (starts l ys)))
                    (starts l ys) (Some (ends l xs))"
    and before: "is_interior h (starts l' bs) \<or> is_tail h (starts l' bs)"
    and rep': "list_rep h1 l' (as @ bs)" and new: "set ms \<inter> set (nodes l' (as @ bs)) = {}"
  shows "\<exists>h'. list_splice h (starts l' bs) (hd ms) (starts l ys) = Some h' \<and>
           list_rep h' l' (as @ ms @ bs) \<and> frame h1 h' (set ms \<union> set (nodes l' (as @ bs)))"
proof -
  let ?h = "set_prev (set_next (set_next (set_prev h1 (hd ms) (Some (ends l' as)))
              (last ms) (Some (starts l' bs))) (ends l' as) (Some (hd ms)))
              (starts l' bs) (Some (last ms))"
  have dist: "distinct (nodes l (xs @ ms @ ys))" using rep by (simp add: list_rep_def)
  have hl: "hd ms \<in> set ms" "last ms \<in> set ms" using ms by auto
  have sy: "starts l ys \<in> set (ys @ [ltail l])" by (cases ys) auto
  have ne: "hd ms \<noteq> starts l ys" "last ms \<noteq> starts l ys"
    using dist hl sy unfolding nodes_def by auto
  have ne2: "last ms \<noteq> ends l xs" "hd ms \<noteq> ends l xs"
    using dist hl unfolding nodes_def by (cases xs rule: rev_cases; auto)+
  have pl: "list_prev h (starts l ys) = Some (last ms)"
    using rep_list_prev [of h l "xs @ ms" ys] rep ms by (simp add: ends_def)
  have ph: "prev_of h (hd ms) = Some (ends l xs)"
    using rep_links(2) [of h l xs "ms @ ys"] rep ms by (cases ms) auto
  have nl: "next_of h (last ms) = Some (starts l ys)"
    using rep_links(1) [of h l "xs @ ms" ys] rep ms by (simp add: ends_def)
  have int: "is_interior h (hd ms)" "is_interior h (last ms)"
    using rep hl by (auto intro: rep_interior)
  have pb: "prev_of h1 (starts l' bs) = Some (ends l' as)" by (rule rep_links(2) [OF rep'])
  have nb: "hd ms \<noteq> starts l' bs" "last ms \<noteq> starts l' bs"
    using new hl by (cases bs; auto)+
  have "list_splice h (starts l' bs) (hd ms) (starts l ys) = Some ?h"
    using before pl int ph nl ne ne2 pb nb unfolding list_splice_def h1
    by (auto simp: ASSERT_bind Let_def split: if_splits)
  moreover have "distinct ms" using dist by (auto simp: nodes_def)
  ultimately show ?thesis
    using link_segment [OF rep' unlink_segment(2) [OF rep ms h1] ms _ new, of ?h] by blast
qed

lemma list_splice_other_rep:
  assumes rep: "list_rep h l (xs @ ms @ ys)" and ms: "ms \<noteq> []" and rep': "list_rep h l' (as @ bs)"
    and disj: "set (nodes l (xs @ ms @ ys)) \<inter> set (nodes l' (as @ bs)) = {}"
  shows "\<exists>h'. list_splice h (starts l' bs) (hd ms) (starts l ys) = Some h' \<and>
           list_rep h' l (xs @ ys) \<and> list_rep h' l' (as @ ms @ bs) \<and>
           frame h h' (set (nodes l (xs @ ms @ ys)) \<union> set (nodes l' (as @ bs)))"
proof -
  let ?h = "set_prev (set_next h (ends l xs) (Some (starts l ys))) (starts l ys) (Some (ends l xs))"
  note un = unlink_segment [OF rep ms refl]
  have "list_rep ?h l' (as @ bs)"
    by (rule list_rep_frame [OF un(3) _ rep']) (use disj in auto)
  moreover have "set ms \<inter> set (nodes l' (as @ bs)) = {}" using disj by auto
  ultimately obtain h' where h': "list_splice h (starts l' bs) (hd ms) (starts l ys) = Some h'"
    "list_rep h' l' (as @ ms @ bs)" "frame ?h h' (set ms \<union> set (nodes l' (as @ bs)))"
    using list_splice_run [OF rep ms refl rep_interior_or_tail [OF rep']] by blast
  have "distinct (nodes l (xs @ ms @ ys))" using rep by (simp add: list_rep_def)
  then have "(set ms \<union> set (nodes l' (as @ bs))) \<inter> set (nodes l (xs @ ys)) = {}"
    using disj by (auto simp: nodes_def)
  then have "list_rep h' l (xs @ ys)" by (rule list_rep_frame [OF h'(3) _ un(1)])
  moreover have "frame h h' (set (nodes l (xs @ ms @ ys)) \<union> set (nodes l' (as @ bs)))"
    by (rule frame_trans [OF frame_mono [OF un(3)] frame_mono [OF h'(3)]]) auto
  ultimately show ?thesis using h' by blast
qed

lemma list_splice_same_rep:
  assumes rep: "list_rep h l (xs @ ms @ ys)" and ms: "ms \<noteq> []" and split: "as @ bs = xs @ ys"
  shows "\<exists>h'. list_splice h (starts l bs) (hd ms) (starts l ys) = Some h' \<and>
           list_rep h' l (as @ ms @ bs) \<and> frame h h' (set (nodes l (xs @ ms @ ys)))"
proof -
  let ?h = "set_prev (set_next h (ends l xs) (Some (starts l ys))) (starts l ys) (Some (ends l xs))"
  note un = unlink_segment [OF rep ms refl]
  have "set bs \<subseteq> set (xs @ ys)" using split by (metis set_append Un_upper2)
  then have "is_interior h (starts l bs) \<or> is_tail h (starts l bs)"
    using rep_interior [OF rep] rep_tail [OF rep] by (cases bs) auto
  moreover have "distinct (nodes l (xs @ ms @ ys))" using rep by (simp add: list_rep_def)
  then have "set ms \<inter> set (nodes l (as @ bs)) = {}" unfolding split by (auto simp: nodes_def)
  ultimately obtain h' where h': "list_splice h (starts l bs) (hd ms) (starts l ys) = Some h'"
    "list_rep h' l (as @ ms @ bs)" "frame ?h h' (set ms \<union> set (nodes l (xs @ ys)))"
    using list_splice_run [OF rep ms refl, of l bs as] un(1) split by auto
  have "frame h h' (set (nodes l (xs @ ms @ ys)))"
    by (rule frame_trans [OF frame_mono [OF un(3)] frame_mono [OF h'(3)]]) auto
  then show ?thesis using h' by blast
qed

lemma list_push_front_rep:
  "list_rep h l xs \<Longrightarrow> e \<notin> set (nodes l xs) \<Longrightarrow>
     \<exists>h'. list_push_front h l e = Some h' \<and> list_rep h' l (e # xs) \<and>
       frame h h' (insert e (set (nodes l xs)))"
  using list_insert_rep [of h l "[]" xs e] by (simp add: list_push_front_def)

lemma list_push_back_rep:
  "list_rep h l xs \<Longrightarrow> e \<notin> set (nodes l xs) \<Longrightarrow>
     \<exists>h'. list_push_back h l e = Some h' \<and> list_rep h' l (xs @ [e]) \<and>
       frame h h' (insert e (set (nodes l xs)))"
  using list_insert_rep [of h l xs "[]" e] by (simp add: list_push_back_def list_end_def)

lemma list_pop_front_rep:
  "list_rep h l (x # xs) \<Longrightarrow>
     \<exists>h'. list_pop_front h l = Some (x, h') \<and> list_rep h' l xs \<and> frame h h' (set (nodes l xs))"
  using list_remove_rep [of h l "[]" x xs] rep_empty [of h l "x # xs"] rep_begin [of h l "x # xs"]
  by (auto simp: list_pop_front_def list_front_def list_begin_def ASSERT_bind)

lemma list_pop_back_rep:
  "list_rep h l (xs @ [x]) \<Longrightarrow>
     \<exists>h'. list_pop_back h l = Some (x, h') \<and> list_rep h' l xs \<and> frame h h' (set (nodes l xs))"
  using list_remove_rep [of h l xs x "[]"] rep_empty [of h l "xs @ [x]"] rep_rbegin [of h l "xs @ [x]"]
  by (auto simp: list_pop_back_def list_back_def list_rbegin_def ASSERT_bind)

section \<open>Reversal\<close>

definition swapped_on :: "addr set \<Rightarrow> lheap \<Rightarrow> lheap \<Rightarrow> bool" where
  "swapped_on S h h' \<longleftrightarrow>
     (\<forall>a. if a \<in> S then prev_of h' a = next_of h a \<and> next_of h' a = prev_of h a
          else prev_of h' a = prev_of h a \<and> next_of h' a = next_of h a)"

lemma linked_swapped_rev:
  "linked h xs \<Longrightarrow> swapped_on S h h' \<Longrightarrow> set xs \<subseteq> S \<Longrightarrow> linked h' (rev xs)"
proof (induction h xs rule: linked.induct)
  case (1 h a b xs)
  then have "linked h' (rev (b # xs))" by simp
  then show ?case
    using "1.prems" linked_snoc [of "rev (b # xs)" h' a] by (auto simp: swapped_on_def)
qed auto

lemma list_reverse_loop_rep:
  "linked h (ys @ [t]) \<Longrightarrow> distinct (ys @ [t]) \<Longrightarrow>
     \<exists>h'. list_reverse_loop h (hd (ys @ [t])) t = Some h' \<and> swapped_on (set ys) h h'"
proof (induction ys arbitrary: h)
  case Nil
  then show ?case by (simp add: list_reverse_loop.simps swapped_on_def)
next
  case (Cons y ys)
  let ?h = "swap_links h y"
  have nx: "next_of h y = Some (hd (ys @ [t]))" using Cons.prems by (cases ys) auto
  have "linked h (ys @ [t])" using Cons.prems linked_Cons_other [of h y] by simp
  then have "linked ?h (ys @ [t])"
    using Cons.prems(2) unfolding swap_links_def
    by (subst linked_cong [of _ _ h]) (auto dest: in_set_tlD in_set_butlastD)
  then obtain h' where h': "list_reverse_loop ?h (hd (ys @ [t])) t = Some h'"
      "swapped_on (set ys) ?h h'"
    using Cons by auto
  have "swapped_on (set (y # ys)) h h'"
    using h'(2) Cons.prems(2) by (auto simp: swapped_on_def swap_links_def)
  then show ?case
    using h'(1) nx Cons.prems(2)
    by (simp add: list_reverse_loop.simps [of h y] swap_links_def)
qed

lemma list_reverse_rep:
  assumes rep: "list_rep h l xs"
  shows "\<exists>h'. list_reverse h l = Some h' \<and> list_rep h' l (rev xs) \<and> frame h h' (set (nodes l xs))"
proof (cases "xs = []")
  case True
  then show ?thesis using rep rep_empty [OF rep] by (simp add: list_reverse_def)
next
  case False
  then have xs: "xs = hd xs # tl xs" "xs = butlast xs @ [last xs]" by simp_all
  have d: "distinct (lhead l # xs @ [ltail l])" and lk: "linked h ((lhead l # xs) @ [ltail l])"
    and hn: "prev_of h (lhead l) = None" "next_of h (ltail l) = None"
    using rep by (auto simp: list_rep_def nodes_def)
  have lx: "linked h (xs @ [ltail l])" "linked h xs"
    using lk linked_Cons_other [of h "lhead l" "xs @ [ltail l]"] linked_snoc [OF False] by auto
  from lx d obtain h1 where h1: "list_reverse_loop h (hd (xs @ [ltail l])) (ltail l) = Some h1"
    "swapped_on (set xs) h h1" using list_reverse_loop_rep [of h xs "ltail l"] by auto
  have mem: "hd xs \<in> set xs" "last xs \<in> set xs" using False by auto
  have hdx: "next_of h (lhead l) = Some (hd xs)" "prev_of h (hd xs) = Some (lhead l)"
    using rep_links [of h l "[]" xs] rep xs(1) by (metis append_Nil ends_simps(1) starts_simps(2))+
  have lax: "prev_of h (ltail l) = Some (last xs)" "next_of h (last xs) = Some (ltail l)"
    using rep_links [of h l xs "[]"] rep False by auto
  let ?h = "set_next (set_prev (set_prev (set_next h1 (lhead l) (Some (last xs)))
              (ltail l) (Some (hd xs))) (last xs) (Some (lhead l))) (hd xs) (Some (ltail l))"
  have ne: "hd xs \<noteq> lhead l" "hd xs \<noteq> ltail l" "last xs \<noteq> lhead l" "last xs \<noteq> ltail l"
    using mem d by auto
  have sw: "prev_of h1 (last xs) = Some (ltail l)" "next_of h1 (hd xs) = Some (lhead l)"
    "next_of h1 (lhead l) = Some (hd xs)" "prev_of h1 (ltail l) = Some (last xs)"
    using h1(2) mem d hdx lax by (auto simp: swapped_on_def)
  have "\<not> list_empty h l" "list_begin h l = Some (hd (xs @ [ltail l]))"
    using rep_empty [OF rep] rep_begin [OF rep] False by (auto simp: starts_def)
  then have "list_reverse h l = Some ?h"
    using h1(1) ne ne [symmetric] sw d by (simp add: list_reverse_def list_end_def Let_def)
  moreover have "linked ?h (rev xs)"
  proof -
    have "linked h1 (rev xs)" by (rule linked_swapped_rev [OF lx(2) h1(2)]) simp
    moreover have "hd xs \<notin> set (butlast (rev xs))"
      using d False by (cases xs) (auto simp: butlast_rev)
    moreover have "last xs \<notin> set (tl (rev xs))"
      using d False by (cases xs rule: rev_cases) auto
    ultimately show ?thesis
      using d by (subst linked_cong [of _ _ h1]) (auto dest: in_set_tlD in_set_butlastD)
  qed
  moreover have "hd (rev xs) = last xs" "last (rev xs) = hd xs"
    using False by (simp_all add: hd_rev last_rev)
  ultimately have "linked ?h (lhead l # rev xs @ [ltail l])"
    using linked_enclosed [of "rev xs" ?h "lhead l" "ltail l"] ne False by simp
  then have "list_rep ?h l (rev xs)"
    using d hn h1(2) mem by (auto simp: list_rep_def nodes_def swapped_on_def)
  moreover have "frame h ?h (set (nodes l xs))"
    using h1(2) mem by (auto simp: frame_def swapped_on_def)
  ultimately show ?thesis using \<open>list_reverse h l = Some ?h\<close> by blast
qed

end
