(* ===== verification/Pintos_Order.thy ===== *)
theory Pintos_Order
  imports Pintos_Prelude
begin

text \<open>
  The contract of a \<open>list_less_func\<close> (and of the comparison functions of \<open>lib/stdlib.c\<close>):
  a strict weak order.  The ordered operations of \<open>lib/kernel/list.c\<close> are stated here on
  sequences, with their properties proved once for every such order; the refinement to
  linked lists and the schedulers that call them rest on these lemmas.
\<close>

section \<open>Ordered operations on sequences\<close>

definition not_above :: "('a \<Rightarrow> 'a \<Rightarrow> bool) \<Rightarrow> 'a \<Rightarrow> 'a \<Rightarrow> bool" where
  "not_above lt a b \<longleftrightarrow> \<not> lt b a"

definition ordered :: "('a \<Rightarrow> 'a \<Rightarrow> bool) \<Rightarrow> 'a list \<Rightarrow> bool" where
  "ordered lt xs \<longleftrightarrow> sorted_wrt (not_above lt) xs"

definition equivalent :: "('a \<Rightarrow> 'a \<Rightarrow> bool) \<Rightarrow> 'a \<Rightarrow> 'a \<Rightarrow> bool" where
  "equivalent lt a b \<longleftrightarrow> \<not> lt a b \<and> \<not> lt b a"

text \<open>Insertion before the first element the new one is less than.\<close>

definition insert_ordered :: "('a \<Rightarrow> 'a \<Rightarrow> bool) \<Rightarrow> 'a \<Rightarrow> 'a list \<Rightarrow> 'a list" where
  "insert_ordered lt e xs =
     takeWhile (\<lambda>y. \<not> lt e y) xs @ e # dropWhile (\<lambda>y. \<not> lt e y) xs"

text \<open>The running maximum and minimum of a scan, which change on a strict improvement only.\<close>

definition scan_max :: "('a \<Rightarrow> 'a \<Rightarrow> bool) \<Rightarrow> 'a \<Rightarrow> 'a list \<Rightarrow> 'a" where
  "scan_max lt m xs = fold (\<lambda>e m. if lt m e then e else m) xs m"

definition scan_min :: "('a \<Rightarrow> 'a \<Rightarrow> bool) \<Rightarrow> 'a \<Rightarrow> 'a list \<Rightarrow> 'a" where
  "scan_min lt m xs = fold (\<lambda>e m. if lt e m then e else m) xs m"

text \<open>The first maximum of a nonempty sequence.\<close>

definition max_elem :: "('a \<Rightarrow> 'a \<Rightarrow> bool) \<Rightarrow> 'a list \<Rightarrow> 'a" where
  "max_elem lt xs = scan_max lt (hd xs) (tl xs)"

text \<open>A maximal nondecreasing run at the front of a sequence, and what follows it.\<close>

fun take_run :: "('a \<Rightarrow> 'a \<Rightarrow> bool) \<Rightarrow> 'a list \<Rightarrow> 'a list" where
  "take_run lt (x # y # ys) = (if lt y x then [x] else x # take_run lt (y # ys))"
| "take_run lt xs = xs"

fun drop_run :: "('a \<Rightarrow> 'a \<Rightarrow> bool) \<Rightarrow> 'a list \<Rightarrow> 'a list" where
  "drop_run lt (x # y # ys) = (if lt y x then y # ys else drop_run lt (y # ys))"
| "drop_run lt xs = []"

fun count_runs :: "('a \<Rightarrow> 'a \<Rightarrow> bool) \<Rightarrow> 'a list \<Rightarrow> nat" where
  "count_runs lt (x # y # ys) = (if lt y x then 1 else 0) + count_runs lt (y # ys)"
| "count_runs lt [x] = 1"
| "count_runs lt [] = 0"

fun merge_seq :: "('a \<Rightarrow> 'a \<Rightarrow> bool) \<Rightarrow> 'a list \<Rightarrow> 'a list \<Rightarrow> 'a list" where
  "merge_seq lt (a # as) (b # bs) =
     (if \<not> lt b a then a # merge_seq lt as (b # bs) else b # merge_seq lt (a # as) bs)"
| "merge_seq lt [] bs = bs"
| "merge_seq lt as [] = as"

lemma drop_run_length: "xs \<noteq> [] \<Longrightarrow> length (drop_run lt xs) < length xs"
  by (induction lt xs rule: drop_run.induct) auto

text \<open>One pass of the natural merge sort: merge neighbouring runs two by two, counting the
  runs put out.\<close>

function merge_pass :: "('a \<Rightarrow> 'a \<Rightarrow> bool) \<Rightarrow> 'a list \<Rightarrow> 'a list \<times> nat" where
  "merge_pass lt xs =
     (if xs = [] then ([], 0)
      else if drop_run lt xs = [] then (xs, 1)
      else let rest = drop_run lt xs; (zs, n) = merge_pass lt (drop_run lt rest)
           in (merge_seq lt (take_run lt xs) (take_run lt rest) @ zs, n + 1))"
  by pat_completeness auto
termination
  by (relation "measure (\<lambda>(lt, xs). length xs)")
    (auto intro: less_trans [OF drop_run_length drop_run_length])

declare merge_pass.simps [simp del]

section \<open>Facts that need no order\<close>

lemma take_drop_run: "take_run lt xs @ drop_run lt xs = xs"
  by (induction lt xs rule: take_run.induct) auto

lemma take_run_Nil [simp]: "take_run lt xs = [] \<longleftrightarrow> xs = []"
  by (induction lt xs rule: take_run.induct) auto

lemma take_run_successively: "successively (not_above lt) (take_run lt xs)"
proof (induction lt xs rule: take_run.induct)
  case (1 lt x y ys)
  moreover have "hd (take_run lt (y # ys)) = y" by (cases ys) auto
  ultimately show ?case
    by (cases "take_run lt (y # ys)") (auto simp: not_above_def successively_Cons)
qed auto

lemma count_runs_drop: "xs \<noteq> [] \<Longrightarrow> count_runs lt xs = Suc (count_runs lt (drop_run lt xs))"
  by (induction lt xs rule: drop_run.induct) auto

lemma count_runs_append: "count_runs lt (xs @ ys) \<le> count_runs lt xs + count_runs lt ys"
proof (induction lt xs rule: count_runs.induct)
  case (2 lt x)
  then show ?case by (cases ys) auto
qed auto

lemma count_runs_le_1: "count_runs lt xs \<le> 1 \<longleftrightarrow> successively (not_above lt) xs"
proof (induction lt xs rule: count_runs.induct)
  case (1 lt x y ys)
  have "0 < count_runs lt (y # ys)" by (simp add: count_runs_drop)
  with 1 show ?case by (auto simp: not_above_def)
qed auto

lemma mset_merge_seq: "mset (merge_seq lt xs ys) = mset xs + mset ys"
  by (induction lt xs ys rule: merge_seq.induct) auto

lemma merge_seq_Nil2 [simp]: "merge_seq lt xs [] = xs"
  by (cases xs) auto

lemma merge_seq_induct [case_names both left right]:
  fixes lt :: "'a \<Rightarrow> 'a \<Rightarrow> bool"
  assumes "\<And>a as b bs. (\<not> lt b a \<Longrightarrow> P as (b # bs)) \<Longrightarrow> (lt b a \<Longrightarrow> P (a # as) bs) \<Longrightarrow>
      P (a # as) (b # bs)"
    and "\<And>bs. P [] bs" and "\<And>as. P as []"
  shows "P xs ys"
  using assms by (induction lt xs ys rule: merge_seq.induct) auto

lemma merge_pass_end:
  "merge_pass lt [] = ([], 0)" "xs \<noteq> [] \<Longrightarrow> drop_run lt xs = [] \<Longrightarrow> merge_pass lt xs = (xs, 1)"
  by (simp_all add: merge_pass.simps)

lemma merge_pass_step:
  "drop_run lt xs \<noteq> [] \<Longrightarrow> merge_pass lt xs =
     (merge_seq lt (take_run lt xs) (take_run lt (drop_run lt xs)) @
        fst (merge_pass lt (drop_run lt (drop_run lt xs))),
      snd (merge_pass lt (drop_run lt (drop_run lt xs))) + 1)"
  by (cases "xs = []") (auto simp: merge_pass.simps [of lt xs] Let_def split: prod.splits)

lemma merge_pass_cases [case_names empty one step]:
  assumes "P []" and "\<And>xs. xs \<noteq> [] \<Longrightarrow> drop_run lt xs = [] \<Longrightarrow> P xs"
    and "\<And>xs. drop_run lt xs \<noteq> [] \<Longrightarrow> P (drop_run lt (drop_run lt xs)) \<Longrightarrow> P xs"
  shows "P xs"
  using assms by (induction lt xs rule: merge_pass.induct) metis

lemma mset_merge_pass: "mset (fst (merge_pass lt xs)) = mset xs"
proof (induction xs rule: merge_pass_cases [of _ lt])
  case (step xs)
  have "mset xs = mset (take_run lt xs) + (mset (take_run lt (drop_run lt xs)) +
          mset (drop_run lt (drop_run lt xs)))"
    by (metis mset_append take_drop_run)
  then show ?case using step by (simp add: merge_pass_step mset_merge_seq)
qed (simp_all add: merge_pass_end)

lemma merge_pass_count: "snd (merge_pass lt xs) = (count_runs lt xs + 1) div 2"
proof (induction xs rule: merge_pass_cases [of _ lt])
  case (step xs)
  moreover have "xs \<noteq> []" using step by auto
  ultimately show ?case
    using count_runs_drop [of xs lt] count_runs_drop [of "drop_run lt xs" lt]
    by (simp add: merge_pass_step)
qed (simp_all add: merge_pass_end count_runs_drop)

lemma mset_insert_ordered: "mset (insert_ordered lt e xs) = add_mset e (mset xs)"
proof -
  have "mset xs = mset (takeWhile (\<lambda>y. \<not> lt e y) xs @ dropWhile (\<lambda>y. \<not> lt e y) xs)" by simp
  also have "\<dots> = mset (takeWhile (\<lambda>y. \<not> lt e y) xs) + mset (dropWhile (\<lambda>y. \<not> lt e y) xs)"
    by (rule mset_append)
  finally show ?thesis by (simp add: insert_ordered_def)
qed

lemma set_insert_ordered [simp]: "set (insert_ordered lt e xs) = insert e (set xs)"
  using mset_insert_ordered [of lt e xs] by (metis set_mset_add_mset_insert set_mset_mset)

lemma scan_max_in: "scan_max lt m xs \<in> insert m (set xs)"
  unfolding scan_max_def by (induction xs arbitrary: m) auto

lemma max_elem_in: "xs \<noteq> [] \<Longrightarrow> max_elem lt xs \<in> set xs"
  using scan_max_in [of lt "hd xs" "tl xs"] by (cases xs) (auto simp: max_elem_def)

section \<open>Strict weak orders\<close>

locale strict_weak_order =
  fixes lt :: "'a \<Rightarrow> 'a \<Rightarrow> bool"
  assumes lt_asym: "lt a b \<Longrightarrow> \<not> lt b a"
    and lt_neg_trans: "lt a c \<Longrightarrow> lt a b \<or> lt b c"
begin

lemma lt_irrefl: "\<not> lt a a"
  using lt_asym by blast

lemma not_above_trans: "not_above lt a b \<Longrightarrow> not_above lt b c \<Longrightarrow> not_above lt a c"
  unfolding not_above_def using lt_neg_trans by blast

lemma transp_not_above: "transp (not_above lt)"
  using not_above_trans by (auto intro: transpI)

lemma ordered_successively: "ordered lt xs \<longleftrightarrow> successively (not_above lt) xs"
  unfolding ordered_def by (rule successively_conv_sorted_wrt [OF transp_not_above, symmetric])

lemma take_run_ordered: "ordered lt (take_run lt xs)"
  by (simp add: ordered_successively take_run_successively)

lemma ordered_count_runs: "count_runs lt xs \<le> 1 \<longleftrightarrow> ordered lt xs"
  unfolding ordered_successively by (rule count_runs_le_1)

lemma set_merge_seq: "set (merge_seq lt xs ys) = set xs \<union> set ys"
  by (metis mset_merge_seq set_mset_mset set_mset_union)

lemma ordered_merge_seq:
  "ordered lt xs \<Longrightarrow> ordered lt ys \<Longrightarrow> ordered lt (merge_seq lt xs ys)"
proof (induction xs ys rule: merge_seq_induct [of lt])
  case (both a as b bs)
  have "lt b a \<Longrightarrow> not_above lt b a" using lt_asym by (simp add: not_above_def)
  then show ?case
    using both not_above_trans
    by (auto simp: ordered_def set_merge_seq) (auto simp: not_above_def)
qed auto

lemma merge_seq_stable:
  "ordered lt xs \<Longrightarrow> ordered lt ys \<Longrightarrow>
     filter (equivalent lt x) (merge_seq lt xs ys) =
     filter (equivalent lt x) xs @ filter (equivalent lt x) ys"
proof (induction xs ys rule: merge_seq_induct [of lt])
  case (both a as b bs)
  show ?case
  proof (cases "lt b a")
    case True
    have "filter (equivalent lt x) (a # as) = []" if "equivalent lt x b"
    proof -
      have "lt b c" if "c \<in> set (a # as)" for c
        using both.prems(1) that True lt_neg_trans [of b a c]
        by (auto simp: ordered_def not_above_def)
      then have "\<not> equivalent lt x c" if "c \<in> set (a # as)" for c
        using that \<open>equivalent lt x b\<close> lt_neg_trans [of b c x] by (auto simp: equivalent_def)
      then show ?thesis by (simp add: filter_empty_conv)
    qed
    with True both show ?thesis by (auto simp: ordered_def)
  next
    case False
    with both show ?thesis by (auto simp: ordered_def)
  qed
qed auto

lemma merge_pass_runs: "count_runs lt (fst (merge_pass lt xs)) \<le> snd (merge_pass lt xs)"
proof (induction xs rule: merge_pass_cases [of _ lt])
  case (step xs)
  let ?m = "merge_seq lt (take_run lt xs) (take_run lt (drop_run lt xs))"
  have "count_runs lt ?m \<le> 1"
    by (simp add: ordered_count_runs ordered_merge_seq take_run_ordered del: One_nat_def)
  with step show ?case
    using count_runs_append [of lt ?m "fst (merge_pass lt (drop_run lt (drop_run lt xs)))"]
    by (simp add: merge_pass_step)
qed (simp_all add: merge_pass_end count_runs_drop)

lemma merge_pass_stable:
  "filter (equivalent lt x) (fst (merge_pass lt xs)) = filter (equivalent lt x) xs"
proof (induction xs rule: merge_pass_cases [of _ lt])
  case (step xs)
  have "filter (equivalent lt x) xs = filter (equivalent lt x) (take_run lt xs) @
      filter (equivalent lt x) (take_run lt (drop_run lt xs)) @
      filter (equivalent lt x) (drop_run lt (drop_run lt xs))"
    by (metis filter_append take_drop_run)
  with step show ?case by (simp add: merge_pass_step merge_seq_stable take_run_ordered)
qed (simp_all add: merge_pass_end)

lemma dropWhile_above:
  assumes "ordered lt xs" and "b \<in> set (dropWhile (\<lambda>y. \<not> lt e y) xs)"
  shows "lt e b"
proof -
  define bs where "bs = dropWhile (\<lambda>y. \<not> lt e y) xs"
  have b: "b \<in> set bs" using assms(2) by (simp add: bs_def)
  then have "bs \<noteq> []" by auto
  then have hd: "lt e (hd bs)"
    using hd_dropWhile [of "\<lambda>y. \<not> lt e y" xs] by (simp add: bs_def)
  have "ordered lt bs"
    using assms(1) takeWhile_dropWhile_id [of "\<lambda>y. \<not> lt e y" xs]
    unfolding bs_def ordered_def by (metis sorted_wrt_append)
  then have "hd bs = b \<or> not_above lt (hd bs) b"
    using b by (cases bs) (auto simp: ordered_def)
  then show ?thesis using hd lt_neg_trans [of e "hd bs" b] by (auto simp: not_above_def)
qed

lemma ordered_insert_ordered:
  assumes "ordered lt xs"
  shows "ordered lt (insert_ordered lt e xs)"
proof -
  define as where "as = takeWhile (\<lambda>y. \<not> lt e y) xs"
  define bs where "bs = dropWhile (\<lambda>y. \<not> lt e y) xs"
  have xs: "xs = as @ bs" by (simp add: as_def bs_def)
  have "not_above lt a e" if "a \<in> set as" for a
    using that unfolding as_def by (auto simp: not_above_def dest: set_takeWhileD)
  moreover have "not_above lt e b" if "b \<in> set bs" for b
    using dropWhile_above [OF assms] that lt_asym unfolding bs_def not_above_def by blast
  ultimately show ?thesis
    using assms unfolding insert_ordered_def as_def [symmetric] bs_def [symmetric]
    by (auto simp: ordered_def xs sorted_wrt_append)
qed

text \<open>An insertion is stable: the new element comes after those equivalent to it.\<close>

lemma insert_ordered_stable:
  assumes "ordered lt xs"
  shows "filter (equivalent lt e) (insert_ordered lt e xs) = filter (equivalent lt e) xs @ [e]"
proof -
  define as where "as = takeWhile (\<lambda>y. \<not> lt e y) xs"
  define bs where "bs = dropWhile (\<lambda>y. \<not> lt e y) xs"
  have xs: "xs = as @ bs" by (simp add: as_def bs_def)
  have "lt e b" if "b \<in> set bs" for b
    using dropWhile_above [OF assms] that unfolding bs_def by blast
  then have "filter (equivalent lt e) bs = []" by (auto simp: filter_empty_conv equivalent_def)
  moreover have "equivalent lt e e" by (simp add: equivalent_def lt_irrefl)
  ultimately show ?thesis
    unfolding insert_ordered_def as_def [symmetric] bs_def [symmetric] by (simp add: xs)
qed

text \<open>A scan returns a maximum (minimum), and the first one.\<close>

lemma scan_max_first:
  "\<exists>as bs. m # xs = as @ scan_max lt m xs # bs \<and>
     (\<forall>a \<in> set as. lt a (scan_max lt m xs)) \<and> (\<forall>b \<in> set bs. \<not> lt (scan_max lt m xs) b)"
proof (induction xs rule: rev_induct)
  case Nil
  show ?case by (intro exI [of _ "[]"]) (simp add: scan_max_def)
next
  case (snoc x xs)
  let ?m = "scan_max lt m xs"
  obtain as bs where IH: "m # xs = as @ ?m # bs" "\<forall>a \<in> set as. lt a ?m" "\<forall>b \<in> set bs. \<not> lt ?m b"
    using snoc by blast
  show ?case
  proof (cases "lt ?m x")
    case True
    then have "scan_max lt m (xs @ [x]) = x" by (simp add: scan_max_def)
    moreover have "\<forall>a \<in> set (m # xs). lt a x"
      using IH(2,3) True lt_neg_trans lt_asym unfolding IH(1) by (metis Un_iff set_ConsD set_append)
    ultimately show ?thesis
      by (intro exI [of _ "m # xs"] exI [of _ "[]"]) auto
  next
    case False
    then have "scan_max lt m (xs @ [x]) = ?m" by (simp add: scan_max_def)
    with IH False show ?thesis
      by (intro exI [of _ as] exI [of _ "bs @ [x]"]) auto
  qed
qed

lemma scan_max_upper: "y \<in> insert m (set xs) \<Longrightarrow> \<not> lt (scan_max lt m xs) y"
proof -
  assume y: "y \<in> insert m (set xs)"
  obtain as bs where eq: "m # xs = as @ scan_max lt m xs # bs"
    and as: "\<forall>a \<in> set as. lt a (scan_max lt m xs)" and bs: "\<forall>b \<in> set bs. \<not> lt (scan_max lt m xs) b"
    using scan_max_first [of m xs] by blast
  have "y \<in> set (as @ scan_max lt m xs # bs)" using y unfolding eq [symmetric] by simp
  then show ?thesis using as bs lt_asym lt_irrefl by auto
qed

lemma max_elem_upper: "y \<in> set xs \<Longrightarrow> \<not> lt (max_elem lt xs) y"
  using scan_max_upper [of y "hd xs" "tl xs"] by (cases xs) (auto simp: max_elem_def)

end

text \<open>Comparing two elements by a key in a linear order is such an order; every
  \<open>list_less_func\<close> of the kernel is of this form.\<close>

interpretation by_key: strict_weak_order "\<lambda>a b. key a < (key b :: 'k :: linorder)" for key
  by unfold_locales auto

lemma ordered_by_key: "ordered (\<lambda>a b. key a < (key b :: 'k :: linorder)) xs \<longleftrightarrow> sorted (map key xs)"
  by (simp add: ordered_def not_above_def [abs_def] sorted_map not_less)

end
