(* ===== verification/Pintos_List_Sort.thy ===== *)
theory Pintos_List_Sort
  imports Pintos_List_Rep Pintos_Order
begin

text \<open>
  The ordered operations of \<open>lib/kernel/list.c\<close> on the store: \<open>is_sorted\<close>,
  \<open>find_end_of_run\<close>, \<open>inplace_merge\<close>, \<open>list_sort\<close>, \<open>list_insert_ordered\<close>, \<open>list_max\<close>,
  \<open>list_min\<close> and \<open>list_unique\<close> refine the operations on sequences of \<open>Pintos_Order\<close>.
\<close>

section \<open>Scans\<close>

lemma rep_starts_eq:
  assumes "list_rep h l (xs @ as @ zs)"
  shows "starts l (as @ zs) = starts l zs \<longleftrightarrow> as = []"
  using assms by (cases as; cases zs) (auto simp: list_rep_def nodes_def)

lemma is_sorted_loop_rep:
  "list_rep h l (xs @ m # ms @ ys) \<Longrightarrow>
     is_sorted_loop h lt m (starts l ys) = Some (successively (not_above lt) (m # ms))"
proof (induction ms arbitrary: xs m)
  case Nil
  then show ?case using rep_list_next [of h l xs m ys] by (simp add: is_sorted_loop.simps)
next
  case (Cons m' ms)
  have "list_next h m = Some m'" using rep_list_next [OF Cons.prems] by simp
  moreover have "m' \<noteq> starts l ys"
    using rep_starts_eq [of h l "xs @ [m]" "m' # ms" ys] Cons.prems by simp
  moreover have "list_prev h m' = Some m"
    using rep_list_prev [of h l "xs @ [m]" "m' # ms @ ys"] Cons.prems by simp
  moreover have "is_sorted_loop h lt m' (starts l ys) = Some (successively (not_above lt) (m' # ms))"
    using Cons.IH [of "xs @ [m]" m'] Cons.prems by simp
  ultimately show ?case by (simp add: is_sorted_loop.simps [of h lt m] not_above_def)
qed

lemma is_sorted_rep:
  assumes "list_rep h l (xs @ ms @ ys)"
  shows "is_sorted h lt (starts l (ms @ ys)) (starts l ys) = Some (successively (not_above lt) ms)"
proof (cases ms)
  case Nil
  then show ?thesis by (simp add: is_sorted_def)
next
  case (Cons m ms')
  then show ?thesis
    using assms is_sorted_loop_rep [of h l xs m ms' ys lt] rep_starts_eq [OF assms]
    by (simp add: is_sorted_def)
qed

lemma find_end_of_run_loop_rep:
  "list_rep h l (xs @ y # ys) \<Longrightarrow>
     find_end_of_run_loop h lt y (ltail l) = Some (starts l (drop_run lt (y # ys)))"
proof (induction ys arbitrary: xs y)
  case Nil
  then show ?case using rep_list_next [of h l xs y "[]"] by (simp add: find_end_of_run_loop.simps)
next
  case (Cons y' ys)
  have "list_next h y = Some y'" using rep_list_next [OF Cons.prems] by simp
  moreover have "y' \<noteq> ltail l"
    using rep_starts_eq_tail [of h l "xs @ [y]" "y' # ys"] Cons.prems by simp
  moreover have "list_prev h y' = Some y"
    using rep_list_prev [of h l "xs @ [y]" "y' # ys"] Cons.prems by simp
  moreover have "find_end_of_run_loop h lt y' (ltail l) = Some (starts l (drop_run lt (y' # ys)))"
    using Cons.IH [of "xs @ [y]" y'] Cons.prems by simp
  ultimately show ?case by (simp add: find_end_of_run_loop.simps [of h lt y])
qed

lemma find_end_of_run_rep:
  assumes "list_rep h l (xs @ ys)" and "ys \<noteq> []"
  shows "find_end_of_run h lt (starts l ys) (ltail l) = Some (starts l (drop_run lt ys))"
  using assms find_end_of_run_loop_rep [of h l xs "hd ys" "tl ys"] rep_starts_eq_tail [OF assms(1)]
  by (cases ys) (auto simp: find_end_of_run_def)

section \<open>Merging and sorting\<close>

lemma inplace_merge_loop_rep:
  "list_rep h l (xs @ as @ bs @ ys) \<Longrightarrow>
     \<exists>h'. inplace_merge_loop h lt (starts l (as @ bs @ ys)) (starts l (bs @ ys)) (starts l ys) = Some h' \<and>
       list_rep h' l (xs @ merge_seq lt as bs @ ys) \<and> frame h h' (set (nodes l (xs @ as @ bs @ ys)))"
proof (induction as bs arbitrary: h xs rule: merge_seq_induct [of lt])
  case (both a as b bs)
  have ab: "a \<noteq> b" using both.prems by (auto simp: list_rep_def nodes_def)
  have bne: "b \<noteq> starts l ys"
    using rep_starts_eq [of h l "xs @ a # as" "b # bs" ys] both.prems by simp
  show ?case
  proof (cases "lt b a")
    case False
    have "list_next h a = Some (starts l (as @ b # bs @ ys))"
      using rep_list_next [of h l xs a] both.prems by simp
    with both.IH(1) [OF False, of h "xs @ [a]"] both.prems False ab bne show ?thesis
      by (auto simp: inplace_merge_loop.simps [of h lt a])
  next
    case True
    have nx: "list_next h b = Some (starts l (bs @ ys))"
      using rep_list_next [of h l "xs @ a # as" b "bs @ ys"] both.prems by simp
    have pv: "list_prev h (starts l (bs @ ys)) = Some b"
      using rep_list_prev [of h l "xs @ a # as @ [b]" "bs @ ys"] both.prems by simp
    obtain h1 where h1: "list_splice h a b (starts l (bs @ ys)) = Some h1"
      "list_rep h1 l (xs @ b # (a # as) @ bs @ ys)" "frame h h1 (set (nodes l (xs @ a # as @ b # bs @ ys)))"
      using list_splice_same_rep [of h l "xs @ a # as" "[b]" "bs @ ys" xs "a # as @ bs @ ys"]
        both.prems by auto
    obtain h' where h': "inplace_merge_loop h1 lt a (starts l (bs @ ys)) (starts l ys) = Some h'"
      "list_rep h' l (xs @ b # merge_seq lt (a # as) bs @ ys)"
      "frame h1 h' (set (nodes l (xs @ b # (a # as) @ bs @ ys)))"
      using both.IH(2) [OF True, of h1 "xs @ [b]"] h1(2) by auto
    have "set (nodes l (xs @ b # (a # as) @ bs @ ys)) = set (nodes l (xs @ a # as @ b # bs @ ys))"
      by auto
    then have "frame h h' (set (nodes l (xs @ a # as @ b # bs @ ys)))"
      using frame_trans [OF h1(3)] h'(3) by simp
    with h' h1(1) nx pv True ab bne show ?thesis
      by (auto simp: inplace_merge_loop.simps [of h lt a b])
  qed
qed (auto simp: inplace_merge_loop.simps)

lemma inplace_merge_rep:
  assumes "list_rep h l (xs @ as @ bs @ ys)"
    and "successively (not_above lt) as" and "successively (not_above lt) bs"
  shows "\<exists>h'. inplace_merge h lt (starts l (as @ bs @ ys)) (starts l (bs @ ys)) (starts l ys) = Some h' \<and>
       list_rep h' l (xs @ merge_seq lt as bs @ ys) \<and> frame h h' (set (nodes l (xs @ as @ bs @ ys)))"
  using inplace_merge_loop_rep [OF assms(1)] is_sorted_rep [of h l xs as "bs @ ys" lt]
    is_sorted_rep [of h l "xs @ as" bs ys lt] assms
  by (simp add: inplace_merge_def)

lemma list_sort_pass_rep:
  "list_rep h l (xs @ ys) \<Longrightarrow>
     \<exists>h'. list_sort_pass h l lt (starts l ys) cnt = Some (h', cnt + snd (merge_pass lt ys)) \<and>
       list_rep h' l (xs @ fst (merge_pass lt ys)) \<and> frame h h' (set (nodes l (xs @ ys)))"
proof (induction ys arbitrary: h xs cnt rule: merge_pass_cases [of _ lt])
  case empty
  then show ?case by (simp add: list_sort_pass.simps list_end_def merge_pass_end)
next
  case (one ys)
  then show ?case
    using find_end_of_run_rep [OF one.prems one.hyps(1), of lt] rep_starts_eq_tail [OF one.prems]
    by (simp add: list_sort_pass.simps [of h] list_end_def merge_pass_end)
next
  case (step ys)
  let ?as = "take_run lt ys" and ?bs = "take_run lt (drop_run lt ys)"
  let ?rest = "drop_run lt (drop_run lt ys)"
  have ys: "ys = ?as @ ?bs @ ?rest" and dr: "drop_run lt ys = ?bs @ ?rest"
    by (simp_all add: take_drop_run)
  have ne: "ys \<noteq> []" using step.hyps by auto
  have rep2: "list_rep h l ((xs @ ?as) @ drop_run lt ys)" using step.prems by (simp add: take_drop_run)
  have rep3: "list_rep h l (xs @ ?as @ ?bs @ ?rest)" using step.prems ys by simp
  obtain h1 where h1: "inplace_merge h lt (starts l ys) (starts l (drop_run lt ys)) (starts l ?rest) = Some h1"
    "list_rep h1 l ((xs @ merge_seq lt ?as ?bs) @ ?rest)" "frame h h1 (set (nodes l (xs @ ys)))"
    using inplace_merge_rep [OF rep3 take_run_successively take_run_successively]
    by (auto simp: take_drop_run)
  obtain h' where h': "list_sort_pass h1 l lt (starts l ?rest) (cnt + 1) =
      Some (h', cnt + 1 + snd (merge_pass lt ?rest))"
    "list_rep h' l ((xs @ merge_seq lt ?as ?bs) @ fst (merge_pass lt ?rest))"
    "frame h1 h' (set (nodes l ((xs @ merge_seq lt ?as ?bs) @ ?rest)))"
    using step.IH [OF h1(2)] by blast
  have "set (nodes l ((xs @ merge_seq lt ?as ?bs) @ ?rest)) = set (nodes l (xs @ ys))"
    using arg_cong [OF ys, of set] arg_cong [OF mset_merge_seq [of lt ?as ?bs], of set_mset] by auto
  then have "frame h h' (set (nodes l (xs @ ys)))" using frame_trans [OF h1(3)] h'(3) by simp
  moreover have "list_sort_pass h l lt (starts l ys) cnt = Some (h', cnt + snd (merge_pass lt ys))"
    using find_end_of_run_rep [OF step.prems ne, of lt] find_end_of_run_rep [OF rep2 step.hyps, of lt]
      rep_starts_eq_tail [OF step.prems] rep_starts_eq_tail [OF rep2] step.hyps ne h1(1) h'(1)
    by (simp add: list_sort_pass.simps [of h] list_end_def merge_pass_step [OF step.hyps])
  ultimately show ?case using h'(2) by (simp add: merge_pass_step [OF step.hyps])
qed

context strict_weak_order
begin

text \<open>A pass that puts out more than one run leaves fewer runs than it found.\<close>

lemma merge_pass_decreases:
  "1 < snd (merge_pass lt xs) \<Longrightarrow> count_runs lt (fst (merge_pass lt xs)) < count_runs lt xs"
  using merge_pass_runs [of xs] merge_pass_count [of lt xs] by linarith

lemma merge_pass_last:
  "\<not> 1 < snd (merge_pass lt xs) \<Longrightarrow> ordered lt (fst (merge_pass lt xs))"
  using merge_pass_runs [of xs] ordered_count_runs [of "fst (merge_pass lt xs)"] by linarith

end

lemma list_sort_loop_rep:
  assumes "strict_weak_order lt"
  shows "list_rep h l xs \<Longrightarrow>
     \<exists>h' ys. list_sort_loop h l lt = Some h' \<and> list_rep h' l ys \<and> ordered lt ys \<and> mset ys = mset xs \<and>
       (\<forall>x. filter (equivalent lt x) ys = filter (equivalent lt x) xs) \<and> frame h h' (set (nodes l xs))"
proof (induction "count_runs lt xs" arbitrary: h xs rule: less_induct)
  case less
  let ?ys = "fst (merge_pass lt xs)"
  note stable = strict_weak_order.merge_pass_stable [OF assms]
  obtain h1 where h1: "list_sort_pass h l lt (starts l xs) 0 = Some (h1, snd (merge_pass lt xs))"
    "list_rep h1 l ?ys" "frame h h1 (set (nodes l xs))"
    using list_sort_pass_rep [of h l "[]" xs lt 0] less.prems by auto
  have nodes: "set (nodes l ?ys) = set (nodes l xs)"
    using mset_eq_setD [OF mset_merge_pass [of lt xs]] by simp
  show ?case
  proof (cases "1 < snd (merge_pass lt xs)")
    case True
    from less.hyps [OF strict_weak_order.merge_pass_decreases [OF assms True] h1(2)]
    obtain h' ys where h': "list_sort_loop h1 l lt = Some h'" "list_rep h' l ys" "ordered lt ys"
      "mset ys = mset ?ys" "\<forall>x. filter (equivalent lt x) ys = filter (equivalent lt x) ?ys"
      "frame h1 h' (set (nodes l ?ys))" by blast
    moreover have "list_sort_loop h l lt = Some h'"
      using h1(1) h'(1) True less.prems by (simp add: list_sort_loop.simps [of h])
    ultimately show ?thesis
      using frame_trans [OF h1(3)] nodes by (auto simp: mset_merge_pass stable)
  next
    case False
    then have "list_sort_loop h l lt = Some h1"
      using h1(1) less.prems by (simp add: list_sort_loop.simps [of h])
    then show ?thesis
      using h1 strict_weak_order.merge_pass_last [OF assms False] mset_merge_pass [of lt xs] stable
      by blast
  qed
qed

section \<open>Insertion in order, extrema, duplicates\<close>

lemma insert_position_rep:
  "list_rep h l (xs @ ys) \<Longrightarrow>
     insert_position h lt e (starts l ys) (ltail l) =
     Some (starts l (dropWhile (\<lambda>y. \<not> lt e y) ys))"
proof (induction ys arbitrary: xs)
  case Nil
  then show ?case by (simp add: insert_position.simps)
next
  case (Cons y ys)
  have "y \<noteq> ltail l" using rep_starts_eq_tail [OF Cons.prems] by simp
  moreover have "insert_position h lt e (starts l ys) (ltail l) =
      Some (starts l (dropWhile (\<lambda>y. \<not> lt e y) ys))"
    using Cons.IH [of "xs @ [y]"] Cons.prems by simp
  ultimately show ?case
    using rep_list_next [OF Cons.prems] by (simp add: insert_position.simps [of h lt e y])
qed

lemma list_insert_ordered_rep:
  assumes "list_rep h l xs" and "e \<notin> set (nodes l xs)"
  shows "\<exists>h'. list_insert_ordered h l e lt = Some h' \<and> list_rep h' l (insert_ordered lt e xs) \<and>
           frame h h' (insert e (set (nodes l xs)))"
proof -
  let ?P = "\<lambda>y. \<not> lt e y"
  have "insert_position h lt e (starts l xs) (ltail l) = Some (starts l (dropWhile ?P xs))"
    using insert_position_rep [of h l "[]" xs lt e] assms(1) by simp
  then show ?thesis
    using list_insert_rep [of h l "takeWhile ?P xs" "dropWhile ?P xs" e] assms
    by (simp add: list_insert_ordered_def list_end_def insert_ordered_def)
qed

lemma list_max_loop_rep:
  "list_rep h l (xs @ ys) \<Longrightarrow>
     list_max_loop h lt m (starts l ys) (ltail l) = Some (scan_max lt m ys)"
proof (induction ys arbitrary: xs m)
  case Nil
  then show ?case by (simp add: list_max_loop.simps scan_max_def)
next
  case (Cons y ys)
  have "y \<noteq> ltail l" using rep_starts_eq_tail [OF Cons.prems] by simp
  moreover have "list_max_loop h lt m' (starts l ys) (ltail l) = Some (scan_max lt m' ys)" for m'
    using Cons.IH [of "xs @ [y]"] Cons.prems by simp
  ultimately show ?case
    using rep_list_next [OF Cons.prems]
    by (simp add: list_max_loop.simps [of h lt m y] scan_max_def Let_def)
qed

lemma list_min_loop_rep:
  "list_rep h l (xs @ ys) \<Longrightarrow>
     list_min_loop h lt m (starts l ys) (ltail l) = Some (scan_min lt m ys)"
proof (induction ys arbitrary: xs m)
  case Nil
  then show ?case by (simp add: list_min_loop.simps scan_min_def)
next
  case (Cons y ys)
  have "y \<noteq> ltail l" using rep_starts_eq_tail [OF Cons.prems] by simp
  moreover have "list_min_loop h lt m' (starts l ys) (ltail l) = Some (scan_min lt m' ys)" for m'
    using Cons.IH [of "xs @ [y]"] Cons.prems by simp
  ultimately show ?case
    using rep_list_next [OF Cons.prems]
    by (simp add: list_min_loop.simps [of h lt m y] scan_min_def Let_def)
qed

lemma list_max_rep: "list_rep h l xs \<Longrightarrow> xs \<noteq> [] \<Longrightarrow> list_max h l lt = Some (max_elem lt xs)"
  using list_max_loop_rep [of h l "[hd xs]" "tl xs" lt "hd xs"] rep_list_next [of h l "[]" "hd xs" "tl xs"]
    rep_starts_eq_tail [of h l "[]" xs]
  by (cases xs) (auto simp: list_max_def list_end_def max_elem_def)

lemma list_min_rep:
  "list_rep h l (x # xs) \<Longrightarrow> list_min h l lt = Some (scan_min lt x xs)"
  using list_min_loop_rep [of h l "[x]" xs lt x] rep_list_next [of h l "[]" x xs]
    rep_starts_eq_tail [of h l "[]" "x # xs"]
  by (simp add: list_min_def list_end_def)

text \<open>The elements \<open>list_unique\<close> keeps, and those it takes out.\<close>

fun unique_seq :: "('a \<Rightarrow> 'a \<Rightarrow> bool) \<Rightarrow> 'a list \<Rightarrow> 'a list" where
  "unique_seq lt (x # y # ys) =
     (if equivalent lt x y then unique_seq lt (x # ys) else x # unique_seq lt (y # ys))"
| "unique_seq lt xs = xs"

fun duplicate_seq :: "('a \<Rightarrow> 'a \<Rightarrow> bool) \<Rightarrow> 'a list \<Rightarrow> 'a list" where
  "duplicate_seq lt (x # y # ys) =
     (if equivalent lt x y then y # duplicate_seq lt (x # ys) else duplicate_seq lt (y # ys))"
| "duplicate_seq lt xs = []"

lemma unique_seq_hd: "\<exists>zs. unique_seq lt (x # ys) = x # zs"
proof (induction ys arbitrary: x)
  case (Cons y ys)
  show ?case using Cons [of x] by (cases "equivalent lt x y") auto
qed simp

lemma unique_seq_distinct: "successively (\<lambda>a b. \<not> equivalent lt a b) (unique_seq lt xs)"
proof (induction lt xs rule: unique_seq.induct)
  case (1 lt x y ys)
  then show ?case
    using unique_seq_hd [of lt y ys] by (auto simp: successively_Cons)
qed auto

lemma mset_unique_seq: "mset (unique_seq lt xs) + mset (duplicate_seq lt xs) = mset xs"
  by (induction lt xs rule: unique_seq.induct) (auto simp: add_mset_commute)

lemma list_unique_loop_rep:
  assumes "list_rep h l (xs @ y # ys)" and "list_rep h d zs"
    and "set (nodes l (xs @ y # ys)) \<inter> set (nodes d zs) = {}"
  shows "\<exists>h'. list_unique_loop h l (Some d) lt y = Some h' \<and>
           list_rep h' l (xs @ unique_seq lt (y # ys)) \<and> list_rep h' d (zs @ duplicate_seq lt (y # ys)) \<and>
           frame h h' (set (nodes l (xs @ y # ys)) \<union> set (nodes d zs))"
  using assms
proof (induction ys arbitrary: h xs y zs)
  case Nil
  then show ?case
    using rep_list_next [OF Nil.prems(1)] by (simp add: list_unique_loop.simps [of h] list_end_def)
next
  case (Cons y' ys)
  have nx: "list_next h y = Some y'" using rep_list_next [OF Cons.prems(1)] by simp
  have ne: "y' \<noteq> ltail l"
    using rep_starts_eq_tail [of h l "xs @ [y]" "y' # ys"] Cons.prems(1) by simp
  show ?case
  proof (cases "equivalent lt y y'")
    case True
    have dist: "distinct (nodes l (xs @ y # y' # ys))" using Cons.prems(1) by (simp add: list_rep_def)
    obtain h1 where h1: "list_remove h y' = Some (starts l ys, h1)" "list_rep h1 l (xs @ y # ys)"
      "frame h h1 (set (nodes l (xs @ y # ys)))"
      using list_remove_rep [of h l "xs @ [y]" y' ys] Cons.prems(1) by auto
    have "list_rep h1 d zs"
      by (rule list_rep_frame [OF h1(3) _ Cons.prems(2)]) (use Cons.prems(3) in auto)
    then obtain h2 where h2: "list_push_back h1 d y' = Some h2" "list_rep h2 d (zs @ [y'])"
      "frame h1 h2 (insert y' (set (nodes d zs)))"
      using list_push_back_rep [of h1 d zs y'] Cons.prems(3) by auto
    have "list_rep h2 l (xs @ y # ys)"
      by (rule list_rep_frame [OF h2(3) _ h1(2)])
        (use Cons.prems(3) dist in \<open>auto simp: nodes_def\<close>)
    moreover have "set (nodes l (xs @ y # ys)) \<inter> set (nodes d (zs @ [y'])) = {}"
      using Cons.prems(3) dist by (auto simp: nodes_def)
    ultimately obtain h' where h': "list_unique_loop h2 l (Some d) lt y = Some h'"
      "list_rep h' l (xs @ unique_seq lt (y # ys))"
      "list_rep h' d (zs @ y' # duplicate_seq lt (y # ys))"
      "frame h2 h' (set (nodes l (xs @ y # ys)) \<union> set (nodes d (zs @ [y'])))"
      using Cons.IH [of h2 xs y "zs @ [y']"] h2(2) by auto
    have "frame h h' (set (nodes l (xs @ y # y' # ys)) \<union> set (nodes d zs))"
      by (rule frame_trans [OF frame_mono [OF h1(3)]
            frame_trans [OF frame_mono [OF h2(3)] frame_mono [OF h'(4)]]]) auto
    then show ?thesis
      using h' h1(1) h2(1) nx ne True
      by (auto simp: list_unique_loop.simps [of h] list_end_def equivalent_def)
  next
    case False
    then show ?thesis
      using Cons.IH [of h "xs @ [y]" y' zs] Cons.prems nx ne
      by (auto simp: list_unique_loop.simps [of h] list_end_def equivalent_def insert_commute)
  qed
qed

section \<open>Properties\<close>

text \<open>A list of three elements, the middle one least, for the witnesses.\<close>

definition sample_list :: klist where
  "sample_list = \<lparr>lhead = 0, ltail = 1\<rparr>"

definition sample_heap :: lheap where
  "sample_heap = \<lparr>prev_of = [1 \<mapsto> 9, 9 \<mapsto> 3, 3 \<mapsto> 7, 7 \<mapsto> 0, 21 \<mapsto> 20],
                  next_of = [0 \<mapsto> 7, 7 \<mapsto> 3, 3 \<mapsto> 9, 9 \<mapsto> 1, 20 \<mapsto> 21]\<rparr>"

definition other_list :: klist where
  "other_list = \<lparr>lhead = 20, ltail = 21\<rparr>"

lemma sample_rep: "list_rep sample_heap sample_list [7, 3, 9]" "list_rep sample_heap other_list []"
  by (simp_all add: list_rep_def nodes_def sample_heap_def sample_list_def other_list_def)

lemma nat_order: "strict_weak_order ((<) :: nat \<Rightarrow> nat \<Rightarrow> bool)"
  using by_key.strict_weak_order_axioms [of "\<lambda>n. n"] by simp

text \<open>C3. \<open>list_sort\<close> terminates on every well-formed list and every strict weak order without
  failing an assertion; the list then holds the same elements in nondecreasing order, with
  equivalent elements in their original order, and no other list is touched.\<close>

theorem list_sort_correct:
  assumes "strict_weak_order lt" and "list_rep h l xs"
  shows "\<exists>h' ys. list_sort h l lt = Some h' \<and> list_rep h' l ys \<and> ordered lt ys \<and> mset ys = mset xs \<and>
           (\<forall>x. filter (equivalent lt x) ys = filter (equivalent lt x) xs) \<and>
           frame h h' (set (nodes l xs))"
proof -
  obtain h' ys where h': "list_sort_loop h l lt = Some h'" "list_rep h' l ys" "ordered lt ys"
    "mset ys = mset xs" "\<forall>x. filter (equivalent lt x) ys = filter (equivalent lt x) xs"
    "frame h h' (set (nodes l xs))"
    using list_sort_loop_rep [OF assms] by blast
  have "is_sorted h' lt (starts l ys) (ltail l) = Some True"
    using is_sorted_rep [of h' l "[]" ys "[]" lt] h'(2,3)
      strict_weak_order.ordered_successively [OF assms(1)] by simp
  then have "list_sort h l lt = Some h'"
    using h'(1,2) by (simp add: list_sort_def list_end_def)
  with h' show ?thesis by blast
qed

theorem list_sort_correct_witness:
  "\<exists>h' ys. list_sort sample_heap sample_list (<) = Some h' \<and> list_rep h' sample_list ys \<and>
     ordered (<) ys \<and> mset ys = {#3, 7, 9#}"
  using list_sort_correct [OF nat_order sample_rep(1)] by (simp add: add_mset_commute) blast

text \<open>\<open>list_splice\<close> takes a nonempty run out of one list and puts it, in order, in front of any
  position of another; both lists stay well formed and nothing else changes.\<close>

theorem list_splice_correct:
  assumes "list_rep h l (xs @ ms @ ys)" and "ms \<noteq> []" and "list_rep h l' (as @ bs)"
    and "set (nodes l (xs @ ms @ ys)) \<inter> set (nodes l' (as @ bs)) = {}"
  shows "\<exists>h'. list_splice h (starts l' bs) (hd ms) (starts l ys) = Some h' \<and>
           list_rep h' l (xs @ ys) \<and> list_rep h' l' (as @ ms @ bs) \<and>
           frame h h' (set (nodes l (xs @ ms @ ys)) \<union> set (nodes l' (as @ bs)))"
  using assms by (rule list_splice_other_rep)

theorem list_splice_correct_witness:
  "\<exists>h'. list_splice sample_heap 21 3 1 = Some h' \<and> list_rep h' sample_list [7] \<and>
     list_rep h' other_list [3, 9]"
  using list_splice_correct [of sample_heap sample_list "[7]" "[3, 9]" "[]" other_list "[]" "[]"] sample_rep
  by (auto simp: sample_list_def other_list_def)

text \<open>Inserting a new element in front of any position and then removing it: the insertion
  extends the sequence at that position, the removal returns the element that follows and
  restores the sequence.\<close>

theorem list_insert_remove:
  assumes "list_rep h l (xs @ ys)" and "e \<notin> set (nodes l (xs @ ys))"
  shows "\<exists>h1 h2. list_insert h (starts l ys) e = Some h1 \<and> list_rep h1 l (xs @ e # ys) \<and>
           list_remove h1 e = Some (starts l ys, h2) \<and> list_rep h2 l (xs @ ys) \<and>
           frame h h2 (insert e (set (nodes l (xs @ ys))))"
proof -
  obtain h1 where h1: "list_insert h (starts l ys) e = Some h1" "list_rep h1 l (xs @ e # ys)"
    "frame h h1 (insert e (set (nodes l (xs @ ys))))"
    using list_insert_rep [OF assms] by blast
  obtain h2 where h2: "list_remove h1 e = Some (starts l ys, h2)" "list_rep h2 l (xs @ ys)"
    "frame h1 h2 (set (nodes l (xs @ ys)))"
    using list_remove_rep [OF h1(2)] by blast
  have "frame h h2 (insert e (set (nodes l (xs @ ys))))"
    by (rule frame_trans [OF h1(3) frame_mono [OF h2(3)]]) auto
  with h1 h2 show ?thesis by blast
qed

theorem list_insert_remove_witness:
  "\<exists>h1 h2. list_insert sample_heap 3 5 = Some h1 \<and> list_rep h1 sample_list [7, 5, 3, 9] \<and>
     list_remove h1 5 = Some (3, h2) \<and> list_rep h2 sample_list [7, 3, 9]"
  using list_insert_remove [of sample_heap sample_list "[7]" "[3, 9]" 5] sample_rep
  by (auto simp: sample_list_def)

text \<open>\<open>list_reverse\<close> reverses the order of the elements in place.\<close>

theorem list_reverse_correct:
  assumes "list_rep h l xs"
  shows "\<exists>h'. list_reverse h l = Some h' \<and> list_rep h' l (rev xs) \<and> frame h h' (set (nodes l xs))"
  using assms by (rule list_reverse_rep)

theorem list_reverse_correct_witness:
  "\<exists>h'. list_reverse sample_heap sample_list = Some h' \<and> list_rep h' sample_list [9, 3, 7]"
  using list_reverse_correct [OF sample_rep(1)] by auto

text \<open>\<open>list_insert_ordered\<close> keeps an ordered list ordered and puts the new element behind all
  elements equivalent to it.\<close>

theorem list_insert_ordered_correct:
  assumes "strict_weak_order lt" and "list_rep h l xs" and "ordered lt xs" and "e \<notin> set (nodes l xs)"
  shows "\<exists>h' ys. list_insert_ordered h l e lt = Some h' \<and> list_rep h' l ys \<and> ordered lt ys \<and>
           mset ys = add_mset e (mset xs) \<and>
           filter (equivalent lt e) ys = filter (equivalent lt e) xs @ [e]"
proof -
  obtain h' where "list_insert_ordered h l e lt = Some h'" "list_rep h' l (insert_ordered lt e xs)"
    using list_insert_ordered_rep [OF assms(2,4), of lt] by blast
  then show ?thesis
    using strict_weak_order.ordered_insert_ordered [OF assms(1,3), of e]
      strict_weak_order.insert_ordered_stable [OF assms(1,3), of e]
    by (intro exI [of _ h'] exI [of _ "insert_ordered lt e xs"]) (simp add: mset_insert_ordered)
qed

theorem list_insert_ordered_correct_witness:
  "\<exists>h' ys. list_insert_ordered sample_heap other_list 5 (<) = Some h' \<and> list_rep h' other_list ys \<and>
     ordered (<) ys \<and> mset ys = {#5#}"
  using list_insert_ordered_correct [OF nat_order sample_rep(2), of 5]
  by (auto simp: ordered_def other_list_def)

text \<open>\<open>list_max\<close> of a nonempty list returns a greatest element, the one that appears first:
  every earlier element is less than it and no later one exceeds it.\<close>

theorem list_max_correct:
  assumes "strict_weak_order lt" and "list_rep h l xs" and "xs \<noteq> []"
  shows "\<exists>m as bs. list_max h l lt = Some m \<and> xs = as @ m # bs \<and>
           (\<forall>a. a \<in> set as \<longrightarrow> lt a m) \<and> (\<forall>b. b \<in> set bs \<longrightarrow> \<not> lt m b)"
proof -
  have "\<exists>as bs. xs = as @ max_elem lt xs # bs \<and> (\<forall>a \<in> set as. lt a (max_elem lt xs)) \<and>
      (\<forall>b \<in> set bs. \<not> lt (max_elem lt xs) b)"
    using strict_weak_order.scan_max_first [OF assms(1), of "hd xs" "tl xs"] assms(3)
    by (simp add: max_elem_def)
  then show ?thesis using list_max_rep [OF assms(2,3), of lt] by blast
qed

theorem list_max_correct_witness:
  "\<exists>m as bs. list_max sample_heap sample_list (<) = Some m \<and> [7, 3, 9] = as @ m # bs \<and>
     (\<forall>a. a \<in> set as \<longrightarrow> a < m)"
  using list_max_correct [OF nat_order sample_rep(1)] by blast

text \<open>\<open>list_unique\<close> leaves no two adjacent elements that compare equal and moves exactly the
  removed elements, in order, to the end of the list of duplicates.\<close>

theorem list_unique_correct:
  assumes "list_rep h l xs" and "list_rep h d zs" and "set (nodes l xs) \<inter> set (nodes d zs) = {}"
  shows "\<exists>h' ys ds. list_unique h l (Some d) lt = Some h' \<and> list_rep h' l ys \<and>
           list_rep h' d (zs @ ds) \<and> mset ys + mset ds = mset xs \<and>
           successively (\<lambda>a b. \<not> equivalent lt a b) ys"
proof (cases xs)
  case Nil
  then have "list_unique h l (Some d) lt = Some h"
    using rep_empty [OF assms(1)] by (simp add: list_unique_def)
  then show ?thesis
    using assms Nil by (intro exI [of _ h] exI [of _ "[]"]) simp
next
  case (Cons x xs')
  then obtain h' where "list_unique_loop h l (Some d) lt x = Some h'"
    "list_rep h' l (unique_seq lt xs)" "list_rep h' d (zs @ duplicate_seq lt xs)"
    using list_unique_loop_rep [of h l "[]" x xs' d zs lt] assms by auto
  moreover from this(1) have "list_unique h l (Some d) lt = Some h'"
    using assms rep_empty [OF assms(1)] Cons by (simp add: list_unique_def)
  ultimately show ?thesis
    using mset_unique_seq [of lt xs] unique_seq_distinct [of lt xs] by blast
qed

theorem list_unique_correct_witness:
  "\<exists>h' ys ds. list_unique sample_heap sample_list (Some other_list) (\<lambda>a b. a mod 2 < b mod 2) = Some h' \<and>
     list_rep h' sample_list ys \<and> list_rep h' other_list ds \<and> mset ys + mset ds = {#7, 3, 9#}"
  using list_unique_correct [OF sample_rep, of "\<lambda>a b. a mod 2 < b mod 2"]
  by (simp add: sample_list_def other_list_def) blast

end
