(* ===== verification/Pintos_Bitmap.thy ===== *)
theory Pintos_Bitmap
  imports Pintos_Prelude
begin

text \<open>
  The bitmaps of \<open>lib/kernel/bitmap.c\<close>: an array of 32-bit elements that simulates an array
  of bits.  \<open>bitmap_abs\<close> is that array of bits; every operation is shown to act on it as its
  comment promises, and a failed assertion is shown to happen exactly outside its range.
\<close>

unbundle bit_operations_syntax

section \<open>The data structure\<close>

record bitmap =
  bit_cnt :: nat
  bits :: "u32 list"

definition ELEM_BITS :: nat where
  "ELEM_BITS = 32"

definition BITMAP_ERROR :: nat where
  "BITMAP_ERROR = 4294967295"

definition elem_idx :: "nat \<Rightarrow> nat" where
  "elem_idx bit_idx = bit_idx div ELEM_BITS"

definition bit_mask :: "nat \<Rightarrow> u32" where
  "bit_mask bit_idx = push_bit (bit_idx mod ELEM_BITS) 1"

text \<open>\<open>DIV_ROUND_UP (bit_cnt, ELEM_BITS)\<close>, whose addition is one of \<open>size_t\<close>.\<close>

definition elem_cnt :: "nat \<Rightarrow> nat" where
  "elem_cnt n = size_add n (ELEM_BITS - 1) div ELEM_BITS"

definition byte_cnt :: "nat \<Rightarrow> nat" where
  "byte_cnt n = 4 * elem_cnt n"

definition last_mask :: "bitmap \<Rightarrow> u32" where
  "last_mask b =
     (let last_bits = bit_cnt b mod ELEM_BITS
      in if last_bits \<noteq> 0 then push_bit last_bits 1 - 1 else - 1)"

section \<open>Single bits\<close>

definition bitmap_size :: "bitmap \<Rightarrow> nat" where
  "bitmap_size b = bit_cnt b"

definition bitmap_mark :: "bitmap \<Rightarrow> nat \<Rightarrow> bitmap option" where
  "bitmap_mark b bit_idx = do {
     let idx = elem_idx bit_idx;
     let mask = bit_mask bit_idx;
     w \<leftarrow> nth_opt (bits b) idx;
     ws \<leftarrow> update_opt (bits b) idx (w OR mask);
     Some (b\<lparr>bits := ws\<rparr>)
   }"

definition bitmap_reset :: "bitmap \<Rightarrow> nat \<Rightarrow> bitmap option" where
  "bitmap_reset b bit_idx = do {
     let idx = elem_idx bit_idx;
     let mask = bit_mask bit_idx;
     w \<leftarrow> nth_opt (bits b) idx;
     ws \<leftarrow> update_opt (bits b) idx (w AND NOT mask);
     Some (b\<lparr>bits := ws\<rparr>)
   }"

definition bitmap_flip :: "bitmap \<Rightarrow> nat \<Rightarrow> bitmap option" where
  "bitmap_flip b bit_idx = do {
     let idx = elem_idx bit_idx;
     let mask = bit_mask bit_idx;
     w \<leftarrow> nth_opt (bits b) idx;
     ws \<leftarrow> update_opt (bits b) idx (w XOR mask);
     Some (b\<lparr>bits := ws\<rparr>)
   }"

definition bitmap_set :: "bitmap \<Rightarrow> nat \<Rightarrow> bool \<Rightarrow> bitmap option" where
  "bitmap_set b idx value = do {
     ASSERT (idx < bit_cnt b);
     if value then bitmap_mark b idx else bitmap_reset b idx
   }"

definition bitmap_test :: "bitmap \<Rightarrow> nat \<Rightarrow> bool option" where
  "bitmap_test b idx = do {
     ASSERT (idx < bit_cnt b);
     w \<leftarrow> nth_opt (bits b) (elem_idx idx);
     Some (w AND bit_mask idx \<noteq> 0)
   }"

section \<open>Ranges of bits\<close>

text \<open>The loops count \<open>i\<close> up to \<open>cnt\<close>; the last argument is the number of rounds left.\<close>

fun set_multiple_loop :: "bitmap \<Rightarrow> nat \<Rightarrow> bool \<Rightarrow> nat \<Rightarrow> nat \<Rightarrow> bitmap option" where
  "set_multiple_loop b start value i 0 = Some b"
| "set_multiple_loop b start value i (Suc k) = do {
     b \<leftarrow> bitmap_set b (size_add start i) value;
     set_multiple_loop b start value (i + 1) k
   }"

definition bitmap_set_multiple :: "bitmap \<Rightarrow> nat \<Rightarrow> nat \<Rightarrow> bool \<Rightarrow> bitmap option" where
  "bitmap_set_multiple b start cnt value = do {
     ASSERT (start \<le> bit_cnt b);
     ASSERT (size_add start cnt \<le> bit_cnt b);
     set_multiple_loop b start value 0 cnt
   }"

definition bitmap_set_all :: "bitmap \<Rightarrow> bool \<Rightarrow> bitmap option" where
  "bitmap_set_all b value = bitmap_set_multiple b 0 (bitmap_size b) value"

text \<open>\<open>bitmap_create\<close> with the outcome of its two calls of \<open>malloc\<close>: whether the first returns
  memory, and the contents of the memory the second returns, if any.\<close>

definition bitmap_create :: "bool \<Rightarrow> u32 list option \<Rightarrow> nat \<Rightarrow> bitmap option option" where
  "bitmap_create got_b got_bits n =
     (if got_b then
        case got_bits of
          Some ws \<Rightarrow> do { b \<leftarrow> bitmap_set_all \<lparr>bit_cnt = n, bits = ws\<rparr> False; Some (Some b) }
        | None \<Rightarrow>
            if n = 0 then do { b \<leftarrow> bitmap_set_all \<lparr>bit_cnt = n, bits = []\<rparr> False; Some (Some b) }
            else Some None
      else Some None)"

definition bitmap_buf_size :: "nat \<Rightarrow> nat" where
  "bitmap_buf_size n = 8 + byte_cnt n"

text \<open>In a preallocated block of \<open>block_size\<close> bytes the elements follow the 8-byte header;
  \<open>ws\<close> is what they hold beforehand.\<close>

definition bitmap_create_in_buf :: "nat \<Rightarrow> u32 list \<Rightarrow> nat \<Rightarrow> bitmap option" where
  "bitmap_create_in_buf n ws block_size = do {
     ASSERT (block_size \<ge> bitmap_buf_size n);
     bitmap_set_all \<lparr>bit_cnt = n, bits = ws\<rparr> False
   }"

fun count_loop :: "bitmap \<Rightarrow> nat \<Rightarrow> bool \<Rightarrow> nat \<Rightarrow> nat \<Rightarrow> nat \<Rightarrow> nat option" where
  "count_loop b start value i value_cnt 0 = Some value_cnt"
| "count_loop b start value i value_cnt (Suc k) = do {
     t \<leftarrow> bitmap_test b (size_add start i);
     count_loop b start value (i + 1) (if t = value then value_cnt + 1 else value_cnt) k
   }"

definition bitmap_count :: "bitmap \<Rightarrow> nat \<Rightarrow> nat \<Rightarrow> bool \<Rightarrow> nat option" where
  "bitmap_count b start cnt value = do {
     ASSERT (start \<le> bit_cnt b);
     ASSERT (size_add start cnt \<le> bit_cnt b);
     count_loop b start value 0 0 cnt
   }"

fun contains_loop :: "bitmap \<Rightarrow> nat \<Rightarrow> bool \<Rightarrow> nat \<Rightarrow> nat \<Rightarrow> bool option" where
  "contains_loop b start value i 0 = Some False"
| "contains_loop b start value i (Suc k) = do {
     t \<leftarrow> bitmap_test b (size_add start i);
     if t = value then Some True else contains_loop b start value (i + 1) k
   }"

definition bitmap_contains :: "bitmap \<Rightarrow> nat \<Rightarrow> nat \<Rightarrow> bool \<Rightarrow> bool option" where
  "bitmap_contains b start cnt value = do {
     ASSERT (start \<le> bit_cnt b);
     ASSERT (size_add start cnt \<le> bit_cnt b);
     contains_loop b start value 0 cnt
   }"

definition bitmap_any :: "bitmap \<Rightarrow> nat \<Rightarrow> nat \<Rightarrow> bool option" where
  "bitmap_any b start cnt = bitmap_contains b start cnt True"

definition bitmap_none :: "bitmap \<Rightarrow> nat \<Rightarrow> nat \<Rightarrow> bool option" where
  "bitmap_none b start cnt = do { c \<leftarrow> bitmap_contains b start cnt True; Some (\<not> c) }"

definition bitmap_all :: "bitmap \<Rightarrow> nat \<Rightarrow> nat \<Rightarrow> bool option" where
  "bitmap_all b start cnt = do { c \<leftarrow> bitmap_contains b start cnt False; Some (\<not> c) }"

text \<open>The search tries the positions \<open>i, i + 1, \<dots>\<close>; \<open>k\<close> positions are left up to \<open>last\<close>.\<close>

fun scan_loop :: "bitmap \<Rightarrow> nat \<Rightarrow> bool \<Rightarrow> nat \<Rightarrow> nat \<Rightarrow> nat option" where
  "scan_loop b cnt value i 0 = Some BITMAP_ERROR"
| "scan_loop b cnt value i (Suc k) = do {
     c \<leftarrow> bitmap_contains b i cnt (\<not> value);
     if \<not> c then Some i else scan_loop b cnt value (i + 1) k
   }"

definition bitmap_scan :: "bitmap \<Rightarrow> nat \<Rightarrow> nat \<Rightarrow> bool \<Rightarrow> nat option" where
  "bitmap_scan b start cnt value = do {
     ASSERT (start \<le> bit_cnt b);
     if cnt \<le> bit_cnt b
     then let last' = bit_cnt b - cnt in scan_loop b cnt value start (last' + 1 - start)
     else Some BITMAP_ERROR
   }"

definition bitmap_scan_and_flip :: "bitmap \<Rightarrow> nat \<Rightarrow> nat \<Rightarrow> bool \<Rightarrow> (nat \<times> bitmap) option" where
  "bitmap_scan_and_flip b start cnt value = do {
     idx \<leftarrow> bitmap_scan b start cnt value;
     b \<leftarrow> (if idx \<noteq> BITMAP_ERROR then bitmap_set_multiple b idx cnt (\<not> value) else Some b);
     Some (idx, b)
   }"

definition bitmap_file_size :: "bitmap \<Rightarrow> nat" where
  "bitmap_file_size b = byte_cnt (bit_cnt b)"

section \<open>The array of bits\<close>

definition bitmap_abs :: "bitmap \<Rightarrow> bool list" where
  "bitmap_abs b = map (\<lambda>i. bit (bits b ! (i div 32)) (i mod 32)) [0..<bit_cnt b]"

definition bitmap_wf :: "bitmap \<Rightarrow> bool" where
  "bitmap_wf b \<longleftrightarrow> bit_cnt b < 2 ^ 32 \<and> bit_cnt b \<le> 32 * length (bits b)"

lemma length_bitmap_abs [simp]: "length (bitmap_abs b) = bit_cnt b"
  by (simp add: bitmap_abs_def)

lemma nth_bitmap_abs: "i < bit_cnt b \<Longrightarrow> bitmap_abs b ! i = bit (bits b ! (i div 32)) (i mod 32)"
  by (simp add: bitmap_abs_def)

lemma wf_elem: "bitmap_wf b \<Longrightarrow> i < bit_cnt b \<Longrightarrow> i div 32 < length (bits b)"
  by (auto simp: bitmap_wf_def)

lemma bit_bit_mask: "bit (bit_mask i) n \<longleftrightarrow> n = i mod 32"
  by (auto simp: bit_mask_def ELEM_BITS_def bit_simps)

lemma and_bit_mask: "w AND bit_mask i \<noteq> 0 \<longleftrightarrow> bit w (i mod 32)"
proof -
  have "w AND bit_mask i = 0 \<longleftrightarrow> (\<forall>n. \<not> bit (w AND bit_mask i) n)"
    by (metis bit_eqI bit_0_eq bot_apply bot_bool_def)
  also have "\<dots> \<longleftrightarrow> \<not> bit w (i mod 32)" by (auto simp: bit_and_iff bit_bit_mask)
  finally show ?thesis by simp
qed

lemma bitmap_test_abs:
  "bitmap_wf b \<Longrightarrow> i < bit_cnt b \<Longrightarrow> bitmap_test b i = Some (bitmap_abs b ! i)"
  by (simp add: bitmap_test_def elem_idx_def ELEM_BITS_def wf_elem nth_bitmap_abs and_bit_mask)

text \<open>Changing one element of the array at one bit changes one bit of the abstraction.\<close>

lemma bitmap_abs_update:
  assumes wf: "bitmap_wf b" and i: "i < bit_cnt b"
    and w: "\<And>n. n < 32 \<Longrightarrow> bit w n = (if n = i mod 32 then v else bit (bits b ! (i div 32)) n)"
  shows "bitmap_abs (b\<lparr>bits := (bits b)[i div 32 := w]\<rparr>) = (bitmap_abs b)[i := v]"
proof (rule nth_equalityI)
  fix j assume "j < length (bitmap_abs (b\<lparr>bits := (bits b)[i div 32 := w]\<rparr>))"
  then have j: "j < bit_cnt b" by simp
  have "j = i \<longleftrightarrow> j div 32 = i div 32 \<and> j mod 32 = i mod 32"
    by (metis div_mult_mod_eq)
  then show "bitmap_abs (b\<lparr>bits := (bits b)[i div 32 := w]\<rparr>) ! j = (bitmap_abs b)[i := v] ! j"
    using j i wf_elem [OF wf i] w [of "j mod 32"]
    by (auto simp: nth_bitmap_abs nth_list_update)
qed simp

lemma bitmap_set_abs:
  assumes wf: "bitmap_wf b" and i: "i < bit_cnt b"
  shows "\<exists>b'. bitmap_set b i v = Some b' \<and> bitmap_wf b' \<and> bit_cnt b' = bit_cnt b \<and>
           bitmap_abs b' = (bitmap_abs b)[i := v]"
proof -
  let ?w = "bits b ! (i div 32)"
  let ?w' = "if v then ?w OR bit_mask i else ?w AND NOT (bit_mask i)"
  let ?b = "b\<lparr>bits := (bits b)[i div 32 := ?w']\<rparr>"
  have "bit ?w' n = (if n = i mod 32 then v else bit ?w n)" if "n < 32" for n
    using that by (auto simp: bit_simps bit_bit_mask)
  then have "bitmap_abs ?b = (bitmap_abs b)[i := v]" by (rule bitmap_abs_update [OF wf i])
  moreover have "bitmap_set b i v = Some ?b"
    using wf_elem [OF wf i] i
    by (simp add: bitmap_set_def bitmap_mark_def bitmap_reset_def elem_idx_def ELEM_BITS_def Let_def)
  ultimately show ?thesis using wf by (simp add: bitmap_wf_def)
qed

lemma bitmap_flip_abs:
  assumes wf: "bitmap_wf b" and i: "i < bit_cnt b"
  shows "\<exists>b'. bitmap_flip b i = Some b' \<and> bitmap_wf b' \<and> bit_cnt b' = bit_cnt b \<and>
           bitmap_abs b' = (bitmap_abs b)[i := \<not> bitmap_abs b ! i]"
proof -
  let ?w = "bits b ! (i div 32)"
  let ?b = "b\<lparr>bits := (bits b)[i div 32 := ?w XOR bit_mask i]\<rparr>"
  have "bit (?w XOR bit_mask i) n = (if n = i mod 32 then \<not> bitmap_abs b ! i else bit ?w n)"
    if "n < 32" for n
    using that i by (auto simp: bit_simps bit_bit_mask nth_bitmap_abs)
  then have "bitmap_abs ?b = (bitmap_abs b)[i := \<not> bitmap_abs b ! i]"
    by (rule bitmap_abs_update [OF wf i])
  moreover have "bitmap_flip b i = Some ?b"
    using wf_elem [OF wf i] by (simp add: bitmap_flip_def elem_idx_def ELEM_BITS_def Let_def)
  ultimately show ?thesis using wf by (simp add: bitmap_wf_def)
qed

text \<open>The array with the \<open>cnt\<close> bits from \<open>start\<close> on set to \<open>v\<close>, and those bits.\<close>

definition set_range :: "bool list \<Rightarrow> nat \<Rightarrow> nat \<Rightarrow> bool \<Rightarrow> bool list" where
  "set_range xs start cnt v = take start xs @ replicate cnt v @ drop (start + cnt) xs"

definition bit_range :: "bool list \<Rightarrow> nat \<Rightarrow> nat \<Rightarrow> bool list" where
  "bit_range xs start cnt = take cnt (drop start xs)"

lemma length_set_range [simp]: "start + cnt \<le> length xs \<Longrightarrow> length (set_range xs start cnt v) = length xs"
  by (simp add: set_range_def)

lemma nth_set_range:
  "start + cnt \<le> length xs \<Longrightarrow> i < length xs \<Longrightarrow>
     set_range xs start cnt v ! i = (if start \<le> i \<and> i < start + cnt then v else xs ! i)"
  by (auto simp: set_range_def nth_append not_less)

lemma set_range_Suc:
  "start + Suc k \<le> length xs \<Longrightarrow>
     set_range (xs[start := v]) (Suc start) k v = set_range xs start (Suc k) v"
  by (rule nth_equalityI) (auto simp: nth_set_range nth_list_update)

lemma range_Suc: "start < length xs \<Longrightarrow> bit_range xs start (Suc k) = xs ! start # bit_range xs (Suc start) k"
  by (simp add: bit_range_def take_Suc_conv_app_nth flip: Cons_nth_drop_Suc)

lemma bit_range_0 [simp]: "bit_range xs start 0 = []"
  by (simp add: bit_range_def)

lemma length_range [simp]: "start + cnt \<le> length xs \<Longrightarrow> length (bit_range xs start cnt) = cnt"
  by (simp add: bit_range_def)

lemma set_multiple_loop_abs:
  "bitmap_wf b \<Longrightarrow> start + i + k \<le> bit_cnt b \<Longrightarrow>
     \<exists>b'. set_multiple_loop b start v i k = Some b' \<and> bitmap_wf b' \<and> bit_cnt b' = bit_cnt b \<and>
       bitmap_abs b' = set_range (bitmap_abs b) (start + i) k v"
proof (induction k arbitrary: b i)
  case 0
  then show ?case by (simp add: set_range_def)
next
  case (Suc k)
  have small: "size_add start i = start + i" using Suc.prems by (simp add: bitmap_wf_def)
  obtain b1 where b1: "bitmap_set b (start + i) v = Some b1" "bitmap_wf b1" "bit_cnt b1 = bit_cnt b"
    "bitmap_abs b1 = (bitmap_abs b)[start + i := v]"
    using bitmap_set_abs [of b "start + i" v] Suc.prems by auto
  with Suc.IH [of b1 "i + 1"] Suc.prems small set_range_Suc [of "start + i" k "bitmap_abs b" v]
  show ?case by auto
qed

lemma bitmap_set_multiple_abs:
  "bitmap_wf b \<Longrightarrow> start + cnt \<le> bit_cnt b \<Longrightarrow>
     \<exists>b'. bitmap_set_multiple b start cnt v = Some b' \<and> bitmap_wf b' \<and> bit_cnt b' = bit_cnt b \<and>
       bitmap_abs b' = set_range (bitmap_abs b) start cnt v"
  using set_multiple_loop_abs [of b start 0 cnt v] by (auto simp: bitmap_set_multiple_def bitmap_wf_def)

lemma bitmap_set_all_abs:
  "bitmap_wf b \<Longrightarrow>
     \<exists>b'. bitmap_set_all b v = Some b' \<and> bitmap_wf b' \<and> bit_cnt b' = bit_cnt b \<and>
       bitmap_abs b' = replicate (bit_cnt b) v"
  using bitmap_set_multiple_abs [of b 0 "bit_cnt b" v]
  by (auto simp: bitmap_set_all_def bitmap_size_def set_range_def)

lemma count_loop_abs:
  "bitmap_wf b \<Longrightarrow> start + i + k \<le> bit_cnt b \<Longrightarrow>
     count_loop b start v i c k = Some (c + count_list (bit_range (bitmap_abs b) (start + i) k) v)"
proof (induction k arbitrary: i c)
  case (Suc k)
  have "size_add start i = start + i" using Suc.prems by (simp add: bitmap_wf_def)
  then show ?case
    using Suc.IH [of "i + 1"] Suc.prems bitmap_test_abs [of b "start + i"]
    by (auto simp: range_Suc)
qed simp

lemma contains_loop_abs:
  "bitmap_wf b \<Longrightarrow> start + i + k \<le> bit_cnt b \<Longrightarrow>
     contains_loop b start v i k = Some (v \<in> set (bit_range (bitmap_abs b) (start + i) k))"
proof (induction k arbitrary: i)
  case (Suc k)
  have "size_add start i = start + i" using Suc.prems by (simp add: bitmap_wf_def)
  then show ?case
    using Suc.IH [of "i + 1"] Suc.prems bitmap_test_abs [of b "start + i"]
    by (auto simp: range_Suc)
qed simp

lemma bitmap_contains_abs:
  "bitmap_wf b \<Longrightarrow> start + cnt \<le> bit_cnt b \<Longrightarrow>
     bitmap_contains b start cnt v = Some (v \<in> set (bit_range (bitmap_abs b) start cnt))"
  using contains_loop_abs [of b start 0 cnt v] by (simp add: bitmap_contains_def bitmap_wf_def)

lemma bitmap_count_abs:
  "bitmap_wf b \<Longrightarrow> start + cnt \<le> bit_cnt b \<Longrightarrow>
     bitmap_count b start cnt v = Some (count_list (bit_range (bitmap_abs b) start cnt) v)"
  using count_loop_abs [of b start 0 cnt v 0] by (simp add: bitmap_count_def bitmap_wf_def)

lemma range_all_iff:
  "start + cnt \<le> length xs \<Longrightarrow>
     (\<not> v) \<notin> set (bit_range xs start cnt) \<longleftrightarrow> bit_range xs start cnt = replicate cnt v"
proof
  assume len: "start + cnt \<le> length xs" and "(\<not> v) \<notin> set (bit_range xs start cnt)"
  then show "bit_range xs start cnt = replicate cnt v"
    by (intro replicate_eqI) (auto, metis+)
qed auto

lemma bitmap_all_abs:
  "bitmap_wf b \<Longrightarrow> start + cnt \<le> bit_cnt b \<Longrightarrow>
     bitmap_all b start cnt = Some (bit_range (bitmap_abs b) start cnt = replicate cnt True)"
  using range_all_iff [of start cnt "bitmap_abs b" True]
  by (simp add: bitmap_all_def bitmap_contains_abs)

section \<open>Searching\<close>

text \<open>\<open>fits xs cnt v i\<close>: \<open>cnt\<close> bits with value \<open>v\<close> lie at position \<open>i\<close>.\<close>

definition fits :: "bool list \<Rightarrow> nat \<Rightarrow> bool \<Rightarrow> nat \<Rightarrow> bool" where
  "fits xs cnt v i \<longleftrightarrow> i + cnt \<le> length xs \<and> bit_range xs i cnt = replicate cnt v"

lemma scan_loop_abs:
  "bitmap_wf b \<Longrightarrow> 0 < k \<longrightarrow> i + (k - 1) + cnt \<le> bit_cnt b \<Longrightarrow>
     scan_loop b cnt v i k =
       Some (case find (fits (bitmap_abs b) cnt v) [i..<i + k] of None \<Rightarrow> BITMAP_ERROR | Some j \<Rightarrow> j)"
proof (induction k arbitrary: i)
  case (Suc k)
  have "bitmap_contains b i cnt (\<not> v) = Some (\<not> fits (bitmap_abs b) cnt v i)"
    using Suc.prems range_all_iff [of i cnt "bitmap_abs b" v]
    by (auto simp: bitmap_contains_abs fits_def)
  moreover have "[i..<i + Suc k] = i # [Suc i..<Suc i + k]"
    by (simp add: upt_rec)
  ultimately show ?case using Suc.IH [of "Suc i"] Suc.prems by (auto simp del: upt_Suc)
qed simp

lemma bitmap_scan_find:
  assumes "bitmap_wf b" and "start \<le> bit_cnt b"
  shows "bitmap_scan b start cnt v =
     Some (case find (fits (bitmap_abs b) cnt v) [start..<bit_cnt b + 1 - cnt] of
             None \<Rightarrow> BITMAP_ERROR | Some j \<Rightarrow> j)"
proof (cases "cnt \<le> bit_cnt b \<and> start \<le> bit_cnt b - cnt")
  case True
  then show ?thesis
    using assms scan_loop_abs [of b "bit_cnt b - cnt + 1 - start" start cnt v]
    by (auto simp: bitmap_scan_def Let_def Suc_diff_le)
next
  case False
  then have "[start..<bit_cnt b + 1 - cnt] = []" by auto
  with False assms show ?thesis by (auto simp: bitmap_scan_def Let_def)
qed

lemma find_upt_Some:
  "find P [a..<b] = Some i \<Longrightarrow> a \<le> i \<and> i < b \<and> P i \<and> (\<forall>j. a \<le> j \<and> j < i \<longrightarrow> \<not> P j)"
proof -
  assume "find P [a..<b] = Some i"
  then obtain k where k: "k < b - a" "P (a + k)" "i = a + k" "\<forall>j < k. \<not> P (a + j)"
    by (auto simp: find_Some_iff)
  have "\<not> P j" if "a \<le> j" "j < i" for j
    using k(3,4) that by (metis add_less_cancel_left le_add_diff_inverse)
  with k show ?thesis by auto
qed

lemma find_upt_None: "find P [a..<b] = None \<Longrightarrow> a \<le> j \<Longrightarrow> j < b \<Longrightarrow> \<not> P j"
  by (auto simp: find_None_iff)

lemma bitmap_scan_cases:
  assumes "bitmap_wf b" and "start \<le> bit_cnt b" and "0 < cnt"
  obtains (found) i where "bitmap_scan b start cnt v = Some i" "i < BITMAP_ERROR" "start \<le> i"
      "fits (bitmap_abs b) cnt v i" "\<forall>j. start \<le> j \<and> j < i \<longrightarrow> \<not> fits (bitmap_abs b) cnt v j"
    | (none) "bitmap_scan b start cnt v = Some BITMAP_ERROR"
      "\<forall>j. start \<le> j \<longrightarrow> \<not> fits (bitmap_abs b) cnt v j"
proof (cases "find (fits (bitmap_abs b) cnt v) [start..<bit_cnt b + 1 - cnt]")
  case None
  have "\<not> fits (bitmap_abs b) cnt v j" if "start \<le> j" for j
    using find_upt_None [OF None that] by (auto simp: fits_def)
  with None show ?thesis using none bitmap_scan_find [OF assms(1,2)] by auto
next
  case (Some i)
  have "i < BITMAP_ERROR"
    using find_upt_Some [OF Some] assms(1,3) by (auto simp: fits_def bitmap_wf_def BITMAP_ERROR_def)
  with Some show ?thesis
    using found bitmap_scan_find [OF assms(1,2)] find_upt_Some [OF Some] by auto
qed

section \<open>Properties\<close>

definition sample_bitmap :: bitmap where
  "sample_bitmap = \<lparr>bit_cnt = 40, bits = [0xFFFFFFFB, 1]\<rparr>"

lemma sample_bitmap_wf: "bitmap_wf sample_bitmap"
  by (simp add: sample_bitmap_def bitmap_wf_def)

text \<open>A bitmap is an array of bits: in range, setting a bit succeeds, every later test of a bit
  returns the new value at that position and the old value elsewhere; out of range both stop
  at their assertion.\<close>

theorem bitmap_set_test:
  assumes "bitmap_wf b"
  shows "\<exists>b'. (i < bit_cnt b \<longrightarrow> bitmap_set b i v = Some b' \<and> bitmap_wf b' \<and> bit_cnt b' = bit_cnt b) \<and>
           (\<not> i < bit_cnt b \<longrightarrow> bitmap_set b i v = None) \<and>
           (i < bit_cnt b \<longrightarrow>
              (\<forall>j. bitmap_test b' j = (if j = i then Some v else bitmap_test b j)))"
proof (cases "i < bit_cnt b")
  case True
  obtain b' where b': "bitmap_set b i v = Some b'" "bitmap_wf b'" "bit_cnt b' = bit_cnt b"
    "bitmap_abs b' = (bitmap_abs b)[i := v]"
    using bitmap_set_abs [OF assms True] by blast
  have "bitmap_test b' j = (if j = i then Some v else bitmap_test b j)" for j
  proof (cases "j < bit_cnt b")
    case jlt: True
    then show ?thesis
      using bitmap_test_abs [OF assms jlt] bitmap_test_abs [OF b'(2), of j] b' True by auto
  next
    case False
    then show ?thesis using True b'(3) by (auto simp: bitmap_test_def)
  qed
  with b' True show ?thesis by blast
qed (auto simp: bitmap_set_def)

theorem bitmap_set_test_witness:
  "\<exists>b'. bitmap_set sample_bitmap 33 True = Some b' \<and> bitmap_test b' 33 = Some True \<and>
     bitmap_test b' 2 = Some False"
proof -
  have "bitmap_test sample_bitmap 2 = Some False"
    by (simp add: sample_bitmap_def bitmap_test_def elem_idx_def bit_mask_def ELEM_BITS_def)
  then show ?thesis
    using bitmap_set_test [OF sample_bitmap_wf, of 33 True] by (auto simp: sample_bitmap_def)
qed

text \<open>C8. \<open>bitmap_scan_and_flip\<close> is first fit: it returns the least position at or after \<open>start\<close> where
  \<open>cnt\<close> bits have the wanted value and flips exactly those, or returns \<open>BITMAP_ERROR\<close> and
  changes nothing, and then no position fits.\<close>

theorem bitmap_scan_and_flip_first_fit:
  assumes "bitmap_wf b" and "start \<le> bit_cnt b" and "0 < cnt"
  shows "(\<exists>i b'. bitmap_scan_and_flip b start cnt v = Some (i, b') \<and> i \<noteq> BITMAP_ERROR \<and>
            start \<le> i \<and> fits (bitmap_abs b) cnt v i \<and>
            (\<forall>j. start \<le> j \<and> j < i \<longrightarrow> \<not> fits (bitmap_abs b) cnt v j) \<and>
            bitmap_wf b' \<and> bitmap_abs b' = set_range (bitmap_abs b) i cnt (\<not> v)) \<or>
         (bitmap_scan_and_flip b start cnt v = Some (BITMAP_ERROR, b) \<and>
            (\<forall>j. start \<le> j \<longrightarrow> \<not> fits (bitmap_abs b) cnt v j))"
  using assms(1) assms(2) assms(3)
proof (cases rule: bitmap_scan_cases [where v = v])
  case (found i)
  then show ?thesis
    using bitmap_set_multiple_abs [OF assms(1), of i cnt "\<not> v"]
    by (auto simp: bitmap_scan_and_flip_def fits_def)
next
  case none
  then show ?thesis by (simp add: bitmap_scan_and_flip_def)
qed

theorem bitmap_scan_and_flip_first_fit_witness:
  "\<exists>i b'. bitmap_scan_and_flip sample_bitmap 0 2 False = Some (i, b') \<and>
     (i \<noteq> BITMAP_ERROR \<longrightarrow> fits (bitmap_abs sample_bitmap) 2 False i)"
  using bitmap_scan_and_flip_first_fit [OF sample_bitmap_wf, of 0 2 False] by fastforce

text \<open>With enough memory for its elements, a new bitmap has every bit clear; without, the
  caller gets a null pointer.\<close>

theorem bitmap_create_clear:
  assumes "n < 2 ^ 32 - 31" and "\<And>ws. got_bits = Some ws \<Longrightarrow> length ws = elem_cnt n"
  shows "(got_b \<and> (got_bits \<noteq> None \<or> n = 0) \<longrightarrow>
            (\<exists>b. bitmap_create got_b got_bits n = Some (Some b) \<and> bitmap_wf b \<and>
               bitmap_abs b = replicate n False)) \<and>
         (\<not> (got_b \<and> (got_bits \<noteq> None \<or> n = 0)) \<longrightarrow> bitmap_create got_b got_bits n = Some None)"
proof -
  have "n \<le> 32 * elem_cnt n"
    using assms(1) by (simp add: elem_cnt_def ELEM_BITS_def)
  moreover have "n < 2 ^ 32" using assms(1) by simp
  ultimately have wf: "\<And>ws. got_bits = Some ws \<Longrightarrow> bitmap_wf \<lparr>bit_cnt = n, bits = ws\<rparr>"
      "n = 0 \<Longrightarrow> bitmap_wf \<lparr>bit_cnt = n, bits = []\<rparr>"
    using assms(2) by (auto simp: bitmap_wf_def)
  show ?thesis
    using bitmap_set_all_abs [OF wf(1), where v = False] bitmap_set_all_abs [OF wf(2), where v = False]
    by (cases got_bits) (auto simp: bitmap_create_def)
qed

theorem bitmap_create_clear_witness:
  "\<exists>b. bitmap_create True (Some [7, 9]) 40 = Some (Some b) \<and> bitmap_abs b = replicate 40 False"
  using bitmap_create_clear [of 40 "Some [7, 9]" True]
  by (auto simp: elem_cnt_def ELEM_BITS_def)

end
