(* ===== verification/Pintos_Arithmetic.thy ===== *)
theory Pintos_Arithmetic
  imports Pintos_Prelude "HOL-Library.Signed_Division"
begin

text \<open>
  The 64-bit division routines of \<open>lib/arithmetic.c\<close>, which GCC calls for the \<open>/\<close> and \<open>%\<close> of
  \<open>long long\<close> on a 32-bit processor.  \<^const>\<open>None\<close> is the divide error (\<open>#DE\<close>) that the
  processor raises when the divisor is zero or a quotient does not fit.
\<close>

section \<open>The routines\<close>

text \<open>The \<open>DIVL\<close> instruction: a 64-bit dividend, a 32-bit divisor, a 32-bit quotient.\<close>

definition divl :: "u64 \<Rightarrow> u32 \<Rightarrow> u32 option" where
  "divl n d =
     (if d = 0 \<or> 2 ^ 32 \<le> unat n div unat d then None
      else Some (of_nat (unat n div unat d)))"

definition nlz :: "u32 \<Rightarrow> nat" where
  "nlz x =
     (let n = 0;
          (n, x) = (if x \<le> 0x0000FFFF then (n + 16, push_bit 16 x) else (n, x));
          (n, x) = (if x \<le> 0x00FFFFFF then (n + 8, push_bit 8 x) else (n, x));
          (n, x) = (if x \<le> 0x0FFFFFFF then (n + 4, push_bit 4 x) else (n, x));
          (n, x) = (if x \<le> 0x3FFFFFFF then (n + 2, push_bit 2 x) else (n, x))
      in if x \<le> 0x7FFFFFFF then n + 1 else n)"

definition udiv64 :: "u64 \<Rightarrow> u64 \<Rightarrow> u64 option" where
  "udiv64 n d =
     (if drop_bit 32 d = 0 then
        let b = push_bit 32 (1 :: u64);
            n1 = ucast (drop_bit 32 n) :: u32;
            n0 = ucast n :: u32;
            d0 = ucast d :: u32
        in if d0 = 0 then None
           else do {
             q \<leftarrow> divl (b * ucast (n1 mod d0) + ucast n0) d0;
             Some (ucast q + b * ucast (n1 div d0))
           }
      else if n < d then Some 0
      else
        let d1 = ucast (drop_bit 32 d) :: u32;
            s = nlz d1
        in do {
             q \<leftarrow> divl (drop_bit 1 n) (ucast (drop_bit 32 (push_bit s d)));
             let q = drop_bit (31 - s) (ucast q :: u64);
             Some (if n - (q - 1) * d < d then q - 1 else q)
           })"

text \<open>The two remainder routines return a 32-bit integer.\<close>

definition umod64 :: "u64 \<Rightarrow> u64 \<Rightarrow> u32 option" where
  "umod64 n d = do { q \<leftarrow> udiv64 n d; Some (ucast (n - d * q)) }"

definition sdiv64 :: "u64 \<Rightarrow> u64 \<Rightarrow> u64 option" where
  "sdiv64 n d =
     (let n_abs = (if 0 \<le> sint n then n else - n);
          d_abs = (if 0 \<le> sint d then d else - d)
      in do {
           q_abs \<leftarrow> udiv64 n_abs d_abs;
           Some (if (sint n < 0) = (sint d < 0) then q_abs else - q_abs)
         })"

definition smod64 :: "u64 \<Rightarrow> u64 \<Rightarrow> u32 option" where
  "smod64 n d = do { q \<leftarrow> sdiv64 n d; Some (ucast (n - d * q)) }"

text \<open>The entry points widen the results to \<open>long long\<close> again.\<close>

definition divdi3 :: "u64 \<Rightarrow> u64 \<Rightarrow> u64 option" where
  "divdi3 n d = sdiv64 n d"

definition moddi3 :: "u64 \<Rightarrow> u64 \<Rightarrow> u64 option" where
  "moddi3 n d = map_option scast (smod64 n d)"

definition udivdi3 :: "u64 \<Rightarrow> u64 \<Rightarrow> u64 option" where
  "udivdi3 n d = udiv64 n d"

definition umoddi3 :: "u64 \<Rightarrow> u64 \<Rightarrow> u64 option" where
  "umoddi3 n d = map_option ucast (umod64 n d)"

section \<open>Leading zeros\<close>

lemma unat_less32: "unat (x :: u32) < 2 ^ 32"
  using unsigned_less [of x] by simp

lemma unat_less64: "unat (x :: u64) < 2 ^ 64"
  using unsigned_less [of x] by simp

lemma unat_push_bit_small:
  "unat (w :: 'a :: len word) * 2 ^ k < 2 ^ LENGTH('a) \<Longrightarrow> unat (push_bit k w) = unat w * 2 ^ k"
  by (subst unsigned_push_bit_eq) (simp add: push_bit_eq_mult take_bit_nat_eq_self)

text \<open>One test of \<open>nlz\<close>, on words and on the natural numbers they stand for.\<close>

definition nlz_step :: "u32 \<Rightarrow> nat \<Rightarrow> nat \<times> u32 \<Rightarrow> nat \<times> u32" where
  "nlz_step b k p = (if snd p \<le> b then (fst p + k, push_bit k (snd p)) else p)"

definition nlz_step_nat :: "nat \<Rightarrow> nat \<Rightarrow> nat \<times> nat \<Rightarrow> nat \<times> nat" where
  "nlz_step_nat b k p = (if snd p \<le> b then (fst p + k, snd p * 2 ^ k) else p)"

lemma nlz_step_unat:
  assumes "unat b * 2 ^ k < 2 ^ 32"
  shows "map_prod id unat (nlz_step b k p) = nlz_step_nat (unat b) k (map_prod id unat p)"
proof -
  have "unat (push_bit k (snd p)) = unat (snd p) * 2 ^ k" if "unat (snd p) \<le> unat b"
  proof -
    have "unat (snd p) * 2 ^ k \<le> unat b * 2 ^ k" using that by (rule mult_le_mono1)
    also note assms
    finally have "unat (snd p) * 2 ^ k < 2 ^ LENGTH(32)" by simp
    then show ?thesis by (rule unat_push_bit_small)
  qed
  then show ?thesis by (cases p) (auto simp: nlz_step_def nlz_step_nat_def word_le_nat_alt)
qed

lemma nlz_unat:
  "nlz x =
     (let p = nlz_step_nat 0x3FFFFFFF 2 (nlz_step_nat 0x0FFFFFFF 4 (nlz_step_nat 0x00FFFFFF 8
                (nlz_step_nat 0x0000FFFF 16 (0, unat x))))
      in if snd p \<le> 0x7FFFFFFF then fst p + 1 else fst p)"
proof -
  let ?p = "nlz_step 0x3FFFFFFF 2 (nlz_step 0x0FFFFFFF 4 (nlz_step 0x00FFFFFF 8
              (nlz_step 0x0000FFFF 16 (0, x))))"
  have "nlz x = (if snd ?p \<le> 0x7FFFFFFF then fst ?p + 1 else fst ?p)"
    unfolding nlz_def nlz_step_def Let_def by (simp add: split_def)
  moreover have eq: "map_prod id unat ?p =
      nlz_step_nat 0x3FFFFFFF 2 (nlz_step_nat 0x0FFFFFFF 4 (nlz_step_nat 0x00FFFFFF 8
        (nlz_step_nat 0x0000FFFF 16 (0, unat x))))" (is "_ = ?q")
    by (simp add: nlz_step_unat)
  have "fst ?p = fst ?q" "unat (snd ?p) = snd ?q"
    unfolding eq [symmetric] by simp_all
  ultimately show ?thesis by (simp add: word_le_nat_alt Let_def)
qed

lemma nlz_bounds:
  assumes "x \<noteq> 0"
  shows "2 ^ 31 \<le> unat x * 2 ^ nlz x" "unat x * 2 ^ nlz x < 2 ^ 32" "nlz x \<le> 31"
proof -
  have "0 < unat x" "unat x < 2 ^ 32" using assms unat_less32 [of x] by (simp_all add: unat_gt_0)
  then show "2 ^ 31 \<le> unat x * 2 ^ nlz x" "unat x * 2 ^ nlz x < 2 ^ 32" "nlz x \<le> 31"
    by (simp_all add: nlz_unat nlz_step_nat_def Let_def)
qed

section \<open>Unsigned division\<close>

lemma div_div_pow: "(n :: nat) div 2 ^ a div 2 ^ b = n div 2 ^ (a + b)"
  by (simp add: div_mult2_eq power_add)

text \<open>
  The estimate behind the second half of \<open>udiv64\<close>: dividing by \<open>d\<close> with its low \<open>32 - s\<close> bits
  cleared gives the quotient or one more.
\<close>

lemma quotient_estimate:
  fixes n d A B e :: nat
  assumes n: "n < 2 ^ 64" and AB: "A * B = 2 ^ 31" and d: "B * 2 ^ 32 \<le> d"
    and e: "e = d div (2 * B) * (2 * B)"
  shows "n div d \<le> n div e" "n div e \<le> n div d + 1"
proof -
  have B: "0 < B" and A: "0 < A" using AB by (cases "B = 0"; cases "A = 0"; simp)+
  have "2 ^ 31 \<le> d div (2 * B)" using d B by (simp add: less_eq_div_iff_mult_less_eq mult_ac)
  then have elow: "B * 2 ^ 32 \<le> e" using e mult_le_mono2 [of "2 ^ 31" "d div (2 * B)" "2 * B"]
    by (simp add: mult_ac)
  have ed: "e \<le> d" unfolding e by simp
  have diff: "d - e \<le> 2 * B - 1"
  proof -
    have "d = e + d mod (2 * B)" unfolding e by (rule div_mult_mod_eq [symmetric])
    moreover have "d mod (2 * B) < 2 * B" using B by simp
    ultimately show ?thesis by linarith
  qed
  have e0: "0 < e" using elow B by (metis gr0I mult_is_0 not_le power_not_zero zero_neq_numeral)
  show "n div d \<le> n div e" using ed e0 by (simp add: div_le_mono2)
  define k where "k = n div d"
  have "k * (B * 2 ^ 32) \<le> k * d" using d by simp
  also have "\<dots> \<le> n" unfolding k_def by simp
  also have "\<dots> < 2 * A * (B * 2 ^ 32)" using n AB by (simp add: algebra_simps)
  finally have k: "k + 1 \<le> 2 * A" using B by simp
  have small: "(k + 1) * (d - e) \<le> e"
  proof -
    have "(k + 1) * (d - e) \<le> 2 * A * (2 * B - 1)" using k diff by (rule mult_le_mono)
    also have "\<dots> = 2 ^ 33 - 2 * A" using AB by (simp add: diff_mult_distrib2 algebra_simps)
    also have "\<dots> \<le> B * 2 ^ 32" using AB B by (cases "B = 1") auto
    finally show ?thesis using elow by simp
  qed
  have "n < (k + 1) * d" unfolding k_def using B d
    by (metis Suc_eq_plus1 dividend_less_div_times mult.commute mult_Suc mult_is_0 neq0_conv not_le power_not_zero zero_neq_numeral le_zero_eq)
  also have "\<dots> = (k + 1) * e + (k + 1) * (d - e)" using ed by (simp flip: add_mult_distrib2)
  also have "\<dots> \<le> (k + 2) * e" using small by simp
  finally have "n div e < k + 2" using e0 by (simp add: div_less_iff_less_mult)
  then show "n div e \<le> n div d + 1" by (simp add: k_def)
qed

lemma unat_drop_bit32: "unat (drop_bit 32 (n :: u64)) = unat n div 2 ^ 32"
  by (simp add: drop_bit_eq_div unat_div)

lemma unat_high: "unat (ucast (drop_bit 32 (n :: u64)) :: u32) = unat n div 2 ^ 32"
proof -
  have "unat n div 2 ^ 32 < 2 ^ 32" using unat_less64 [of n] by (simp add: div_less_iff_less_mult)
  then show ?thesis by (simp add: unsigned_ucast_eq unat_drop_bit32 take_bit_nat_eq_self)
qed

lemma unat_low: "unat (ucast (n :: u64) :: u32) = unat n mod 2 ^ 32"
  by (simp add: unsigned_ucast_eq take_bit_eq_mod)

lemma unat_widen [simp]: "unat (ucast (x :: u32) :: u64) = unat x"
  by (simp add: unsigned_ucast_eq take_bit_nat_eq_self order_less_trans [OF unat_less32])

lemma unat_base_plus:
  assumes "x < 2 ^ 32" "unat y < 2 ^ 32"
  shows "unat (push_bit 32 (1 :: u64) * of_nat x + y) = 2 ^ 32 * x + unat y"
proof -
  have "2 ^ 32 * x + unat y < 2 ^ 64" using assms by simp
  moreover have "push_bit 32 (1 :: u64) * of_nat x + y = of_nat (2 ^ 32 * x + unat y)"
    by (simp add: push_bit_eq_mult)
  ultimately show ?thesis by (simp only: unat_of_nat) simp
qed

lemma divl_Some:
  assumes "d \<noteq> 0" "unat n div unat d < 2 ^ 32"
  shows "\<exists>q. divl n d = Some q \<and> unat q = unat n div unat d"
  using assms by (simp add: divl_def unat_of_nat)

lemma schoolbook_nat:
  fixes n d :: nat
  assumes "0 < d"
  shows "n div d = (2 ^ 32 * (n div 2 ^ 32 mod d) + n mod 2 ^ 32) div d + 2 ^ 32 * (n div 2 ^ 32 div d)"
    and "d \<le> 2 ^ 32 \<Longrightarrow> (2 ^ 32 * (n div 2 ^ 32 mod d) + n mod 2 ^ 32) div d < 2 ^ 32"
proof -
  have "n = 2 ^ 32 * (n div 2 ^ 32) + n mod 2 ^ 32" by (rule mult_div_mod_eq [symmetric])
  also have "n div 2 ^ 32 = d * (n div 2 ^ 32 div d) + n div 2 ^ 32 mod d"
    by (rule mult_div_mod_eq [symmetric])
  finally have "n = (2 ^ 32 * (n div 2 ^ 32 mod d) + n mod 2 ^ 32) + d * (2 ^ 32 * (n div 2 ^ 32 div d))"
    by (simp only: algebra_simps)
  then show "n div d = (2 ^ 32 * (n div 2 ^ 32 mod d) + n mod 2 ^ 32) div d + 2 ^ 32 * (n div 2 ^ 32 div d)"
    using assms by (metis div_mult_self2 add.commute neq0_conv)
next
  have "n div 2 ^ 32 mod d + 1 \<le> d" using assms by (simp add: Suc_leI)
  then have "2 ^ 32 * (n div 2 ^ 32 mod d + 1) \<le> 2 ^ 32 * d" by (rule mult_le_mono2)
  moreover have "n mod 2 ^ 32 < 2 ^ 32" by simp
  moreover have "2 ^ 32 * (n div 2 ^ 32 mod d + 1) = 2 ^ 32 * (n div 2 ^ 32 mod d) + 2 ^ 32" by simp
  ultimately have "2 ^ 32 * (n div 2 ^ 32 mod d) + n mod 2 ^ 32 < 2 ^ 32 * d" by linarith
  then show "(2 ^ 32 * (n div 2 ^ 32 mod d) + n mod 2 ^ 32) div d < 2 ^ 32"
    using assms by (simp add: div_less_iff_less_mult)
qed

lemma udiv64_narrow:
  assumes "drop_bit 32 d = 0" "d \<noteq> 0"
  shows "udiv64 n d = Some (n div d)"
proof -
  define d0 where "d0 = (ucast d :: u32)"
  define n1 where "n1 = (ucast (drop_bit 32 n) :: u32)"
  have D: "unat d < 2 ^ 32" using arg_cong [OF assms(1), of unat]
    by (simp add: unat_drop_bit32 div_eq_0_iff)
  then have d0: "unat d0 = unat d" unfolding d0_def unat_low by simp
  have pos: "0 < unat d" using assms(2) by (simp add: unat_gt_0)
  then have nz: "d0 \<noteq> 0" using d0 by auto
  have n1: "unat n1 = unat n div 2 ^ 32" unfolding n1_def by (rule unat_high)
  have w: "ucast x = of_nat (unat x)" for x :: u32 by simp
  have r: "unat (n1 mod d0) < 2 ^ 32" "unat (n1 div d0) < 2 ^ 32" by (rule unat_less32)+
  have low: "unat (ucast (ucast n :: u32) :: u64) = unat n mod 2 ^ 32" by (simp add: unat_low)
  have "unat (push_bit 32 1 * ucast (n1 mod d0) + ucast (ucast n :: u32) :: u64)
      = 2 ^ 32 * (unat n div 2 ^ 32 mod unat d) + unat n mod 2 ^ 32"
    unfolding w [of "n1 mod d0"] using r
    by (subst unat_base_plus) (simp_all only: low unat_mod n1 d0, simp_all)
  then obtain q where q: "divl (push_bit 32 1 * ucast (n1 mod d0) + ucast (ucast n :: u32)) d0 = Some q"
    and uq: "unat q = (2 ^ 32 * (unat n div 2 ^ 32 mod unat d) + unat n mod 2 ^ 32) div unat d"
    using divl_Some [OF nz] schoolbook_nat(2) [OF pos, of "unat n"] D d0
    by (metis less_imp_le_nat)
  have "unat (push_bit 32 1 * ucast (n1 div d0) + ucast q :: u64) = unat n div unat d"
    unfolding w [of "n1 div d0"] using r unat_less32 [of q]
    by (subst unat_base_plus)
      (simp_all only: unat_widen uq unat_div n1 d0 schoolbook_nat(1) [OF pos, of "unat n"] add.commute)
  then have "push_bit 32 1 * ucast (n1 div d0) + ucast q = n div d"
    by (simp only: word_unat_eq_iff unat_div)
  then show ?thesis using assms(1) nz q
    by (simp only: udiv64_def n1_def d0_def Let_def if_True if_False simp_thms bind.bind_lunit add.commute)
qed

text \<open>The divisor that the second half gives to \<open>divl\<close>, and the quotient it gets.\<close>

lemma shifted_divisor:
  fixes d :: u64
  assumes "drop_bit 32 d \<noteq> 0" and s: "s = nlz (ucast (drop_bit 32 d))"
  shows "s \<le> 31" "2 ^ (31 - s) * 2 ^ 32 \<le> unat d"
    "unat (ucast (drop_bit 32 (push_bit s d)) :: u32) = unat d div (2 * 2 ^ (31 - s))"
proof -
  define d1 where "d1 = unat d div 2 ^ 32"
  have u: "unat (ucast (drop_bit 32 d) :: u32) = d1" unfolding d1_def by (rule unat_high)
  have "d1 \<noteq> 0" using assms(1) unfolding d1_def
    by (metis unat_drop_bit32 unat_eq_zero)
  then have nz: "ucast (drop_bit 32 d) \<noteq> (0 :: u32)" using u by auto
  note b = nlz_bounds [OF nz, folded s, unfolded u]
  show s31: "s \<le> 31" by (fact b(3))
  have p31: "(2 :: nat) ^ 31 = 2 ^ s * 2 ^ (31 - s)" and p32: "(2 :: nat) ^ 32 = 2 ^ s * (2 * 2 ^ (31 - s))"
    using s31 by (simp_all only: flip: power_add power_Suc) simp_all
  have "2 ^ (31 - s) \<le> d1" using b(1) unfolding p31 by (simp only: mult.commute [of d1]) simp
  then have "2 ^ (31 - s) * 2 ^ 32 \<le> d1 * 2 ^ 32" by (rule mult_le_mono1)
  also have "\<dots> \<le> unat d" unfolding d1_def by (rule div_times_less_eq_dividend)
  finally show "2 ^ (31 - s) * 2 ^ 32 \<le> unat d" .
  have "d1 < 2 * 2 ^ (31 - s)" using b(2) unfolding p32 by (simp only: mult.commute [of d1]) simp
  then have "unat d < 2 * 2 ^ (31 - s) * 2 ^ 32"
    unfolding d1_def by (simp add: div_less_iff_less_mult)
  then have "unat d * 2 ^ s < 2 ^ s * (2 * 2 ^ (31 - s)) * 2 ^ 32"
    by (simp only: mult.commute [of "unat d"] mult.assoc) simp
  then have small: "unat d * 2 ^ s < 2 ^ 64" unfolding p32 [symmetric] by simp
  then have "unat (push_bit s d) = unat d * 2 ^ s" using unat_push_bit_small [of d s] by simp
  then show "unat (ucast (drop_bit 32 (push_bit s d)) :: u32) = unat d div (2 * 2 ^ (31 - s))"
    unfolding unat_high by (simp only: p32) (simp add: mult.commute [of "unat d"])
qed

lemma correction_step:
  fixes n d q :: u64
  assumes "d \<noteq> 0" "d \<le> n" "unat n div unat d \<le> unat q" "unat q \<le> unat n div unat d + 1"
  shows "(if n - (q - 1) * d < d then q - 1 else q) = n div d"
proof -
  define k where "k = unat n div unat d"
  have D: "0 < unat d" "unat d \<le> unat n" using assms by (simp_all add: unat_gt_0 word_le_nat_alt)
  then have k: "1 \<le> k" unfolding k_def by (simp add: Suc_le_eq div_greater_zero_iff)
  have kq: "k \<le> unat q" "unat q \<le> k + 1" using assms by (simp_all add: k_def)
  have q1: "unat (q - 1) = unat q - 1" using k kq
    by (metis One_nat_def le_trans unat_1 unat_sub word_le_nat_alt)
  have kd: "k * unat d \<le> unat n" "unat n < k * unat d + unat d" unfolding k_def using dividend_less_div_times [OF D(1), of "unat n"]
    by simp_all
  have le: "unat (q - 1) * unat d \<le> k * unat d" using kq q1 by (intro mult_le_mono1) simp
  then have "unat (q - 1) * unat d < 2 ^ 64" using kd(1) unat_less64 [of n] by linarith
  then have "unat (q - 1) * unat d < 2 ^ LENGTH(64)" by simp
  then have "unat ((q - 1) * d) = unat (q - 1) * unat d" by (simp only: unat_mult_lem)
  then have diff: "unat (n - (q - 1) * d) = unat n - (unat q - 1) * unat d"
    using order_trans [OF le kd(1)] q1 by (subst unat_sub) (simp_all only: word_le_nat_alt)
  have "unat (if n - (q - 1) * d < d then q - 1 else q) = k"
  proof (cases "unat q = k")
    case True
    have "unat n - (k - 1) * unat d \<ge> unat d" using kd(1) k by (cases k) simp_all
    then show ?thesis using True diff by (simp add: word_less_nat_alt)
  next
    case False
    then have "unat q = k + 1" using kq by simp
    then show ?thesis using diff q1 kd by (simp add: word_less_nat_alt)
  qed
  then show ?thesis by (simp only: word_unat_eq_iff unat_div k_def)
qed

lemma udiv64_wide:
  assumes "drop_bit 32 d \<noteq> 0"
  shows "udiv64 n d = Some (n div d)"
proof (cases "n < d")
  case True
  then show ?thesis using assms by (simp add: udiv64_def word_unat_eq_iff unat_div word_less_nat_alt)
next
  case False
  define s where "s = nlz (ucast (drop_bit 32 d))"
  define B :: nat where "B = 2 ^ (31 - s)"
  define d' where "d' = (ucast (drop_bit 32 (push_bit s d)) :: u32)"
  note sd = shifted_divisor [OF assms s_def, folded B_def d'_def]
  have AB: "2 ^ s * B = 2 ^ 31" unfolding B_def using sd(1) by (simp flip: power_add)
  note est = quotient_estimate [OF unat_less64 AB sd(2) refl, of n]
  have d'31: "2 ^ 31 \<le> unat d'" using sd(2) by (simp add: sd(3) B_def less_eq_div_iff_mult_less_eq)
  have "unat n div 2 div unat d' < 2 ^ 32"
  proof -
    have "unat n div 2 < 2 ^ 32 * 2 ^ 31" using unat_less64 [of n] by simp
    also have "\<dots> \<le> 2 ^ 32 * unat d'" using d'31 by simp
    finally show ?thesis using d'31 by (simp add: div_less_iff_less_mult)
  qed
  moreover have "unat (drop_bit 1 n) = unat n div 2" by (simp add: drop_bit_eq_div unat_div)
  moreover have "d' \<noteq> 0" using d'31 by auto
  ultimately obtain q where q: "divl (drop_bit 1 n) d' = Some q" "unat q = unat n div 2 div unat d'"
    using divl_Some by metis
  define q' where "q' = drop_bit (31 - s) (ucast q :: u64)"
  have "unat q' = unat n div 2 div unat d' div B"
    unfolding q'_def B_def by (simp only: unat_drop_bit_eq unat_widen q(2) drop_bit_eq_div [where 'a = nat])
  also have "\<dots> = unat n div (unat d div (2 * B) * (2 * B))"
    unfolding sd(3) by (simp only: div_mult2_eq [symmetric] mult_ac)
  finally have q': "unat n div unat d \<le> unat q'" "unat q' \<le> unat n div unat d + 1"
    using est by simp_all
  have "d \<noteq> 0" "d \<le> n" using assms False by auto
  note step = correction_step [OF this q']
  have "udiv64 n d = Some (if n - (q' - 1) * d < d then q' - 1 else q')"
    using assms False q(1) by (simp add: udiv64_def Let_def flip: s_def d'_def q'_def)
  then show ?thesis by (simp only: step)
qed

lemma udiv64_nonzero:
  assumes "d \<noteq> 0"
  shows "udiv64 n d = Some (n div d)"
  using assms by (cases "drop_bit 32 d = 0") (simp_all add: udiv64_narrow udiv64_wide)

lemma udiv64_zero: "udiv64 n 0 = None"
  by (simp add: udiv64_def)

text \<open>C9. For a nonzero divisor \<open>udiv64\<close> returns the exact 64-bit quotient: none of its \<open>DIVL\<close>
  instructions traps, and the shift-and-correct path is exact.  For divisor zero it traps.\<close>

theorem udiv64_correct:
  "udiv64 n d = (if d = 0 then None else Some (n div d))"
  by (simp add: udiv64_nonzero udiv64_zero)

section \<open>Signed division and remainders\<close>

lemma sint_cases64:
  fixes x :: u64
  shows "sint x = uint x - (if bit x 63 then 2 ^ 64 else 0)"
proof -
  have "take_bit 64 (uint x) = uint x" 
    using uint_lt2p [of x] by (intro take_bit_int_eq_self) simp_all
  then show ?thesis
    unfolding sint_uint signed_take_bit_eq_take_bit_minus by (simp add: bit_uint_iff)
qed

lemma uint_magnitude:
  fixes x :: u64
  shows "uint (if 0 \<le> sint x then x else - x) = \<bar>sint x\<bar>"
proof -
  have u: "0 \<le> uint x" "uint x < 2 ^ 64" using uint_lt2p [of x] by simp_all
  show ?thesis
  proof (cases "bit x 63")
    case True
    then have s: "sint x = uint x - 2 ^ 64" by (simp add: sint_cases64)
    then have neg: "sint x < 0" using u by simp
    have "(- uint x) mod 2 ^ 64 = (2 ^ 64 - uint x) mod 2 ^ 64" by (simp add: mod_diff_left_eq)
    also have "\<dots> = 2 ^ 64 - uint x"
    proof (rule mod_pos_pos_trivial)
      have "x \<noteq> 0" using True by auto
      then have "0 < uint x" using u(1) by (metis le_less uint_0_iff)
      then show "2 ^ 64 - uint x < 2 ^ 64" by simp
    qed (use u in simp)
    finally show ?thesis using neg s by (simp add: uint_word_ariths)
  next
    case False
    then show ?thesis using u by (simp add: sint_cases64)
  qed
qed

lemma word_of_int_magnitude:
  fixes x y :: u64
  shows "(if 0 \<le> sint x then x else - x) div (if 0 \<le> sint y then y else - y)
    = word_of_int (\<bar>sint x\<bar> div \<bar>sint y\<bar>)"
  unfolding uint_magnitude [symmetric] by (simp only: word_div_def)

lemma sdiv_by_sign:
  fixes n d :: int
  assumes "d \<noteq> 0"
  shows "n sdiv d = (if (n < 0) = (d < 0) then \<bar>n\<bar> div \<bar>d\<bar> else - (\<bar>n\<bar> div \<bar>d\<bar>))"
proof (cases "n = 0")
  case False
  then show ?thesis using assms by (cases "n < 0"; cases "d < 0") (simp_all add: signed_divide_int_def)
qed (simp add: signed_divide_int_def)

lemma sdiv64_nonzero:
  assumes "d \<noteq> 0"
  shows "sdiv64 n d = Some (word_of_int (sint n sdiv sint d))"
proof -
  let ?m = "\<lambda>x :: u64. if 0 \<le> sint x then x else - x"
  have nz: "?m d \<noteq> 0" using assms by auto
  then have nz': "sint d \<noteq> 0" using uint_magnitude [of d] by (metis abs_zero uint_0_iff)
  have "sdiv64 n d = Some (if (sint n < 0) = (sint d < 0) then ?m n div ?m d else - (?m n div ?m d))"
    unfolding sdiv64_def Let_def udiv64_nonzero [OF nz] by simp
  also have "\<dots> = Some (word_of_int (sint n sdiv sint d))"
    unfolding word_of_int_magnitude sdiv_by_sign [OF nz'] by simp
  finally show ?thesis .
qed

text \<open>\<open>sdiv64\<close> truncates towards zero like C's \<open>/\<close>, modulo \<open>2^64\<close>, for every nonzero divisor
  of either sign, and traps on zero.\<close>

theorem sdiv64_correct:
  "sdiv64 n d = (if d = 0 then None else Some (word_of_int (sint n sdiv sint d)))"
  by (simp add: sdiv64_nonzero) (simp add: sdiv64_def udiv64_zero)

lemma umod64_eq:
  assumes "d \<noteq> 0"
  shows "umod64 n d = Some (ucast (n mod d))"
  by (simp add: umod64_def udiv64_nonzero [OF assms] minus_mult_div_eq_mod)

lemma ucast_round_trip:
  fixes w :: u64
  shows "ucast (ucast w :: u32) = w \<longleftrightarrow> w < 2 ^ 32"
proof -
  have "ucast (ucast w :: u32) = w \<longleftrightarrow> unat w mod 2 ^ 32 = unat w"
    by (simp only: word_unat_eq_iff unat_widen unat_low)
  also have "\<dots> \<longleftrightarrow> unat w < 2 ^ 32" by (metis mod_less mod_less_divisor zero_less_numeral zero_less_power)
  also have "\<dots> \<longleftrightarrow> w < 2 ^ 32" by (simp add: word_less_nat_alt)
  finally show ?thesis .
qed

text \<open>\<open>__umoddi3\<close> goes through a 32-bit result: it returns the remainder exactly when the
  remainder fits in 32 bits, so in particular for every divisor up to \<open>2^32\<close>.\<close>

theorem umoddi3_correct_iff:
  "umoddi3 n d = Some (n mod d) \<longleftrightarrow> d \<noteq> 0 \<and> n mod d < 2 ^ 32"
proof (cases "d = 0")
  case True
  then show ?thesis by (simp add: umoddi3_def umod64_def udiv64_zero)
next
  case False
  then show ?thesis 
    unfolding umoddi3_def umod64_eq [OF False] by (simp only: option.map option.inject ucast_round_trip) simp
qed

end
