(* ===== verification/Pintos_Kernel.thy ===== *)
theory Pintos_Kernel
  imports Pintos_Order
begin

text \<open>
  The state of the threads kernel: the structures of \<open>threads/thread.h\<close>, \<open>threads/synch.h\<close> and
  \<open>userprog/process.h\<close>, the static variables of \<open>thread.c\<close>, \<open>interrupt.c\<close> and \<open>timer.c\<close>, and the
  interrupt flag (\<open>threads/interrupt.c\<close>).

  A \<open>struct list\<close> of these files is the sequence of its elements; that the pointer-level list
  operations have this meaning is shown in the theories on lists.  A thread is named by the
  address of its page.  A call that may switch threads leaves the rest of its caller's body on the
  kernel stack; a \<open>frame\<close> is such a rest, and \<open>frames\<close> holds the kernel stack of every thread.
\<close>

section \<open>Structures\<close>

type_synonym tptr = nat

type_synonym lptr = nat

type_synonym pptr = nat

datatype intr_level = INTR_OFF | INTR_ON

datatype thread_status = THREAD_RUNNING | THREAD_READY | THREAD_BLOCKED | THREAD_DYING

record semaphore =
  sem_value :: u32
  sem_waiters :: "tptr list"

record lock =
  holder :: "tptr option"
  lock_sema :: semaphore
  max_priority :: int

text \<open>Semaphores stand alone or inside a lock or a process node.\<close>

datatype sptr = Sema nat | Lock_sema lptr | Pnode_sema pptr

record semaphore_elem =
  se_sema :: sptr
  se_priority :: int

record condition =
  cond_waiters :: "semaphore_elem list"

record pnode =
  pid :: int
  pn_sema :: semaphore
  exit_status :: int

record fnode =
  fn_fd :: int
  fn_file_ptr :: nat
  fn_file_lock :: lptr

record thread =
  tid :: int
  status :: thread_status
  name :: string
  stack :: nat
  priority :: int
  wakeup_time :: int
  lock_list :: "lptr list"
  instrinsic_priority :: int
  waiting_lock :: "lptr option"
  pagedir :: "nat option"
  pn :: "pptr option"
  child_list :: "pptr list"
  file_list :: "fnode list"
  next_fd :: int
  cwd :: u32
  magic :: u32

text \<open>The thread functions: the idle loop with its start semaphore, or any other.\<close>

datatype thread_func = Fn_idle sptr | Fn_other nat

text \<open>The two callers of \<open>allocate_tid\<close>: \<open>thread_init\<close>, and \<open>thread_create\<close> with its new thread, the
  thread's function and the process node it got from \<open>malloc\<close>.\<close>

datatype tid_user = For_init | For_create tptr thread_func "pptr option"

text \<open>What a thread still has to do when a call it is in returns to it.\<close>

datatype frame =
    F_yield intr_level
  | F_sleep intr_level
  | F_idle_halt
  | F_kernel_thread thread_func
  | F_body
  | F_idle_loop
  | F_tid_acquired tid_user
  | F_tid_released tid_user int
  | F_start sptr
  | F_process_exit
  | F_free_file fnode
  | F_exit
  | F_sema_down sptr intr_level
  | F_lock_acquire lptr intr_level
  | F_lock_release lptr intr_level
  | F_cond_wait_down sptr lptr
  | F_cond_wait_acquire lptr
  | F_broadcast nat lptr
  | F_process_wait pptr
  | F_intr_return

record kernel =
  threads :: "tptr \<Rightarrow> thread option"
  locks :: "lptr \<Rightarrow> lock option"
  semas :: "nat \<Rightarrow> semaphore option"
  conds :: "nat \<Rightarrow> condition option"
  pnodes :: "pptr \<Rightarrow> pnode option"
  frames :: "tptr \<Rightarrow> frame list"
  eax :: "tptr \<Rightarrow> int"
  ready_list :: "tptr list"
  sleep_list :: "tptr list"
  all_list :: "tptr list"
  idle_thread :: "tptr option"
  initial_thread :: "tptr option"
  running :: tptr
  level :: intr_level
  in_external_intr :: bool
  yield_on_return :: bool
  enable_yield :: bool
  next_tid :: int
  idle_ticks :: u64
  kernel_ticks :: u64
  user_ticks :: u64
  thread_ticks :: u32
  ticks :: int
  cr3 :: "nat option"
  esp0 :: nat

section \<open>Constants\<close>

definition PRI_MIN :: int where "PRI_MIN = 0"

definition PRI_DEFAULT :: int where "PRI_DEFAULT = 31"

definition PRI_MAX :: int where "PRI_MAX = 63"

definition THREAD_MAGIC :: u32 where "THREAD_MAGIC = 0xcd6abf4b"

definition TIME_SLICE :: u32 where "TIME_SLICE = 4"

definition TID_ERROR :: int where "TID_ERROR = - 1"

definition PGSIZE :: nat where "PGSIZE = 4096"

text \<open>The lock that protects the next thread identifier.\<close>

definition tid_lock :: lptr where "tid_lock = 0"

section \<open>Access to the store\<close>

text \<open>Every access through a pointer fails when nothing is allocated there.\<close>

definition upd_thread :: "tptr \<Rightarrow> (thread \<Rightarrow> thread) \<Rightarrow> kernel \<Rightarrow> kernel option" where
  "upd_thread t f k = do { th \<leftarrow> threads k t; Some (k\<lparr>threads := (threads k)(t \<mapsto> f th)\<rparr>) }"

definition upd_lock :: "lptr \<Rightarrow> (lock \<Rightarrow> lock) \<Rightarrow> kernel \<Rightarrow> kernel option" where
  "upd_lock l f k = do { lk \<leftarrow> locks k l; Some (k\<lparr>locks := (locks k)(l \<mapsto> f lk)\<rparr>) }"

fun get_sema :: "sptr \<Rightarrow> kernel \<Rightarrow> semaphore option" where
  "get_sema (Sema s) k = semas k s"
| "get_sema (Lock_sema l) k = map_option lock_sema (locks k l)"
| "get_sema (Pnode_sema p) k = map_option pn_sema (pnodes k p)"

fun set_sema :: "sptr \<Rightarrow> semaphore \<Rightarrow> kernel \<Rightarrow> kernel option" where
  "set_sema (Sema s) v k = Some (k\<lparr>semas := (semas k)(s \<mapsto> v)\<rparr>)"
| "set_sema (Lock_sema l) v k = upd_lock l (\<lambda>lk. lk\<lparr>lock_sema := v\<rparr>) k"
| "set_sema (Pnode_sema p) v k =
     do { n \<leftarrow> pnodes k p; Some (k\<lparr>pnodes := (pnodes k)(p \<mapsto> n\<lparr>pn_sema := v\<rparr>)\<rparr>) }"

definition push_frame :: "frame \<Rightarrow> kernel \<Rightarrow> kernel" where
  "push_frame f k = k\<lparr>frames := (frames k)(running k := f # frames k (running k))\<rparr>"

definition pop_frame :: "kernel \<Rightarrow> kernel" where
  "pop_frame k = k\<lparr>frames := (frames k)(running k := tl (frames k (running k)))\<rparr>"

text \<open>The value a call returns to the running thread.\<close>

definition return :: "int \<Rightarrow> kernel \<Rightarrow> kernel" where
  "return v k = k\<lparr>eax := (eax k)(running k := v)\<rparr>"

section \<open>Interrupt level\<close>

definition intr_get_level :: "kernel \<Rightarrow> intr_level" where
  "intr_get_level k = level k"

definition intr_context :: "kernel \<Rightarrow> bool" where
  "intr_context k = in_external_intr k"

definition intr_enable :: "kernel \<Rightarrow> kernel option" where
  "intr_enable k = do { ASSERT (\<not> intr_context k); Some (k\<lparr>level := INTR_ON\<rparr>) }"

definition intr_disable :: "kernel \<Rightarrow> kernel" where
  "intr_disable k = k\<lparr>level := INTR_OFF\<rparr>"

definition intr_set_level :: "intr_level \<Rightarrow> kernel \<Rightarrow> kernel option" where
  "intr_set_level l k = (if l = INTR_ON then intr_enable k else Some (intr_disable k))"

definition intr_yield_on_return :: "kernel \<Rightarrow> kernel option" where
  "intr_yield_on_return k = do { ASSERT (intr_context k); Some (k\<lparr>yield_on_return := True\<rparr>) }"

end
