(* ===== verification/Pintos_Thread.thy ===== *)
theory Pintos_Thread
  imports Pintos_Kernel
begin

text \<open>
  The scheduler of \<open>threads/thread.c\<close>: blocking, unblocking, yielding and switching threads, the
  sleep queue, and the propagation of donated priorities.
\<close>

section \<open>Operations\<close>

definition is_thread :: "kernel \<Rightarrow> tptr \<Rightarrow> bool" where
  "is_thread k t = (case threads k t of None \<Rightarrow> False | Some th \<Rightarrow> magic th = THREAD_MAGIC)"

definition running_thread :: "kernel \<Rightarrow> tptr" where
  "running_thread k = running k"

definition thread_current :: "kernel \<Rightarrow> tptr option" where
  "thread_current k = do {
     let t = running_thread k;
     ASSERT (is_thread k t);
     th \<leftarrow> threads k t;
     ASSERT (status th = THREAD_RUNNING);
     Some t
   }"

definition thread_tid :: "kernel \<Rightarrow> int option" where
  "thread_tid k = do { t \<leftarrow> thread_current k; th \<leftarrow> threads k t; Some (tid th) }"

definition thread_name :: "kernel \<Rightarrow> string option" where
  "thread_name k = do { t \<leftarrow> thread_current k; th \<leftarrow> threads k t; Some (name th) }"

definition thread_get_priority :: "kernel \<Rightarrow> int option" where
  "thread_get_priority k = do { t \<leftarrow> thread_current k; th \<leftarrow> threads k t; Some (priority th) }"

subsection \<open>Comparisons of list elements\<close>

definition sleep_aux :: "thread \<Rightarrow> thread \<Rightarrow> bool" where
  "sleep_aux left right \<longleftrightarrow> wakeup_time left < wakeup_time right"

definition lock_priority_aux :: "lock \<Rightarrow> lock \<Rightarrow> bool" where
  "lock_priority_aux left right \<longleftrightarrow> max_priority left < max_priority right"

definition thread_priority_aux :: "thread \<Rightarrow> thread \<Rightarrow> bool" where
  "thread_priority_aux left right \<longleftrightarrow> priority left < priority right"

text \<open>The callers check that every element of the list is allocated before comparing.\<close>

definition less_sleep :: "kernel \<Rightarrow> tptr \<Rightarrow> tptr \<Rightarrow> bool" where
  "less_sleep k left right = sleep_aux (the (threads k left)) (the (threads k right))"

definition less_lock_priority :: "kernel \<Rightarrow> lptr \<Rightarrow> lptr \<Rightarrow> bool" where
  "less_lock_priority k left right = lock_priority_aux (the (locks k left)) (the (locks k right))"

definition less_thread_priority :: "kernel \<Rightarrow> tptr \<Rightarrow> tptr \<Rightarrow> bool" where
  "less_thread_priority k left right =
     thread_priority_aux (the (threads k left)) (the (threads k right))"

definition threads_ok :: "kernel \<Rightarrow> tptr list \<Rightarrow> bool" where
  "threads_ok k ts = list_all (\<lambda>t. threads k t \<noteq> None) ts"

definition locks_ok :: "kernel \<Rightarrow> lptr list \<Rightarrow> bool" where
  "locks_ok k ls = list_all (\<lambda>l. locks k l \<noteq> None) ls"

subsection \<open>Switching\<close>

definition next_thread_to_run :: "kernel \<Rightarrow> (tptr option \<times> kernel) option" where
  "next_thread_to_run k =
     (if ready_list k = [] then Some (idle_thread k, k)
      else do {
        ASSERT (threads_ok k (ready_list k));
        let t = max_elem (less_thread_priority k) (ready_list k);
        Some (Some t, k\<lparr>ready_list := remove1 t (ready_list k)\<rparr>)
      })"

definition process_activate :: "kernel \<Rightarrow> kernel option" where
  "process_activate k = do {
     t \<leftarrow> thread_current k;
     th \<leftarrow> threads k t;
     let k = k\<lparr>cr3 := pagedir th\<rparr>;
     t \<leftarrow> thread_current k;
     Some (k\<lparr>esp0 := t + PGSIZE\<rparr>)
   }"

text \<open>The page of a dying thread holds its structure and its kernel stack; both go with it.\<close>

definition thread_schedule_tail :: "tptr option \<Rightarrow> kernel \<Rightarrow> kernel option" where
  "thread_schedule_tail prev k = do {
     let cur = running_thread k;
     ASSERT (intr_get_level k = INTR_OFF);
     k \<leftarrow> upd_thread cur (\<lambda>th. th\<lparr>status := THREAD_RUNNING\<rparr>) k;
     let k = k\<lparr>thread_ticks := 0\<rparr>;
     k \<leftarrow> process_activate k;
     (case prev of
        None \<Rightarrow> Some k
      | Some p \<Rightarrow> do {
          pt \<leftarrow> threads k p;
          if status pt = THREAD_DYING \<and> initial_thread k \<noteq> Some p
          then do {
            ASSERT (p \<noteq> cur);
            Some (k\<lparr>threads := (threads k)(p := None), frames := (frames k)(p := [])\<rparr>)
          }
          else Some k
        })
   }"

definition schedule :: "kernel \<Rightarrow> kernel option" where
  "schedule k = do {
     let cur = running_thread k;
     (next', k) \<leftarrow> next_thread_to_run k;
     ASSERT (intr_get_level k = INTR_OFF);
     th \<leftarrow> threads k cur;
     ASSERT (status th \<noteq> THREAD_RUNNING);
     n \<leftarrow> next';
     ASSERT (is_thread k n);
     if cur \<noteq> n then thread_schedule_tail (Some cur) (k\<lparr>running := n\<rparr>)
     else thread_schedule_tail None k
   }"

definition thread_block :: "kernel \<Rightarrow> kernel option" where
  "thread_block k = do {
     ASSERT (\<not> intr_context k);
     ASSERT (intr_get_level k = INTR_OFF);
     t \<leftarrow> thread_current k;
     k \<leftarrow> upd_thread t (\<lambda>th. th\<lparr>status := THREAD_BLOCKED\<rparr>) k;
     schedule k
   }"

definition thread_unblock :: "tptr \<Rightarrow> kernel \<Rightarrow> kernel option" where
  "thread_unblock t k = do {
     ASSERT (is_thread k t);
     let old_level = intr_get_level k;
     let k = intr_disable k;
     th \<leftarrow> threads k t;
     ASSERT (status th = THREAD_BLOCKED);
     let k = k\<lparr>ready_list := ready_list k @ [t]\<rparr>;
     k \<leftarrow> upd_thread t (\<lambda>th. th\<lparr>status := THREAD_READY\<rparr>) k;
     intr_set_level old_level k
   }"

definition thread_yield :: "kernel \<Rightarrow> kernel option" where
  "thread_yield k =
     (if \<not> enable_yield k then Some k
      else do {
        cur \<leftarrow> thread_current k;
        ASSERT (\<not> intr_context k);
        let old_level = intr_get_level k;
        let k = intr_disable k;
        let k = (if idle_thread k \<noteq> Some cur then k\<lparr>ready_list := ready_list k @ [cur]\<rparr> else k);
        k \<leftarrow> upd_thread cur (\<lambda>th. th\<lparr>status := THREAD_READY\<rparr>) k;
        schedule (push_frame (F_yield old_level) k)
      })"

subsection \<open>Time\<close>

definition thread_tick :: "kernel \<Rightarrow> kernel option" where
  "thread_tick k = do {
     t \<leftarrow> thread_current k;
     th \<leftarrow> threads k t;
     let k = (if idle_thread k = Some t then k\<lparr>idle_ticks := idle_ticks k + 1\<rparr>
              else if pagedir th \<noteq> None then k\<lparr>user_ticks := user_ticks k + 1\<rparr>
              else k\<lparr>kernel_ticks := kernel_ticks k + 1\<rparr>);
     let k = k\<lparr>thread_ticks := thread_ticks k + 1\<rparr>;
     if TIME_SLICE \<le> thread_ticks k then intr_yield_on_return k else Some k
   }"

definition thread_sleep :: "int \<Rightarrow> kernel \<Rightarrow> kernel option" where
  "thread_sleep wakeup k = do {
     let old_level = intr_get_level k;
     let k = intr_disable k;
     t \<leftarrow> thread_current k;
     k \<leftarrow> upd_thread t (\<lambda>th. th\<lparr>wakeup_time := wakeup\<rparr>) k;
     ASSERT (threads_ok k (sleep_list k));
     let k = k\<lparr>sleep_list := insert_ordered (less_sleep k) t (sleep_list k)\<rparr>;
     thread_block (push_frame (F_sleep old_level) k)
   }"

lemma intr_set_level_lists [simp]:
  "intr_set_level l k = Some k' \<Longrightarrow> ready_list k' = ready_list k \<and> sleep_list k' = sleep_list k"
  by (auto simp: intr_set_level_def intr_enable_def intr_disable_def ASSERT_bind split: if_splits)

lemma thread_unblock_sleep_list:
  "thread_unblock t k = Some k' \<Longrightarrow> sleep_list k' = sleep_list k"
  by (auto simp: thread_unblock_def upd_thread_def ASSERT_bind Let_def bind_eq_Some_conv intr_disable_def
      dest!: intr_set_level_lists split: if_splits)

function thread_alarm :: "int \<Rightarrow> kernel \<Rightarrow> kernel option" where
  "thread_alarm cur_ticks k =
     (case sleep_list k of
        [] \<Rightarrow> Some k
      | t # rest \<Rightarrow> do {
          th \<leftarrow> threads k t;
          if wakeup_time th \<le> cur_ticks then do {
            k' \<leftarrow> thread_unblock t (k\<lparr>sleep_list := rest\<rparr>);
            thread_alarm cur_ticks k'
          }
          else Some k
        })"
  by pat_completeness auto
termination
  by (relation "measure (\<lambda>(_, k). length (sleep_list k))") (auto dest: thread_unblock_sleep_list)

declare thread_alarm.simps [simp del]

subsection \<open>Priorities\<close>

definition adjust_priority :: "tptr \<Rightarrow> kernel \<Rightarrow> kernel option" where
  "adjust_priority t k = do {
     th \<leftarrow> threads k t;
     if lock_list th \<noteq> [] then do {
       ASSERT (locks_ok k (lock_list th));
       let max_lock = max_elem (less_lock_priority k) (lock_list th);
       lk \<leftarrow> locks k max_lock;
       if instrinsic_priority th < max_priority lk
       then upd_thread t (\<lambda>th. th\<lparr>priority := max_priority lk\<rparr>) k
       else Some k
     }
     else upd_thread t (\<lambda>th. th\<lparr>priority := instrinsic_priority th\<rparr>) k
   }"

partial_function (option) flush_priority :: "tptr \<Rightarrow> kernel \<Rightarrow> kernel option" where
  "flush_priority t k = do {
     th \<leftarrow> threads k t;
     case waiting_lock th of
       None \<Rightarrow> Some k
     | Some l \<Rightarrow> do {
         lk \<leftarrow> locks k l;
         if max_priority lk < priority th then do {
           k \<leftarrow> upd_lock l (\<lambda>lk. lk\<lparr>max_priority := priority th\<rparr>) k;
           case holder lk of
             None \<Rightarrow> Some k
           | Some h \<Rightarrow> do { k \<leftarrow> adjust_priority h k; flush_priority h k }
         }
         else Some k
       }
   }"

declare flush_priority.simps [code]

definition thread_set_priority :: "int \<Rightarrow> kernel \<Rightarrow> kernel option" where
  "thread_set_priority new_priority k = do {
     let old_level = intr_get_level k;
     let k = intr_disable k;
     t \<leftarrow> thread_current k;
     k \<leftarrow> upd_thread t (\<lambda>th. th\<lparr>instrinsic_priority := new_priority\<rparr>) k;
     k \<leftarrow> adjust_priority t k;
     k \<leftarrow> intr_set_level old_level k;
     thread_yield k
   }"

definition switch_yield :: "bool \<Rightarrow> kernel \<Rightarrow> kernel" where
  "switch_yield tag k = k\<lparr>enable_yield := tag\<rparr>"

definition thread_set_nice :: "int \<Rightarrow> kernel \<Rightarrow> kernel" where
  "thread_set_nice nice k = k"

definition thread_get_nice :: "kernel \<Rightarrow> int" where
  "thread_get_nice k = 0"

definition thread_get_load_avg :: "kernel \<Rightarrow> int" where
  "thread_get_load_avg k = 0"

definition thread_get_recent_cpu :: "kernel \<Rightarrow> int" where
  "thread_get_recent_cpu k = 0"

text \<open>The condition of the loop is an assignment: its value is the sector, and every thread visited
  gets that working directory.\<close>

fun contain_cwd_loop :: "u32 \<Rightarrow> tptr list \<Rightarrow> kernel \<Rightarrow> (bool \<times> kernel) option" where
  "contain_cwd_loop sector [] k = Some (False, k)"
| "contain_cwd_loop sector (t # ts) k = do {
     k \<leftarrow> upd_thread t (\<lambda>th. th\<lparr>cwd := sector\<rparr>) k;
     if sector \<noteq> 0 then Some (True, k) else contain_cwd_loop sector ts k
   }"

definition thread_contain_cwd :: "u32 \<Rightarrow> kernel \<Rightarrow> (bool \<times> kernel) option" where
  "thread_contain_cwd sector k = do {
     let old_level = intr_get_level k;
     let k = intr_disable k;
     (contain, k) \<leftarrow> contain_cwd_loop sector (all_list k) k;
     k \<leftarrow> intr_set_level old_level k;
     Some (contain, k)
   }"

text \<open>\<open>thread_foreach\<close> applies an action to every thread; the action may not change the list.\<close>

fun foreach_loop :: "(tptr \<Rightarrow> kernel \<Rightarrow> kernel option) \<Rightarrow> tptr list \<Rightarrow> kernel \<Rightarrow> kernel option" where
  "foreach_loop func [] k = Some k"
| "foreach_loop func (t # ts) k = do { k \<leftarrow> func t k; foreach_loop func ts k }"

definition thread_foreach :: "(tptr \<Rightarrow> kernel \<Rightarrow> kernel option) \<Rightarrow> kernel \<Rightarrow> kernel option" where
  "thread_foreach func k = do {
     ASSERT (intr_get_level k = INTR_OFF);
     foreach_loop func (all_list k) k
   }"

end
