(* ===== verification/Pintos_Synch.thy ===== *)
theory Pintos_Synch
  imports Pintos_Thread
begin

text \<open>
  Semaphores, locks with priority donation and condition variables of \<open>threads/synch.c\<close>.  The part
  of an operation after a call that may switch threads is a definition of its own, named after the
  frame that runs it.
\<close>

section \<open>Semaphores\<close>

definition sema_init :: "sptr \<Rightarrow> u32 \<Rightarrow> kernel \<Rightarrow> kernel option" where
  "sema_init s v k = set_sema s \<lparr>sem_value = v, sem_waiters = []\<rparr> k"

text \<open>The loop of \<open>sema_down\<close>, run at the call and again each time the thread is woken.\<close>

definition sema_down_loop :: "sptr \<Rightarrow> intr_level \<Rightarrow> kernel \<Rightarrow> kernel option" where
  "sema_down_loop s old_level k = do {
     sema \<leftarrow> get_sema s k;
     if sem_value sema = 0 then do {
       t \<leftarrow> thread_current k;
       k \<leftarrow> set_sema s (sema\<lparr>sem_waiters := sem_waiters sema @ [t]\<rparr>) k;
       thread_block (push_frame (F_sema_down s old_level) k)
     }
     else do {
       k \<leftarrow> set_sema s (sema\<lparr>sem_value := sem_value sema - 1\<rparr>) k;
       intr_set_level old_level k
     }
   }"

definition sema_down :: "sptr \<Rightarrow> kernel \<Rightarrow> kernel option" where
  "sema_down s k = do {
     ASSERT (\<not> intr_context k);
     let old_level = intr_get_level k;
     sema_down_loop s old_level (intr_disable k)
   }"

definition sema_try_down :: "sptr \<Rightarrow> kernel \<Rightarrow> (bool \<times> kernel) option" where
  "sema_try_down s k = do {
     let old_level = intr_get_level k;
     let k = intr_disable k;
     sema \<leftarrow> get_sema s k;
     (success, k) \<leftarrow> (if 0 < sem_value sema
        then do {
          k \<leftarrow> set_sema s (sema\<lparr>sem_value := sem_value sema - 1\<rparr>) k;
          Some (True, k)
        }
        else Some (False, k));
     k \<leftarrow> intr_set_level old_level k;
     Some (success, k)
   }"

text \<open>The first half of \<open>sema_up\<close>, with interrupts off: wake the first waiter of highest priority.\<close>

definition sema_wake :: "sptr \<Rightarrow> kernel \<Rightarrow> kernel option" where
  "sema_wake s k = do {
     sema \<leftarrow> get_sema s k;
     if sem_waiters sema = [] then Some k
     else do {
       ASSERT (threads_ok k (sem_waiters sema));
       let t = max_elem (less_thread_priority k) (sem_waiters sema);
       k \<leftarrow> set_sema s (sema\<lparr>sem_waiters := remove1 t (sem_waiters sema)\<rparr>) k;
       thread_unblock t k
     }
   }"

definition sema_up :: "sptr \<Rightarrow> kernel \<Rightarrow> kernel option" where
  "sema_up s k = do {
     let old_level = intr_get_level k;
     k \<leftarrow> sema_wake s (intr_disable k);
     sema \<leftarrow> get_sema s k;
     k \<leftarrow> set_sema s (sema\<lparr>sem_value := sem_value sema + 1\<rparr>) k;
     k \<leftarrow> intr_set_level old_level k;
     if \<not> intr_context k then thread_yield k else Some k
   }"

section \<open>Locks\<close>

definition lock_init :: "lptr \<Rightarrow> kernel \<Rightarrow> kernel option" where
  "lock_init l k =
     Some (k\<lparr>locks := (locks k)(l \<mapsto>
       \<lparr>holder = None, lock_sema = \<lparr>sem_value = 1, sem_waiters = []\<rparr>, max_priority = PRI_MIN\<rparr>)\<rparr>)"

definition lock_held_by_current_thread :: "lptr \<Rightarrow> kernel \<Rightarrow> bool option" where
  "lock_held_by_current_thread l k = do {
     lk \<leftarrow> locks k l;
     t \<leftarrow> thread_current k;
     Some (holder lk = Some t)
   }"

definition lock_acquire :: "lptr \<Rightarrow> kernel \<Rightarrow> kernel option" where
  "lock_acquire l k = do {
     ASSERT (\<not> intr_context k);
     held \<leftarrow> lock_held_by_current_thread l k;
     ASSERT (\<not> held);
     let old_level = intr_get_level k;
     let k = intr_disable k;
     t \<leftarrow> thread_current k;
     k \<leftarrow> upd_thread t (\<lambda>th. th\<lparr>waiting_lock := Some l\<rparr>) k;
     k \<leftarrow> flush_priority t k;
     sema_down (Lock_sema l) (push_frame (F_lock_acquire l old_level) k)
   }"

text \<open>After \<open>sema_down\<close>: the thread takes the lock.\<close>

definition lock_acquire_taken :: "lptr \<Rightarrow> intr_level \<Rightarrow> kernel \<Rightarrow> kernel option" where
  "lock_acquire_taken l old_level k = do {
     let t = running_thread k;
     k \<leftarrow> upd_lock l (\<lambda>lk. lk\<lparr>holder := Some t\<rparr>) k;
     k \<leftarrow> upd_thread t (\<lambda>th. th\<lparr>lock_list := lock_list th @ [l]\<rparr>) k;
     k \<leftarrow> adjust_priority t k;
     k \<leftarrow> upd_thread t (\<lambda>th. th\<lparr>waiting_lock := None\<rparr>) k;
     intr_set_level old_level k
   }"

definition lock_try_acquire :: "lptr \<Rightarrow> kernel \<Rightarrow> (bool \<times> kernel) option" where
  "lock_try_acquire l k = do {
     held \<leftarrow> lock_held_by_current_thread l k;
     ASSERT (\<not> held);
     let old_level = intr_get_level k;
     let k = intr_disable k;
     t \<leftarrow> thread_current k;
     (success, k) \<leftarrow> sema_try_down (Lock_sema l) k;
     k \<leftarrow> (if success then do {
              k \<leftarrow> upd_lock l (\<lambda>lk. lk\<lparr>holder := Some t\<rparr>) k;
              k \<leftarrow> upd_thread t (\<lambda>th. th\<lparr>lock_list := lock_list th @ [l]\<rparr>) k;
              adjust_priority t k
            }
            else Some k);
     k \<leftarrow> intr_set_level old_level k;
     Some (success, k)
   }"

definition flush_lock_priority :: "lptr \<Rightarrow> kernel \<Rightarrow> kernel option" where
  "flush_lock_priority l k = do {
     lk \<leftarrow> locks k l;
     if sem_waiters (lock_sema lk) = [] then upd_lock l (\<lambda>lk. lk\<lparr>max_priority := PRI_MIN\<rparr>) k
     else do {
       ASSERT (threads_ok k (sem_waiters (lock_sema lk)));
       th \<leftarrow> threads k (max_elem (less_thread_priority k) (sem_waiters (lock_sema lk)));
       upd_lock l (\<lambda>lk. lk\<lparr>max_priority := priority th\<rparr>) k
     }
   }"

definition lock_release :: "lptr \<Rightarrow> kernel \<Rightarrow> kernel option" where
  "lock_release l k = do {
     held \<leftarrow> lock_held_by_current_thread l k;
     ASSERT held;
     let old_level = intr_get_level k;
     let k = intr_disable k;
     lk \<leftarrow> locks k l;
     t \<leftarrow> holder lk;
     k \<leftarrow> upd_lock l (\<lambda>lk. lk\<lparr>holder := None\<rparr>) k;
     k \<leftarrow> upd_thread t (\<lambda>th. th\<lparr>lock_list := remove1 l (lock_list th)\<rparr>) k;
     k \<leftarrow> adjust_priority t k;
     sema_up (Lock_sema l) (push_frame (F_lock_release l old_level) k)
   }"

text \<open>After \<open>sema_up\<close>, which yields the processor.\<close>

definition lock_release_flush :: "lptr \<Rightarrow> intr_level \<Rightarrow> kernel \<Rightarrow> kernel option" where
  "lock_release_flush l old_level k = do {
     k \<leftarrow> flush_lock_priority l k;
     k \<leftarrow> intr_set_level old_level k;
     if \<not> intr_context k then thread_yield k else Some k
   }"

section \<open>Condition variables\<close>

definition cond_init :: "nat \<Rightarrow> kernel \<Rightarrow> kernel" where
  "cond_init c k = k\<lparr>conds := (conds k)(c \<mapsto> \<lparr>cond_waiters = []\<rparr>)\<rparr>"

definition sema_priority_aux :: "semaphore_elem \<Rightarrow> semaphore_elem \<Rightarrow> bool" where
  "sema_priority_aux left right \<longleftrightarrow> se_priority left < se_priority right"

text \<open>The waiter's semaphore is a local variable of \<open>cond_wait\<close>, at the address \<open>w\<close>.\<close>

definition cond_wait :: "nat \<Rightarrow> nat \<Rightarrow> lptr \<Rightarrow> kernel \<Rightarrow> kernel option" where
  "cond_wait w c l k = do {
     ASSERT (\<not> intr_context k);
     held \<leftarrow> lock_held_by_current_thread l k;
     ASSERT held;
     k \<leftarrow> sema_init (Sema w) 0 k;
     lk \<leftarrow> locks k l;
     cv \<leftarrow> conds k c;
     let waiter = \<lparr>se_sema = Sema w, se_priority = max_priority lk\<rparr>;
     let k = k\<lparr>conds := (conds k)(c \<mapsto> cv\<lparr>cond_waiters := cond_waiters cv @ [waiter]\<rparr>)\<rparr>;
     lock_release l (push_frame (F_cond_wait_down (Sema w) l) k)
   }"

definition cond_signal :: "nat \<Rightarrow> lptr \<Rightarrow> kernel \<Rightarrow> kernel option" where
  "cond_signal c l k = do {
     ASSERT (\<not> intr_context k);
     held \<leftarrow> lock_held_by_current_thread l k;
     ASSERT held;
     cv \<leftarrow> conds k c;
     if cond_waiters cv = [] then Some k
     else do {
       let w = max_elem sema_priority_aux (cond_waiters cv);
       sema_up (se_sema w)
         (k\<lparr>conds := (conds k)(c \<mapsto> cv\<lparr>cond_waiters := remove1 w (cond_waiters cv)\<rparr>)\<rparr>)
     }
   }"

text \<open>One iteration of the loop of \<open>cond_broadcast\<close>; the frame runs the next one.\<close>

definition cond_broadcast :: "nat \<Rightarrow> lptr \<Rightarrow> kernel \<Rightarrow> kernel option" where
  "cond_broadcast c l k = do {
     cv \<leftarrow> conds k c;
     if cond_waiters cv = [] then Some k
     else cond_signal c l (push_frame (F_broadcast c l) k)
   }"

end
