(* ===== verification/Pintos_Sched.thy ===== *)
theory Pintos_Sched
  imports Pintos_Synch
begin

text \<open>
  The life of a thread (creation, the idle thread, exit; the rest of \<open>threads/thread.c\<close>), the
  parts of \<open>userprog/process.c\<close> that wait for a child and leave a process, the timer interrupt
  (\<open>devices/timer.c\<close>, \<open>threads/interrupt.c\<close>), and the machine that composes them: the running
  thread calls an operation, goes on with the frame on top of its kernel stack, or is interrupted
  while interrupts are on.
\<close>

section \<open>Creating threads\<close>

definition get_name_length :: "string \<Rightarrow> nat" where
  "get_name_length nm = length (takeWhile (\<lambda>c. c \<noteq> CHR '' '') nm)"

text \<open>\<open>init_thread\<close> clears the page, so the fields it does not name are zero.  \<open>strlcpy\<close> gets the
  length of the name as its bound, not the size of the \<open>name\<close> array, which is 16: a longer first word is
  written past the end of the array, a failure.\<close>

definition init_thread :: "tptr \<Rightarrow> string \<Rightarrow> int \<Rightarrow> kernel \<Rightarrow> kernel option" where
  "init_thread t nm prio k = do {
     ASSERT (PRI_MIN \<le> prio \<and> prio \<le> PRI_MAX);
     ASSERT (get_name_length nm < 16);
     let th = \<lparr>tid = 0, status = THREAD_BLOCKED, name = take (get_name_length nm) nm,
               stack = t + PGSIZE, priority = prio, wakeup_time = 0, lock_list = [],
               instrinsic_priority = prio, waiting_lock = None, pagedir = None, pn = None,
               child_list = [], file_list = [], next_fd = 2, cwd = 0, magic = THREAD_MAGIC\<rparr>;
     let k = k\<lparr>threads := (threads k)(t \<mapsto> th)\<rparr>;
     let old_level = intr_get_level k;
     let k = intr_disable k;
     intr_set_level old_level (k\<lparr>all_list := all_list k @ [t]\<rparr>)
   }"

definition alloc_frame :: "tptr \<Rightarrow> nat \<Rightarrow> kernel \<Rightarrow> kernel option" where
  "alloc_frame t size' k = do {
     ASSERT (is_thread k t);
     ASSERT (size' mod 4 = 0);
     upd_thread t (\<lambda>th. th\<lparr>stack := stack th - size'\<rparr>) k
   }"

text \<open>\<open>allocate_tid\<close> in three parts: acquire the lock, take the number, release the lock.\<close>

definition allocate_tid :: "tid_user \<Rightarrow> kernel \<Rightarrow> kernel option" where
  "allocate_tid u k = lock_acquire tid_lock (push_frame (F_tid_acquired u) k)"

definition allocate_tid_acquired :: "tid_user \<Rightarrow> kernel \<Rightarrow> kernel option" where
  "allocate_tid_acquired u k =
     (let t = next_tid k; k = k\<lparr>next_tid := t + 1\<rparr>
      in lock_release tid_lock (push_frame (F_tid_released u t) k))"

text \<open>The page of the new thread and its process node come from the allocators; either may be null.\<close>

definition thread_create ::
    "tptr option \<Rightarrow> pptr option \<Rightarrow> string \<Rightarrow> int \<Rightarrow> thread_func \<Rightarrow> kernel \<Rightarrow> kernel option" where
  "thread_create page node nm prio fn k =
     (case page of
        None \<Rightarrow> Some (return TID_ERROR k)
      | Some t \<Rightarrow> do {
          k \<leftarrow> init_thread t nm prio k;
          allocate_tid (For_create t fn node) k
        })"

definition thread_create_rest ::
    "tptr \<Rightarrow> thread_func \<Rightarrow> pptr option \<Rightarrow> int \<Rightarrow> kernel \<Rightarrow> kernel option" where
  "thread_create_rest t fn node newtid k = do {
     k \<leftarrow> upd_thread t (\<lambda>th. th\<lparr>tid := newtid\<rparr>) k;
     p \<leftarrow> node;
     let k = k\<lparr>pnodes := (pnodes k)(p \<mapsto>
       \<lparr>pid = newtid, pn_sema = \<lparr>sem_value = 0, sem_waiters = []\<rparr>, exit_status = - 1\<rparr>)\<rparr>;
     k \<leftarrow> upd_thread (running_thread k) (\<lambda>th. th\<lparr>child_list := child_list th @ [p]\<rparr>) k;
     k \<leftarrow> upd_thread t (\<lambda>th. th\<lparr>pn := Some p\<rparr>) k;
     cur \<leftarrow> thread_current k;
     cth \<leftarrow> threads k cur;
     k \<leftarrow> upd_thread t (\<lambda>th. th\<lparr>cwd := cwd cth\<rparr>) k;
     k \<leftarrow> alloc_frame t 12 k;
     k \<leftarrow> alloc_frame t 4 k;
     k \<leftarrow> alloc_frame t 28 k;
     let k = k\<lparr>frames := (frames k)(t := [F_kernel_thread fn])\<rparr>;
     k \<leftarrow> thread_unblock t k;
     thread_yield (return newtid k)
   }"

definition ROOT_DIR_SECTOR :: u32 where "ROOT_DIR_SECTOR = 1"

definition thread_init :: "kernel \<Rightarrow> kernel option" where
  "thread_init k = do {
     ASSERT (intr_get_level k = INTR_OFF);
     k \<leftarrow> lock_init tid_lock k;
     let k = k\<lparr>ready_list := [], sleep_list := [], all_list := []\<rparr>;
     let t = running_thread k;
     let k = k\<lparr>initial_thread := Some t\<rparr>;
     k \<leftarrow> init_thread t ''main'' PRI_DEFAULT k;
     k \<leftarrow> upd_thread t (\<lambda>th. th\<lparr>status := THREAD_RUNNING\<rparr>) k;
     allocate_tid For_init k
   }"

definition thread_init_rest :: "int \<Rightarrow> kernel \<Rightarrow> kernel option" where
  "thread_init_rest newtid k = do {
     t \<leftarrow> initial_thread k;
     k \<leftarrow> upd_thread t (\<lambda>th. th\<lparr>tid := newtid\<rparr>) k;
     upd_thread t (\<lambda>th. th\<lparr>cwd := ROOT_DIR_SECTOR\<rparr>) k
   }"

fun allocate_tid_released :: "tid_user \<Rightarrow> int \<Rightarrow> kernel \<Rightarrow> kernel option" where
  "allocate_tid_released For_init newtid k = thread_init_rest newtid k"
| "allocate_tid_released (For_create t fn node) newtid k = thread_create_rest t fn node newtid k"

definition thread_start :: "tptr option \<Rightarrow> pptr option \<Rightarrow> sptr \<Rightarrow> kernel \<Rightarrow> kernel option" where
  "thread_start page node s k = do {
     k \<leftarrow> sema_init s 0 k;
     thread_create page node ''idle'' PRI_MIN (Fn_idle s) (push_frame (F_start s) k)
   }"

definition thread_start_rest :: "sptr \<Rightarrow> kernel \<Rightarrow> kernel option" where
  "thread_start_rest s k = do { k \<leftarrow> intr_enable k; sema_down s k }"

section \<open>Running and leaving\<close>

text \<open>\<open>idle\<close> up to its loop, one iteration up to the block, and the rest of an iteration.\<close>

definition idle :: "sptr \<Rightarrow> kernel \<Rightarrow> kernel option" where
  "idle s k = do {
     t \<leftarrow> thread_current k;
     sema_up s (push_frame F_idle_loop (k\<lparr>idle_thread := Some t\<rparr>))
   }"

definition idle_loop :: "kernel \<Rightarrow> kernel option" where
  "idle_loop k = thread_block (push_frame F_idle_halt (intr_disable k))"

definition idle_halt :: "kernel \<Rightarrow> kernel option" where
  "idle_halt k = do { k \<leftarrow> intr_enable k; Some (push_frame F_idle_loop k) }"

fun kernel_thread :: "thread_func \<Rightarrow> kernel \<Rightarrow> kernel option" where
  "kernel_thread (Fn_idle s) k = do { k \<leftarrow> intr_enable k; idle s k }"
| "kernel_thread (Fn_other f) k = do { k \<leftarrow> intr_enable k; Some (push_frame F_body k) }"

definition thread_exit_schedule :: "kernel \<Rightarrow> kernel option" where
  "thread_exit_schedule k = do {
     let k = intr_disable k;
     t \<leftarrow> thread_current k;
     let k = k\<lparr>all_list := remove1 t (all_list k)\<rparr>;
     k \<leftarrow> upd_thread t (\<lambda>th. th\<lparr>status := THREAD_DYING\<rparr>) k;
     schedule k
   }"

section \<open>Processes\<close>

fun find_child_pnode_loop :: "int \<Rightarrow> pptr list \<Rightarrow> kernel \<Rightarrow> pptr option option" where
  "find_child_pnode_loop p [] k = Some None"
| "find_child_pnode_loop p (n # ns) k = do {
     node \<leftarrow> pnodes k n;
     if pid node = p then Some (Some n) else find_child_pnode_loop p ns k
   }"

definition find_child_pnode :: "int \<Rightarrow> kernel \<Rightarrow> pptr option option" where
  "find_child_pnode p k = do {
     t \<leftarrow> thread_current k;
     th \<leftarrow> threads k t;
     find_child_pnode_loop p (child_list th) k
   }"

definition process_wait :: "int \<Rightarrow> kernel \<Rightarrow> kernel option" where
  "process_wait child_tid k = do {
     found \<leftarrow> find_child_pnode child_tid k;
     case found of
       None \<Rightarrow> Some (return (- 1) k)
     | Some n \<Rightarrow> sema_down (Pnode_sema n) (push_frame (F_process_wait n) k)
   }"

definition process_wait_rest :: "pptr \<Rightarrow> kernel \<Rightarrow> kernel option" where
  "process_wait_rest n k = do {
     node \<leftarrow> pnodes k n;
     k \<leftarrow> upd_thread (running_thread k) (\<lambda>th. th\<lparr>child_list := remove1 n (child_list th)\<rparr>) k;
     Some (return (exit_status node) (k\<lparr>pnodes := (pnodes k)(n := None)\<rparr>))
   }"

fun free_pnodes :: "pptr list \<Rightarrow> kernel \<Rightarrow> kernel option" where
  "free_pnodes [] k = Some k"
| "free_pnodes (n # ns) k = do {
     node \<leftarrow> pnodes k n;
     free_pnodes ns (k\<lparr>pnodes := (pnodes k)(n := None)\<rparr>)
   }"

definition free_child_list :: "kernel \<Rightarrow> kernel option" where
  "free_child_list k = do {
     t \<leftarrow> thread_current k;
     th \<leftarrow> threads k t;
     k \<leftarrow> upd_thread t (\<lambda>th. th\<lparr>child_list := []\<rparr>) k;
     free_pnodes (child_list th) k
   }"

text \<open>One iteration of \<open>free_file_list\<close>; \<open>file_close\<close> works on the file system only.\<close>

definition free_file_list :: "kernel \<Rightarrow> kernel option" where
  "free_file_list k = do {
     t \<leftarrow> thread_current k;
     th \<leftarrow> threads k t;
     case file_list th of
       [] \<Rightarrow> Some k
     | fn # rest \<Rightarrow> do {
         k \<leftarrow> upd_thread t (\<lambda>th. th\<lparr>file_list := rest\<rparr>) k;
         held \<leftarrow> lock_held_by_current_thread (fn_file_lock fn) k;
         let k = push_frame (F_free_file fn) k;
         if held then lock_release (fn_file_lock fn) k else Some k
       }
   }"

definition free_file_rest :: "fnode \<Rightarrow> kernel \<Rightarrow> kernel option" where
  "free_file_rest fn k = free_file_list (k\<lparr>locks := (locks k)(fn_file_lock fn := None)\<rparr>)"

definition process_exit :: "kernel \<Rightarrow> kernel option" where
  "process_exit k = do {
     cur \<leftarrow> thread_current k;
     th \<leftarrow> threads k cur;
     k \<leftarrow> (if pagedir th \<noteq> None then do {
              k \<leftarrow> upd_thread cur (\<lambda>th. th\<lparr>pagedir := None\<rparr>) k;
              Some (k\<lparr>cr3 := None\<rparr>)
            }
            else Some k);
     k \<leftarrow> free_child_list k;
     free_file_list (push_frame F_process_exit k)
   }"

definition process_exit_up :: "kernel \<Rightarrow> kernel option" where
  "process_exit_up k = do {
     th \<leftarrow> threads k (running_thread k);
     n \<leftarrow> pn th;
     sema_up (Pnode_sema n) k
   }"

definition thread_exit :: "kernel \<Rightarrow> kernel option" where
  "thread_exit k = do {
     ASSERT (\<not> intr_context k);
     process_exit (push_frame F_exit k)
   }"

section \<open>Timer\<close>

text \<open>A 64-bit signed value.\<close>

definition int64 :: "int \<Rightarrow> int" where
  "int64 x = signed_take_bit 63 x"

definition timer_ticks :: "kernel \<Rightarrow> int" where
  "timer_ticks k = ticks k"

definition timer_elapsed :: "int \<Rightarrow> kernel \<Rightarrow> int" where
  "timer_elapsed before k = int64 (timer_ticks k - before)"

definition timer_sleep :: "int \<Rightarrow> kernel \<Rightarrow> kernel option" where
  "timer_sleep n k = do {
     ASSERT (intr_get_level k = INTR_ON);
     thread_sleep (int64 (timer_ticks k + n)) k
   }"

definition timer_interrupt :: "kernel \<Rightarrow> kernel option" where
  "timer_interrupt k = do {
     let k = k\<lparr>ticks := int64 (ticks k + 1)\<rparr>;
     k \<leftarrow> thread_alarm (ticks k) k;
     thread_tick k
   }"

text \<open>\<open>intr_handler\<close> for the timer's vector: the gate turns interrupts off, the return from the
  interrupt turns them on again.\<close>

definition intr_handler_timer :: "kernel \<Rightarrow> kernel option" where
  "intr_handler_timer k = do {
     let k = push_frame F_intr_return (intr_disable k);
     ASSERT (intr_get_level k = INTR_OFF);
     ASSERT (\<not> intr_context k);
     k \<leftarrow> timer_interrupt (k\<lparr>in_external_intr := True, yield_on_return := False\<rparr>);
     ASSERT (intr_get_level k = INTR_OFF);
     ASSERT (intr_context k);
     let k = k\<lparr>in_external_intr := False\<rparr>;
     if yield_on_return k then thread_yield k else Some k
   }"

section \<open>The machine\<close>

fun resume :: "frame \<Rightarrow> kernel \<Rightarrow> kernel option" where
  "resume (F_yield l) k = intr_set_level l k"
| "resume (F_sleep l) k = intr_set_level l k"
| "resume F_idle_halt k = idle_halt k"
| "resume F_idle_loop k = idle_loop k"
| "resume (F_kernel_thread fn) k = kernel_thread fn k"
| "resume F_body k = thread_exit k"
| "resume (F_tid_acquired u) k = allocate_tid_acquired u k"
| "resume (F_tid_released u t) k = allocate_tid_released u t k"
| "resume (F_start s) k = thread_start_rest s k"
| "resume F_process_exit k = process_exit_up k"
| "resume (F_free_file fn) k = free_file_rest fn k"
| "resume F_exit k = thread_exit_schedule k"
| "resume (F_sema_down s l) k = sema_down_loop s l k"
| "resume (F_lock_acquire l v) k = lock_acquire_taken l v k"
| "resume (F_lock_release l v) k = lock_release_flush l v k"
| "resume (F_cond_wait_down s l) k = sema_down s (push_frame (F_cond_wait_acquire l) k)"
| "resume (F_cond_wait_acquire l) k = lock_acquire l k"
| "resume (F_broadcast c l) k = cond_broadcast c l k"
| "resume (F_process_wait n) k = process_wait_rest n k"
| "resume F_intr_return k = Some (k\<lparr>level := INTR_ON\<rparr>)"

text \<open>The calls a thread function makes.\<close>

datatype call =
    Yield
  | Sleep int
  | Set_priority int
  | Create tptr pptr string int nat
  | Sema_init nat u32
  | Sema_down nat
  | Sema_try_down nat
  | Sema_up nat
  | Lock_init lptr
  | Lock_acquire lptr
  | Lock_try_acquire lptr
  | Lock_release lptr
  | Cond_init nat
  | Cond_wait nat nat lptr
  | Cond_signal nat lptr
  | Cond_broadcast nat lptr
  | Wait int

fun perform :: "call \<Rightarrow> kernel \<Rightarrow> kernel option" where
  "perform Yield k = thread_yield k"
| "perform (Sleep n) k = timer_sleep n k"
| "perform (Set_priority p) k = thread_set_priority p k"
| "perform (Create t n nm p f) k = thread_create (Some t) (Some n) nm p (Fn_other f) k"
| "perform (Sema_init s v) k = sema_init (Sema s) v k"
| "perform (Sema_down s) k = sema_down (Sema s) k"
| "perform (Sema_try_down s) k = map_option snd (sema_try_down (Sema s) k)"
| "perform (Sema_up s) k = sema_up (Sema s) k"
| "perform (Lock_init l) k = lock_init l k"
| "perform (Lock_acquire l) k = lock_acquire l k"
| "perform (Lock_try_acquire l) k = map_option snd (lock_try_acquire l k)"
| "perform (Lock_release l) k = lock_release l k"
| "perform (Cond_init c) k = Some (cond_init c k)"
| "perform (Cond_wait w c l) k = cond_wait w c l k"
| "perform (Cond_signal c l) k = cond_signal c l k"
| "perform (Cond_broadcast c l) k = cond_broadcast c l k"
| "perform (Wait p) k = process_wait p k"

text \<open>Memory handed out by the allocators is not in use, and an object is initialised once.\<close>

fun allocated :: "call \<Rightarrow> kernel \<Rightarrow> bool" where
  "allocated (Create t n nm p f) k \<longleftrightarrow> threads k t = None \<and> pnodes k n = None"
| "allocated (Sema_init s v) k \<longleftrightarrow> semas k s = None"
| "allocated (Lock_init l) k \<longleftrightarrow> locks k l = None"
| "allocated (Cond_init c) k \<longleftrightarrow> conds k c = None"
| "allocated (Cond_wait w c l) k \<longleftrightarrow> semas k w = None"
| "allocated _ k \<longleftrightarrow> True"

inductive kernel_step :: "kernel \<Rightarrow> kernel \<Rightarrow> bool" where
  step_resume: "kernel_step k k'"
    if "frames k (running k) = f # fs" "resume f (pop_frame k) = Some k'"
| step_call: "kernel_step k k'"
    if "frames k (running k) = F_body # fs" "allocated c k" "perform c k = Some k'"
| step_timer: "kernel_step k k'"
    if "level k = INTR_ON" "intr_handler_timer k = Some k'"

end
