(* ===== verification/Pintos_Sched_Inv.thy ===== *)
theory Pintos_Sched_Inv
  imports Pintos_Sched
begin

text \<open>
  The invariant of the scheduler, and that every step of the machine keeps it: one running thread,
  a ready list of exactly the ready threads, sleepers ordered by wake-up time, waiters blocked in
  \<open>sema_down\<close> on the semaphore whose list they are on.  Since a thread is on a list only while its
  topmost frame is that of the list, no thread is on two lists, which is what the double use of
  the \<open>elem\<close> member relies on.
\<close>

section \<open>The invariant\<close>

definition status_of :: "kernel \<Rightarrow> tptr \<Rightarrow> thread_status option" where
  "status_of k t = map_option status (threads k t)"

definition wakeup_of :: "kernel \<Rightarrow> tptr \<Rightarrow> int" where
  "wakeup_of k t = (case threads k t of None \<Rightarrow> 0 | Some th \<Rightarrow> wakeup_time th)"

definition magic_of :: "kernel \<Rightarrow> tptr \<Rightarrow> u32 option" where
  "magic_of k t = map_option magic (threads k t)"

definition waiters_of :: "kernel \<Rightarrow> sptr \<Rightarrow> tptr list" where
  "waiters_of k s = (case get_sema s k of None \<Rightarrow> [] | Some sm \<Rightarrow> sem_waiters sm)"

text \<open>The frames of the idle thread, and the thread a frame is creating.\<close>

fun idle_frame :: "frame \<Rightarrow> bool" where
  "idle_frame (F_yield l) = True"
| "idle_frame F_idle_halt = True"
| "idle_frame F_idle_loop = True"
| "idle_frame F_intr_return = True"
| "idle_frame _ = False"

fun embryo :: "frame \<Rightarrow> tptr option" where
  "embryo (F_tid_acquired (For_create t fn n)) = Some t"
| "embryo (F_tid_released (For_create t fn n) i) = Some t"
| "embryo _ = None"

fun starts_idle :: "frame \<Rightarrow> bool" where
  "starts_idle (F_kernel_thread (Fn_idle s)) = True"
| "starts_idle (F_tid_acquired (For_create t (Fn_idle s) n)) = True"
| "starts_idle (F_tid_released (For_create t (Fn_idle s) n) i) = True"
| "starts_idle (F_tid_acquired For_init) = True"
| "starts_idle (F_tid_released For_init i) = True"
| "starts_idle (F_start s) = True"
| "starts_idle _ = False"

definition embryos :: "kernel \<Rightarrow> tptr \<Rightarrow> tptr list" where
  "embryos k t = List.map_filter embryo (frames k t)"

definition magic_inv :: "kernel \<Rightarrow> bool" where
  "magic_inv k \<longleftrightarrow> (\<forall>t m. magic_of k t = Some m \<longrightarrow> m = THREAD_MAGIC)"

definition ready_inv :: "kernel \<Rightarrow> bool" where
  "ready_inv k \<longleftrightarrow> distinct (ready_list k)
     \<and> (\<forall>t \<in> set (ready_list k). status_of k t = Some THREAD_READY)
     \<and> (\<forall>t. status_of k t = Some THREAD_READY \<longrightarrow> t \<in> set (ready_list k) \<or> idle_thread k = Some t)"

definition sleep_inv :: "kernel \<Rightarrow> bool" where
  "sleep_inv k \<longleftrightarrow> distinct (sleep_list k)
     \<and> (\<forall>t \<in> set (sleep_list k). status_of k t = Some THREAD_BLOCKED
          \<and> (\<exists>l fs. frames k t = F_sleep l # fs))
     \<and> sorted (map (wakeup_of k) (sleep_list k))"

definition wait_inv :: "kernel \<Rightarrow> bool" where
  "wait_inv k \<longleftrightarrow> (\<forall>s. distinct (waiters_of k s)
     \<and> (\<forall>t \<in> set (waiters_of k s). status_of k t = Some THREAD_BLOCKED
          \<and> (\<exists>l fs. frames k t = F_sema_down s l # fs)))"

definition run_inv :: "kernel \<Rightarrow> bool" where
  "run_inv k \<longleftrightarrow> (\<forall>t. status_of k t = Some THREAD_RUNNING \<longrightarrow> t = running k)"

definition idle_inv :: "kernel \<Rightarrow> bool" where
  "idle_inv k \<longleftrightarrow> (\<forall>i. idle_thread k = Some i \<longrightarrow>
     status_of k i \<notin> {None, Some THREAD_DYING} \<and> i \<notin> set (ready_list k)
     \<and> list_all idle_frame (frames k i))"

definition frame_inv :: "kernel \<Rightarrow> bool" where
  "frame_inv k \<longleftrightarrow> (\<forall>t. status_of k t = None \<longrightarrow> frames k t = [])
     \<and> (\<forall>t. list_all (\<lambda>f. \<not> starts_idle f) (frames k t))
     \<and> (\<forall>t. \<forall>e \<in> set (embryos k t). frames k e = [] \<and> status_of k e = Some THREAD_BLOCKED
          \<and> idle_thread k \<noteq> Some e)
     \<and> (\<forall>t. distinct (embryos k t))
     \<and> (\<forall>t u. t \<noteq> u \<longrightarrow> set (embryos k t) \<inter> set (embryos k u) = {})"

definition sched_inv :: "kernel \<Rightarrow> bool" where
  "sched_inv k \<longleftrightarrow> magic_inv k \<and> ready_inv k \<and> sleep_inv k \<and> wait_inv k \<and> run_inv k \<and> idle_inv k
     \<and> frame_inv k"

definition runs :: "kernel \<Rightarrow> bool" where
  "runs k \<longleftrightarrow> status_of k (running k) = Some THREAD_RUNNING"

definition good :: "kernel \<Rightarrow> bool" where
  "good k \<longleftrightarrow> sched_inv k \<and> runs k"

lemmas sched_inv_defs = sched_inv_def magic_inv_def ready_inv_def sleep_inv_def wait_inv_def
  run_inv_def idle_inv_def frame_inv_def

section \<open>Updates that the invariant does not see\<close>

definition same_sched :: "kernel \<Rightarrow> kernel \<Rightarrow> bool" where
  "same_sched k k' \<longleftrightarrow> status_of k' = status_of k \<and> wakeup_of k' = wakeup_of k
     \<and> magic_of k' = magic_of k \<and> waiters_of k' = waiters_of k \<and> frames k' = frames k
     \<and> ready_list k' = ready_list k \<and> sleep_list k' = sleep_list k
     \<and> running k' = running k \<and> idle_thread k' = idle_thread k"

lemma same_sched_refl [simp]: "same_sched k k"
  by (simp add: same_sched_def)

lemma same_sched_trans: "same_sched a b \<Longrightarrow> same_sched b c \<Longrightarrow> same_sched a c"
  by (simp add: same_sched_def)

lemma same_sched_good:
  assumes "same_sched k k'"
  shows "sched_inv k' \<longleftrightarrow> sched_inv k" "runs k' \<longleftrightarrow> runs k" "good k' \<longleftrightarrow> good k"
    "idle_thread k' = idle_thread k" "running k' = running k" "frames k' = frames k"
  using assms by (simp_all add: same_sched_def sched_inv_defs runs_def good_def embryos_def)

lemma same_sched_goodD: "same_sched k k' \<Longrightarrow> good k \<Longrightarrow> good k'"
  by (simp add: same_sched_good)

named_theorems same_sched \<open>operations that the invariant does not see\<close>

lemma same_sched_upd_thread [same_sched]:
  assumes "upd_thread t f k = Some k'"
    and "\<And>th. status (f th) = status th" "\<And>th. magic (f th) = magic th"
    and "\<And>th. wakeup_time (f th) = wakeup_time th"
  shows "same_sched k k'"
proof -
  obtain th where th: "threads k t = Some th" and k': "k' = k\<lparr>threads := (threads k)(t \<mapsto> f th)\<rparr>"
    using assms(1) by (auto simp: upd_thread_def bind_eq_Some_conv)
  have "get_sema s k' = get_sema s k" for s by (cases s) (simp_all add: k')
  with th show ?thesis
    by (auto simp: same_sched_def k' status_of_def wakeup_of_def magic_of_def waiters_of_def assms(2-4))
qed

lemma same_sched_upd_lock [same_sched]:
  assumes "upd_lock l f k = Some k'"
    and "\<And>lk. sem_waiters (lock_sema (f lk)) = sem_waiters (lock_sema lk)"
  shows "same_sched k k'"
proof -
  obtain lk where lk: "locks k l = Some lk" and k': "k' = k\<lparr>locks := (locks k)(l \<mapsto> f lk)\<rparr>"
    using assms(1) by (auto simp: upd_lock_def bind_eq_Some_conv)
  have "waiters_of k' s = waiters_of k s" for s
    using lk assms(2) by (cases s) (auto simp: k' waiters_of_def)
  then have "waiters_of k' = waiters_of k" ..
  then show ?thesis by (auto simp: same_sched_def k' status_of_def wakeup_of_def magic_of_def fun_eq_iff)
qed

lemma set_sema_views:
  assumes "set_sema s v k = Some k'"
  shows "threads k' = threads k" "frames k' = frames k" "ready_list k' = ready_list k"
    "sleep_list k' = sleep_list k" "running k' = running k" "idle_thread k' = idle_thread k"
    "waiters_of k' = (waiters_of k)(s := sem_waiters v)" "level k' = level k"
    "in_external_intr k' = in_external_intr k" "enable_yield k' = enable_yield k"
    "get_sema s k' = Some v"
proof -
  show "threads k' = threads k" "frames k' = frames k" "ready_list k' = ready_list k"
    "sleep_list k' = sleep_list k" "running k' = running k" "idle_thread k' = idle_thread k"
    "level k' = level k" "in_external_intr k' = in_external_intr k" "enable_yield k' = enable_yield k"
    "get_sema s k' = Some v"
    using assms by (cases s; auto simp: upd_lock_def bind_eq_Some_conv)+
  show "waiters_of k' = (waiters_of k)(s := sem_waiters v)"
  proof
    show "waiters_of k' x = ((waiters_of k)(s := sem_waiters v)) x" for x
      using assms by (cases s; cases x) (auto simp: upd_lock_def bind_eq_Some_conv waiters_of_def)
  qed
qed

lemma set_sema_thread_views:
  assumes "set_sema s v k = Some k'"
  shows "status_of k' = status_of k" "wakeup_of k' = wakeup_of k" "magic_of k' = magic_of k"
  using set_sema_views(1) [OF assms] by (simp_all add: status_of_def wakeup_of_def magic_of_def fun_eq_iff)

lemma same_sched_set_sema [same_sched]:
  assumes "set_sema s v k = Some k'" and "get_sema s k = Some sm" "sem_waiters v = sem_waiters sm"
  shows "same_sched k k'"
proof -
  have "waiters_of k' = waiters_of k" using set_sema_views(7) [OF assms(1)] assms(2,3)
    by (auto simp: waiters_of_def)
  then show ?thesis using set_sema_views [OF assms(1)]
    by (simp add: same_sched_def status_of_def wakeup_of_def magic_of_def fun_eq_iff)
qed

lemma same_sched_fields [simp]:
  "same_sched k (k\<lparr>level := l\<rparr>)" "same_sched k (k\<lparr>in_external_intr := b\<rparr>)"
  "same_sched k (k\<lparr>yield_on_return := b\<rparr>)" "same_sched k (k\<lparr>ticks := n\<rparr>)"
  "same_sched k (k\<lparr>next_tid := i\<rparr>)" "same_sched k (k\<lparr>conds := c\<rparr>)"
  "same_sched k (k\<lparr>all_list := ts\<rparr>)" "same_sched k (k\<lparr>cr3 := p\<rparr>)"
  "same_sched k (k\<lparr>idle_ticks := a\<rparr>)" "same_sched k (k\<lparr>user_ticks := a\<rparr>)"
  "same_sched k (k\<lparr>kernel_ticks := a\<rparr>)" "same_sched k (k\<lparr>thread_ticks := d\<rparr>)"
  "same_sched k (return v k)" "same_sched k (intr_disable k)"
proof -
  have g: "get_sema s (k\<lparr>level := l\<rparr>) = get_sema s k" "get_sema s (k\<lparr>in_external_intr := b\<rparr>) = get_sema s k"
    "get_sema s (k\<lparr>yield_on_return := b\<rparr>) = get_sema s k" "get_sema s (k\<lparr>ticks := n\<rparr>) = get_sema s k"
    "get_sema s (k\<lparr>next_tid := i\<rparr>) = get_sema s k" "get_sema s (k\<lparr>conds := c\<rparr>) = get_sema s k"
    "get_sema s (k\<lparr>all_list := ts\<rparr>) = get_sema s k" "get_sema s (k\<lparr>cr3 := p\<rparr>) = get_sema s k"
    "get_sema s (k\<lparr>idle_ticks := a\<rparr>) = get_sema s k" "get_sema s (k\<lparr>user_ticks := a\<rparr>) = get_sema s k"
    "get_sema s (k\<lparr>kernel_ticks := a\<rparr>) = get_sema s k" "get_sema s (k\<lparr>thread_ticks := d\<rparr>) = get_sema s k"
    "get_sema s (return v k) = get_sema s k" "get_sema s (intr_disable k) = get_sema s k" for s
    by (cases s; simp add: return_def intr_disable_def)+
  show "same_sched k (k\<lparr>level := l\<rparr>)" "same_sched k (k\<lparr>in_external_intr := b\<rparr>)"
    "same_sched k (k\<lparr>yield_on_return := b\<rparr>)" "same_sched k (k\<lparr>ticks := n\<rparr>)"
    "same_sched k (k\<lparr>next_tid := i\<rparr>)" "same_sched k (k\<lparr>conds := c\<rparr>)"
    "same_sched k (k\<lparr>all_list := ts\<rparr>)" "same_sched k (k\<lparr>cr3 := p\<rparr>)"
    "same_sched k (k\<lparr>idle_ticks := a\<rparr>)" "same_sched k (k\<lparr>user_ticks := a\<rparr>)"
    "same_sched k (k\<lparr>kernel_ticks := a\<rparr>)" "same_sched k (k\<lparr>thread_ticks := d\<rparr>)"
    "same_sched k (return v k)" "same_sched k (intr_disable k)"
    by (simp_all add: same_sched_def status_of_def wakeup_of_def magic_of_def waiters_of_def fun_eq_iff g)
      (simp_all add: return_def intr_disable_def)
qed

lemma good_fields [simp]:
  "good (k\<lparr>level := l\<rparr>) \<longleftrightarrow> good k" "good (k\<lparr>in_external_intr := b\<rparr>) \<longleftrightarrow> good k"
  "good (k\<lparr>yield_on_return := b\<rparr>) \<longleftrightarrow> good k" "good (k\<lparr>ticks := n\<rparr>) \<longleftrightarrow> good k"
  "good (k\<lparr>next_tid := i\<rparr>) \<longleftrightarrow> good k" "good (k\<lparr>conds := c\<rparr>) \<longleftrightarrow> good k"
  "good (k\<lparr>all_list := ts\<rparr>) \<longleftrightarrow> good k" "good (k\<lparr>cr3 := p\<rparr>) \<longleftrightarrow> good k"
  "good (return v k) \<longleftrightarrow> good k" "good (intr_disable k) \<longleftrightarrow> good k"
  by (rule same_sched_good(3), simp)+

lemma same_sched_intr_set_level [same_sched]:
  "intr_set_level l k = Some k' \<Longrightarrow> same_sched k k'"
  by (auto simp: intr_set_level_def intr_enable_def ASSERT_bind split: if_splits)

lemma same_sched_intr_enable [same_sched]:
  "intr_enable k = Some k' \<Longrightarrow> same_sched k k'"
  by (auto simp: intr_enable_def ASSERT_bind split: if_splits)

lemma same_sched_adjust_priority [same_sched]:
  "adjust_priority t k = Some k' \<Longrightarrow> same_sched k k'"
  by (auto simp: adjust_priority_def bind_eq_Some_conv Let_def split: if_splits
      intro: same_sched_upd_thread)

lemma same_sched_flush_priority [same_sched]:
  assumes "flush_priority t k = Some k'"
  shows "same_sched k k'"
proof (rule flush_priority.raw_induct [OF _ assms])
  fix flush t k k'
  assume IH: "\<And>t k k'. flush t k = Some k' \<Longrightarrow> same_sched k k'"
    and body: "threads k t \<bind> (\<lambda>th. case waiting_lock th of None \<Rightarrow> Some k
      | Some l \<Rightarrow> locks k l \<bind> (\<lambda>lk. if max_priority lk < priority th
          then upd_lock l (\<lambda>lk. lk\<lparr>max_priority := priority th\<rparr>) k \<bind> (\<lambda>k. case holder lk of
              None \<Rightarrow> Some k | Some h \<Rightarrow> adjust_priority h k \<bind> flush h)
          else Some k)) = Some k'"
  from body show "same_sched k k'"
    by (auto simp: bind_eq_Some_conv split: option.splits if_splits
        dest!: same_sched_upd_lock same_sched_adjust_priority IH) (metis same_sched_trans)
qed

lemma same_sched_flush_lock_priority [same_sched]:
  "flush_lock_priority l k = Some k' \<Longrightarrow> same_sched k k'"
  by (auto simp: flush_lock_priority_def bind_eq_Some_conv split: if_splits intro: same_sched_upd_lock)

section \<open>Frames of the running thread\<close>

lemma good_running_not_queued:
  assumes "good k"
  shows "running k \<notin> set (ready_list k)" "running k \<notin> set (sleep_list k)"
    "running k \<notin> set (waiters_of k s)" "running k \<notin> set (embryos k t)"
proof -
  have "status_of k (running k) = Some THREAD_RUNNING" using assms by (simp add: good_def runs_def)
  moreover have "ready_inv k" "sleep_inv k" "wait_inv k" "frame_inv k"
    using assms by (simp_all add: good_def sched_inv_def)
  ultimately show "running k \<notin> set (ready_list k)" "running k \<notin> set (sleep_list k)"
    "running k \<notin> set (waiters_of k s)" "running k \<notin> set (embryos k t)"
    unfolding ready_inv_def sleep_inv_def wait_inv_def frame_inv_def by force+
qed

lemma good_set_frames:
  assumes g: "good k" and fs: "list_all (\<lambda>f. \<not> starts_idle f) fs"
    and idle: "idle_thread k = Some (running k) \<Longrightarrow> list_all idle_frame fs"
    and sub: "set (List.map_filter embryo fs) \<subseteq> set (embryos k (running k))"
    and dist: "distinct (List.map_filter embryo fs)"
  shows "good (k\<lparr>frames := (frames k)(running k := fs)\<rparr>)" (is "good ?k")
proof -
  let ?r = "running k"
  have get: "get_sema s ?k = get_sema s k" for s by (cases s) simp_all
  have v: "status_of ?k = status_of k" "wakeup_of ?k = wakeup_of k" "magic_of ?k = magic_of k"
    "waiters_of ?k = waiters_of k"
    by (simp_all add: status_of_def wakeup_of_def magic_of_def waiters_of_def get fun_eq_iff)
  have e: "embryos ?k t = (if t = ?r then List.map_filter embryo fs else embryos k t)" for t
    by (simp add: embryos_def)
  have st: "status_of k ?r = Some THREAD_RUNNING" using g by (simp add: good_def runs_def)
  have inv: "magic_inv k" "ready_inv k" "sleep_inv k" "wait_inv k" "run_inv k" "idle_inv k" "frame_inv k"
    using g by (simp_all add: good_def sched_inv_def)
  note nq = good_running_not_queued [OF g]
  have "sleep_inv ?k" using inv(3) nq(2) by (auto simp: sleep_inv_def v)
  moreover have "wait_inv ?k" using inv(4) nq(3) by (auto simp: wait_inv_def v)
  moreover have "idle_inv ?k" using inv(6) idle by (auto simp: idle_inv_def v)
  moreover have "frame_inv ?k"
  proof -
    have emb: "x \<in> set (embryos k t)" if "x \<in> set (embryos ?k t)" for x t
      using that sub by (cases "t = ?r") (auto simp: e)
    have "frames ?k x = [] \<and> status_of ?k x = Some THREAD_BLOCKED \<and> idle_thread ?k \<noteq> Some x"
      if x: "x \<in> set (embryos ?k t)" for x t
    proof -
      have "x \<in> set (embryos k t)" by (rule emb [OF x])
      then show ?thesis using inv(7) nq(4) [of t] by (auto simp: frame_inv_def v)
    qed
    moreover have "set (embryos ?k t) \<inter> set (embryos ?k u) = {}" if "t \<noteq> u" for t u
    proof -
      have "set (embryos k t) \<inter> set (embryos k u) = {}" using inv(7) that by (simp add: frame_inv_def)
      then show ?thesis using emb by blast
    qed
    moreover have "distinct (embryos ?k t)" for t
      using inv(7) dist by (simp add: frame_inv_def e)
    moreover have "frames ?k t = []" if "status_of k t = None" for t
      using inv(7) st that by (auto simp: frame_inv_def)
    moreover have "list_all (\<lambda>f. \<not> starts_idle f) (frames ?k t)" for t
      using inv(7) fs by (simp add: frame_inv_def)
    ultimately show ?thesis unfolding frame_inv_def v by blast
  qed
  moreover have "magic_inv ?k" using inv(1) unfolding magic_inv_def v .
  moreover have "ready_inv ?k" using inv(2) unfolding ready_inv_def v by simp
  moreover have "run_inv ?k" using inv(5) unfolding run_inv_def v by simp
  ultimately show ?thesis using st unfolding good_def sched_inv_def runs_def v by simp
qed

lemma map_filter_Cons: "List.map_filter f (x # xs) = (case f x of None \<Rightarrow> [] | Some y \<Rightarrow> [y]) @ List.map_filter f xs"
  by (simp add: List.map_filter_def split: option.splits)

lemma good_frames_running:
  assumes "good k"
  shows "list_all (\<lambda>f. \<not> starts_idle f) (frames k (running k))"
    "idle_thread k = Some (running k) \<Longrightarrow> list_all idle_frame (frames k (running k))"
    "distinct (embryos k (running k))"
  using assms by (simp_all add: good_def sched_inv_def idle_inv_def frame_inv_def)

lemma good_push_frame:
  assumes "good k" "\<not> starts_idle f" "embryo f = None"
    and "idle_thread k = Some (running k) \<Longrightarrow> idle_frame f"
  shows "good (push_frame f k)"
  unfolding push_frame_def using assms good_frames_running [OF assms(1)]
  by (intro good_set_frames) (auto simp: map_filter_Cons embryos_def)

lemma good_pop_frame:
  assumes "good k"
  shows "good (pop_frame k)"
proof -
  let ?fs = "frames k (running k)"
  have "List.map_filter embryo (tl ?fs) = (case ?fs of [] \<Rightarrow> [] | f # fs \<Rightarrow>
      if embryo f = None then embryos k (running k) else tl (embryos k (running k)))"
    by (auto simp: embryos_def map_filter_Cons List.map_filter_simps(2) split: list.split option.split)
  then have "set (List.map_filter embryo (tl ?fs)) \<subseteq> set (embryos k (running k))"
    "distinct (List.map_filter embryo (tl ?fs))"
    using good_frames_running(3) [OF assms]
    by (auto split: list.splits dest: in_set_tlD simp: distinct_tl)
  then show ?thesis
    unfolding pop_frame_def using assms good_frames_running(1,2) [OF assms]
    by (intro good_set_frames) (auto simp: list_all_iff dest: in_set_tlD)
qed

section \<open>Switching\<close>

text \<open>The state after a switch to \<open>n\<close>.\<close>

definition switched :: "tptr \<Rightarrow> kernel \<Rightarrow> kernel" where
  "switched n k =
     (let th = the (threads k n); p = running k;
          k' = k\<lparr>ready_list := remove1 n (ready_list k), running := n,
                 threads := (threads k)(n \<mapsto> th\<lparr>status := THREAD_RUNNING\<rparr>),
                 thread_ticks := 0, cr3 := pagedir th, esp0 := n + PGSIZE\<rparr>
      in if p \<noteq> n \<and> status_of k p = Some THREAD_DYING \<and> initial_thread k \<noteq> Some p
         then k'\<lparr>threads := (threads k')(p := None), frames := (frames k)(p := [])\<rparr>
         else k')"

definition next_choice :: "kernel \<Rightarrow> tptr \<Rightarrow> bool" where
  "next_choice k n \<longleftrightarrow>
     (if ready_list k = [] then idle_thread k = Some n
      else n = max_elem (less_thread_priority k) (ready_list k))"

lemma process_activate_eq:
  "process_activate k = Some k' \<Longrightarrow>
     k' = k\<lparr>cr3 := pagedir (the (threads k (running k))), esp0 := running k + PGSIZE\<rparr>"
  by (auto simp: process_activate_def thread_current_def bind_eq_Some_conv Let_def running_thread_def)

lemma thread_schedule_tail_eq:
  assumes "thread_schedule_tail prev k = Some k'"
  shows "threads k (running k) \<noteq> None \<and> level k = INTR_OFF \<and>
    (let th = the (threads k (running k));
         k1 = k\<lparr>threads := (threads k)(running k \<mapsto> th\<lparr>status := THREAD_RUNNING\<rparr>),
                thread_ticks := 0, cr3 := pagedir th, esp0 := running k + PGSIZE\<rparr>
     in k' = (case prev of None \<Rightarrow> k1 | Some p \<Rightarrow>
           if status_of k1 p = Some THREAD_DYING \<and> initial_thread k \<noteq> Some p
           then k1\<lparr>threads := (threads k1)(p := None), frames := (frames k)(p := [])\<rparr> else k1))"
proof -
  from assms obtain th k2 where th: "threads k (running k) = Some th" and lv: "level k = INTR_OFF"
    and act: "process_activate
      (k\<lparr>threads := (threads k)(running k \<mapsto> th\<lparr>status := THREAD_RUNNING\<rparr>), thread_ticks := 0\<rparr>) = Some k2"
    and fin: "(case prev of None \<Rightarrow> Some k2 | Some p \<Rightarrow> threads k2 p \<bind>
       (\<lambda>pt. if status pt = THREAD_DYING \<and> initial_thread k2 \<noteq> Some p
         then ASSERT (p \<noteq> running k) \<bind>
           (\<lambda>_. Some (k2\<lparr>threads := (threads k2)(p := None), frames := (frames k2)(p := [])\<rparr>))
         else Some k2)) = Some k'"
    by (auto simp: thread_schedule_tail_def upd_thread_def bind_eq_Some_conv Let_def running_thread_def
      intr_get_level_def)
  have k2: "k2 = k\<lparr>threads := (threads k)(running k \<mapsto> th\<lparr>status := THREAD_RUNNING\<rparr>),
      thread_ticks := 0, cr3 := pagedir th, esp0 := running k + PGSIZE\<rparr>"
    using process_activate_eq [OF act] by simp
  have k': "k' = (case prev of None \<Rightarrow> k2 | Some p \<Rightarrow>
      if status_of k2 p = Some THREAD_DYING \<and> initial_thread k2 \<noteq> Some p
      then k2\<lparr>threads := (threads k2)(p := None), frames := (frames k2)(p := [])\<rparr> else k2)"
    using fin by (auto simp: status_of_def bind_eq_Some_conv split: option.splits if_splits)
  have "initial_thread k2 = initial_thread k" "frames k2 = frames k" by (simp_all add: k2)
  then show ?thesis unfolding k' Let_def th option.sel k2 [symmetric] using lv by (cases prev) simp_all
qed

lemma schedule_switched:
  assumes "schedule k = Some k'" and "idle_inv k"
  shows "\<exists>n th. next_choice k n \<and> threads k n = Some th \<and> k' = switched n k \<and> level k = INTR_OFF
    \<and> status_of k (running k) \<noteq> Some THREAD_RUNNING"
proof -
  obtain n where n: "next_choice k n"
    and st: "status_of k (running k) \<noteq> Some THREAD_RUNNING"
    and tail: "thread_schedule_tail (if running k \<noteq> n then Some (running k) else None)
      (k\<lparr>ready_list := remove1 n (ready_list k), running := n\<rparr>) = Some k'"
  proof (cases "ready_list k = []")
    case True
    have k: "k\<lparr>ready_list := []\<rparr> = k" by (cases k) (use True in simp)
    obtain n where "idle_thread k = Some n" "status_of k (running k) \<noteq> Some THREAD_RUNNING"
      "thread_schedule_tail (if running k \<noteq> n then Some (running k) else None) (k\<lparr>running := n\<rparr>) = Some k'"
    proof -
      obtain n where "idle_thread k = Some n" "status_of k (running k) \<noteq> Some THREAD_RUNNING"
        and *: "(if running k \<noteq> n then thread_schedule_tail (Some (running k)) (k\<lparr>running := n\<rparr>)
          else thread_schedule_tail None k) = Some k'"
        using assms(1) True
        by (auto simp: schedule_def next_thread_to_run_def bind_eq_Some_conv Let_def
            status_of_def running_thread_def)
      moreover have "k\<lparr>running := n\<rparr> = k" if "running k = n" by (cases k) (use that in simp)
      ultimately show ?thesis using that [of n] by (cases "running k = n") (simp_all only: if_True if_False simp_thms)
    qed
    then show ?thesis using that [of n] True k by (simp add: next_choice_def)
  next
    case False
    let ?n = "max_elem (less_thread_priority k) (ready_list k)"
    let ?k = "k\<lparr>ready_list := remove1 ?n (ready_list k)\<rparr>"
    have "status_of k (running k) \<noteq> Some THREAD_RUNNING"
      "thread_schedule_tail (if running k \<noteq> ?n then Some (running k) else None) (?k\<lparr>running := ?n\<rparr>) = Some k'"
    proof -
      have "(if running k \<noteq> ?n then thread_schedule_tail (Some (running k)) (?k\<lparr>running := ?n\<rparr>)
          else thread_schedule_tail None ?k) = Some k'"
        and st: "status_of k (running k) \<noteq> Some THREAD_RUNNING"
        using assms(1) False
        by (auto simp: schedule_def next_thread_to_run_def bind_eq_Some_conv Let_def
            status_of_def running_thread_def)
      moreover have "?k\<lparr>running := ?n\<rparr> = ?k" if "running k = ?n"
        by (cases k) (use that in simp)
      ultimately show "thread_schedule_tail (if running k \<noteq> ?n then Some (running k) else None)
          (?k\<lparr>running := ?n\<rparr>) = Some k'"
        by (cases "running k = ?n") (simp_all only: if_True if_False simp_thms)
      show "status_of k (running k) \<noteq> Some THREAD_RUNNING" by (fact st)
    qed
    then show ?thesis using that [of ?n] False by (simp add: next_choice_def)
  qed
  from thread_schedule_tail_eq [OF tail] n st show ?thesis
    by (auto simp: switched_def Let_def status_of_def split: if_splits)
qed

lemma next_choice_props:
  assumes "sched_inv k" "next_choice k n"
  shows "n \<in> set (ready_list k) \<or> idle_thread k = Some n" "n \<notin> set (sleep_list k)"
    "n \<notin> set (waiters_of k s)" "n \<notin> set (embryos k t)" "status_of k n \<notin> {None, Some THREAD_DYING}"
proof -
  show n: "n \<in> set (ready_list k) \<or> idle_thread k = Some n"
    using assms(2) by (auto simp: next_choice_def max_elem_in split: if_splits)
  have inv: "ready_inv k" "sleep_inv k" "wait_inv k" "idle_inv k" "frame_inv k"
    using assms(1) by (simp_all add: sched_inv_def)
  have r: "n \<in> set (ready_list k) \<Longrightarrow> status_of k n = Some THREAD_READY"
    using inv(1) by (simp add: ready_inv_def)
  have i: "idle_thread k = Some n \<Longrightarrow> list_all idle_frame (frames k n)"
    using inv(4) by (simp add: idle_inv_def)
  show "n \<notin> set (sleep_list k)" using inv(2) n r i unfolding sleep_inv_def by fastforce
  show "n \<notin> set (waiters_of k s)" using inv(3) n r i unfolding wait_inv_def by fastforce
  show "n \<notin> set (embryos k t)" using inv(5) n r unfolding frame_inv_def by force
  show "status_of k n \<notin> {None, Some THREAD_DYING}" using inv(4) n r unfolding idle_inv_def by auto
qed

lemma switched_views:
  assumes "threads k n = Some th"
  defines "p \<equiv> running k"
  defines "dies \<equiv> p \<noteq> n \<and> status_of k p = Some THREAD_DYING \<and> initial_thread k \<noteq> Some p"
  shows "status_of (switched n k) =
      (if dies then (status_of k)(n := Some THREAD_RUNNING, p := None)
       else (status_of k)(n := Some THREAD_RUNNING))"
    "magic_of (switched n k) = (if dies then (magic_of k)(p := None) else magic_of k)"
    "dies \<or> wakeup_of (switched n k) = wakeup_of k"
    "t \<noteq> p \<Longrightarrow> wakeup_of (switched n k) t = wakeup_of k t"
    "waiters_of (switched n k) = waiters_of k"
    "frames (switched n k) = (if dies then (frames k)(p := []) else frames k)"
    "ready_list (switched n k) = remove1 n (ready_list k)" "sleep_list (switched n k) = sleep_list k"
    "running (switched n k) = n" "idle_thread (switched n k) = idle_thread k"
proof -
  have "get_sema s (switched n k) = get_sema s k" for s
    by (cases s) (simp_all add: switched_def Let_def)
  then show "waiters_of (switched n k) = waiters_of k" by (simp add: waiters_of_def fun_eq_iff)
qed (use assms in \<open>auto simp: switched_def Let_def status_of_def magic_of_def wakeup_of_def fun_eq_iff\<close>)

lemma good_switched:
  assumes inv: "sched_inv k" and st: "status_of k (running k) \<noteq> Some THREAD_RUNNING"
    and n: "next_choice k n" and th: "threads k n = Some th"
  shows "good (switched n k)"
proof -
  let ?k = "switched n k" and ?p = "running k"
  note v = switched_views [OF th]
  note np = next_choice_props [OF inv n]
  have invs: "magic_inv k" "ready_inv k" "sleep_inv k" "wait_inv k" "run_inv k" "idle_inv k" "frame_inv k"
    using inv by (simp_all add: sched_inv_def)
  have norun: "status_of k t \<noteq> Some THREAD_RUNNING" for t
    using invs(5) st by (auto simp: run_inv_def)
  have alive: "t \<noteq> ?p \<or> \<not> (?p \<noteq> n \<and> status_of k ?p = Some THREAD_DYING \<and> initial_thread k \<noteq> Some ?p)"
    if "status_of k t \<noteq> Some THREAD_DYING" for t
    using that by auto
  have "magic_inv ?k" using invs(1) unfolding magic_inv_def v(2) by simp
  moreover have "ready_inv ?k"
    using invs(2) np(1) unfolding ready_inv_def v by auto
  moreover have "sleep_inv ?k"
  proof -
    have t: "status_of ?k t = Some THREAD_BLOCKED \<and> frames ?k t = frames k t \<and> wakeup_of ?k t = wakeup_of k t"
      if "t \<in> set (sleep_list k)" for t
    proof -
      have "status_of k t = Some THREAD_BLOCKED" "t \<noteq> n" using that invs(3) np(2) by (auto simp: sleep_inv_def)
      then show ?thesis using v(3) v(4) [of t] by (auto simp: v(1,6))
    qed
    then have m: "map (wakeup_of ?k) (sleep_list k) = map (wakeup_of k) (sleep_list k)" by simp
    show ?thesis using invs(3) t unfolding sleep_inv_def v(8) m by auto
  qed
  moreover have "wait_inv ?k"
  proof -
    have "status_of ?k t = Some THREAD_BLOCKED \<and> frames ?k t = frames k t"
      if "t \<in> set (waiters_of k s)" for t s
    proof -
      have "status_of k t = Some THREAD_BLOCKED" "t \<noteq> n" using that invs(4) np(3) by (auto simp: wait_inv_def)
      then show ?thesis by (auto simp: v(1,6))
    qed
    then show ?thesis using invs(4) by (simp add: wait_inv_def v(5))
  qed
  moreover have "run_inv ?k" using norun unfolding run_inv_def v by auto
  moreover have "idle_inv ?k"
    using invs(6) unfolding idle_inv_def v by (auto dest: in_set_remove1 notin_set_remove1)
  moreover have "frame_inv ?k"
  proof -
    have e: "embryos ?k t = (if t = ?p \<and> frames ?k t = [] then [] else embryos k t)" for t
      by (auto simp: embryos_def v(6) List.map_filter_simps(2))
    have x: "frames ?k e = [] \<and> status_of ?k e = Some THREAD_BLOCKED \<and> idle_thread ?k \<noteq> Some e"
      if "e \<in> set (embryos k t)" for e t
    proof -
      have "frames k e = [] \<and> status_of k e = Some THREAD_BLOCKED \<and> idle_thread k \<noteq> Some e" "e \<noteq> n"
        using that invs(7) np(4) by (auto simp: frame_inv_def)
      then show ?thesis by (auto simp: v(1,6,10))
    qed
    have "frames ?k t = []" if "status_of ?k t = None" for t
      using that invs(7) by (auto simp: v(1,6) frame_inv_def split: if_splits)
    moreover have "list_all (\<lambda>f. \<not> starts_idle f) (frames ?k t)" for t
      using invs(7) by (simp add: v(6) frame_inv_def)
    moreover have "distinct (embryos ?k t)" for t using invs(7) by (simp add: e frame_inv_def)
    moreover have "set (embryos ?k t) \<inter> set (embryos ?k u) = {}" if "t \<noteq> u" for t u
      using invs(7) that by (simp add: e frame_inv_def)
    moreover have "frames ?k e = [] \<and> status_of ?k e = Some THREAD_BLOCKED \<and> idle_thread ?k \<noteq> Some e"
      if "e \<in> set (embryos ?k t)" for e t
      using x that by (auto simp: e split: if_splits)
    ultimately show ?thesis unfolding frame_inv_def by blast
  qed
  moreover have "runs ?k" unfolding runs_def v by auto
  ultimately show ?thesis by (simp add: good_def sched_inv_def)
qed

lemma good_schedule:
  assumes "sched_inv k" "schedule k = Some k'"
  shows "good k'"
proof -
  have "idle_inv k" using assms(1) by (simp add: sched_inv_def)
  from schedule_switched [OF assms(2) this] good_switched [OF assms(1)] show ?thesis by blast
qed

section \<open>Leaving the processor\<close>

text \<open>The running thread pushes a frame and becomes ready or blocked, on the list of that frame.\<close>

lemma sched_inv_leave:
  fixes k k1
  defines "r \<equiv> running k"
  assumes g: "good k"
    and st: "status_of k1 = (status_of k)(r := Some st)" "st = THREAD_READY \<or> st = THREAD_BLOCKED"
    and fr: "frames k1 = (frames k)(r := f # frames k r)"
    and f: "\<not> starts_idle f" "embryo f = None" "idle_thread k = Some r \<Longrightarrow> idle_frame f"
    and same: "magic_of k1 = magic_of k" "running k1 = r" "idle_thread k1 = idle_thread k"
    and ready: "ready_list k1 =
      (if st = THREAD_READY \<and> idle_thread k \<noteq> Some r then ready_list k @ [r] else ready_list k)"
    and sleep: "sleep_list k1 = sleep_list k \<or> st = THREAD_BLOCKED \<and> (\<exists>l. f = F_sleep l)
      \<and> mset (sleep_list k1) = add_mset r (mset (sleep_list k))"
    and wake: "\<And>t. t \<noteq> r \<Longrightarrow> wakeup_of k1 t = wakeup_of k t" "sorted (map (wakeup_of k1) (sleep_list k1))"
    and wait: "waiters_of k1 = waiters_of k \<or> st = THREAD_BLOCKED \<and> (\<exists>s l. f = F_sema_down s l
      \<and> waiters_of k1 = (waiters_of k)(s := waiters_of k s @ [r]))"
  shows "sched_inv k1"
proof -
  note nq = good_running_not_queued [OF g, folded r_def]
  have invs: "magic_inv k" "ready_inv k" "sleep_inv k" "wait_inv k" "run_inv k" "idle_inv k" "frame_inv k"
    using g by (simp_all add: good_def sched_inv_def)
  have run: "status_of k r = Some THREAD_RUNNING" using g by (simp add: good_def runs_def r_def)
  have "magic_inv k1" using invs(1) by (simp add: magic_inv_def same)
  moreover have "ready_inv k1" using invs(2) nq(1) st by (auto simp: ready_inv_def ready same)
  moreover have "sleep_inv k1"
  proof -
    have "mset (sleep_list k1) = mset (sleep_list k) \<or>
        mset (sleep_list k1) = add_mset r (mset (sleep_list k)) \<and> st = THREAD_BLOCKED \<and> (\<exists>l. f = F_sleep l)"
      using sleep by auto
    moreover have "distinct (sleep_list k1)"
      using calculation invs(3) nq(2) by (auto simp: sleep_inv_def distinct_count_atmost_1 simp flip: set_mset_mset)
    moreover have "t \<in> set (sleep_list k) \<or> t = r \<and> st = THREAD_BLOCKED \<and> (\<exists>l. f = F_sleep l)"
      if "t \<in> set (sleep_list k1)" for t
      using calculation(1) that by (auto simp flip: set_mset_mset)
    ultimately show ?thesis using invs(3) wake(2) st(1) fr nq(2) unfolding sleep_inv_def by fastforce
  qed
  moreover have "wait_inv k1"
    using wait
  proof
    assume "waiters_of k1 = waiters_of k"
    then show ?thesis using invs(4) nq(3) by (auto simp: wait_inv_def st(1) fr)
  next
    assume "st = THREAD_BLOCKED \<and> (\<exists>s l. f = F_sema_down s l
      \<and> waiters_of k1 = (waiters_of k)(s := waiters_of k s @ [r]))"
    then show ?thesis using invs(4) nq(3) by (auto simp: wait_inv_def st(1) fr split: if_splits)
  qed
  moreover have "run_inv k1" using invs(5) st unfolding run_inv_def same r_def by auto
  moreover have "idle_inv k1"
    using invs(6) st f(3) unfolding idle_inv_def same ready fr st(1) by auto
  moreover have "frame_inv k1"
  proof -
    have e: "embryos k1 t = embryos k t" for t by (simp add: embryos_def fr map_filter_Cons f(2))
    have "frames k1 x = [] \<and> status_of k1 x = Some THREAD_BLOCKED \<and> idle_thread k1 \<noteq> Some x"
      if "x \<in> set (embryos k t)" for x t
      using that invs(7) nq(4) [of t] by (auto simp: frame_inv_def fr st(1) same)
    then show ?thesis using invs(7) run f(1) unfolding frame_inv_def e by (auto simp: fr st(1))
  qed
  ultimately show ?thesis by (simp add: sched_inv_def)
qed

lemma upd_status_views:
  assumes "upd_thread t (\<lambda>th. th\<lparr>status := st\<rparr>) k = Some k'"
  shows "status_of k' = (status_of k)(t := Some st)" "wakeup_of k' = wakeup_of k"
    "magic_of k' = magic_of k" "waiters_of k' = waiters_of k" "frames k' = frames k"
    "ready_list k' = ready_list k" "sleep_list k' = sleep_list k" "running k' = running k"
    "idle_thread k' = idle_thread k" "level k' = level k"
proof -
  obtain th where th: "threads k t = Some th"
    and k': "k' = k\<lparr>threads := (threads k)(t \<mapsto> th\<lparr>status := st\<rparr>)\<rparr>"
    using assms by (auto simp: upd_thread_def bind_eq_Some_conv)
  have "get_sema s k' = get_sema s k" for s by (cases s) (simp_all add: k')
  then show "waiters_of k' = waiters_of k" by (simp add: waiters_of_def fun_eq_iff)
  show "status_of k' = (status_of k)(t := Some st)" "wakeup_of k' = wakeup_of k"
    "magic_of k' = magic_of k" "frames k' = frames k"
    "ready_list k' = ready_list k" "sleep_list k' = sleep_list k" "running k' = running k"
    "idle_thread k' = idle_thread k" "level k' = level k"
    using th by (auto simp: k' status_of_def wakeup_of_def magic_of_def fun_eq_iff)
qed

lemma push_frame_views [simp]:
  "status_of (push_frame f k) = status_of k" "wakeup_of (push_frame f k) = wakeup_of k"
  "magic_of (push_frame f k) = magic_of k" "waiters_of (push_frame f k) = waiters_of k"
  "frames (push_frame f k) = (frames k)(running k := f # frames k (running k))"
  "ready_list (push_frame f k) = ready_list k" "sleep_list (push_frame f k) = sleep_list k"
  "running (push_frame f k) = running k" "idle_thread (push_frame f k) = idle_thread k"
  "level (push_frame f k) = level k"
proof -
  have "get_sema s (push_frame f k) = get_sema s k" for s by (cases s) (simp_all add: push_frame_def)
  then show "waiters_of (push_frame f k) = waiters_of k" by (simp add: waiters_of_def fun_eq_iff)
qed (simp_all add: push_frame_def status_of_def wakeup_of_def magic_of_def fun_eq_iff)

lemma ready_list_views [simp]:
  "status_of (k\<lparr>ready_list := ts\<rparr>) = status_of k" "wakeup_of (k\<lparr>ready_list := ts\<rparr>) = wakeup_of k"
  "magic_of (k\<lparr>ready_list := ts\<rparr>) = magic_of k" "waiters_of (k\<lparr>ready_list := ts\<rparr>) = waiters_of k"
  "status_of (k\<lparr>sleep_list := ts\<rparr>) = status_of k" "wakeup_of (k\<lparr>sleep_list := ts\<rparr>) = wakeup_of k"
  "magic_of (k\<lparr>sleep_list := ts\<rparr>) = magic_of k" "waiters_of (k\<lparr>sleep_list := ts\<rparr>) = waiters_of k"
proof -
  have "get_sema s (k\<lparr>ready_list := ts\<rparr>) = get_sema s k" "get_sema s (k\<lparr>sleep_list := ts\<rparr>) = get_sema s k"
    for s by (cases s; simp)+
  then show "waiters_of (k\<lparr>ready_list := ts\<rparr>) = waiters_of k" "waiters_of (k\<lparr>sleep_list := ts\<rparr>) = waiters_of k"
    by (simp_all add: waiters_of_def fun_eq_iff)
qed (simp_all add: status_of_def wakeup_of_def magic_of_def fun_eq_iff)

lemma thread_current_running: "thread_current k = Some t \<Longrightarrow> t = running k"
  by (auto simp: thread_current_def running_thread_def bind_eq_Some_conv Let_def)

lemma intr_disable_views [simp]:
  "status_of (intr_disable k) = status_of k" "wakeup_of (intr_disable k) = wakeup_of k"
  "magic_of (intr_disable k) = magic_of k" "waiters_of (intr_disable k) = waiters_of k"
  "frames (intr_disable k) = frames k" "ready_list (intr_disable k) = ready_list k"
  "sleep_list (intr_disable k) = sleep_list k" "running (intr_disable k) = running k"
  "idle_thread (intr_disable k) = idle_thread k"
  using same_sched_fields(14) [of k] by (simp_all add: same_sched_def)

lemma good_thread_yield:
  assumes "good k" "thread_yield k = Some k'"
  shows "good k'"
proof (cases "enable_yield k")
  case True
  let ?r = "running k"
  let ?k0 = "if idle_thread k \<noteq> Some ?r then (intr_disable k)\<lparr>ready_list := ready_list (intr_disable k) @ [?r]\<rparr> else intr_disable k"
  obtain k1 where k1: "upd_thread ?r (\<lambda>th. th\<lparr>status := THREAD_READY\<rparr>) ?k0 = Some k1"
    and sch: "schedule (push_frame (F_yield (level k)) k1) = Some k'"
    using assms(2) True
    by (auto simp: thread_yield_def bind_eq_Some_conv Let_def intr_get_level_def dest!: thread_current_running)
  note v = upd_status_views [OF k1]
  have "sched_inv (push_frame (F_yield (level k)) k1)"
  proof (rule sched_inv_leave [OF assms(1), where st = THREAD_READY and f = "F_yield (level k)"])
    show "sorted (map (wakeup_of (push_frame (F_yield (level k)) k1))
        (sleep_list (push_frame (F_yield (level k)) k1)))"
      using assms(1) by (simp add: v good_def sched_inv_def sleep_inv_def)
  qed (simp_all add: v)
  then show ?thesis using sch by (rule good_schedule)
next
  case False
  then show ?thesis using assms by (simp add: thread_yield_def)
qed

lemma thread_block_schedule:
  assumes "thread_block k = Some k'"
  shows "\<exists>k1. upd_thread (running k) (\<lambda>th. th\<lparr>status := THREAD_BLOCKED\<rparr>) k = Some k1 \<and> schedule k1 = Some k'"
  using assms by (auto simp: thread_block_def bind_eq_Some_conv dest!: thread_current_running)

lemma good_sema_down_loop:
  assumes "good k" "idle_thread k \<noteq> Some (running k)" "sema_down_loop s l k = Some k'"
  shows "good k'"
proof -
  obtain sm where sm: "get_sema s k = Some sm" using assms(3)
    by (auto simp: sema_down_loop_def bind_eq_Some_conv)
  show ?thesis
  proof (cases "sem_value sm = 0")
    case True
    obtain k0 where k0: "set_sema s (sm\<lparr>sem_waiters := sem_waiters sm @ [running k]\<rparr>) k = Some k0"
      and bl: "thread_block (push_frame (F_sema_down s l) k0) = Some k'"
      using assms(3) sm True
      by (auto simp: sema_down_loop_def bind_eq_Some_conv dest!: thread_current_running)
    note sv = set_sema_views [OF k0] set_sema_thread_views [OF k0]
    obtain k1 where k1: "upd_thread (running k) (\<lambda>th. th\<lparr>status := THREAD_BLOCKED\<rparr>)
        (push_frame (F_sema_down s l) k0) = Some k1" and sch: "schedule k1 = Some k'"
      using thread_block_schedule [OF bl] by (auto simp: sv)
    note v = upd_status_views [OF k1]
    have w: "sem_waiters sm = waiters_of k s" by (simp add: waiters_of_def sm)
    have "sched_inv k1"
    proof (rule sched_inv_leave [OF assms(1), where st = THREAD_BLOCKED and f = "F_sema_down s l"])
      show "sorted (map (wakeup_of k1) (sleep_list k1))"
        using assms(1) by (simp add: v sv good_def sched_inv_def sleep_inv_def)
      show "waiters_of k1 = waiters_of k \<or> THREAD_BLOCKED = THREAD_BLOCKED \<and>
          (\<exists>sa la. F_sema_down s l = F_sema_down sa la \<and>
             waiters_of k1 = (waiters_of k)(sa := waiters_of k sa @ [running k]))"
        by (simp add: v sv w)
    qed (use assms(2) in \<open>simp_all add: v sv\<close>)
    then show ?thesis using sch by (rule good_schedule)
  next
    case False
    then obtain k0 where "set_sema s (sm\<lparr>sem_value := sem_value sm - 1\<rparr>) k = Some k0"
      "intr_set_level l k0 = Some k'"
      using assms(3) sm by (auto simp: sema_down_loop_def bind_eq_Some_conv)
    then show ?thesis using same_sched_set_sema [OF _ sm] same_sched_intr_set_level same_sched_good(3) assms(1)
      by (metis semaphore.select_convs(2) semaphore.surjective semaphore.update_convs(1))
  qed
qed

lemma good_sema_down:
  assumes "good k" "idle_thread k \<noteq> Some (running k)" "sema_down s k = Some k'"
  shows "good k'"
  using assms good_sema_down_loop [of "intr_disable k"]
  by (auto simp: sema_down_def bind_eq_Some_conv Let_def)

lemma good_thread_sleep:
  assumes "good k" "idle_thread k \<noteq> Some (running k)" "thread_sleep w k = Some k'"
  shows "good k'"
proof -
  let ?r = "running k" and ?f = "F_sleep (level k)"
  obtain k0 where k0: "upd_thread ?r (\<lambda>th. th\<lparr>wakeup_time := w\<rparr>) (intr_disable k) = Some k0"
    and bl: "thread_block (push_frame ?f
      (k0\<lparr>sleep_list := insert_ordered (less_sleep k0) ?r (sleep_list k0)\<rparr>)) = Some k'"
    and ok: "threads_ok k0 (sleep_list k0)"
    using assms(3)
    by (auto simp: thread_sleep_def bind_eq_Some_conv Let_def intr_get_level_def dest!: thread_current_running)
  obtain th where th: "threads k ?r = Some th"
    and k0_eq: "k0 = (intr_disable k)\<lparr>threads := (threads k)(?r \<mapsto> th\<lparr>wakeup_time := w\<rparr>)\<rparr>"
    using k0 by (auto simp: upd_thread_def bind_eq_Some_conv intr_disable_def)
  have gs: "get_sema s k0 = get_sema s k" for s by (cases s) (simp_all add: k0_eq intr_disable_def)
  have k0v: "status_of k0 = status_of k" "magic_of k0 = magic_of k" "frames k0 = frames k"
    "ready_list k0 = ready_list k" "sleep_list k0 = sleep_list k" "running k0 = ?r"
    "idle_thread k0 = idle_thread k" "waiters_of k0 = waiters_of k"
    "t \<noteq> ?r \<Longrightarrow> wakeup_of k0 t = wakeup_of k t" for t
    using th by (auto simp: k0_eq intr_disable_def status_of_def magic_of_def wakeup_of_def waiters_of_def gs
        [unfolded k0_eq intr_disable_def] fun_eq_iff)
  obtain k1 where k1: "upd_thread ?r (\<lambda>th. th\<lparr>status := THREAD_BLOCKED\<rparr>) (push_frame ?f
      (k0\<lparr>sleep_list := insert_ordered (less_sleep k0) ?r (sleep_list k0)\<rparr>)) = Some k1"
    and sch: "schedule k1 = Some k'"
    using thread_block_schedule [OF bl] by (auto simp: k0v)
  note v = upd_status_views [OF k1]
  have less: "less_sleep k0 a b = (wakeup_of k0 a < wakeup_of k0 b)" if "threads k0 a \<noteq> None" "threads k0 b \<noteq> None" for a b
    using that by (auto simp: less_sleep_def sleep_aux_def wakeup_of_def)
  have eq: "insert_ordered (less_sleep k0) ?r (sleep_list k0) =
      insert_ordered (\<lambda>a b. wakeup_of k0 a < wakeup_of k0 b) ?r (sleep_list k0)"
  proof -
    have "less_sleep k0 ?r y = (wakeup_of k0 ?r < wakeup_of k0 y)" if "y \<in> set (sleep_list k0)" for y
      using that ok by (intro less) (auto simp: k0_eq threads_ok_def list_all_iff)
    then show ?thesis unfolding insert_ordered_def
      by (metis (mono_tags, lifting) dropWhile_cong takeWhile_cong)
  qed
  have srt: "sorted (map (wakeup_of k0) (insert_ordered (less_sleep k0) ?r (sleep_list k0)))"
  proof -
    have "sorted (map (wakeup_of k) (sleep_list k))" "?r \<notin> set (sleep_list k)"
      using assms(1) good_running_not_queued(2) [OF assms(1)] by (simp_all add: good_def sched_inv_def sleep_inv_def)
    moreover have "map (wakeup_of k0) (sleep_list k0) = map (wakeup_of k) (sleep_list k)"
      using calculation(2) k0v(9) by (intro map_cong) (auto simp: k0v(5), metis)
    ultimately have "sorted (map (wakeup_of k0) (sleep_list k0))" by simp
    then have "ordered (\<lambda>a b. wakeup_of k0 a < wakeup_of k0 b) (sleep_list k0)"
      by (simp add: ordered_by_key)
    from by_key.ordered_insert_ordered [OF this, of ?r] show ?thesis
      unfolding eq by (simp add: ordered_by_key)
  qed
  have "sched_inv k1"
  proof (rule sched_inv_leave [OF assms(1), where st = THREAD_BLOCKED and f = ?f])
    show "sorted (map (wakeup_of k1) (sleep_list k1))" using srt by (simp add: v k0v)
    show "sleep_list k1 = sleep_list k \<or> THREAD_BLOCKED = THREAD_BLOCKED \<and> (\<exists>l. ?f = F_sleep l) \<and>
        mset (sleep_list k1) = add_mset ?r (mset (sleep_list k))"
      by (simp add: v k0v mset_insert_ordered)
  qed (use assms(2) in \<open>simp_all add: v k0v\<close>)
  then show ?thesis using sch by (rule good_schedule)
qed

lemma good_idle_loop:
  assumes "good k" "idle_loop k = Some k'"
  shows "good k'"
proof -
  let ?r = "running k"
  obtain k1 where k1: "upd_thread ?r (\<lambda>th. th\<lparr>status := THREAD_BLOCKED\<rparr>)
      (push_frame F_idle_halt (intr_disable k)) = Some k1" and sch: "schedule k1 = Some k'"
    using thread_block_schedule [of "push_frame F_idle_halt (intr_disable k)" k'] assms(2)
    by (auto simp: idle_loop_def)
  note v = upd_status_views [OF k1]
  have "sched_inv k1"
  proof (rule sched_inv_leave [OF assms(1), where st = THREAD_BLOCKED and f = F_idle_halt])
    show "sorted (map (wakeup_of k1) (sleep_list k1))"
      using assms(1) by (simp add: v good_def sched_inv_def sleep_inv_def)
  qed (simp_all add: v)
  then show ?thesis using sch by (rule good_schedule)
qed

section \<open>Waking\<close>

lemma sched_inv_shrink:
  assumes "sched_inv k" and "\<And>s. distinct (waiters_of k' s)" "\<And>s. set (waiters_of k' s) \<subseteq> set (waiters_of k s)"
    and "status_of k' = status_of k" "wakeup_of k' = wakeup_of k" "magic_of k' = magic_of k"
    "frames k' = frames k" "ready_list k' = ready_list k" "sleep_list k' = sleep_list k"
    "running k' = running k" "idle_thread k' = idle_thread k"
  shows "sched_inv k'"
proof -
  have "wait_inv k'" using assms(1-3) unfolding sched_inv_def wait_inv_def assms(4,7) by blast
  moreover have "magic_inv k' = magic_inv k" "ready_inv k' = ready_inv k" "sleep_inv k' = sleep_inv k"
    "run_inv k' = run_inv k" "idle_inv k' = idle_inv k" "frame_inv k' = frame_inv k"
    by (simp_all only: magic_inv_def ready_inv_def sleep_inv_def run_inv_def idle_inv_def frame_inv_def
        embryos_def assms(4-))
  ultimately show ?thesis using assms(1) by (simp add: sched_inv_def)
qed

lemma thread_unblock_views:
  assumes "thread_unblock t k = Some k'"
  shows "status_of k t = Some THREAD_BLOCKED" "status_of k' = (status_of k)(t := Some THREAD_READY)"
    "wakeup_of k' = wakeup_of k" "magic_of k' = magic_of k" "waiters_of k' = waiters_of k"
    "frames k' = frames k" "ready_list k' = ready_list k @ [t]" "sleep_list k' = sleep_list k"
    "running k' = running k" "idle_thread k' = idle_thread k"
proof -
  obtain k1 where st: "status_of k t = Some THREAD_BLOCKED"
    and k1: "upd_thread t (\<lambda>th. th\<lparr>status := THREAD_READY\<rparr>)
      ((intr_disable k)\<lparr>ready_list := ready_list (intr_disable k) @ [t]\<rparr>) = Some k1"
    and lv: "intr_set_level (level k) k1 = Some k'"
    using assms by (auto simp: thread_unblock_def bind_eq_Some_conv Let_def intr_get_level_def
        status_of_def intr_disable_def)
  show "status_of k t = Some THREAD_BLOCKED" by (fact st)
  show "status_of k' = (status_of k)(t := Some THREAD_READY)"
    "wakeup_of k' = wakeup_of k" "magic_of k' = magic_of k" "waiters_of k' = waiters_of k"
    "frames k' = frames k" "ready_list k' = ready_list k @ [t]" "sleep_list k' = sleep_list k"
    "running k' = running k" "idle_thread k' = idle_thread k"
    using same_sched_intr_set_level [OF lv] by (simp_all add: same_sched_def upd_status_views [OF k1])
qed

lemma sched_inv_thread_unblock:
  assumes "sched_inv k" "thread_unblock t k = Some k'"
    and "t \<notin> set (sleep_list k)" "\<And>s. t \<notin> set (waiters_of k s)" "\<And>u. t \<notin> set (embryos k u)"
    and "idle_thread k \<noteq> Some t"
  shows "sched_inv k'"
proof -
  note v = thread_unblock_views [OF assms(2)]
  have invs: "magic_inv k" "ready_inv k" "sleep_inv k" "wait_inv k" "run_inv k" "idle_inv k" "frame_inv k"
    using assms(1) by (simp_all add: sched_inv_def)
  have nr: "t \<notin> set (ready_list k)" using v(1) invs(2) by (auto simp: ready_inv_def)
  have e: "embryos k' = embryos k" by (simp add: embryos_def v fun_eq_iff)
  have "magic_inv k'" using invs(1) by (simp add: magic_inv_def v)
  moreover have "ready_inv k'" using invs(2) nr by (auto simp: ready_inv_def v)
  moreover have "sleep_inv k'" using invs(3) assms(3) by (auto simp: sleep_inv_def v)
  moreover have "wait_inv k'" using invs(4) assms(4) by (auto simp: wait_inv_def v)
  moreover have "run_inv k'" using invs(5) unfolding run_inv_def v by auto
  moreover have "idle_inv k'" using invs(6) assms(6) by (auto simp: idle_inv_def v)
  moreover have "frame_inv k'"
  proof -
    have "\<forall>u. \<forall>x \<in> set (embryos k' u). frames k' x = [] \<and> status_of k' x = Some THREAD_BLOCKED
        \<and> idle_thread k' \<noteq> Some x"
      using invs(7) assms(5) unfolding frame_inv_def e by (auto simp: v)
    then show ?thesis using invs(7) unfolding frame_inv_def e by (auto simp: v)
  qed
  ultimately show ?thesis by (simp add: sched_inv_def)
qed

lemma waiter_elsewhere:
  assumes "sched_inv k" "t \<in> set (waiters_of k s)"
  shows "t \<notin> set (sleep_list k)" "s' \<noteq> s \<Longrightarrow> t \<notin> set (waiters_of k s')" "t \<notin> set (embryos k u)"
    "idle_thread k \<noteq> Some t" "status_of k t = Some THREAD_BLOCKED"
proof -
  have invs: "sleep_inv k" "wait_inv k" "idle_inv k" "frame_inv k"
    using assms(1) by (simp_all add: sched_inv_def)
  obtain l fs where f: "frames k t = F_sema_down s l # fs" and st: "status_of k t = Some THREAD_BLOCKED"
    using invs(2) assms(2) unfolding wait_inv_def by blast
  show "t \<notin> set (sleep_list k)" using invs(1) f by (auto simp: sleep_inv_def)
  show "s' \<noteq> s \<Longrightarrow> t \<notin> set (waiters_of k s')" using invs(2) f unfolding wait_inv_def by fastforce
  show "t \<notin> set (embryos k u)" using invs(4) f by (auto simp: frame_inv_def)
  show "idle_thread k \<noteq> Some t" using invs(3) f by (auto simp: idle_inv_def)
  show "status_of k t = Some THREAD_BLOCKED" by (fact st)
qed

lemma sema_wake_inv:
  assumes "sched_inv k" "sema_wake s k = Some k'"
  shows "sched_inv k' \<and> frames k' = frames k \<and> running k' = running k \<and> idle_thread k' = idle_thread k
    \<and> (runs k \<longrightarrow> runs k')"
proof -
  obtain sm where sm: "get_sema s k = Some sm" using assms(2)
    by (auto simp: sema_wake_def bind_eq_Some_conv)
  then have w: "sem_waiters sm = waiters_of k s" by (simp add: waiters_of_def)
  show ?thesis
  proof (cases "waiters_of k s = []")
    case True
    then show ?thesis using assms sm w by (simp add: sema_wake_def)
  next
    case False
    define t where "t = max_elem (less_thread_priority k) (waiters_of k s)"
    obtain k0 where k0: "set_sema s (sm\<lparr>sem_waiters := remove1 t (waiters_of k s)\<rparr>) k = Some k0"
      and ub: "thread_unblock t k0 = Some k'"
      using assms(2) sm False by (auto simp: sema_wake_def bind_eq_Some_conv Let_def t_def w)
    have t: "t \<in> set (waiters_of k s)" unfolding t_def using False by (rule max_elem_in)
    note sv = set_sema_views [OF k0] set_sema_thread_views [OF k0]
    have d: "distinct (waiters_of k s')" for s' using assms(1) by (simp add: sched_inv_def wait_inv_def)
    have inv0: "sched_inv k0"
      by (rule sched_inv_shrink [OF assms(1)]) (use d in \<open>auto simp: sv dest: notin_set_remove1\<close>)
    note el = waiter_elsewhere [OF assms(1) t]
    have "sched_inv k'"
      by (rule sched_inv_thread_unblock [OF inv0 ub]) (use el d in \<open>auto simp: sv embryos_def\<close>)
    moreover have "runs k'" if "runs k"
      using that el(5) by (auto simp: runs_def thread_unblock_views [OF ub] sv)
    ultimately show ?thesis by (simp add: thread_unblock_views [OF ub] sv)
  qed
qed

end
