(* ===== verification/Pintos_Sched_Steps.thy ===== *)
theory Pintos_Sched_Steps
  imports Pintos_Sched_Inv
begin

text \<open>
  Every operation of the threads kernel keeps the scheduler invariant, and so does every step of the
  machine.
\<close>

section \<open>A thread other than the idle thread is running\<close>

definition busy :: "kernel \<Rightarrow> bool" where
  "busy k \<longleftrightarrow> good k \<and> idle_thread k \<noteq> Some (running k)"

lemma busy_good: "busy k \<Longrightarrow> good k"
  by (simp add: busy_def)

lemma busy_same: "same_sched k k' \<Longrightarrow> busy k \<Longrightarrow> busy k'"
  unfolding busy_def by (metis same_sched_good(3,4,5))

lemma busy_push: "busy k \<Longrightarrow> \<not> starts_idle f \<Longrightarrow> embryo f = None \<Longrightarrow> busy (push_frame f k)"
  using good_push_frame [of k f] by (simp add: busy_def)

lemma busy_fields [simp]:
  "busy (intr_disable k) \<longleftrightarrow> busy k" "busy (return v k) \<longleftrightarrow> busy k" "busy (k\<lparr>conds := c\<rparr>) \<longleftrightarrow> busy k"
  "busy (k\<lparr>next_tid := i\<rparr>) \<longleftrightarrow> busy k" "busy (k\<lparr>cr3 := p\<rparr>) \<longleftrightarrow> busy k" "busy (k\<lparr>all_list := ts\<rparr>) \<longleftrightarrow> busy k"
  by (simp_all add: busy_def) (simp add: return_def)

lemma busy_upd_thread:
  assumes "upd_thread t f k = Some k'" "busy k"
    and "\<And>th. status (f th) = status th" "\<And>th. magic (f th) = magic th"
    and "\<And>th. wakeup_time (f th) = wakeup_time th"
  shows "busy k'"
  using same_sched_upd_thread [OF assms(1,3-)] assms(2) by (rule busy_same)

section \<open>Semaphores and locks\<close>

lemma good_sema_up:
  assumes "good k" "sema_up s k = Some k'"
  shows "good k'"
proof -
  obtain k1 k2 k3 sm where k1: "sema_wake s (intr_disable k) = Some k1" and sm: "get_sema s k1 = Some sm"
    and k2: "set_sema s (sm\<lparr>sem_value := sem_value sm + 1\<rparr>) k1 = Some k2"
    and k3: "intr_set_level (intr_get_level k) k2 = Some k3"
    and k': "(if \<not> intr_context k3 then thread_yield k3 else Some k3) = Some k'"
    using assms(2) by (auto simp: sema_up_def bind_eq_Some_conv Let_def split del: if_split)
  have "good (intr_disable k)" using assms(1) by simp
  then have "good k1" using sema_wake_inv [OF _ k1] by (simp add: good_def)
  moreover have "same_sched k1 k3"
    using same_sched_trans [OF same_sched_set_sema [OF k2 sm] same_sched_intr_set_level [OF k3]] by simp
  ultimately have "good k3" by (meson same_sched_goodD)
  then show ?thesis using k' by (auto split: if_splits intro: good_thread_yield)
qed

lemma good_lock_acquire:
  assumes "busy k" "lock_acquire l k = Some k'"
  shows "good k'"
proof -
  obtain k1 k2 where k1: "upd_thread (running k) (\<lambda>th. th\<lparr>waiting_lock := Some l\<rparr>) (intr_disable k) = Some k1"
    and k2: "flush_priority (running k) k1 = Some k2"
    and k': "sema_down (Lock_sema l) (push_frame (F_lock_acquire l (intr_get_level k)) k2) = Some k'"
    using assms(2)
    by (auto simp: lock_acquire_def bind_eq_Some_conv Let_def dest!: thread_current_running)
  have "busy k1" by (rule busy_upd_thread [OF k1]) (use assms(1) in simp_all)
  then have "busy (push_frame (F_lock_acquire l (intr_get_level k)) k2)"
    using busy_same [OF same_sched_flush_priority [OF k2]] by (intro busy_push) auto
  then show ?thesis using good_sema_down [OF _ _ k'] by (simp add: busy_def)
qed

lemma good_lock_acquire_taken:
  assumes "good k" "lock_acquire_taken l v k = Some k'"
  shows "good k'"
proof -
  obtain k1 k2 k3 k4 where "upd_lock l (\<lambda>lk. lk\<lparr>holder := Some (running k)\<rparr>) k = Some k1"
    and "upd_thread (running k) (\<lambda>th. th\<lparr>lock_list := lock_list th @ [l]\<rparr>) k1 = Some k2"
    and "adjust_priority (running k) k2 = Some k3"
    and "upd_thread (running k) (\<lambda>th. th\<lparr>waiting_lock := None\<rparr>) k3 = Some k4"
    and "intr_set_level v k4 = Some k'"
    using assms(2) by (auto simp: lock_acquire_taken_def bind_eq_Some_conv Let_def running_thread_def)
  then have "same_sched k k1" "same_sched k1 k2" "same_sched k2 k3" "same_sched k3 k4" "same_sched k4 k'"
    by (auto intro: same_sched)
  then show ?thesis using assms(1) by (meson same_sched_goodD)
qed

lemma same_sched_sema_try_down:
  assumes "sema_try_down s k = Some (b, k')"
  shows "same_sched k k'"
proof -
  obtain sm k1 where sm: "get_sema s (intr_disable k) = Some sm"
    and k1: "(if 0 < sem_value sm then set_sema s (sm\<lparr>sem_value := sem_value sm - 1\<rparr>) (intr_disable k) = Some k1
      else k1 = intr_disable k)"
    and k': "intr_set_level (intr_get_level k) k1 = Some k'"
    using assms by (auto simp: sema_try_down_def bind_eq_Some_conv Let_def split: if_splits)
  have "same_sched (intr_disable k) k1"
    using k1 same_sched_set_sema [OF _ sm] by (auto split: if_splits)
  then show ?thesis
    using same_sched_fields(14) [of k] same_sched_intr_set_level [OF k'] by (meson same_sched_trans)
qed

lemma good_lock_try_acquire:
  assumes "good k" "lock_try_acquire l k = Some (b, k')"
  shows "good k'"
proof -
  obtain t k1 k2 ok where k1: "sema_try_down (Lock_sema l) (intr_disable k) = Some (ok, k1)"
    and k2: "(if ok then upd_lock l (\<lambda>lk. lk\<lparr>holder := Some t\<rparr>) k1 \<bind>
        (\<lambda>k. upd_thread t (\<lambda>th. th\<lparr>lock_list := lock_list th @ [l]\<rparr>) k \<bind> adjust_priority t)
      else Some k1) = Some k2"
    and k': "intr_set_level (intr_get_level k) k2 = Some k'"
    using assms(2) by (auto simp: lock_try_acquire_def bind_eq_Some_conv Let_def split del: if_split)
  have g: "good k1" using same_sched_goodD [OF same_sched_sema_try_down [OF k1]] assms(1) by simp
  have "good k2"
  proof (cases ok)
    case True
    then obtain a b where "upd_lock l (\<lambda>lk. lk\<lparr>holder := Some t\<rparr>) k1 = Some a"
      "upd_thread t (\<lambda>th. th\<lparr>lock_list := lock_list th @ [l]\<rparr>) a = Some b" "adjust_priority t b = Some k2"
      using k2 by (auto simp: bind_eq_Some_conv)
    then have "same_sched k1 a" "same_sched a b" "same_sched b k2" by (auto intro: same_sched)
    then show ?thesis using g by (meson same_sched_goodD)
  qed (use g k2 in simp)
  then show ?thesis by (rule same_sched_goodD [OF same_sched_intr_set_level [OF k']])
qed

lemma good_lock_release:
  assumes "busy k" "lock_release l k = Some k'"
  shows "good k'"
proof -
  obtain t k1 k2 k3 where "upd_lock l (\<lambda>lk. lk\<lparr>holder := None\<rparr>) (intr_disable k) = Some k1"
    and "upd_thread t (\<lambda>th. th\<lparr>lock_list := remove1 l (lock_list th)\<rparr>) k1 = Some k2"
    and "adjust_priority t k2 = Some k3"
    and up: "sema_up (Lock_sema l) (push_frame (F_lock_release l (intr_get_level k)) k3) = Some k'"
    using assms(2) by (auto simp: lock_release_def bind_eq_Some_conv Let_def)
  then have "same_sched (intr_disable k) k1" "same_sched k1 k2" "same_sched k2 k3" by (auto intro: same_sched)
  then have "busy k3" using assms(1) by (meson busy_fields(1) busy_same)
  then have "good (push_frame (F_lock_release l (intr_get_level k)) k3)" by (intro busy_good busy_push) auto
  then show ?thesis using up by (rule good_sema_up)
qed

lemma good_lock_release_flush:
  assumes "good k" "lock_release_flush l v k = Some k'"
  shows "good k'"
proof -
  obtain k1 k2 where "flush_lock_priority l k = Some k1" "intr_set_level v k1 = Some k2"
    and k': "(if \<not> intr_context k2 then thread_yield k2 else Some k2) = Some k'"
    using assms(2) by (auto simp: lock_release_flush_def bind_eq_Some_conv split del: if_split)
  then have "same_sched k k1" "same_sched k1 k2" by (auto intro: same_sched)
  then have "good k2" using assms(1) by (meson same_sched_goodD)
  then show ?thesis using k' by (auto split: if_splits intro: good_thread_yield)
qed

section \<open>Condition variables\<close>

lemma same_sched_new_sema:
  assumes "semas k s = None"
  shows "same_sched k (k\<lparr>semas := (semas k)(s \<mapsto> \<lparr>sem_value = v, sem_waiters = []\<rparr>)\<rparr>)" (is "same_sched k ?k")
proof -
  have "waiters_of ?k p = waiters_of k p" for p
    using assms by (cases p) (auto simp: waiters_of_def)
  then show ?thesis by (simp add: same_sched_def status_of_def wakeup_of_def magic_of_def fun_eq_iff)
qed

lemma good_cond_wait:
  assumes "busy k" "semas k w = None" "cond_wait w c l k = Some k'"
  shows "good k'"
proof -
  define k0 where "k0 = k\<lparr>semas := (semas k)(w \<mapsto> \<lparr>sem_value = 0, sem_waiters = []\<rparr>)\<rparr>"
  obtain cs where "lock_release l (push_frame (F_cond_wait_down (Sema w) l) (k0\<lparr>conds := cs\<rparr>)) = Some k'"
    using assms(3) by (auto simp: cond_wait_def sema_init_def bind_eq_Some_conv Let_def k0_def)
  moreover have "busy k0" using same_sched_new_sema [OF assms(2)] assms(1) unfolding k0_def by (rule busy_same)
  ultimately show ?thesis by (auto intro!: good_lock_release [rotated] busy_push)
qed

lemma good_cond_signal:
  assumes "good k" "cond_signal c l k = Some k'"
  shows "good k'"
proof -
  have "k' = k \<or> (\<exists>s cs. sema_up s (k\<lparr>conds := cs\<rparr>) = Some k')"
    using assms(2) by (auto simp: cond_signal_def bind_eq_Some_conv Let_def split: if_splits)
  then show ?thesis using assms(1) by (auto intro: good_sema_up [rotated])
qed

lemma good_cond_broadcast:
  assumes "busy k" "cond_broadcast c l k = Some k'"
  shows "good k'"
proof -
  have "k' = k \<or> cond_signal c l (push_frame (F_broadcast c l) k) = Some k'"
    using assms(2) by (auto simp: cond_broadcast_def bind_eq_Some_conv split: if_splits)
  moreover have "good (push_frame (F_broadcast c l) k)" using assms(1) by (intro busy_good busy_push) auto
  ultimately show ?thesis using assms(1) by (auto simp: busy_good intro: good_cond_signal [rotated])
qed

lemma good_thread_set_priority:
  assumes "good k" "thread_set_priority p k = Some k'"
  shows "good k'"
proof -
  obtain t k1 k2 k3 where "upd_thread t (\<lambda>th. th\<lparr>instrinsic_priority := p\<rparr>) (intr_disable k) = Some k1"
    "adjust_priority t k1 = Some k2" "intr_set_level (intr_get_level k) k2 = Some k3"
    and k': "thread_yield k3 = Some k'"
    using assms(2) by (auto simp: thread_set_priority_def bind_eq_Some_conv Let_def)
  then have "same_sched (intr_disable k) k1" "same_sched k1 k2" "same_sched k2 k3" by (auto intro: same_sched)
  then have "good k3" using assms(1) by (meson same_sched_goodD good_fields(10))
  then show ?thesis using k' by (rule good_thread_yield)
qed

section \<open>New threads\<close>

lemma init_thread_views:
  assumes "init_thread t nm p k = Some k'"
  shows "status_of k' = (status_of k)(t := Some THREAD_BLOCKED)"
    "magic_of k' = (magic_of k)(t := Some THREAD_MAGIC)" "u \<noteq> t \<Longrightarrow> wakeup_of k' u = wakeup_of k u"
    "waiters_of k' = waiters_of k" "frames k' = frames k" "ready_list k' = ready_list k"
    "sleep_list k' = sleep_list k" "running k' = running k" "idle_thread k' = idle_thread k"
proof -
  obtain k1 th where k1: "k1 = k\<lparr>threads := (threads k)(t \<mapsto> th)\<rparr>"
    and th: "status th = THREAD_BLOCKED" "magic th = THREAD_MAGIC"
    and lv: "intr_set_level (level k) ((intr_disable k1)\<lparr>all_list := all_list k @ [t]\<rparr>) = Some k'"
  proof (rule that)
  qed (use assms in \<open>auto simp: init_thread_def bind_eq_Some_conv Let_def intr_get_level_def intr_disable_def\<close>)
  have s: "same_sched k1 k'"
    using same_sched_intr_set_level [OF lv] same_sched_fields(7) [of "intr_disable k1"]
      same_sched_fields(14) [of k1] by (meson same_sched_trans)
  have "get_sema s k1 = get_sema s k" for s by (cases s) (simp_all add: k1)
  then have "waiters_of k1 = waiters_of k" by (simp add: waiters_of_def fun_eq_iff)
  then show "status_of k' = (status_of k)(t := Some THREAD_BLOCKED)"
    "magic_of k' = (magic_of k)(t := Some THREAD_MAGIC)" "u \<noteq> t \<Longrightarrow> wakeup_of k' u = wakeup_of k u"
    "waiters_of k' = waiters_of k" "frames k' = frames k" "ready_list k' = ready_list k"
    "sleep_list k' = sleep_list k" "running k' = running k" "idle_thread k' = idle_thread k"
    using s th by (auto simp: same_sched_def k1 status_of_def magic_of_def wakeup_of_def fun_eq_iff)
qed

lemma good_init_thread:
  assumes g: "good k" and none: "threads k t = None" and k': "init_thread t nm p k = Some k'"
  shows "good k'" "frames k' t = []" "status_of k' t = Some THREAD_BLOCKED"
    "idle_thread k' \<noteq> Some t" "t \<notin> set (embryos k' u)"
proof -
  note v = init_thread_views [OF k']
  have invs: "magic_inv k" "ready_inv k" "sleep_inv k" "wait_inv k" "run_inv k" "idle_inv k" "frame_inv k"
    using g by (simp_all add: good_def sched_inv_def)
  have st: "status_of k t = None" using none by (simp add: status_of_def)
  have nq: "t \<notin> set (ready_list k)" "t \<notin> set (sleep_list k)" "\<And>s. t \<notin> set (waiters_of k s)"
    "\<And>u. t \<notin> set (embryos k u)" "idle_thread k \<noteq> Some t"
    using st invs by (auto simp: ready_inv_def sleep_inv_def wait_inv_def frame_inv_def idle_inv_def)
  have e: "embryos k' = embryos k" by (simp add: embryos_def v fun_eq_iff)
  show "frames k' t = []" using invs(7) st by (simp add: v frame_inv_def)
  show "status_of k' t = Some THREAD_BLOCKED" "idle_thread k' \<noteq> Some t" "t \<notin> set (embryos k' u)"
    using nq by (simp_all add: v e)
  have m: "map (wakeup_of k') (sleep_list k) = map (wakeup_of k) (sleep_list k)"
    using nq(2) v(3) by (intro map_cong refl) metis
  have run: "status_of k (running k) = Some THREAD_RUNNING" using g by (simp add: good_def runs_def)
  have "magic_inv k'" using invs(1) by (simp add: magic_inv_def v)
  moreover have "ready_inv k'" using invs(2) nq(1) by (auto simp: ready_inv_def v)
  moreover have "sleep_inv k'" using invs(3) nq(2) unfolding sleep_inv_def v(1,4-) m by auto
  moreover have "wait_inv k'" using invs(4) nq(3) by (auto simp: wait_inv_def v)
  moreover have "run_inv k'" using invs(5) unfolding run_inv_def v by auto
  moreover have "idle_inv k'" using invs(6) nq(5) by (auto simp: idle_inv_def v)
  moreover have "frame_inv k'" using invs(7) nq(4) unfolding frame_inv_def e by (auto simp: v)
  moreover have "runs k'" using run st by (auto simp: runs_def v)
  ultimately show "good k'" by (simp add: good_def sched_inv_def)
qed

lemma good_push_embryo:
  assumes g: "good k" and f: "embryo f = Some t" "\<not> starts_idle f"
    and t: "frames k t = []" "status_of k t = Some THREAD_BLOCKED" "idle_thread k \<noteq> Some t"
    "\<And>u. t \<notin> set (embryos k u)" and idle: "idle_thread k \<noteq> Some (running k)"
  shows "good (push_frame f k)"
proof -
  let ?k = "push_frame f k" and ?r = "running k"
  have invs: "magic_inv k" "ready_inv k" "sleep_inv k" "wait_inv k" "run_inv k" "idle_inv k" "frame_inv k"
    using g by (simp_all add: good_def sched_inv_def)
  have run: "status_of k ?r = Some THREAD_RUNNING" using g by (simp add: good_def runs_def)
  note nq = good_running_not_queued [OF g]
  have e: "embryos ?k = (embryos k)(?r := t # embryos k ?r)"
    by (auto simp: embryos_def map_filter_Cons f(1) fun_eq_iff)
  have tr: "t \<noteq> ?r" using t(2) run by auto
  have "sleep_inv ?k" using invs(3) nq(2) by (auto simp: sleep_inv_def)
  moreover have "wait_inv ?k" using invs(4) nq(3) by (auto simp: wait_inv_def)
  moreover have "idle_inv ?k" using invs(6) idle by (auto simp: idle_inv_def)
  moreover have "frame_inv ?k"
  proof -
    have "frames ?k x = [] \<and> status_of ?k x = Some THREAD_BLOCKED \<and> idle_thread ?k \<noteq> Some x"
      if "x \<in> set (embryos ?k u)" for x u
    proof (cases "x = t")
      case False
      then have "x \<in> set (embryos k u)" using that by (auto simp: e split: if_splits)
      then show ?thesis using invs(7) nq(4) [of u] by (auto simp: frame_inv_def)
    qed (use t tr in simp)
    moreover have "set (embryos ?k a) \<inter> set (embryos ?k b) = {}" if "a \<noteq> b" for a b
      using invs(7) t(4) that unfolding frame_inv_def e by auto
    moreover have "distinct (embryos ?k u)" for u using invs(7) t(4) by (simp add: frame_inv_def e)
    moreover have "frames ?k u = []" if "status_of ?k u = None" for u
      using that run invs(7) by (auto simp: frame_inv_def)
    moreover have "list_all (\<lambda>f. \<not> starts_idle f) (frames ?k u)" for u
      using invs(7) f(2) by (simp add: frame_inv_def)
    ultimately show ?thesis unfolding frame_inv_def by blast
  qed
  moreover have "magic_inv ?k = magic_inv k" "ready_inv ?k = ready_inv k" "run_inv ?k = run_inv k" "runs ?k = runs k"
    by (simp_all only: magic_inv_def ready_inv_def run_inv_def runs_def push_frame_views)
  ultimately show ?thesis using invs(1,2,5) run by (simp add: good_def sched_inv_def runs_def)
qed

lemma good_thread_create:
  assumes "busy k" "threads k t = None" "thread_create (Some t) node nm p (Fn_other f) k = Some k'"
  shows "good k'"
proof -
  obtain k1 where k1: "init_thread t nm p k = Some k1"
    and k': "lock_acquire tid_lock (push_frame (F_tid_acquired (For_create t (Fn_other f) node)) k1) = Some k'"
    using assms(3) by (auto simp: thread_create_def allocate_tid_def bind_eq_Some_conv)
  note i = good_init_thread [OF busy_good [OF assms(1)] assms(2) k1]
  have "idle_thread k1 \<noteq> Some (running k1)"
    using assms(1) by (simp add: busy_def init_thread_views [OF k1])
  then have "busy (push_frame (F_tid_acquired (For_create t (Fn_other f) node)) k1)"
    unfolding busy_def using i by (auto intro!: good_push_embryo [where t = t])
  then show ?thesis using k' by (rule good_lock_acquire)
qed

lemma busy_top:
  assumes "good k" "frames k (running k) = f # fs" "\<not> idle_frame f"
  shows "busy k" "busy (pop_frame k)"
proof -
  show "busy k" using assms good_frames_running(2) [OF assms(1)] by (auto simp: busy_def)
  then show "busy (pop_frame k)" using good_pop_frame [OF assms(1)] by (simp add: busy_def pop_frame_def)
qed

lemma embryo_popped:
  assumes g: "good k" and fr: "frames k (running k) = f # fs" and f: "embryo f = Some t"
  shows "frames (pop_frame k) t = []" "status_of (pop_frame k) t = Some THREAD_BLOCKED"
    "idle_thread (pop_frame k) \<noteq> Some t" "t \<notin> set (embryos (pop_frame k) u)" "t \<noteq> running k"
proof -
  have inv: "frame_inv k" using g by (simp add: good_def sched_inv_def)
  have e: "embryos k (running k) = t # List.map_filter embryo fs"
    by (simp add: embryos_def fr map_filter_Cons f)
  have e': "embryos (pop_frame k) u = (if u = running k then List.map_filter embryo fs else embryos k u)" for u
    by (simp add: embryos_def pop_frame_def fr)
  have t: "frames k t = [] \<and> status_of k t = Some THREAD_BLOCKED \<and> idle_thread k \<noteq> Some t"
    using inv e unfolding frame_inv_def by (metis list.set_intros(1))
  then show tr: "t \<noteq> running k" using fr by auto
  show "frames (pop_frame k) t = []" "status_of (pop_frame k) t = Some THREAD_BLOCKED"
    "idle_thread (pop_frame k) \<noteq> Some t"
    using t tr by (simp_all add: pop_frame_def status_of_def)
  have "distinct (t # List.map_filter embryo fs)" using inv e unfolding frame_inv_def by metis
  moreover have "t \<notin> set (embryos k u)" if "u \<noteq> running k"
  proof -
    have "set (embryos k u) \<inter> set (embryos k (running k)) = {}" using inv that by (simp add: frame_inv_def)
    then show ?thesis by (auto simp: e)
  qed
  ultimately show "t \<notin> set (embryos (pop_frame k) u)" by (simp add: e')
qed

lemma good_allocate_tid_acquired:
  assumes g: "good k" and fr: "frames k (running k) = F_tid_acquired u # fs"
    and k': "allocate_tid_acquired u (pop_frame k) = Some k'"
  shows "good k'"
proof -
  let ?f = "F_tid_released u (next_tid k)"
  have sn: "\<not> starts_idle (F_tid_acquired u)" using good_frames_running(1) [OF g] fr by simp
  then obtain t fn n where u: "u = For_create t (Fn_other fn) n"
    by (cases u rule: tid_user.exhaust; cases "case u of For_init \<Rightarrow> Fn_other 0 | For_create t f n \<Rightarrow> f") auto
  have "push_frame ?f ((pop_frame k)\<lparr>next_tid := next_tid k + 1\<rparr>) =
      (k\<lparr>frames := (frames k)(running k := ?f # fs)\<rparr>)\<lparr>next_tid := next_tid k + 1\<rparr>"
    by (simp add: push_frame_def pop_frame_def fr)
  moreover have "good (k\<lparr>frames := (frames k)(running k := ?f # fs)\<rparr>)"
    using good_frames_running [OF g] fr
    by (intro good_set_frames [OF g]) (auto simp: u map_filter_Cons embryos_def)
  ultimately have "good (push_frame ?f ((pop_frame k)\<lparr>next_tid := next_tid k + 1\<rparr>))" by simp
  moreover have "idle_thread k \<noteq> Some (running k)" using busy_top(1) [OF g fr] by (simp add: busy_def)
  ultimately have "busy (push_frame ?f ((pop_frame k)\<lparr>next_tid := next_tid k + 1\<rparr>))"
    by (simp add: busy_def pop_frame_def)
  moreover have "lock_release tid_lock (push_frame ?f ((pop_frame k)\<lparr>next_tid := next_tid k + 1\<rparr>)) = Some k'"
    using k' by (simp add: allocate_tid_acquired_def Let_def pop_frame_def)
  ultimately show ?thesis by (rule good_lock_release)
qed

lemma good_shrink_semas:
  assumes "good k" and "\<And>s. waiters_of k' s = [] \<or> waiters_of k' s = waiters_of k s"
    and "threads k' = threads k" "frames k' = frames k" "ready_list k' = ready_list k"
    "sleep_list k' = sleep_list k" "running k' = running k" "idle_thread k' = idle_thread k"
  shows "good k'"
proof -
  have v: "status_of k' = status_of k" "wakeup_of k' = wakeup_of k" "magic_of k' = magic_of k"
    by (simp_all add: status_of_def wakeup_of_def magic_of_def assms(3) fun_eq_iff)
  have "distinct (waiters_of k s)" for s using assms(1) by (simp add: good_def sched_inv_def wait_inv_def)
  then have "distinct (waiters_of k' s)" "set (waiters_of k' s) \<subseteq> set (waiters_of k s)" for s
    using assms(2) [of s] by auto
  moreover have "sched_inv k" using assms(1) by (simp add: good_def)
  ultimately have "sched_inv k'" by (intro sched_inv_shrink [of k k']) (simp_all only: v assms(4-))
  moreover have "runs k' = runs k" by (simp only: runs_def v assms(7))
  ultimately show ?thesis using assms(1) by (simp add: good_def)
qed

lemma good_set_pnodes:
  assumes "good k" "\<And>p n. nodes p = Some n \<Longrightarrow> sem_waiters (pn_sema n) = [] \<or> pnodes k p = Some n"
  shows "good (k\<lparr>pnodes := nodes\<rparr>)"
proof (rule good_shrink_semas [OF assms(1)])
  fix s
  show "waiters_of (k\<lparr>pnodes := nodes\<rparr>) s = [] \<or> waiters_of (k\<lparr>pnodes := nodes\<rparr>) s = waiters_of k s"
  proof (cases s)
    case (Pnode_sema p)
    then show ?thesis using assms(2) [of p]
      by (cases "nodes p"; cases "pnodes k p") (auto simp: waiters_of_def)
  qed (simp_all add: waiters_of_def)
qed simp_all

lemma good_free_lock:
  assumes "good k"
  shows "good (k\<lparr>locks := (locks k)(l := None)\<rparr>)"
proof (rule good_shrink_semas [OF assms])
  fix s
  show "waiters_of (k\<lparr>locks := (locks k)(l := None)\<rparr>) s = [] \<or>
      waiters_of (k\<lparr>locks := (locks k)(l := None)\<rparr>) s = waiters_of k s"
    by (cases s) (auto simp: waiters_of_def split: option.splits)
qed simp_all

text \<open>The first frame of a new thread.\<close>

lemma good_first_frame:
  assumes g: "good k" and t: "frames k t = []" "status_of k t = Some THREAD_BLOCKED" "t \<noteq> running k"
    "idle_thread k \<noteq> Some t" "\<And>u. t \<notin> set (embryos k u)"
  shows "good (k\<lparr>frames := (frames k)(t := [F_kernel_thread (Fn_other f)])\<rparr>)" (is "good ?k")
proof -
  have get: "get_sema s ?k = get_sema s k" for s by (cases s) simp_all
  have v: "status_of ?k = status_of k" "wakeup_of ?k = wakeup_of k" "magic_of ?k = magic_of k"
    "waiters_of ?k = waiters_of k"
    by (simp_all add: status_of_def wakeup_of_def magic_of_def waiters_of_def get fun_eq_iff)
  have e: "embryos ?k = embryos k"
    using t(1) by (auto simp: embryos_def fun_eq_iff List.map_filter_simps(2) map_filter_Cons)
  have invs: "magic_inv k" "ready_inv k" "sleep_inv k" "wait_inv k" "run_inv k" "idle_inv k" "frame_inv k" "runs k"
    using g by (simp_all add: good_def sched_inv_def)
  have "sleep_inv ?k" using invs(3) t(1) unfolding sleep_inv_def v by (auto; fastforce)
  moreover have "wait_inv ?k" using invs(4) t(1) unfolding wait_inv_def v by fastforce
  moreover have "idle_inv ?k" using invs(6) t(4) by (auto simp: idle_inv_def v)
  moreover have "frame_inv ?k"
  proof -
    have "frames ?k x = [] \<and> status_of ?k x = Some THREAD_BLOCKED \<and> idle_thread ?k \<noteq> Some x"
      if "x \<in> set (embryos ?k u)" for x u
    proof -
      have "x \<in> set (embryos k u)" "x \<noteq> t" using that t(5) by (auto simp: e)
      then show ?thesis using invs(7) by (auto simp: frame_inv_def v)
    qed
    then show ?thesis using invs(7) t(2) unfolding frame_inv_def e v by auto
  qed
  moreover have "magic_inv ?k = magic_inv k" "ready_inv ?k = ready_inv k" "run_inv ?k = run_inv k" "runs ?k = runs k"
    by (simp_all only: magic_inv_def ready_inv_def run_inv_def runs_def v) simp_all
  ultimately show ?thesis using invs by (simp add: good_def sched_inv_def)
qed

lemma same_sched_alloc_frame:
  "alloc_frame t n k = Some k' \<Longrightarrow> same_sched k k'"
  by (auto simp: alloc_frame_def bind_eq_Some_conv intro: same_sched_upd_thread)

definition unborn :: "kernel \<Rightarrow> tptr \<Rightarrow> bool" where
  "unborn k t \<longleftrightarrow> good k \<and> frames k t = [] \<and> status_of k t = Some THREAD_BLOCKED \<and> t \<noteq> running k
     \<and> idle_thread k \<noteq> Some t \<and> (\<forall>u. t \<notin> set (embryos k u))"

lemma unborn_same: "same_sched k k' \<Longrightarrow> unborn k t \<Longrightarrow> unborn k' t"
proof -
  assume s: "same_sched k k'" and u: "unborn k t"
  have "good k'" using s u by (auto simp: unborn_def intro: same_sched_goodD)
  then show "unborn k' t" using s u by (simp add: unborn_def same_sched_def embryos_def)
qed

lemma good_thread_create_rest:
  assumes u: "unborn k t" and k': "thread_create_rest t (Fn_other f) node i k = Some k'"
  shows "good k'"
proof -
  obtain p k1 k2 k3 k4 k5 k6 k7 k8 c where
    k1: "upd_thread t (\<lambda>th. th\<lparr>tid := i\<rparr>) k = Some k1"
    and k2: "k2 = k1\<lparr>pnodes := (pnodes k1)(p \<mapsto>
       \<lparr>pid = i, pn_sema = \<lparr>sem_value = 0, sem_waiters = []\<rparr>, exit_status = - 1\<rparr>)\<rparr>"
    and k3: "upd_thread (running_thread k2) (\<lambda>th. th\<lparr>child_list := child_list th @ [p]\<rparr>) k2 = Some k3"
    and k4: "upd_thread t (\<lambda>th. th\<lparr>pn := Some p\<rparr>) k3 = Some k4"
    and k5: "upd_thread t (\<lambda>th. th\<lparr>cwd := c\<rparr>) k4 = Some k5"
    and k6: "alloc_frame t 12 k5 = Some k6" and k7: "alloc_frame t 4 k6 = Some k7"
    and k8: "alloc_frame t 28 k7 = Some k8"
    and rest: "thread_unblock t (k8\<lparr>frames := (frames k8)(t := [F_kernel_thread (Fn_other f)])\<rparr>) \<bind>
      (\<lambda>k. thread_yield (return i k)) = Some k'"
    using k' unfolding thread_create_rest_def Let_def by (auto simp: bind_eq_Some_conv)
  have "same_sched k k1" by (rule same_sched_upd_thread [OF k1]) simp_all
  then have u1: "unborn k1 t" using u by (rule unborn_same)
  then have g2: "good k2" unfolding k2 by (intro good_set_pnodes) (auto simp: unborn_def split: if_splits)
  have u2: "unborn k2 t" using u1 g2 by (simp add: unborn_def k2 embryos_def status_of_def)
  have "same_sched k2 k3" by (rule same_sched_upd_thread [OF k3]) simp_all
  moreover have "same_sched k3 k4" by (rule same_sched_upd_thread [OF k4]) simp_all
  moreover have "same_sched k4 k5" by (rule same_sched_upd_thread [OF k5]) simp_all
  ultimately have u8: "unborn k8 t"
    using u2 same_sched_alloc_frame [OF k6] same_sched_alloc_frame [OF k7] same_sched_alloc_frame [OF k8]
    by (meson unborn_same)
  define k9 where "k9 = k8\<lparr>frames := (frames k8)(t := [F_kernel_thread (Fn_other f)])\<rparr>"
  have g9: "good k9" unfolding k9_def using u8 by (intro good_first_frame) (auto simp: unborn_def)
  obtain k10 where ub: "thread_unblock t k9 = Some k10" and y: "thread_yield (return i k10) = Some k'"
    using rest by (auto simp: bind_eq_Some_conv k9_def)
  have invs: "sched_inv k9" "sleep_inv k9" "wait_inv k9" "idle_inv k9" "runs k9"
    using g9 by (simp_all add: good_def sched_inv_def)
  have top: "frames k9 t = [F_kernel_thread (Fn_other f)]" by (simp add: k9_def)
  have "embryos k9 = embryos k8"
    using u8 by (auto simp: k9_def embryos_def unborn_def map_filter_Cons List.map_filter_simps(2) fun_eq_iff)
  then have "sched_inv k10"
    using invs top u8
    by (intro sched_inv_thread_unblock [OF invs(1) ub])
      (force simp: sleep_inv_def wait_inv_def unborn_def k9_def)+
  moreover have "runs k10" using invs(5) u8 by (simp add: runs_def thread_unblock_views [OF ub] unborn_def k9_def)
  ultimately show ?thesis using good_thread_yield [OF _ y] by (simp add: good_def [of k10])
qed

section \<open>Leaving\<close>

lemma good_thread_exit_schedule:
  assumes b: "busy k" and k': "thread_exit_schedule k = Some k'"
  shows "good k'"
proof -
  let ?r = "running k"
  obtain k0 k1 where s0: "same_sched k k0"
    and k1: "upd_thread ?r (\<lambda>th. th\<lparr>status := THREAD_DYING\<rparr>) k0 = Some k1" and sch: "schedule k1 = Some k'"
  proof -
    let ?k0 = "(intr_disable k)\<lparr>all_list := remove1 ?r (all_list (intr_disable k))\<rparr>"
    have "same_sched k ?k0" using same_sched_fields(7,14) by (meson same_sched_trans)
    then show ?thesis using that [of ?k0] k'
      by (auto simp: thread_exit_schedule_def bind_eq_Some_conv Let_def dest!: thread_current_running)
  qed
  have b0: "busy k0" using s0 b by (rule busy_same)
  note v = upd_status_views [OF k1]
  have r: "running k0 = ?r" using s0 by (simp add: same_sched_def)
  have g: "good k0" using b0 by (rule busy_good)
  note nq = good_running_not_queued [OF g, unfolded r]
  have invs: "magic_inv k0" "ready_inv k0" "sleep_inv k0" "wait_inv k0" "run_inv k0" "idle_inv k0" "frame_inv k0"
    using g by (simp_all add: good_def sched_inv_def)
  have e: "embryos k1 = embryos k0" by (simp add: embryos_def v fun_eq_iff)
  have "magic_inv k1" using invs(1) by (simp add: magic_inv_def v)
  moreover have "ready_inv k1" using invs(2) nq(1) by (auto simp: ready_inv_def v)
  moreover have "sleep_inv k1" using invs(3) nq(2) by (auto simp: sleep_inv_def v)
  moreover have "wait_inv k1" using invs(4) nq(3) by (auto simp: wait_inv_def v)
  moreover have "run_inv k1" using invs(5) unfolding run_inv_def v by auto
  moreover have "idle_inv k1" using invs(6) b0 r by (auto simp: idle_inv_def v busy_def)
  moreover have "frame_inv k1" using invs(7) nq(4) unfolding frame_inv_def e by (auto simp: v)
  ultimately have "sched_inv k1" by (simp add: sched_inv_def)
  then show ?thesis using sch by (rule good_schedule)
qed

lemma good_free_pnodes:
  "good k \<Longrightarrow> free_pnodes ns k = Some k' \<Longrightarrow> good k' \<and> idle_thread k' = idle_thread k \<and> running k' = running k"
proof (induction ns arbitrary: k)
  case (Cons n ns)
  have "good (k\<lparr>pnodes := (pnodes k)(n := None)\<rparr>)"
    using Cons.prems(1) by (intro good_set_pnodes) (auto split: if_splits)
  from Cons.IH [OF this] Cons.prems(2) show ?case by (auto simp: bind_eq_Some_conv)
qed simp

lemma good_free_file_list:
  assumes "busy k" "free_file_list k = Some k'"
  shows "good k'"
proof -
  obtain t th where t: "threads k t = Some th" and k':
    "(case file_list th of [] \<Rightarrow> Some k | fn # rest \<Rightarrow>
        upd_thread t (\<lambda>th. th\<lparr>file_list := rest\<rparr>) k \<bind> (\<lambda>k.
        lock_held_by_current_thread (fn_file_lock fn) k \<bind> (\<lambda>held.
        if held then lock_release (fn_file_lock fn) (push_frame (F_free_file fn) k)
        else Some (push_frame (F_free_file fn) k)))) = Some k'"
    using assms(2) unfolding free_file_list_def Let_def by (auto simp: bind_eq_Some_conv)
  show ?thesis
  proof (cases "file_list th")
    case (Cons fn rest)
    then obtain k1 held where k1: "upd_thread t (\<lambda>th. th\<lparr>file_list := rest\<rparr>) k = Some k1"
      and k': "(if held then lock_release (fn_file_lock fn) (push_frame (F_free_file fn) k1)
        else Some (push_frame (F_free_file fn) k1)) = Some k'"
      using k' by (auto simp: bind_eq_Some_conv split del: if_split)
    have "busy k1" by (rule busy_upd_thread [OF k1 assms(1)]) simp_all
    then have "busy (push_frame (F_free_file fn) k1)" by (intro busy_push) simp_all
    then show ?thesis using k' by (auto split: if_splits intro: good_lock_release busy_good)
  qed (use k' assms(1) in \<open>simp add: busy_good\<close>)
qed

lemma good_process_exit:
  assumes "busy k" "process_exit k = Some k'"
  shows "good k'"
proof -
  obtain t k1 k2 where k1: "k1 = k \<or> (\<exists>k0. upd_thread t (\<lambda>th. th\<lparr>pagedir := None\<rparr>) k = Some k0 \<and> k1 = k0\<lparr>cr3 := None\<rparr>)"
    and k2: "free_child_list k1 = Some k2" and k': "free_file_list (push_frame F_process_exit k2) = Some k'"
    using assms(2) by (auto simp: process_exit_def bind_eq_Some_conv Let_def split: if_splits)
  have "busy k0" if "upd_thread t (\<lambda>th. th\<lparr>pagedir := None\<rparr>) k = Some k0" for k0
    by (rule busy_upd_thread [OF that assms(1)]) simp_all
  then have b1: "busy k1" using k1 assms(1) by auto
  obtain u k1' cs where u: "upd_thread u (\<lambda>th. th\<lparr>child_list := []\<rparr>) k1 = Some k1'"
    and fp: "free_pnodes cs k1' = Some k2"
    using k2 by (auto simp: free_child_list_def bind_eq_Some_conv)
  have "busy k1'" by (rule busy_upd_thread [OF u b1]) simp_all
  then have "busy k2" using good_free_pnodes [OF _ fp] by (simp add: busy_def)
  then have "busy (push_frame F_process_exit k2)" by (intro busy_push) simp_all
  then show ?thesis using k' by (rule good_free_file_list)
qed

section \<open>The timer\<close>

lemma sched_inv_pop_sleeper:
  assumes "sched_inv k" "sleep_list k = t # rest"
  shows "sched_inv (k\<lparr>sleep_list := rest\<rparr>)" (is "sched_inv ?k")
    "t \<notin> set rest" "\<And>s. t \<notin> set (waiters_of k s)" "\<And>u. t \<notin> set (embryos k u)" "idle_thread k \<noteq> Some t"
    "status_of k t = Some THREAD_BLOCKED" "\<And>x. x \<in> set rest \<Longrightarrow> wakeup_of k t \<le> wakeup_of k x"
proof -
  have invs: "magic_inv k" "ready_inv k" "sleep_inv k" "wait_inv k" "run_inv k" "idle_inv k" "frame_inv k"
    using assms(1) by (simp_all add: sched_inv_def)
  obtain l fs where f: "frames k t = F_sleep l # fs" and "status_of k t = Some THREAD_BLOCKED"
    using invs(3) assms(2) by (auto simp: sleep_inv_def)
  then show "status_of k t = Some THREAD_BLOCKED" by simp
  show "t \<notin> set rest" "\<And>x. x \<in> set rest \<Longrightarrow> wakeup_of k t \<le> wakeup_of k x"
    using invs(3) assms(2) by (auto simp: sleep_inv_def)
  show "t \<notin> set (waiters_of k s)" for s using invs(4) f unfolding wait_inv_def by fastforce
  show "t \<notin> set (embryos k u)" for u using invs(7) f unfolding frame_inv_def by fastforce
  show "idle_thread k \<noteq> Some t" using invs(6) f unfolding idle_inv_def by auto
  have "sleep_inv ?k" using invs(3) assms(2) by (simp add: sleep_inv_def)
  moreover have "magic_inv ?k = magic_inv k" "ready_inv ?k = ready_inv k" "wait_inv ?k = wait_inv k"
    "run_inv ?k = run_inv k" "idle_inv ?k = idle_inv k" "frame_inv ?k = frame_inv k"
    by (simp_all only: magic_inv_def ready_inv_def wait_inv_def run_inv_def idle_inv_def frame_inv_def
        ready_list_views embryos_def) simp_all
  ultimately show "sched_inv ?k" using invs by (simp add: sched_inv_def)
qed

lemma thread_unblock_total:
  assumes "magic_inv k" "status_of k t = Some THREAD_BLOCKED" "level k = INTR_OFF"
  shows "\<exists>k'. thread_unblock t k = Some k' \<and> level k' = INTR_OFF"
proof -
  obtain th where th: "threads k t = Some th" "status th = THREAD_BLOCKED"
    using assms(2) by (auto simp: status_of_def)
  have "magic_of k t = Some (magic th)" by (simp add: magic_of_def th)
  then have "magic th = THREAD_MAGIC" by (rule assms(1) [unfolded magic_inv_def, rule_format])
  then show ?thesis
    unfolding thread_unblock_def is_thread_def Let_def upd_thread_def intr_disable_def intr_get_level_def
      intr_set_level_def by (simp add: th assms(3))
qed

lemma thread_alarm_spec:
  assumes "sched_inv k" "level k = INTR_OFF"
  shows "\<exists>k'. thread_alarm now k = Some k' \<and> sched_inv k' \<and> level k' = INTR_OFF
    \<and> ready_list k' = ready_list k @ filter (\<lambda>t. wakeup_of k t \<le> now) (sleep_list k)
    \<and> sleep_list k' = filter (\<lambda>t. now < wakeup_of k t) (sleep_list k)
    \<and> frames k' = frames k \<and> running k' = running k \<and> idle_thread k' = idle_thread k
    \<and> (\<forall>t. status_of k' t =
         (if t \<in> set (sleep_list k) \<and> wakeup_of k t \<le> now then Some THREAD_READY else status_of k t))"
  using assms
proof (induction "length (sleep_list k)" arbitrary: k)
  case 0
  then show ?case by (subst thread_alarm.simps) simp
next
  case (Suc n)
  then obtain t rest where sl: "sleep_list k = t # rest" by (cases "sleep_list k") auto
  note p = sched_inv_pop_sleeper [OF Suc.prems(1) sl]
  obtain th where th: "threads k t = Some th" using p(6) by (auto simp: status_of_def)
  have w: "wakeup_of k t = wakeup_time th" by (simp add: wakeup_of_def th)
  show ?case
  proof (cases "wakeup_time th \<le> now")
    case True
    let ?k = "k\<lparr>sleep_list := rest\<rparr>"
    have "magic_inv ?k" "status_of ?k t = Some THREAD_BLOCKED" "level ?k = INTR_OFF"
      using p(1,6) Suc.prems(2) by (simp_all add: sched_inv_def)
    from thread_unblock_total [OF this] obtain k1 where ub: "thread_unblock t ?k = Some k1"
      and lv: "level k1 = INTR_OFF" by auto
    note v = thread_unblock_views [OF ub]
    have i1: "sched_inv k1"
      by (rule sched_inv_thread_unblock [OF p(1) ub]) (use p(2-5) in \<open>simp_all add: embryos_def\<close>)
    have "n = length (sleep_list k1)" using Suc.hyps(2) by (simp add: v sl)
    from Suc.hyps(1) [OF this i1 lv] obtain k' where k': "thread_alarm now k1 = Some k'" "sched_inv k'"
      "level k' = INTR_OFF" "frames k' = frames k1" "running k' = running k1" "idle_thread k' = idle_thread k1"
      and r: "ready_list k' = ready_list k1 @ filter (\<lambda>t. wakeup_of k1 t \<le> now) (sleep_list k1)"
      "sleep_list k' = filter (\<lambda>t. now < wakeup_of k1 t) (sleep_list k1)"
      and st: "\<And>t. status_of k' t =
         (if t \<in> set (sleep_list k1) \<and> wakeup_of k1 t \<le> now then Some THREAD_READY else status_of k1 t)"
      by blast
    have "thread_alarm now k = Some k'"
      by (subst thread_alarm.simps) (simp add: sl th True ub k'(1))
    moreover have "status_of k' u =
         (if u \<in> set (sleep_list k) \<and> wakeup_of k u \<le> now then Some THREAD_READY else status_of k u)" for u
      using True by (auto simp: st v sl w)
    ultimately show ?thesis using k' r True by (simp add: v sl w)
  next
    case False
    have "\<not> wakeup_of k x \<le> now" if "x \<in> set rest" for x using p(7) [OF that] False w by simp
    then have "filter (\<lambda>t. wakeup_of k t \<le> now) (sleep_list k) = []"
      "filter (\<lambda>t. now < wakeup_of k t) (sleep_list k) = sleep_list k"
      "\<And>u. u \<in> set (sleep_list k) \<Longrightarrow> \<not> wakeup_of k u \<le> now"
      using False w by (auto simp: sl filter_id_conv not_le)
    moreover have "thread_alarm now k = Some k" by (subst thread_alarm.simps) (simp add: sl th False)
    ultimately show ?thesis using Suc.prems by auto
  qed
qed

lemma same_sched_count_tick:
  "same_sched k (if a then k\<lparr>idle_ticks := x\<rparr> else if b then k\<lparr>user_ticks := y\<rparr> else k\<lparr>kernel_ticks := z\<rparr>)"
  by simp

lemma same_sched_thread_tick:
  assumes "thread_tick k = Some k'"
  shows "same_sched k k'"
proof -
  obtain k1 where k1: "same_sched k k1"
    and k': "(if TIME_SLICE \<le> thread_ticks (k1\<lparr>thread_ticks := thread_ticks k1 + 1\<rparr>)
      then intr_yield_on_return (k1\<lparr>thread_ticks := thread_ticks k1 + 1\<rparr>)
      else Some (k1\<lparr>thread_ticks := thread_ticks k1 + 1\<rparr>)) = Some k'"
    using assms same_sched_count_tick unfolding thread_tick_def Let_def bind_eq_Some_conv by blast
  have "same_sched k (k1\<lparr>thread_ticks := thread_ticks k1 + 1\<rparr>)"
    using k1 same_sched_fields(12) by (rule same_sched_trans)
  then show ?thesis using k' same_sched_trans [OF _ same_sched_fields(3)]
    by (auto simp: intr_yield_on_return_def bind_eq_Some_conv split: if_splits)
qed

lemma good_intr_handler_timer:
  assumes g: "good k" and k': "intr_handler_timer k = Some k'"
  shows "good k'"
proof -
  let ?k0 = "(push_frame F_intr_return (intr_disable k))\<lparr>in_external_intr := True, yield_on_return := False,
      ticks := int64 (ticks k + 1)\<rparr>"
  obtain k1 k2 where k1: "thread_alarm (ticks ?k0) ?k0 = Some k1" and k2: "thread_tick k1 = Some k2"
    and fin: "(if yield_on_return k2 then thread_yield (k2\<lparr>in_external_intr := False\<rparr>)
      else Some (k2\<lparr>in_external_intr := False\<rparr>)) = Some k'"
    using k' by (auto simp: intr_handler_timer_def timer_interrupt_def bind_eq_Some_conv Let_def
        push_frame_def intr_disable_def intr_get_level_def intr_context_def)
  have "good (push_frame F_intr_return (intr_disable k))" using g by (intro good_push_frame) auto
  then have g0: "good ?k0" by simp
  moreover have "level ?k0 = INTR_OFF" by (simp add: push_frame_def intr_disable_def)
  ultimately have s1: "sched_inv k1" and r1: "running k1 = running ?k0"
    and st: "\<And>t. status_of k1 t = (if t \<in> set (sleep_list ?k0) \<and> wakeup_of ?k0 t \<le> ticks ?k0
        then Some THREAD_READY else status_of ?k0 t)"
    using thread_alarm_spec [of ?k0 "ticks ?k0"] k1 by (auto simp: good_def simp del: push_frame_views)
  have "runs k1" using st [of "running ?k0"] g0 good_running_not_queued(2) [OF g0]
    by (simp only: runs_def r1 good_def if_False simp_thms)
  then have "good k1" using s1 by (simp add: good_def)
  then have "good k2" by (rule same_sched_goodD [OF same_sched_thread_tick [OF k2]])
  then show ?thesis using fin good_thread_yield [of "k2\<lparr>in_external_intr := False\<rparr>" k']
    by (auto split: if_splits)
qed

section \<open>Every step\<close>

lemma good_resume:
  assumes g: "good k" and fr: "frames k (running k) = f # fs" and k': "resume f (pop_frame k) = Some k'"
  shows "good k'"
proof -
  have p: "good (pop_frame k)" using g by (rule good_pop_frame)
  have ns: "\<not> starts_idle f" using good_frames_running(1) [OF g] fr by simp
  note b = busy_top(2) [OF g fr]
  show ?thesis
  proof (cases f)
    case F_idle_halt
    then obtain k1 where k1: "intr_enable (pop_frame k) = Some k1" and k2: "k' = push_frame F_idle_loop k1"
      using k' by (auto simp: idle_halt_def bind_eq_Some_conv)
    have "good k1" by (rule same_sched_goodD [OF same_sched_intr_enable [OF k1] p])
    then show ?thesis unfolding k2 by (rule good_push_frame) simp_all
  next
    case (F_kernel_thread fn)
    then obtain i where fn: "fn = Fn_other i" using ns by (cases fn) auto
    then obtain k1 where k1: "intr_enable (pop_frame k) = Some k1" and k2: "k' = push_frame F_body k1"
      using k' F_kernel_thread by (auto simp: bind_eq_Some_conv)
    have "busy k1" using same_sched_intr_enable [OF k1] b F_kernel_thread by (auto intro: busy_same)
    then show ?thesis unfolding k2 by (intro busy_good busy_push) simp_all
  next
    case F_body
    then have "busy (push_frame F_exit (pop_frame k))" using b by (intro busy_push) simp_all
    then show ?thesis using k' F_body by (auto simp: thread_exit_def bind_eq_Some_conv intro: good_process_exit)
  next
    case (F_tid_acquired u)
    then show ?thesis using good_allocate_tid_acquired [OF g] fr k' by simp
  next
    case (F_tid_released u i)
    then obtain t n j where u: "u = For_create t (Fn_other j) n"
      using ns by (cases u rule: tid_user.exhaust; cases "case u of For_init \<Rightarrow> Fn_other 0 | For_create t f n \<Rightarrow> f") auto
    have "embryo f = Some t" by (simp add: F_tid_released u)
    from embryo_popped [OF g fr this] p have "unborn (pop_frame k) t" by (simp add: unborn_def pop_frame_def)
    then show ?thesis using k' F_tid_released u by (auto intro: good_thread_create_rest)
  next
    case (F_start s)
    then show ?thesis using ns by simp
  next
    case F_process_exit
    then show ?thesis using k' p by (auto simp: process_exit_up_def bind_eq_Some_conv intro: good_sema_up)
  next
    case (F_free_file fn)
    then have "busy (pop_frame k)" using b by simp
    then have "busy ((pop_frame k)\<lparr>locks := (locks (pop_frame k))(fn_file_lock fn := None)\<rparr>)"
      using good_free_lock [OF p] by (simp add: busy_def)
    then show ?thesis using k' F_free_file by (auto simp: free_file_rest_def intro: good_free_file_list)
  next
    case (F_cond_wait_down s l)
    then have "busy (push_frame (F_cond_wait_acquire l) (pop_frame k))" using b by (intro busy_push) simp_all
    then show ?thesis using good_sema_down [of "push_frame (F_cond_wait_acquire l) (pop_frame k)" s k'] k' F_cond_wait_down
      by (simp add: busy_def)
  next
    case (F_process_wait n)
    obtain k1 v where k1: "upd_thread (running_thread (pop_frame k))
        (\<lambda>th. th\<lparr>child_list := remove1 n (child_list th)\<rparr>) (pop_frame k) = Some k1"
      and k2: "k' = return v (k1\<lparr>pnodes := (pnodes k1)(n := None)\<rparr>)"
      using k' F_process_wait by (auto simp: process_wait_rest_def bind_eq_Some_conv)
    have "same_sched (pop_frame k) k1" by (rule same_sched_upd_thread [OF k1]) simp_all
    then have "good k1" using p by (rule same_sched_goodD)
    then have "good (k1\<lparr>pnodes := (pnodes k1)(n := None)\<rparr>)" by (rule good_set_pnodes) (auto split: if_splits)
    then show ?thesis by (simp add: k2)
  next
    case (F_sema_down s l)
    then have "busy (pop_frame k)" using b by simp
    then show ?thesis using k' F_sema_down good_sema_down_loop [of "pop_frame k" s l k'] by (simp add: busy_def)
  next
    case (F_broadcast c l)
    then have "busy (pop_frame k)" using b by simp
    then show ?thesis using k' F_broadcast by (auto intro: good_cond_broadcast)
  next
    case (F_cond_wait_acquire l)
    then have "busy (pop_frame k)" using b by simp
    then show ?thesis using k' F_cond_wait_acquire by (auto intro: good_lock_acquire)
  next
    case F_exit
    then have "busy (pop_frame k)" using b by simp
    then show ?thesis using k' F_exit by (auto intro: good_thread_exit_schedule)
  qed (use k' p in \<open>auto intro: good_idle_loop good_lock_acquire_taken good_lock_release_flush
        dest: same_sched_intr_set_level elim: same_sched_goodD\<close>)
qed

lemma good_perform:
  assumes b: "busy k" and a: "allocated c k" and k': "perform c k = Some k'"
  shows "good k'"
proof (cases c)
  case (Sleep n)
  then have "thread_sleep (int64 (timer_ticks k + n)) k = Some k'"
    using k' by (auto simp: timer_sleep_def bind_eq_Some_conv)
  then show ?thesis using b good_thread_sleep by (auto simp: busy_def)
next
  case (Sema_init s v)
  then have "k' = k\<lparr>semas := (semas k)(s \<mapsto> \<lparr>sem_value = v, sem_waiters = []\<rparr>)\<rparr>" "semas k s = None"
    using a k' by (simp_all add: sema_init_def)
  then show ?thesis using same_sched_goodD [OF same_sched_new_sema] busy_good [OF b] by metis
next
  case (Sema_down s)
  then show ?thesis using b k' good_sema_down by (auto simp: busy_def)
next
  case (Sema_try_down s)
  then obtain r where "sema_try_down (Sema s) k = Some (r, k')" using k' by auto
  then show ?thesis using same_sched_goodD [OF same_sched_sema_try_down] busy_good [OF b] by blast
next
  case (Lock_try_acquire l)
  then obtain r where "lock_try_acquire l k = Some (r, k')" using k' by auto
  then show ?thesis using good_lock_try_acquire [OF busy_good [OF b]] by blast
next
  case (Lock_init l)
  then have k: "k' = k\<lparr>locks := (locks k)(l \<mapsto> \<lparr>holder = None,
      lock_sema = \<lparr>sem_value = 1, sem_waiters = []\<rparr>, max_priority = PRI_MIN\<rparr>)\<rparr>"
    using k' by (simp add: lock_init_def)
  show ?thesis unfolding k
  proof (rule good_shrink_semas [OF busy_good [OF b]])
    fix s
    let ?k = "k\<lparr>locks := (locks k)(l \<mapsto> \<lparr>holder = None,
      lock_sema = \<lparr>sem_value = 1, sem_waiters = []\<rparr>, max_priority = PRI_MIN\<rparr>)\<rparr>"
    show "waiters_of ?k s = [] \<or> waiters_of ?k s = waiters_of k s" by (cases s) (auto simp: waiters_of_def)
  qed simp_all
next
  case (Wait p)
  have "busy (push_frame (F_process_wait n) k)" for n using b by (rule busy_push) simp_all
  then have "good k1" if "sema_down s (push_frame (F_process_wait n) k) = Some k1" for s n k1
    using good_sema_down [OF _ _ that] by (simp add: busy_def)
  then show ?thesis using k' Wait busy_good [OF b]
    by (auto simp: process_wait_def bind_eq_Some_conv split: option.splits)
qed (use b a k' in \<open>auto simp: cond_init_def intro: busy_good good_thread_yield [OF busy_good] good_thread_set_priority [OF busy_good] good_thread_create
      good_sema_up [OF busy_good] good_lock_acquire good_lock_release good_cond_wait good_cond_signal [OF busy_good] good_cond_broadcast\<close>)

lemma good_step: "kernel_step k k' \<Longrightarrow> good k \<Longrightarrow> good k'"
proof (induction rule: kernel_step.induct)
  case (step_resume k f fs k')
  then show ?case by (auto intro: good_resume)
next
  case (step_call k fs c k')
  have "busy k" by (rule busy_top(1) [OF step_call.prems step_call.hyps(1)]) simp
  then show ?case using step_call.hyps(2,3) by (rule good_perform)
next
  case (step_timer k k')
  then show ?case by (auto intro: good_intr_handler_timer)
qed

lemma good_steps: "kernel_step\<^sup>*\<^sup>* k k' \<Longrightarrow> good k \<Longrightarrow> good k'"
  by (induction rule: rtranclp_induct) (auto intro: good_step)

end
