(* ===== verification/Pintos_Sched_Props.thy ===== *)
theory Pintos_Sched_Props
  imports Pintos_Sched_Steps
begin

text \<open>
  What the threads kernel promises: the properties of the scheduler, of the sleep queue and of
  priorities, with a concrete state in which they apply.
\<close>

section \<open>A concrete state\<close>

text \<open>The main thread runs its function, the idle thread waits in its loop.\<close>

definition sample_thread :: "thread_status \<Rightarrow> int \<Rightarrow> thread" where
  "sample_thread st prio =
     \<lparr>tid = 1, status = st, name = ''main'', stack = 0, priority = prio, wakeup_time = 0,
      lock_list = [], instrinsic_priority = prio, waiting_lock = None, pagedir = None, pn = None,
      child_list = [], file_list = [], next_fd = 2, cwd = 1, magic = THREAD_MAGIC\<rparr>"

definition sample_kernel :: kernel where
  "sample_kernel =
     \<lparr>threads = [1 \<mapsto> sample_thread THREAD_RUNNING 31, 2 \<mapsto> sample_thread THREAD_BLOCKED 0],
      locks = Map.empty, semas = Map.empty, conds = Map.empty, pnodes = Map.empty,
      frames = (\<lambda>_. [])(1 := [F_body], 2 := [F_idle_halt]), eax = (\<lambda>_. 0),
      ready_list = [], sleep_list = [], all_list = [1, 2], idle_thread = Some 2,
      initial_thread = Some 1, running = 1, level = INTR_ON, in_external_intr = False,
      yield_on_return = False, enable_yield = True, next_tid = 3, idle_ticks = 0, kernel_ticks = 0,
      user_ticks = 0, thread_ticks = 0, ticks = 100, cr3 = None, esp0 = 0\<rparr>"

lemma get_sema_sample: "get_sema s sample_kernel = None"
  by (cases s) (simp_all add: sample_kernel_def)

lemma sample_good: "good sample_kernel"
proof -
  have st: "status_of sample_kernel t =
      (if t = 1 then Some THREAD_RUNNING else if t = 2 then Some THREAD_BLOCKED else None)" for t
    by (simp add: status_of_def sample_kernel_def sample_thread_def)
  have e: "embryos sample_kernel t = []" for t
    by (simp add: embryos_def sample_kernel_def List.map_filter_def)
  have m: "magic_inv sample_kernel"
    by (simp add: magic_inv_def magic_of_def sample_kernel_def sample_thread_def)
  have w: "waiters_of sample_kernel s = []" for s by (simp add: waiters_of_def get_sema_sample)
  have r: "ready_inv sample_kernel" "run_inv sample_kernel" "runs sample_kernel"
    by (simp_all add: ready_inv_def run_inv_def runs_def st) (simp_all add: sample_kernel_def)
  have "sleep_inv sample_kernel" by (simp add: sleep_inv_def sample_kernel_def)
  moreover have "idle_inv sample_kernel" by (simp add: idle_inv_def st) (simp add: sample_kernel_def)
  moreover have "frame_inv sample_kernel" by (simp add: frame_inv_def st e) (simp add: sample_kernel_def)
  ultimately show ?thesis using m r by (simp add: good_def sched_inv_def wait_inv_def w)
qed

section \<open>The scheduler\<close>

text \<open>C1. In every state the kernel reaches from one that satisfies the invariant, exactly the
  current thread is running, the ready list holds exactly the ready threads other than the idle
  thread, each once, and no thread is on two of the lists that share its \<open>elem\<close> member: the ready
  list, the sleep list and the waiter lists of the semaphores.\<close>

theorem scheduler_invariant:
  assumes "good k" "kernel_step\<^sup>*\<^sup>* k k'"
  shows "good k' \<and> distinct (ready_list k') \<and> (\<forall>t.
      (status_of k' t = Some THREAD_RUNNING \<longleftrightarrow> t = running k')
      \<and> (t \<in> set (ready_list k') \<longleftrightarrow> status_of k' t = Some THREAD_READY \<and> idle_thread k' \<noteq> Some t)
      \<and> \<not> (t \<in> set (ready_list k') \<and> t \<in> set (sleep_list k'))
      \<and> (\<forall>s. \<not> (t \<in> set (ready_list k') \<union> set (sleep_list k') \<and> t \<in> set (waiters_of k' s)))
      \<and> (\<forall>s s'. t \<in> set (waiters_of k' s) \<and> t \<in> set (waiters_of k' s') \<longrightarrow> s = s'))"
proof -
  have g: "good k'" using assms(2,1) by (rule good_steps)
  then have i: "sched_inv k'" "ready_inv k'" "run_inv k'" "idle_inv k'" "sleep_inv k'" "runs k'"
    by (simp_all add: good_def sched_inv_def)
  have 1: "status_of k' t = Some THREAD_RUNNING \<longleftrightarrow> t = running k'" for t
    using i(3,6) unfolding run_inv_def runs_def by metis
  have 2: "t \<in> set (ready_list k') \<longleftrightarrow> status_of k' t = Some THREAD_READY \<and> idle_thread k' \<noteq> Some t" for t
    using i(2,4) unfolding ready_inv_def idle_inv_def by blast
  have 3: "distinct (ready_list k')" using i(2) by (simp add: ready_inv_def)
  have sl: "t \<in> set (sleep_list k') \<Longrightarrow> status_of k' t = Some THREAD_BLOCKED" for t
    using i(5) by (simp add: sleep_inv_def)
  have 4: "\<not> (t \<in> set (ready_list k') \<and> t \<in> set (sleep_list k'))" for t
    using sl [of t] by (auto simp: 2)
  have 5: "\<not> (t \<in> set (ready_list k') \<union> set (sleep_list k') \<and> t \<in> set (waiters_of k' s))" for t s
    using waiter_elsewhere(1,5) [OF i(1), of t s] by (auto simp: 2)
  have 6: "t \<in> set (waiters_of k' s) \<and> t \<in> set (waiters_of k' s') \<longrightarrow> s = s'" for t s s'
    using waiter_elsewhere(2) [OF i(1)] by blast
  show ?thesis by (intro conjI allI g 1 2 3 4 5 6)
qed

text \<open>The main thread goes to sleep; the idle thread gets the processor.\<close>

definition sample_asleep :: kernel where
  "sample_asleep = the (perform (Sleep 10) sample_kernel)"

lemma sample_sleep: "perform (Sleep 10) sample_kernel = Some sample_asleep"
  "running sample_asleep = 2" "sleep_list sample_asleep = [1]"
proof -
  have "\<not> Option.is_none (perform (Sleep 10) sample_kernel)" by code_simp
  then show "perform (Sleep 10) sample_kernel = Some sample_asleep"
    by (auto simp: sample_asleep_def Option.is_none_def)
  show "running sample_asleep = 2" "sleep_list sample_asleep = [1]" by code_simp+
qed

theorem scheduler_invariant_witness:
  "good sample_kernel \<and> kernel_step\<^sup>*\<^sup>* sample_kernel sample_asleep
     \<and> status_of sample_asleep 2 = Some THREAD_RUNNING"
proof -
  have fr: "frames sample_kernel (running sample_kernel) = F_body # []" by (simp add: sample_kernel_def)
  have "allocated (Sleep 10) sample_kernel" by simp
  from step_call [OF fr this sample_sleep(1)] have s: "kernel_step\<^sup>*\<^sup>* sample_kernel sample_asleep"
    by (rule r_into_rtranclp)
  note inv = scheduler_invariant [OF sample_good s]
  have "status_of sample_asleep 2 = Some THREAD_RUNNING \<longleftrightarrow> 2 = running sample_asleep"
    using inv by (elim conjE allE [of _ 2])
  then show ?thesis using sample_sleep(2) sample_good s by simp
qed

section \<open>The next thread\<close>

definition priority_of :: "kernel \<Rightarrow> tptr \<Rightarrow> int" where
  "priority_of k t = priority (the (threads k t))"

lemma less_thread_priority_key: "less_thread_priority k = (\<lambda>a b. priority_of k a < priority_of k b)"
  by (simp add: less_thread_priority_def thread_priority_aux_def priority_of_def fun_eq_iff)

text \<open>The comparison functions that the kernel passes to the list functions are strict weak orders.\<close>

interpretation by_priority: strict_weak_order "less_thread_priority k" for k
  by unfold_locales (auto simp: less_thread_priority_key)

interpretation by_wakeup: strict_weak_order sleep_aux
  by unfold_locales (auto simp: sleep_aux_def)

lemma max_priority_first:
  assumes "ts \<noteq> []"
  shows "\<exists>as bs. ts = as @ max_elem (less_thread_priority k) ts # bs
    \<and> (\<forall>a \<in> set as. priority_of k a < priority_of k (max_elem (less_thread_priority k) ts))
    \<and> (\<forall>b \<in> set bs. priority_of k b \<le> priority_of k (max_elem (less_thread_priority k) ts))"
  using by_key.scan_max_first [of "hd ts" "tl ts" "priority_of k"] assms
  by (simp add: max_elem_def less_thread_priority_key not_less)

lemma remove1_append_first: "t \<notin> set as \<Longrightarrow> remove1 t (as @ t # bs) = as @ bs"
  by (simp add: remove1_append)

text \<open>C7. When some thread is ready, the scheduler takes one of the highest priority out of the
  ready list, and among those the one that has been waiting longest; the order of the others is
  kept.\<close>

theorem next_thread_highest_priority:
  assumes "sched_inv k" "ready_list k \<noteq> []"
  shows "\<exists>t as bs. next_thread_to_run k = Some (Some t, k\<lparr>ready_list := as @ bs\<rparr>)
    \<and> ready_list k = as @ t # bs
    \<and> (\<forall>a \<in> set as. priority_of k a < priority_of k t) \<and> (\<forall>b \<in> set bs. priority_of k b \<le> priority_of k t)"
proof -
  define t where "t = max_elem (less_thread_priority k) (ready_list k)"
  obtain as bs where eq: "ready_list k = as @ t # bs"
    and lt: "\<forall>a \<in> set as. priority_of k a < priority_of k t" "\<forall>b \<in> set bs. priority_of k b \<le> priority_of k t"
    using max_priority_first [OF assms(2)] unfolding t_def by blast
  have "status_of k u = Some THREAD_READY" if "u \<in> set (ready_list k)" for u
    using assms(1) that by (simp add: sched_inv_def ready_inv_def)
  then have "threads_ok k (ready_list k)"
    by (fastforce simp: threads_ok_def list_all_iff status_of_def)
  moreover have "remove1 t (ready_list k) = as @ bs" using lt(1) unfolding eq by (intro remove1_append_first) auto
  ultimately have "next_thread_to_run k = Some (Some t, k\<lparr>ready_list := as @ bs\<rparr>)"
    using assms(2) by (simp add: next_thread_to_run_def Let_def flip: t_def)
  then show ?thesis using eq lt by blast
qed

text \<open>The main thread yields to itself: it is put on the ready list and chosen from it.\<close>

definition sample_ready :: kernel where
  "sample_ready = sample_kernel\<lparr>threads := (threads sample_kernel)(1 \<mapsto> sample_thread THREAD_READY 31),
     ready_list := [1]\<rparr>"

lemma sample_ready_inv: "sched_inv sample_ready"
proof -
  have g: "get_sema s sample_ready = None" for s by (cases s) (simp_all add: sample_ready_def sample_kernel_def)
  have st: "status_of sample_ready t =
      (if t = 1 then Some THREAD_READY else if t = 2 then Some THREAD_BLOCKED else None)" for t
    by (simp add: status_of_def sample_ready_def sample_kernel_def sample_thread_def)
  have e: "embryos sample_ready t = []" for t
    by (simp add: embryos_def sample_ready_def sample_kernel_def List.map_filter_def)
  have w: "waiters_of sample_ready s = []" for s by (simp add: waiters_of_def g)
  have "magic_inv sample_ready"
    by (simp add: magic_inv_def magic_of_def sample_ready_def sample_kernel_def sample_thread_def)
  moreover have "ready_inv sample_ready" "run_inv sample_ready"
    by (simp_all add: ready_inv_def run_inv_def st) (simp_all add: sample_ready_def sample_kernel_def)
  moreover have "sleep_inv sample_ready" by (simp add: sleep_inv_def sample_ready_def sample_kernel_def)
  moreover have "idle_inv sample_ready"
    by (simp add: idle_inv_def st) (simp add: sample_ready_def sample_kernel_def)
  moreover have "frame_inv sample_ready"
    by (simp add: frame_inv_def st e) (simp add: sample_ready_def sample_kernel_def)
  ultimately show ?thesis by (simp add: sched_inv_def wait_inv_def w)
qed

theorem next_thread_highest_priority_witness:
  "sched_inv sample_ready \<and> ready_list sample_ready \<noteq> [] \<and> (\<exists>t k. next_thread_to_run sample_ready = Some (Some t, k))"
proof -
  have "ready_list sample_ready \<noteq> []" by (simp add: sample_ready_def)
  then show ?thesis using next_thread_highest_priority [OF sample_ready_inv] sample_ready_inv by blast
qed

section \<open>The sleep queue\<close>

text \<open>C14. \<open>thread_alarm\<close>, called with interrupts off, always returns; it makes ready exactly the
  sleepers whose time has come, in the order of their wake-up times, and leaves the others asleep.\<close>

theorem thread_alarm_wakes:
  assumes "sched_inv k" "level k = INTR_OFF"
  shows "\<exists>k'. thread_alarm now k = Some k' \<and> sched_inv k'
    \<and> ready_list k' = ready_list k @ filter (\<lambda>t. wakeup_of k t \<le> now) (sleep_list k)
    \<and> sleep_list k' = filter (\<lambda>t. now < wakeup_of k t) (sleep_list k)
    \<and> (\<forall>t. status_of k' t =
         (if t \<in> set (sleep_list k) \<and> wakeup_of k t \<le> now then Some THREAD_READY else status_of k t))"
  using thread_alarm_spec [OF assms, of now] by (elim exE conjE) (intro exI conjI)

theorem thread_alarm_wakes_witness:
  "\<exists>k'. thread_alarm 110 sample_asleep = Some k' \<and> ready_list k' = [1] \<and> sleep_list k' = []"
proof -
  have fr: "frames sample_kernel (running sample_kernel) = F_body # []" by (simp add: sample_kernel_def)
  have "busy sample_kernel" by (rule busy_top(1) [OF sample_good fr]) simp
  then have "good sample_asleep" using good_perform [OF _ _ sample_sleep(1)] by simp
  then have "sched_inv sample_asleep" by (simp add: good_def)
  moreover have "level sample_asleep = INTR_OFF" "ready_list sample_asleep = []" "wakeup_of sample_asleep 1 = 110"
    by code_simp+
  ultimately show ?thesis using thread_alarm_wakes [of sample_asleep 110] sample_sleep(3) by auto
qed

end
