(* ===== verification/Pintos_String.thy ===== *)
theory Pintos_String
  imports Pintos_Prelude
begin

text \<open>
  The memory and string routines of \<open>lib/string.c\<close> on a byte-addressed memory.  An address that is
  not mapped faults, which is \<^const>\<open>None\<close>.  A loop that runs until it finds a byte is a
  \<^theory_text>\<open>partial_function (option)\<close>; on a terminated string it returns.  The null pointer, where a
  routine can return it, is \<^term>\<open>None :: nat option\<close> inside the result.
\<close>

section \<open>Memory\<close>

type_synonym mem = "nat \<Rightarrow> u8 option"

definition store :: "nat \<Rightarrow> u8 \<Rightarrow> mem \<Rightarrow> mem option" where
  "store p b m = (if m p = None then None else Some (m(p \<mapsto> b)))"

text \<open>The two directions of copying; \<open>copy_down\<close> gets the ends of the blocks.\<close>

fun copy_up :: "nat \<Rightarrow> nat \<Rightarrow> nat \<Rightarrow> mem \<Rightarrow> mem option" where
  "copy_up 0 dst src m = Some m"
| "copy_up (Suc n) dst src m = do { b \<leftarrow> m src; m \<leftarrow> store dst b m; copy_up n (dst + 1) (src + 1) m }"

fun copy_down :: "nat \<Rightarrow> nat \<Rightarrow> nat \<Rightarrow> mem \<Rightarrow> mem option" where
  "copy_down 0 dst src m = Some m"
| "copy_down (Suc n) dst src m =
     do { b \<leftarrow> m (src - 1); m \<leftarrow> store (dst - 1) b m; copy_down n (dst - 1) (src - 1) m }"

definition memcpy :: "nat \<Rightarrow> nat \<Rightarrow> nat \<Rightarrow> mem \<Rightarrow> (nat \<times> mem) option" where
  "memcpy dst src size' m = do { m \<leftarrow> copy_up size' dst src m; Some (dst, m) }"

text \<open>\<open>memmove\<close> returns its local pointer, which the ascending loop has advanced.\<close>

definition memmove :: "nat \<Rightarrow> nat \<Rightarrow> nat \<Rightarrow> mem \<Rightarrow> (nat \<times> mem) option" where
  "memmove dst src size' m =
     (if dst < src then do { m \<leftarrow> copy_up size' dst src m; Some (dst + size', m) }
      else do { m \<leftarrow> copy_down size' (dst + size') (src + size') m; Some (dst, m) })"

fun memcmp :: "nat \<Rightarrow> nat \<Rightarrow> nat \<Rightarrow> mem \<Rightarrow> int option" where
  "memcmp a b 0 m = Some 0"
| "memcmp a b (Suc n) m = do {
     x \<leftarrow> m a;
     y \<leftarrow> m b;
     if x \<noteq> y then Some (if y < x then 1 else - 1) else memcmp (a + 1) (b + 1) n m
   }"

fun memchr :: "nat \<Rightarrow> u8 \<Rightarrow> nat \<Rightarrow> mem \<Rightarrow> nat option option" where
  "memchr block ch 0 m = Some None"
| "memchr block ch (Suc n) m = do {
     b \<leftarrow> m block;
     if b = ch then Some (Some block) else memchr (block + 1) ch n m
   }"

fun memset_loop :: "nat \<Rightarrow> u8 \<Rightarrow> nat \<Rightarrow> mem \<Rightarrow> mem option" where
  "memset_loop dst v 0 m = Some m"
| "memset_loop dst v (Suc n) m = do { m \<leftarrow> store dst v m; memset_loop (dst + 1) v n m }"

definition memset :: "nat \<Rightarrow> u8 \<Rightarrow> nat \<Rightarrow> mem \<Rightarrow> (nat \<times> mem) option" where
  "memset dst v size' m = do { m \<leftarrow> memset_loop dst v size' m; Some (dst, m) }"

section \<open>Strings\<close>

partial_function (option) strcmp :: "nat \<Rightarrow> nat \<Rightarrow> mem \<Rightarrow> int option" where
  "strcmp a b m = do {
     x \<leftarrow> m a;
     y \<leftarrow> m b;
     if x \<noteq> 0 \<and> x = y then strcmp (a + 1) (b + 1) m
     else Some (if x < y then - 1 else if y < x then 1 else 0)
   }"

partial_function (option) strchr :: "nat \<Rightarrow> u8 \<Rightarrow> mem \<Rightarrow> nat option option" where
  "strchr p c m = do {
     b \<leftarrow> m p;
     if b = c then Some (Some p) else if b = 0 then Some None else strchr (p + 1) c m
   }"

partial_function (option) strcspn_loop :: "nat \<Rightarrow> nat \<Rightarrow> nat \<Rightarrow> mem \<Rightarrow> nat option" where
  "strcspn_loop p stop len m = do {
     b \<leftarrow> m (p + len);
     if b = 0 then Some len
     else do { r \<leftarrow> strchr stop b m; if r \<noteq> None then Some len else strcspn_loop p stop (len + 1) m }
   }"

definition strcspn :: "nat \<Rightarrow> nat \<Rightarrow> mem \<Rightarrow> nat option" where
  "strcspn p stop m = strcspn_loop p stop 0 m"

partial_function (option) strpbrk :: "nat \<Rightarrow> nat \<Rightarrow> mem \<Rightarrow> nat option option" where
  "strpbrk p stop m = do {
     b \<leftarrow> m p;
     if b = 0 then Some None
     else do { r \<leftarrow> strchr stop b m; if r \<noteq> None then Some (Some p) else strpbrk (p + 1) stop m }
   }"

partial_function (option) strrchr_loop :: "nat \<Rightarrow> u8 \<Rightarrow> nat option \<Rightarrow> mem \<Rightarrow> nat option option" where
  "strrchr_loop p c found m = do {
     b \<leftarrow> m p;
     if b = 0 then Some found
     else strrchr_loop (p + 1) c (if b = c then Some p else found) m
   }"

definition strrchr :: "nat \<Rightarrow> u8 \<Rightarrow> mem \<Rightarrow> nat option option" where
  "strrchr p c m = strrchr_loop p c None m"

partial_function (option) strspn_loop :: "nat \<Rightarrow> nat \<Rightarrow> nat \<Rightarrow> mem \<Rightarrow> nat option" where
  "strspn_loop p skip len m = do {
     b \<leftarrow> m (p + len);
     if b = 0 then Some len
     else do { r \<leftarrow> strchr skip b m; if r = None then Some len else strspn_loop p skip (len + 1) m }
   }"

definition strspn :: "nat \<Rightarrow> nat \<Rightarrow> mem \<Rightarrow> nat option" where
  "strspn p skip m = strspn_loop p skip 0 m"

partial_function (option) strlen_loop :: "nat \<Rightarrow> mem \<Rightarrow> nat option" where
  "strlen_loop p m = do { b \<leftarrow> m p; if b = 0 then Some p else strlen_loop (p + 1) m }"

definition strlen :: "nat \<Rightarrow> mem \<Rightarrow> nat option" where
  "strlen s m = do { p \<leftarrow> strlen_loop s m; Some (p - s) }"

text \<open>The byte is read before the bound is tested.\<close>

partial_function (option) strnlen_loop :: "nat \<Rightarrow> nat \<Rightarrow> nat \<Rightarrow> mem \<Rightarrow> nat option" where
  "strnlen_loop p maxlen len m = do {
     b \<leftarrow> m (p + len);
     if b \<noteq> 0 \<and> len < maxlen then strnlen_loop p maxlen (len + 1) m else Some len
   }"

definition strnlen :: "nat \<Rightarrow> nat \<Rightarrow> mem \<Rightarrow> nat option" where
  "strnlen p maxlen m = strnlen_loop p maxlen 0 m"

fun strstr_loop :: "nat \<Rightarrow> nat \<Rightarrow> nat \<Rightarrow> nat \<Rightarrow> mem \<Rightarrow> nat option option" where
  "strstr_loop p needle needle_len 0 m = Some None"
| "strstr_loop p needle needle_len (Suc n) m = do {
     r \<leftarrow> memcmp p needle needle_len m;
     if r = 0 then Some (Some p) else strstr_loop (p + 1) needle needle_len n m
   }"

definition strstr :: "nat \<Rightarrow> nat \<Rightarrow> mem \<Rightarrow> nat option option" where
  "strstr haystack needle m = do {
     haystack_len \<leftarrow> strlen haystack m;
     needle_len \<leftarrow> strlen needle m;
     if needle_len \<le> haystack_len
     then strstr_loop haystack needle needle_len (haystack_len - needle_len + 1) m
     else Some None
   }"

partial_function (option) skip_delimiters :: "nat \<Rightarrow> nat \<Rightarrow> mem \<Rightarrow> (nat \<times> bool) option" where
  "skip_delimiters s delimiters m = do {
     b \<leftarrow> m s;
     r \<leftarrow> strchr delimiters b m;
     if r \<noteq> None then (if b = 0 then Some (s, True) else skip_delimiters (s + 1) delimiters m)
     else Some (s, False)
   }"

partial_function (option) skip_token :: "nat \<Rightarrow> nat \<Rightarrow> mem \<Rightarrow> nat option" where
  "skip_token s delimiters m = do {
     b \<leftarrow> m s;
     r \<leftarrow> strchr delimiters b m;
     if r = None then skip_token (s + 1) delimiters m else Some s
   }"

text \<open>\<open>strtok_r\<close> returns the token, or null, with the new \<open>*save_ptr\<close> and the changed memory.\<close>

definition strtok_r :: "nat option \<Rightarrow> nat \<Rightarrow> nat option \<Rightarrow> mem \<Rightarrow> (nat option \<times> nat \<times> mem) option" where
  "strtok_r s delimiters save m = do {
     s \<leftarrow> (if s = None then save else s);
     (s, at_end) \<leftarrow> skip_delimiters s delimiters m;
     if at_end then Some (None, s, m)
     else do {
       let token = s;
       s \<leftarrow> skip_token s delimiters m;
       b \<leftarrow> m s;
       if b \<noteq> 0 then do { m \<leftarrow> store s 0 m; Some (Some token, s + 1, m) }
       else Some (Some token, s, m)
     }
   }"

definition strlcpy :: "nat \<Rightarrow> nat \<Rightarrow> nat \<Rightarrow> mem \<Rightarrow> (nat \<times> mem) option" where
  "strlcpy dst src size' m = do {
     src_len \<leftarrow> strlen src m;
     if 0 < size' then do {
       let dst_len = size' - 1;
       let dst_len = (if src_len < dst_len then src_len else dst_len);
       (_, m) \<leftarrow> memcpy dst src dst_len m;
       m \<leftarrow> store (dst + dst_len) 0 m;
       Some (src_len, m)
     }
     else Some (src_len, m)
   }"

definition strlcat :: "nat \<Rightarrow> nat \<Rightarrow> nat \<Rightarrow> mem \<Rightarrow> (nat \<times> mem) option" where
  "strlcat dst src size' m = do {
     src_len \<leftarrow> strlen src m;
     dst_len \<leftarrow> strlen dst m;
     if 0 < size' \<and> dst_len < size' then do {
       let copy_cnt = size' - dst_len - 1;
       let copy_cnt = (if src_len < copy_cnt then src_len else copy_cnt);
       (_, m) \<leftarrow> memcpy (dst + dst_len) src copy_cnt m;
       m \<leftarrow> store (dst + dst_len + copy_cnt) 0 m;
       Some (src_len + dst_len, m)
     }
     else Some (src_len + dst_len, m)
   }"

section \<open>Blocks and terminated strings in memory\<close>

definition mapped :: "mem \<Rightarrow> nat \<Rightarrow> nat \<Rightarrow> bool" where
  "mapped m p n \<longleftrightarrow> (\<forall>i < n. m (p + i) \<noteq> None)"

definition copied :: "nat \<Rightarrow> nat \<Rightarrow> nat \<Rightarrow> mem \<Rightarrow> mem" where
  "copied dst src n m = (\<lambda>x. if dst \<le> x \<and> x < dst + n then m (src + (x - dst)) else m x)"

fun cstr :: "mem \<Rightarrow> nat \<Rightarrow> u8 list \<Rightarrow> bool" where
  "cstr m p [] \<longleftrightarrow> m p = Some 0"
| "cstr m p (c # cs) \<longleftrightarrow> c \<noteq> 0 \<and> m p = Some c \<and> cstr m (p + 1) cs"

lemma mapped_Suc: "mapped m p (Suc n) \<longleftrightarrow> m p \<noteq> None \<and> mapped m (p + 1) n"
  unfolding mapped_def by (auto simp: less_Suc_eq_0_disj)

lemma mapped_upd: "mapped m p n \<Longrightarrow> mapped (m(q \<mapsto> b)) p n"
  by (auto simp: mapped_def)

lemma copied_0 [simp]: "copied dst src 0 m = m"
  by (auto simp: copied_def fun_eq_iff)

lemma copy_up_copied:
  assumes "mapped m dst n" "mapped m src n" "dst \<le> src \<or> src + n \<le> dst"
  shows "copy_up n dst src m = Some (copied dst src n m)"
  using assms
proof (induction n arbitrary: dst src m)
  case 0
  then show ?case by simp
next
  case (Suc n)
  obtain b where b: "m src = Some b" "m dst \<noteq> None" using Suc.prems by (auto simp: mapped_Suc)
  let ?m = "m(dst \<mapsto> b)"
  have "copy_up n (dst + 1) (src + 1) ?m = Some (copied (dst + 1) (src + 1) n ?m)"
    using Suc.prems by (intro Suc.IH mapped_upd) (auto simp: mapped_Suc)
  moreover have "copied (dst + 1) (src + 1) n ?m = copied dst src (Suc n) m"
  proof
    fix x
    have "src + 1 + (x - (dst + 1)) = src + (x - dst)" "src + (x - dst) \<noteq> dst" if "dst < x" "x < dst + Suc n"
      using that Suc.prems(3) by auto
    then show "copied (dst + 1) (src + 1) n ?m x = copied dst src (Suc n) m x"
      using b(1) by (cases "x = dst") (auto simp: copied_def)
  qed
  ultimately show ?case using b by (simp add: store_def)
qed

lemma copy_down_copied:
  assumes "mapped m dst n" "mapped m src n" "src \<le> dst"
  shows "copy_down n (dst + n) (src + n) m = Some (copied dst src n m)"
  using assms
proof (induction n arbitrary: m)
  case 0
  then show ?case by simp
next
  case (Suc n)
  obtain b where b: "m (src + n) = Some b" "m (dst + n) \<noteq> None" using Suc.prems by (auto simp: mapped_def)
  let ?m = "m(dst + n \<mapsto> b)"
  have "mapped m dst n" "mapped m src n" using Suc.prems by (auto simp: mapped_def)
  then have "copy_down n (dst + n) (src + n) ?m = Some (copied dst src n ?m)"
    using Suc.prems by (intro Suc.IH mapped_upd) auto
  moreover have "copied dst src n ?m = copied dst src (Suc n) m"
    using Suc.prems(3) b(1) by (auto simp: copied_def fun_eq_iff less_Suc_eq)
  ultimately show ?case using b by (simp add: store_def)
qed

text \<open>C13. \<open>memmove\<close> leaves in the destination what the source held before the call, whether or not the
  blocks overlap, and changes nothing else; but when it copies upwards the pointer it returns is
  the end of the destination, not its start.\<close>

theorem memmove_correct:
  assumes "mapped m dst n" "mapped m src n"
  shows "memmove dst src n m = Some (if dst < src then dst + n else dst, copied dst src n m)"
  using assms copy_up_copied [of m dst n src] copy_down_copied [of m dst n src]
  by (simp add: memmove_def)

definition sample_mem :: mem where
  "sample_mem = [10 \<mapsto> 104, 11 \<mapsto> 105, 12 \<mapsto> 32, 13 \<mapsto> 0, 20 \<mapsto> 32, 21 \<mapsto> 0, 30 \<mapsto> 7, 31 \<mapsto> 7, 32 \<mapsto> 7]"

theorem memmove_correct_witness:
  "\<exists>m. memmove 10 11 2 sample_mem = Some (12, m) \<and> m 10 = Some 105 \<and> m 11 = Some 32 \<and> m 12 = Some 32"
proof -
  have "mapped sample_mem 10 2" "mapped sample_mem 11 2"
    by (auto simp: mapped_def sample_mem_def less_Suc_eq numeral_2_eq_2)
  from memmove_correct [OF this] show ?thesis by (simp add: copied_def sample_mem_def)
qed

section \<open>Terminated strings\<close>

lemma cstr_iff:
  "cstr m p s \<longleftrightarrow> (\<forall>i < length s. m (p + i) = Some (s ! i) \<and> s ! i \<noteq> 0) \<and> m (p + length s) = Some 0"
proof (induction s arbitrary: p)
  case (Cons c cs)
  show ?case unfolding cstr.simps Cons.IH
    by (auto simp: less_Suc_eq_0_disj nth_Cons')
qed simp

lemma cstr_append: "cstr m p (a @ b) \<Longrightarrow> cstr m (p + length a) b"
proof (induction a arbitrary: p)
  case (Cons c a)
  then show ?case using Cons.IH [of "p + 1"] by simp
qed simp

lemma strlen_cstr: "cstr m p s \<Longrightarrow> strlen p m = Some (length s)"
proof -
  assume "cstr m p s"
  then have "strlen_loop p m = Some (p + length s)"
  proof (induction s arbitrary: p)
    case Nil
    then show ?case by (subst strlen_loop.simps) simp
  next
    case (Cons c cs)
    then show ?case by (subst strlen_loop.simps) simp
  qed
  then show ?thesis by (simp add: strlen_def)
qed

lemma strchr_cstr:
  assumes "cstr m p s"
  shows "\<exists>r. strchr p c m = Some r \<and> (r \<noteq> None \<longleftrightarrow> c = 0 \<or> c \<in> set s)"
  using assms
proof (induction s arbitrary: p)
  case Nil
  then show ?case by (subst strchr.simps) auto
next
  case (Cons b s)
  then have "cstr m (p + 1) s" by simp
  from Cons.IH [OF this] obtain r where "strchr (p + 1) c m = Some r" "r \<noteq> None \<longleftrightarrow> c = 0 \<or> c \<in> set s"
    by blast
  with Cons.prems show ?case by (subst strchr.simps) auto
qed

lemma strcmp_cstr:
  assumes "cstr m a s" "cstr m b t"
  shows "\<exists>r. strcmp a b m = Some r \<and> (r = 0 \<longleftrightarrow> s = t) \<and> (r < 0 \<longleftrightarrow> ord_class.lexordp s t)"
  using assms
proof (induction s arbitrary: a b t)
  case Nil
  then show ?case by (cases t; subst strcmp.simps) (auto simp: word_gt_0)
next
  case (Cons c s)
  show ?case
  proof (cases t)
    case Nil
    then show ?thesis using Cons.prems by (subst strcmp.simps) (auto simp: word_gt_0)
  next
    case (Cons d t')
    show ?thesis
    proof (cases "c = d")
      case True
      then obtain r where "strcmp (a + 1) (b + 1) m = Some r" "r = 0 \<longleftrightarrow> s = t'"
        "r < 0 \<longleftrightarrow> ord_class.lexordp s t'"
        using Cons.IH [of "a + 1" "b + 1" t'] Cons.prems Cons by auto
      then show ?thesis using Cons.prems Cons True by (subst strcmp.simps) auto
    next
      case False
      then show ?thesis using Cons.prems Cons by (subst strcmp.simps) (auto simp: not_less)
    qed
  qed
qed

text \<open>On terminated strings \<open>strcmp\<close> returns; its result is zero exactly for equal strings and
  negative exactly when the first string comes first in the lexicographic order of unsigned bytes.\<close>

theorem strcmp_correct:
  assumes "cstr m a s" "cstr m b t"
  shows "\<exists>r. strcmp a b m = Some r \<and> (r = 0 \<longleftrightarrow> s = t) \<and> (r < 0 \<longleftrightarrow> ord_class.lexordp s t)"
  using assms by (rule strcmp_cstr)

theorem strcmp_correct_witness:
  "cstr sample_mem 10 [104, 105, 32] \<and> cstr sample_mem 20 [32] \<and> (\<exists>r. strcmp 20 10 sample_mem = Some r \<and> r < 0)"
proof -
  have c: "cstr sample_mem 10 [104, 105, 32]" "cstr sample_mem 20 [32]" by (simp_all add: sample_mem_def)
  then show ?thesis using strcmp_correct [OF c(2,1)] by auto
qed

text \<open>\<open>strlcpy\<close> into a buffer of positive size that does not overlap the source returns the length
  of the source, leaves in the buffer the terminated prefix that fits, and writes nowhere else.\<close>

theorem strlcpy_correct:
  assumes "cstr m src s" "0 < n" "mapped m dst (min (length s) (n - 1) + 1)"
    and "dst + n \<le> src \<or> src + length s < dst"
  shows "\<exists>m'. strlcpy dst src n m = Some (length s, m') \<and> cstr m' dst (take (n - 1) s)
    \<and> (\<forall>x. x < dst \<or> dst + min (length s) (n - 1) < x \<longrightarrow> m' x = m x)"
proof -
  let ?l = "min (length s) (n - 1)"
  have src: "m (src + i) = Some (s ! i)" "s ! i \<noteq> 0" if "i < length s" for i
    using assms(1) that by (auto simp: cstr_iff)
  have "mapped m src ?l" using src by (auto simp: mapped_def)
  moreover have "mapped m dst ?l" using assms(3) by (auto simp: mapped_def)
  ultimately have cp: "copy_up ?l dst src m = Some (copied dst src ?l m)"
    using assms(4) by (intro copy_up_copied) auto
  have end': "copied dst src ?l m (dst + ?l) \<noteq> None" using assms(3) by (auto simp: copied_def mapped_def)
  let ?m = "(copied dst src ?l m)(dst + ?l \<mapsto> 0)"
  have l: "(if length s < n - 1 then length s else n - 1) = ?l" by auto
  have "store (dst + ?l) 0 (copied dst src ?l m) = Some ?m" using end' by (simp add: store_def)
  then have "strlcpy dst src n m = Some (length s, ?m)"
    unfolding strlcpy_def Let_def strlen_cstr [OF assms(1)] Option.bind.bind_lunit l memcpy_def cp
    using assms(2) by simp
  moreover have "cstr ?m dst (take (n - 1) s)"
    unfolding cstr_iff using src by (auto simp: copied_def min_def)
  moreover have "\<forall>x. x < dst \<or> dst + ?l < x \<longrightarrow> ?m x = m x" by (auto simp: copied_def)
  ultimately show ?thesis by blast
qed

theorem strlcpy_correct_witness:
  "\<exists>m. strlcpy 30 10 3 sample_mem = Some (3, m) \<and> cstr m 30 [104, 105]"
proof -
  have "cstr sample_mem 10 [104, 105, 32]" by (simp add: sample_mem_def)
  moreover have "mapped sample_mem 30 (min (length [104, 105, 32 :: u8]) (3 - 1) + 1)"
    by (auto simp: mapped_def sample_mem_def less_Suc_eq numeral_eq_Suc)
  ultimately show ?thesis using strlcpy_correct [of sample_mem 10 "[104, 105, 32]" 3 30] by auto
qed

section \<open>Tokens\<close>

lemma skip_delimiters_cstr:
  assumes "cstr m d ds" "cstr m p s"
  shows "skip_delimiters p d m =
    Some (p + length (takeWhile (\<lambda>c. c \<in> set ds) s), dropWhile (\<lambda>c. c \<in> set ds) s = [])"
  using assms(2)
proof (induction s arbitrary: p)
  case Nil
  then show ?case using strchr_cstr [OF assms(1), of 0] by (subst skip_delimiters.simps) auto
next
  case (Cons c s)
  then show ?case using strchr_cstr [OF assms(1), of c] by (subst skip_delimiters.simps) auto
qed

lemma skip_token_cstr:
  assumes "cstr m d ds" "cstr m p s"
  shows "skip_token p d m = Some (p + length (takeWhile (\<lambda>c. c \<notin> set ds) s))"
  using assms(2)
proof (induction s arbitrary: p)
  case Nil
  then show ?case using strchr_cstr [OF assms(1), of 0] by (subst skip_token.simps) auto
next
  case (Cons c s)
  then show ?case using strchr_cstr [OF assms(1), of c] by (subst skip_token.simps) auto
qed

lemma cstr_prefix_terminated:
  assumes "cstr m p (a @ b)"
  shows "cstr (m(p + length a \<mapsto> 0)) p a"
  using assms
proof (induction a arbitrary: p)
  case (Cons c a)
  then show ?case using Cons.IH [of "p + 1"] by simp
qed simp

text \<open>C20. \<open>strtok_r\<close> skips leading delimiters; if nothing is left it returns null and saves the end of
  the string.  Otherwise it returns the maximal run of non-delimiters that follows, terminated in
  place and never empty, saves a pointer from which the rest of the string can be tokenized, and
  changes at most the one byte after the token.\<close>

theorem strtok_r_correct:
  assumes d: "cstr m d ds" and p: "cstr m p s"
  defines "rest \<equiv> dropWhile (\<lambda>c. c \<in> set ds) s"
  defines "q \<equiv> p + length (takeWhile (\<lambda>c. c \<in> set ds) s)"
  defines "token \<equiv> takeWhile (\<lambda>c. c \<notin> set ds) rest"
  shows "if rest = [] then strtok_r (Some p) d save m = Some (None, p + length s, m)
    else \<exists>save' m'. strtok_r (Some p) d save m = Some (Some q, save', m') \<and> cstr m' q token \<and> token \<noteq> []
      \<and> cstr m' save' (tl (dropWhile (\<lambda>c. c \<notin> set ds) rest))
      \<and> (\<forall>x. x \<noteq> q + length token \<longrightarrow> m' x = m x)"
proof (cases "rest = []")
  case True
  then have "takeWhile (\<lambda>c. c \<in> set ds) s = s" unfolding rest_def by (metis append_Nil2 takeWhile_dropWhile_id)
  then have "length (takeWhile (\<lambda>c. c \<in> set ds) s) = length s" by (rule arg_cong)
  then have "skip_delimiters p d m = Some (p + length s, True)"
    using skip_delimiters_cstr [OF d p] True unfolding rest_def by simp
  then show ?thesis using True by (simp add: strtok_r_def)
next
  case False
  let ?r = "dropWhile (\<lambda>c. c \<notin> set ds) rest"
  have "cstr m p (takeWhile (\<lambda>c. c \<in> set ds) s @ rest)" using p by (simp add: rest_def)
  then have q: "cstr m q rest" unfolding q_def by (rule cstr_append)
  have tr: "rest = token @ ?r" by (simp add: token_def)
  then have e: "cstr m (q + length token) ?r" using q cstr_append by metis
  have sk: "skip_delimiters p d m = Some (q, False)"
    using skip_delimiters_cstr [OF d p] False by (simp add: q_def rest_def)
  have st: "skip_token q d m = Some (q + length token)" using skip_token_cstr [OF d q] by (simp add: token_def)
  have "hd rest \<notin> set ds" using False unfolding rest_def by (metis hd_dropWhile)
  then have ne: "token \<noteq> []" using False by (cases rest) (auto simp: token_def)
  show ?thesis
  proof (cases ?r)
    case Nil
    have z: "m (q + length token) = Some 0" using e unfolding Nil by simp
    have r: "rest = token" using tr unfolding Nil by simp
    have "strtok_r (Some p) d save m = Some (Some q, q + length token, m)"
      by (simp add: strtok_r_def sk st z)
    moreover have "cstr m q token" using q r by simp
    moreover have "cstr m (q + length token) (tl ?r)" unfolding Nil using z by simp
    ultimately show ?thesis using False ne by auto
  next
    case (Cons c r)
    let ?m = "m(q + length token \<mapsto> 0)"
    have c: "m (q + length token) = Some c" "c \<noteq> 0" using e Cons by auto
    have "strtok_r (Some p) d save m = Some (Some q, q + length token + 1, ?m)"
      using c by (simp add: strtok_r_def sk st store_def)
    moreover have "cstr ?m q token" using q tr cstr_prefix_terminated by metis
    moreover have "cstr ?m (q + length token + 1) (tl ?r)"
      using e Cons by (auto simp: cstr_iff)
    ultimately show ?thesis using False ne by auto
  qed
qed

theorem strtok_r_correct_witness:
  "\<exists>save m. strtok_r (Some 10) 20 None sample_mem = Some (Some 10, save, m) \<and> cstr m 10 [104, 105]"
proof -
  have c: "cstr sample_mem 20 [32]" "cstr sample_mem 10 [104, 105, 32]" by (simp_all add: sample_mem_def)
  show ?thesis using strtok_r_correct [OF c, of None] by auto
qed

end
