(* ===== verification/Pintos_Hash.thy ===== *)
theory Pintos_Hash
  imports Pintos_Order
begin

text \<open>
  The chained hash table of \<open>lib/kernel/hash.c\<close>.  A bucket is the sequence of its elements (the
  pointer-level lists are modelled and related to sequences in the list theories); the hash and
  comparison functions are parameters, as they are fields of \<open>struct hash\<close>; whether \<open>malloc\<close>
  succeeds is an argument of the operations that call it.
\<close>

unbundle bit_operations_syntax

section \<open>Operations\<close>

record 'a hash =
  elem_cnt :: nat
  bucket_cnt :: nat
  buckets :: "'a list list"

definition hash_clear :: "'a hash \<Rightarrow> 'a list \<times> 'a hash" where
  "hash_clear t =
     (concat (take (bucket_cnt t) (buckets t)),
      t\<lparr>buckets := replicate (bucket_cnt t) [] @ drop (bucket_cnt t) (buckets t), elem_cnt := 0\<rparr>)"

definition hash_init :: "bool \<Rightarrow> 'a hash option" where
  "hash_init ok =
     (if ok then Some (snd (hash_clear \<lparr>elem_cnt = 0, bucket_cnt = 4, buckets = replicate 4 []\<rparr>))
      else None)"

text \<open>The elements \<open>hash_destroy\<close> hands to a destructor, if there is one; the table is gone.\<close>

definition hash_destroy :: "bool \<Rightarrow> 'a hash \<Rightarrow> 'a list" where
  "hash_destroy destructor t = (if destructor then fst (hash_clear t) else [])"

definition find_bucket :: "('a \<Rightarrow> u32) \<Rightarrow> 'a hash \<Rightarrow> 'a \<Rightarrow> nat" where
  "find_bucket h t e = unat (h e) AND (bucket_cnt t - 1)"

definition find_elem :: "('a \<Rightarrow> 'a \<Rightarrow> bool) \<Rightarrow> 'a list \<Rightarrow> 'a \<Rightarrow> 'a option" where
  "find_elem lt bucket e = List.find (\<lambda>hi. \<not> lt hi e \<and> \<not> lt e hi) bucket"

definition turn_off_least_1bit :: "nat \<Rightarrow> nat" where
  "turn_off_least_1bit x = x AND (x - 1)"

definition is_power_of_2 :: "nat \<Rightarrow> bool" where
  "is_power_of_2 x \<longleftrightarrow> x \<noteq> 0 \<and> turn_off_least_1bit x = 0"

partial_function (option) round_loop :: "nat \<Rightarrow> nat option" where
  "round_loop n = (if is_power_of_2 n then Some n else round_loop (turn_off_least_1bit n))"

declare round_loop.simps [code]

definition move_elem :: "('a \<Rightarrow> u32) \<Rightarrow> 'a \<Rightarrow> 'a hash \<Rightarrow> 'a hash" where
  "move_elem h e t =
     (let b = find_bucket h t e in t\<lparr>buckets := (buckets t)[b := e # buckets t ! b]\<rparr>)"

definition rehash :: "bool \<Rightarrow> ('a \<Rightarrow> u32) \<Rightarrow> 'a hash \<Rightarrow> 'a hash option" where
  "rehash ok h t = do {
     let old_buckets = buckets t;
     let old_bucket_cnt = bucket_cnt t;
     let new_bucket_cnt = elem_cnt t div 2;
     let new_bucket_cnt = (if new_bucket_cnt < 4 then 4 else new_bucket_cnt);
     new_bucket_cnt \<leftarrow> round_loop new_bucket_cnt;
     if new_bucket_cnt = old_bucket_cnt then Some t
     else if \<not> ok then Some t
     else Some (fold (move_elem h) (concat (take old_bucket_cnt old_buckets))
       (t\<lparr>buckets := replicate new_bucket_cnt [], bucket_cnt := new_bucket_cnt\<rparr>))
   }"

definition insert_elem :: "nat \<Rightarrow> 'a \<Rightarrow> 'a hash \<Rightarrow> 'a hash" where
  "insert_elem b e t =
     t\<lparr>elem_cnt := size_add (elem_cnt t) 1, buckets := (buckets t)[b := e # buckets t ! b]\<rparr>"

definition remove_elem :: "'a \<Rightarrow> 'a hash \<Rightarrow> 'a hash" where
  "remove_elem e t = t\<lparr>elem_cnt := elem_cnt t - 1, buckets := map (remove1 e) (buckets t)\<rparr>"

definition hash_insert ::
    "bool \<Rightarrow> ('a \<Rightarrow> u32) \<Rightarrow> ('a \<Rightarrow> 'a \<Rightarrow> bool) \<Rightarrow> 'a \<Rightarrow> 'a hash \<Rightarrow> ('a option \<times> 'a hash) option" where
  "hash_insert ok h lt new t = do {
     let bucket = find_bucket h t new;
     let old = find_elem lt (buckets t ! bucket) new;
     let t = (if old = None then insert_elem bucket new t else t);
     t \<leftarrow> rehash ok h t;
     Some (old, t)
   }"

definition hash_replace ::
    "bool \<Rightarrow> ('a \<Rightarrow> u32) \<Rightarrow> ('a \<Rightarrow> 'a \<Rightarrow> bool) \<Rightarrow> 'a \<Rightarrow> 'a hash \<Rightarrow> ('a option \<times> 'a hash) option" where
  "hash_replace ok h lt new t = do {
     let bucket = find_bucket h t new;
     let old = find_elem lt (buckets t ! bucket) new;
     let t = (case old of None \<Rightarrow> t | Some o' \<Rightarrow> remove_elem o' t);
     t \<leftarrow> rehash ok h (insert_elem bucket new t);
     Some (old, t)
   }"

definition hash_find :: "('a \<Rightarrow> u32) \<Rightarrow> ('a \<Rightarrow> 'a \<Rightarrow> bool) \<Rightarrow> 'a \<Rightarrow> 'a hash \<Rightarrow> 'a option" where
  "hash_find h lt e t = find_elem lt (buckets t ! find_bucket h t e) e"

definition hash_delete ::
    "bool \<Rightarrow> ('a \<Rightarrow> u32) \<Rightarrow> ('a \<Rightarrow> 'a \<Rightarrow> bool) \<Rightarrow> 'a \<Rightarrow> 'a hash \<Rightarrow> ('a option \<times> 'a hash) option" where
  "hash_delete ok h lt e t = do {
     let found = find_elem lt (buckets t ! find_bucket h t e) e;
     t \<leftarrow> (case found of None \<Rightarrow> Some t | Some x \<Rightarrow> rehash ok h (remove_elem x t));
     Some (found, t)
   }"

definition hash_apply :: "('a \<Rightarrow> 's \<Rightarrow> 's) \<Rightarrow> 'a hash \<Rightarrow> 's \<Rightarrow> 's" where
  "hash_apply action t = fold (fold action) (take (bucket_cnt t) (buckets t))"

text \<open>An iterator is at a place of a bucket: 0 is the head of the list, \<open>i + 1\<close> its element \<open>i\<close>; the
  null pointer at the end of the table is \<^const>\<open>None\<close>.\<close>

record hash_iterator =
  it_bucket :: nat
  it_elem :: "nat option"

definition hash_first :: hash_iterator where
  "hash_first = \<lparr>it_bucket = 0, it_elem = Some 0\<rparr>"

function hash_next_loop :: "'a hash \<Rightarrow> nat \<Rightarrow> nat \<Rightarrow> hash_iterator" where
  "hash_next_loop t b p =
     (if p = length (buckets t ! b) + 1
      then (if bucket_cnt t \<le> b + 1 then \<lparr>it_bucket = b + 1, it_elem = None\<rparr>
            else hash_next_loop t (b + 1) 1)
      else \<lparr>it_bucket = b, it_elem = Some p\<rparr>)"
  by pat_completeness auto
termination
  by (relation "measure (\<lambda>(t, b, p). bucket_cnt t - b)") auto

declare hash_next_loop.simps [simp del]

definition hash_cur :: "'a hash \<Rightarrow> hash_iterator \<Rightarrow> 'a option" where
  "hash_cur t i =
     (case it_elem i of None \<Rightarrow> None | Some p \<Rightarrow> Some (buckets t ! it_bucket i ! (p - 1)))"

definition hash_next :: "'a hash \<Rightarrow> hash_iterator \<Rightarrow> ('a option \<times> hash_iterator) option" where
  "hash_next t i = do {
     p \<leftarrow> it_elem i;
     let i = hash_next_loop t (it_bucket i) (p + 1);
     Some (hash_cur t i, i)
   }"

definition hash_size :: "'a hash \<Rightarrow> nat" where
  "hash_size t = elem_cnt t"

definition hash_empty :: "'a hash \<Rightarrow> bool" where
  "hash_empty t \<longleftrightarrow> elem_cnt t = 0"

section \<open>Hash functions\<close>

definition FNV_32_PRIME :: u32 where "FNV_32_PRIME = 16777619"

definition FNV_32_BASIS :: u32 where "FNV_32_BASIS = 2166136261"

definition hash_bytes :: "u8 list \<Rightarrow> u32" where
  "hash_bytes buf = fold (\<lambda>b hash. (hash * FNV_32_PRIME) XOR ucast b) buf FNV_32_BASIS"

definition hash_string :: "u8 list \<Rightarrow> u32" where
  "hash_string s = fold (\<lambda>b hash. (hash * FNV_32_PRIME) XOR ucast b) (takeWhile (\<lambda>b. b \<noteq> 0) s) FNV_32_BASIS"

text \<open>The four bytes of an integer, lowest first.\<close>

definition int_bytes :: "u32 \<Rightarrow> u8 list" where
  "int_bytes i = [ucast i, ucast (drop_bit 8 i), ucast (drop_bit 16 i), ucast (drop_bit 24 i)]"

definition hash_int :: "u32 \<Rightarrow> u32" where
  "hash_int i = hash_bytes (int_bytes i)"

section \<open>Invariant\<close>

definition contents :: "'a hash \<Rightarrow> 'a multiset" where
  "contents t = mset (concat (buckets t))"

text \<open>Every element is in the bucket of its hash.\<close>

definition placed :: "('a \<Rightarrow> u32) \<Rightarrow> 'a hash \<Rightarrow> bool" where
  "placed h t \<longleftrightarrow> 0 < bucket_cnt t \<and> length (buckets t) = bucket_cnt t
     \<and> (\<forall>i < bucket_cnt t. \<forall>e \<in> set (buckets t ! i). find_bucket h t e = i)"

text \<open>No two elements compare equal.\<close>

definition unique :: "('a \<Rightarrow> 'a \<Rightarrow> bool) \<Rightarrow> 'a multiset \<Rightarrow> bool" where
  "unique lt M \<longleftrightarrow> (\<forall>x. size {#y \<in># M. equivalent lt x y#} \<le> 1)"

definition hash_wf :: "('a \<Rightarrow> u32) \<Rightarrow> ('a \<Rightarrow> 'a \<Rightarrow> bool) \<Rightarrow> 'a hash \<Rightarrow> bool" where
  "hash_wf h lt t \<longleftrightarrow> placed h t \<and> elem_cnt t = size (contents t) \<and> unique lt (contents t)"

lemma and_pred_less: "0 < n \<Longrightarrow> (x :: nat) AND (n - 1) < n"
proof -
  assume n: "0 < n"
  have "int (x AND (n - 1)) = int x AND int (n - 1)" by (rule of_nat_and_eq)
  also have "\<dots> \<le> int (n - 1)" by (rule AND_upper2) simp
  finally show ?thesis using n by linarith
qed

lemma find_bucket_less: "0 < bucket_cnt t \<Longrightarrow> find_bucket h t e < bucket_cnt t"
  unfolding find_bucket_def by (rule and_pred_less)

lemma turn_off_less: "0 < n \<Longrightarrow> turn_off_least_1bit n < n"
  unfolding turn_off_least_1bit_def by (rule and_pred_less)

lemma round_loop_total:
  assumes "0 < n"
  shows "\<exists>r. round_loop n = Some r \<and> 0 < r \<and> r \<le> n \<and> is_power_of_2 r"
  using assms
proof (induction n rule: less_induct)
  case (less n)
  show ?case
  proof (cases "is_power_of_2 n")
    case True
    then show ?thesis using less.prems by (subst round_loop.simps) simp
  next
    case False
    then have "0 < turn_off_least_1bit n" using less.prems by (simp add: is_power_of_2_def)
    moreover have lt: "turn_off_least_1bit n < n" using less.prems by (rule turn_off_less)
    ultimately obtain r where "round_loop (turn_off_least_1bit n) = Some r" "0 < r"
      "r \<le> turn_off_least_1bit n" "is_power_of_2 r" using less.IH by blast
    then show ?thesis using False lt by (subst round_loop.simps) simp
  qed
qed

lemma mset_concat_push:
  assumes "b < length bs"
  shows "mset (concat (bs[b := e # bs ! b])) = add_mset e (mset (concat bs))"
proof -
  have bs: "bs = take b bs @ bs ! b # drop (Suc b) bs" using assms by (rule id_take_nth_drop)
  have "bs[b := e # bs ! b] = take b bs @ (e # bs ! b) # drop (Suc b) bs"
    using assms by (rule upd_conv_take_nth_drop)
  then have "mset (concat (bs[b := e # bs ! b])) = add_mset e (mset (concat (take b bs @ bs ! b # drop (Suc b) bs)))"
    by simp
  then show ?thesis using bs by simp
qed

lemma push_placed:
  fixes n :: nat
  assumes "placed h t" "b = find_bucket h t e"
  defines "t' \<equiv> t\<lparr>buckets := (buckets t)[b := e # buckets t ! b], elem_cnt := n\<rparr>"
  shows "placed h t'" "contents t' = add_mset e (contents t)"
proof -
  have b: "b < length (buckets t)" using assms(1,2) find_bucket_less [of t h e] by (simp add: placed_def)
  then show "contents t' = add_mset e (contents t)" by (simp add: contents_def t'_def mset_concat_push)
  have f: "find_bucket h t' = find_bucket h t" by (simp add: find_bucket_def t'_def fun_eq_iff)
  show "placed h t'" unfolding placed_def f
    using assms(1,2) b by (auto simp: placed_def t'_def nth_list_update split: if_splits)
qed

lemma move_elem_placed:
  assumes "placed h t"
  shows "placed h (move_elem h e t)" "contents (move_elem h e t) = add_mset e (contents t)"
    "elem_cnt (move_elem h e t) = elem_cnt t"
proof -
  have "move_elem h e t = t\<lparr>buckets := (buckets t)[find_bucket h t e := e # buckets t ! find_bucket h t e],
      elem_cnt := elem_cnt t\<rparr>"
    by (simp add: move_elem_def Let_def)
  then show "placed h (move_elem h e t)" "contents (move_elem h e t) = add_mset e (contents t)"
    "elem_cnt (move_elem h e t) = elem_cnt t"
    using push_placed [OF assms refl, of "elem_cnt t" e] by simp_all
qed

lemma fold_move_placed:
  "placed h t \<Longrightarrow> placed h (fold (move_elem h) es t) \<and> contents (fold (move_elem h) es t) = mset es + contents t
     \<and> elem_cnt (fold (move_elem h) es t) = elem_cnt t"
  by (induction es arbitrary: t) (simp_all add: move_elem_placed)

lemma rehash_wf:
  assumes "hash_wf h lt t"
  shows "\<exists>t'. rehash ok h t = Some t' \<and> hash_wf h lt t' \<and> contents t' = contents t"
proof -
  let ?n = "if elem_cnt t div 2 < 4 then 4 else elem_cnt t div 2"
  have "0 < ?n" by simp
  from round_loop_total [OF this] obtain r where r: "round_loop ?n = Some r" "0 < r" by blast
  let ?t = "t\<lparr>buckets := replicate r [], bucket_cnt := r\<rparr>"
  let ?es = "concat (take (bucket_cnt t) (buckets t))"
  have "placed h ?t" using r(2) by (simp add: placed_def)
  note f = fold_move_placed [OF this, of ?es]
  have es: "mset ?es = contents t" using assms by (simp add: contents_def hash_wf_def placed_def)
  have c: "contents ?t = {#}" by (simp add: contents_def)
  have "hash_wf h lt (fold (move_elem h) ?es ?t)" "contents (fold (move_elem h) ?es ?t) = contents t"
    using f assms by (simp_all add: hash_wf_def es c)
  moreover have "rehash ok h t = Some (if r = bucket_cnt t \<or> \<not> ok then t else fold (move_elem h) ?es ?t)"
    unfolding rehash_def Let_def r(1) by simp
  ultimately show ?thesis using assms by auto
qed

lemma placed_bucket: "placed h t \<Longrightarrow> i < length (buckets t) \<Longrightarrow> e \<in> set (buckets t ! i) \<Longrightarrow> find_bucket h t e = i"
  by (simp add: placed_def)

lemma remove_elem_placed:
  assumes "placed h t" "x \<in># contents t"
  shows "placed h (remove_elem x t)" "contents (remove_elem x t) = contents t - {#x#}"
proof -
  obtain i where i: "i < length (buckets t)" "x \<in> set (buckets t ! i)"
    using assms(2) unfolding contents_def by (auto simp: in_set_conv_nth [of _ "buckets t"])
  have other: "x \<notin> set (buckets t ! j)" if "j < length (buckets t)" "j \<noteq> i" for j
  proof
    assume "x \<in> set (buckets t ! j)"
    from placed_bucket [OF assms(1) that(1) this] placed_bucket [OF assms(1) i] show False using that(2) by simp
  qed
  define a where "a = take i (buckets t)"
  define c where "c = drop (Suc i) (buckets t)"
  have bs: "buckets t = a @ buckets t ! i # c" unfolding a_def c_def using i(1) by (rule id_take_nth_drop)
  have "x \<notin> set b" if b: "b \<in> set a" for b
  proof -
    obtain j where "j < i" "b = buckets t ! j" using b i(1) by (auto simp: a_def in_set_conv_nth [of b])
    then show ?thesis using other [of j] i(1) by simp
  qed
  then have "map (remove1 x) a = a" by (simp add: map_idI remove1_idem)
  moreover have "x \<notin> set b" if b: "b \<in> set c" for b
  proof -
    obtain j where "j < length (buckets t) - Suc i" "b = buckets t ! (Suc i + j)"
      using b by (auto simp: c_def in_set_conv_nth [of b])
    then show ?thesis using other [of "Suc i + j"] by simp
  qed
  then have "map (remove1 x) c = c" by (simp add: map_idI remove1_idem)
  ultimately have m: "map (remove1 x) (buckets t) = a @ remove1 x (buckets t ! i) # c"
    by (subst bs) simp
  have sub: "{#x#} \<subseteq># mset (buckets t ! i)" using i(2) by simp
  have "mset (concat (buckets t)) = mset (concat a) + (mset (buckets t ! i) + mset (concat c))"
    by (subst bs) simp
  then show "contents (remove_elem x t) = contents t - {#x#}"
    unfolding contents_def remove_elem_def using sub by (simp add: m multiset_eq_iff)
  have "find_bucket h (remove_elem x t) = find_bucket h t"
    by (simp add: find_bucket_def remove_elem_def fun_eq_iff)
  then show "placed h (remove_elem x t)" using assms(1)
    by (auto simp: placed_def remove_elem_def dest: notin_set_remove1)
qed

lemma unique_remove: "unique lt M \<Longrightarrow> unique lt (M - {#x#})"
  unfolding unique_def by (meson diff_subset_eq_self le_trans multiset_filter_mono size_mset_mono)

section \<open>The table as a set of elements\<close>

locale hash_order = strict_weak_order lt for lt :: "'a \<Rightarrow> 'a \<Rightarrow> bool" +
  fixes h :: "'a \<Rightarrow> u32"
  assumes hash_equivalent: "equivalent lt a b \<Longrightarrow> h a = h b"
begin

lemma equivalent_sym: "equivalent lt a b \<longleftrightarrow> equivalent lt b a"
  by (auto simp: equivalent_def)

lemma equivalent_trans: "equivalent lt a b \<Longrightarrow> equivalent lt b c \<Longrightarrow> equivalent lt a c"
  unfolding equivalent_def using lt_neg_trans by blast

lemma contents_bucket:
  assumes "hash_wf h lt t" "x \<in># contents t" "equivalent lt x e"
  shows "x \<in> set (buckets t ! find_bucket h t e)"
proof -
  obtain i where i: "i < length (buckets t)" "x \<in> set (buckets t ! i)"
    using assms(2) unfolding contents_def by (auto simp: in_set_conv_nth [of _ "buckets t"])
  then have "i = find_bucket h t x" using assms(1) by (simp add: hash_wf_def placed_def)
  also have "\<dots> = find_bucket h t e" using hash_equivalent [OF assms(3)] by (simp add: find_bucket_def)
  finally show ?thesis using i by simp
qed

lemma bucket_contents:
  assumes "hash_wf h lt t" "x \<in> set (buckets t ! find_bucket h t e)"
  shows "x \<in># contents t"
proof -
  have "find_bucket h t e < length (buckets t)"
    using assms(1) find_bucket_less [of t h e] by (simp add: hash_wf_def placed_def)
  then show ?thesis using assms(2) by (auto simp: contents_def)
qed

lemma find_Some:
  assumes "hash_wf h lt t" "hash_find h lt e t = Some x"
  shows "x \<in># contents t" "equivalent lt x e"
proof -
  have "x \<in> set (buckets t ! find_bucket h t e)" and eq: "\<not> lt x e \<and> \<not> lt e x"
    using assms(2) unfolding hash_find_def find_elem_def by (auto simp: find_Some_iff)
  then show "x \<in># contents t" using assms(1) by (intro bucket_contents)
  show "equivalent lt x e" using eq by (simp add: equivalent_def)
qed

lemma find_None:
  assumes "hash_wf h lt t" "hash_find h lt e t = None" "x \<in># contents t"
  shows "\<not> equivalent lt x e"
proof
  assume eq: "equivalent lt x e"
  then have "x \<in> set (buckets t ! find_bucket h t e)" by (rule contents_bucket [OF assms(1,3)])
  then show False using assms(2) eq
    by (auto simp: hash_find_def find_elem_def find_None_iff equivalent_def)
qed

lemma unique_add:
  assumes "unique lt M" "\<And>x. x \<in># M \<Longrightarrow> \<not> equivalent lt x e"
  shows "unique lt (add_mset e M)"
  unfolding unique_def
proof
  fix x
  show "size {#y \<in># add_mset e M. equivalent lt x y#} \<le> 1"
  proof (cases "equivalent lt x e")
    case True
    have "\<not> equivalent lt x y" if "y \<in># M" for y
      using True that assms(2) equivalent_sym equivalent_trans by blast
    then have "{#y \<in># M. equivalent lt x y#} = {#}" by (auto simp: filter_mset_eq_conv)
    then show ?thesis using True by simp
  next
    case False
    then show ?thesis using assms(1) by (simp add: unique_def)
  qed
qed

lemma insert_spec:
  assumes "hash_wf h lt t" "size (contents t) + 1 < 2 ^ 32"
  shows "\<exists>t'. hash_insert ok h lt e t = Some (hash_find h lt e t, t') \<and> hash_wf h lt t'
    \<and> contents t' = (if hash_find h lt e t = None then add_mset e (contents t) else contents t)"
proof -
  let ?b = "find_bucket h t e"
  let ?t = "if hash_find h lt e t = None then insert_elem ?b e t else t"
  have "hash_wf h lt ?t \<and> contents ?t = (if hash_find h lt e t = None then add_mset e (contents t) else contents t)"
  proof (cases "hash_find h lt e t")
    case None
    have "placed h t" "elem_cnt t = size (contents t)" "unique lt (contents t)"
      using assms(1) by (simp_all add: hash_wf_def)
    moreover have "insert_elem ?b e t = t\<lparr>buckets := (buckets t)[?b := e # buckets t ! ?b],
        elem_cnt := size_add (elem_cnt t) 1\<rparr>" by (simp add: insert_elem_def)
    ultimately show ?thesis
      using push_placed [of h t ?b e "size_add (elem_cnt t) 1"] None assms(2)
        unique_add [OF _ find_None [OF assms(1) None]]
      by (simp add: hash_wf_def)
  qed (use assms(1) in simp)
  then obtain t' where "rehash ok h ?t = Some t'" "hash_wf h lt t'" "contents t' = contents ?t"
    using rehash_wf [of h lt ?t ok] by blast
  moreover have "hash_insert ok h lt e t = rehash ok h ?t \<bind> (\<lambda>t'. Some (hash_find h lt e t, t'))"
    unfolding hash_insert_def Let_def by (simp add: hash_find_def)
  ultimately show ?thesis
    using \<open>hash_wf h lt ?t \<and> contents ?t = (if hash_find h lt e t = None then add_mset e (contents t) else contents t)\<close>
    by simp
qed

lemma remove_wf:
  assumes "hash_wf h lt t" "x \<in># contents t"
  shows "hash_wf h lt (remove_elem x t)" "contents (remove_elem x t) = contents t - {#x#}"
  using assms remove_elem_placed [of h t x] unique_remove [of lt "contents t" x]
  by (simp_all add: hash_wf_def size_Diff_singleton) (simp add: remove_elem_def)

lemma delete_spec:
  assumes "hash_wf h lt t"
  shows "\<exists>t'. hash_delete ok h lt e t = Some (hash_find h lt e t, t') \<and> hash_wf h lt t'
    \<and> contents t' = (case hash_find h lt e t of None \<Rightarrow> contents t | Some x \<Rightarrow> contents t - {#x#})"
proof (cases "hash_find h lt e t")
  case None
  then show ?thesis using assms by (simp add: hash_delete_def hash_find_def)
next
  case (Some x)
  note r = remove_wf [OF assms find_Some(1) [OF assms Some]]
  obtain t' where "rehash ok h (remove_elem x t) = Some t'" "hash_wf h lt t'" "contents t' = contents (remove_elem x t)"
    using rehash_wf [OF r(1)] by blast
  then show ?thesis using Some r(2) by (simp add: hash_delete_def hash_find_def Let_def)
qed

lemma equivalent_in_unique:
  assumes "unique lt M" "x \<in># M" "y \<in># M - {#x#}" "equivalent lt x y"
  shows False
proof -
  have "{#x, y#} \<subseteq># M" using assms(2,3) by (metis insert_DiffM insert_subset_eq_iff mset_subset_eq_single)
  then have "filter_mset (equivalent lt x) {#x, y#} \<subseteq># filter_mset (equivalent lt x) M"
    by (rule multiset_filter_mono)
  then have "size (filter_mset (equivalent lt x) {#x, y#}) \<le> size (filter_mset (equivalent lt x) M)"
    by (rule size_mset_mono)
  moreover have "equivalent lt x x" using lt_irrefl by (simp add: equivalent_def)
  ultimately have "2 \<le> size (filter_mset (equivalent lt x) M)" using assms(4) by simp
  then show False using assms(1) unfolding unique_def by (metis One_nat_def Suc_1 not_less_eq_eq)
qed

lemma removed_not_equivalent:
  assumes "unique lt M" "x \<in># M" "equivalent lt x e" "y \<in># M - {#x#}"
  shows "\<not> equivalent lt y e"
proof
  assume "equivalent lt y e"
  then have "equivalent lt e y" by (simp add: equivalent_def)
  from equivalent_trans [OF assms(3) this] show False by (rule equivalent_in_unique [OF assms(1,2,4)])
qed

lemma replace_spec:
  assumes "hash_wf h lt t" "size (contents t) + 1 < 2 ^ 32"
  shows "\<exists>t'. hash_replace ok h lt e t = Some (hash_find h lt e t, t') \<and> hash_wf h lt t'
    \<and> contents t' = add_mset e (case hash_find h lt e t of None \<Rightarrow> contents t | Some x \<Rightarrow> contents t - {#x#})"
proof -
  define t0 where "t0 = (case hash_find h lt e t of None \<Rightarrow> t | Some x \<Rightarrow> remove_elem x t)"
  let ?M = "case hash_find h lt e t of None \<Rightarrow> contents t | Some x \<Rightarrow> contents t - {#x#}"
  have t0: "hash_wf h lt t0 \<and> contents t0 = ?M \<and> bucket_cnt t0 = bucket_cnt t \<and> size ?M \<le> size (contents t)"
    using assms(1) remove_wf [OF assms(1) find_Some(1) [OF assms(1)]]
    by (cases "hash_find h lt e t") (simp_all add: t0_def remove_elem_def size_Diff_submset size_mset_mono)
  have free: "\<not> equivalent lt x e" if "x \<in># ?M" for x
  proof (cases "hash_find h lt e t")
    case None
    then show ?thesis using that find_None [OF assms(1)] by simp
  next
    case (Some y)
    have "unique lt (contents t)" using assms(1) by (simp add: hash_wf_def)
    from removed_not_equivalent [OF this find_Some [OF assms(1) Some]] show ?thesis
      using that Some by simp
  qed
  let ?b = "find_bucket h t e"
  have b: "?b = find_bucket h t0 e" using t0 by (simp add: find_bucket_def)
  have ins: "insert_elem ?b e t0 = t0\<lparr>buckets := (buckets t0)[?b := e # buckets t0 ! ?b],
      elem_cnt := size_add (elem_cnt t0) 1\<rparr>" by (simp add: insert_elem_def)
  have c0: "contents t0 = ?M" and pl: "placed h t0" and ec: "elem_cnt t0 = size ?M" and un: "unique lt ?M"
    using t0 unfolding hash_wf_def by metis+
  note pp = push_placed [OF pl b, of "size_add (elem_cnt t0) 1", folded ins]
  have "elem_cnt (insert_elem ?b e t0) = size ?M + 1"
    using t0 assms(2) by (simp add: insert_elem_def ec)
  moreover have "unique lt (add_mset e ?M)" by (rule unique_add [OF un free])
  ultimately have wf: "hash_wf h lt (insert_elem ?b e t0)" "contents (insert_elem ?b e t0) = add_mset e ?M"
    using pp by (simp_all add: hash_wf_def c0)
  obtain t' where "rehash ok h (insert_elem ?b e t0) = Some t'" "hash_wf h lt t'"
    "contents t' = contents (insert_elem ?b e t0)" using rehash_wf [OF wf(1)] by blast
  then show ?thesis using wf(2) by (simp add: hash_replace_def hash_find_def t0_def Let_def)
qed

end

text \<open>Elements with an integer key, hashed by \<open>hash_int\<close>.\<close>

interpretation int_keys: hash_order "\<lambda>a b. key a < (key b :: u32)" "\<lambda>a. hash_int (key a)" for key
proof
  show "hash_int (key a) = hash_int (key b)" if "equivalent (\<lambda>a b. key a < key b) a b" for a b
  proof -
    have "key a = key b" using that by (auto simp: equivalent_def)
    then show ?thesis by simp
  qed
qed

section \<open>Properties\<close>

text \<open>C10. For a hash function that respects the comparison, \<open>hash_insert\<close> returns the equal element
  that was in the table, or null; it adds the new element exactly in the second case, keeps the
  table well formed whether or not the buckets could be reallocated, and afterwards \<open>hash_find\<close>
  finds the old or the new element.\<close>

theorem hash_insert_find:
  assumes "hash_order lt h" "hash_wf h lt t" "size (contents t) + 1 < 2 ^ 32"
  shows "\<exists>t'. hash_insert ok h lt e t = Some (hash_find h lt e t, t') \<and> hash_wf h lt t'
    \<and> contents t' = (if hash_find h lt e t = None then add_mset e (contents t) else contents t)
    \<and> (\<exists>x. hash_find h lt e t' = Some x \<and> x \<in># contents t' \<and> equivalent lt x e)"
proof -
  obtain t' where t': "hash_insert ok h lt e t = Some (hash_find h lt e t, t')" "hash_wf h lt t'"
    "contents t' = (if hash_find h lt e t = None then add_mset e (contents t) else contents t)"
    using hash_order.insert_spec [OF assms] by blast
  have sw: "strict_weak_order lt" using assms(1) by (rule hash_order.axioms(1))
  obtain x where "x \<in># contents t'" "equivalent lt x e"
  proof (cases "hash_find h lt e t")
    case None
    then show ?thesis using that [of e] t'(3) strict_weak_order.lt_irrefl [OF sw, of e] by (simp add: equivalent_def)
  next
    case (Some y)
    then show ?thesis using that [of y] t'(3) hash_order.find_Some [OF assms(1,2) Some] by simp
  qed
  then have "hash_find h lt e t' \<noteq> None" using hash_order.find_None [OF assms(1) t'(2)] by blast
  then show ?thesis using t' hash_order.find_Some [OF assms(1) t'(2)] by fastforce
qed

definition empty_table :: "u32 hash" where
  "empty_table = \<lparr>elem_cnt = 0, bucket_cnt = 4, buckets = replicate 4 []\<rparr>"

lemma empty_table_wf: "hash_wf hash_int (<) empty_table" "contents empty_table = {#}"
  by (simp_all add: hash_wf_def placed_def unique_def contents_def empty_table_def)

lemma hash_int_order: "hash_order (<) hash_int"
  using int_keys.hash_order_axioms [of "\<lambda>x. x"] by simp

theorem hash_insert_find_witness:
  "\<exists>t. hash_init True = Some empty_table \<and> hash_insert True hash_int (<) 7 empty_table = Some (None, t)
     \<and> contents t = {#7#}"
proof -
  have f: "hash_find hash_int (<) 7 empty_table = None"
    using int_keys.find_Some(1) [of "\<lambda>x. x" empty_table 7] empty_table_wf by fastforce
  have "hash_init True = Some empty_table"
    by (simp add: hash_init_def hash_clear_def empty_table_def)
  moreover have "size (contents empty_table) + 1 < 2 ^ 32" by (simp add: empty_table_wf)
  from hash_insert_find [OF hash_int_order empty_table_wf(1) this, of True 7]
  have "\<exists>t. hash_insert True hash_int (<) 7 empty_table = Some (None, t) \<and> contents t = {#7#}"
    by (auto simp: f empty_table_wf)
  ultimately show ?thesis by blast
qed

text \<open>\<open>hash_delete\<close> removes exactly the element equal to its argument and returns it, or leaves
  the table as it is and returns null; afterwards no equal element is found.\<close>

theorem hash_delete_removes:
  assumes "hash_order lt h" "hash_wf h lt t"
  shows "\<exists>t'. hash_delete ok h lt e t = Some (hash_find h lt e t, t') \<and> hash_wf h lt t'
    \<and> contents t' = (case hash_find h lt e t of None \<Rightarrow> contents t | Some x \<Rightarrow> contents t - {#x#})
    \<and> hash_find h lt e t' = None"
proof -
  obtain t' where t': "hash_delete ok h lt e t = Some (hash_find h lt e t, t')" "hash_wf h lt t'"
    "contents t' = (case hash_find h lt e t of None \<Rightarrow> contents t | Some x \<Rightarrow> contents t - {#x#})"
    using hash_order.delete_spec [OF assms] by blast
  have "\<not> equivalent lt y e" if "y \<in># contents t'" for y
  proof (cases "hash_find h lt e t")
    case None
    then show ?thesis using that t'(3) hash_order.find_None [OF assms] by simp
  next
    case (Some x)
    have "unique lt (contents t)" using assms(2) by (simp add: hash_wf_def)
    from hash_order.removed_not_equivalent [OF assms(1) this hash_order.find_Some [OF assms Some]]
    show ?thesis using that t'(3) Some by simp
  qed
  then have "hash_find h lt e t' = None"
    using hash_order.find_Some [OF assms(1) t'(2)] by (metis not_None_eq)
  then show ?thesis using t' by blast
qed

theorem hash_delete_removes_witness:
  "\<exists>t. hash_delete True hash_int (<) 7 empty_table = Some (None, t) \<and> hash_wf hash_int (<) t"
proof -
  have "hash_find hash_int (<) 7 empty_table = None"
    using int_keys.find_Some(1) [of "\<lambda>x. x" empty_table 7] empty_table_wf by fastforce
  then show ?thesis using hash_delete_removes [OF hash_int_order empty_table_wf(1), of True 7] by auto
qed

end
