(* ===== verification/Pintos_Palloc.thy ===== *)
theory Pintos_Palloc
  imports Pintos_Bitmap "HOL-Library.Signed_Division"
begin

text \<open>
  Virtual addresses (\<open>threads/vaddr.h\<close>) and the page allocator (\<open>threads/palloc.c\<close>).  An address is
  a 32-bit word and the null pointer is 0.  A pool is its bitmap and its base; the lock of a pool
  is the flag that it is held, so that acquiring a held lock or releasing a free one stops.  The
  contents of memory are a function from addresses to bytes, on which \<open>memset\<close> is
  \<open>fill\<close>.  \<open>used_pages\<close> is what a pool has handed out.
\<close>

unbundle bit_operations_syntax

section \<open>Virtual addresses\<close>

definition BITMASK :: "nat \<Rightarrow> nat \<Rightarrow> u32" where
  "BITMASK shift cnt = push_bit shift (push_bit cnt 1 - 1)"

definition PGBITS :: nat where
  "PGBITS = 12"

definition PGSIZE :: nat where
  "PGSIZE = 4096"

definition PGMASK :: u32 where
  "PGMASK = BITMASK 0 PGBITS"

definition pg_ofs :: "u32 \<Rightarrow> u32" where
  "pg_ofs va = va AND PGMASK"

definition pg_no :: "u32 \<Rightarrow> u32" where
  "pg_no va = drop_bit PGBITS va"

definition pg_round_up :: "u32 \<Rightarrow> u32" where
  "pg_round_up va = (va + of_nat PGSIZE - 1) AND NOT PGMASK"

definition pg_round_down :: "u32 \<Rightarrow> u32" where
  "pg_round_down va = va AND NOT PGMASK"

definition PHYS_BASE :: u32 where
  "PHYS_BASE = 0xc0000000"

definition is_user_vaddr :: "u32 \<Rightarrow> bool" where
  "is_user_vaddr vaddr \<longleftrightarrow> vaddr < PHYS_BASE"

definition is_kernel_vaddr :: "u32 \<Rightarrow> bool" where
  "is_kernel_vaddr vaddr \<longleftrightarrow> PHYS_BASE \<le> vaddr"

definition ptov :: "u32 \<Rightarrow> u32 option" where
  "ptov paddr = do { ASSERT (paddr < PHYS_BASE); Some (paddr + PHYS_BASE) }"

definition vtop :: "u32 \<Rightarrow> u32 option" where
  "vtop vaddr = do { ASSERT (is_kernel_vaddr vaddr); Some (vaddr - PHYS_BASE) }"

section \<open>Memory\<close>

type_synonym ram = "u32 \<Rightarrow> u8"

definition fill :: "u32 \<Rightarrow> nat \<Rightarrow> u8 \<Rightarrow> ram \<Rightarrow> ram" where
  "fill p n v m = (\<lambda>a. if unat (a - p) < n then v else m a)"

text \<open>A 32-bit load and store, least significant byte first.\<close>

definition load32 :: "ram \<Rightarrow> u32 \<Rightarrow> u32" where
  "load32 m a = ucast (m a) OR push_bit 8 (ucast (m (a + 1))) OR
     push_bit 16 (ucast (m (a + 2))) OR push_bit 24 (ucast (m (a + 3)))"

definition store32 :: "u32 \<Rightarrow> u32 \<Rightarrow> ram \<Rightarrow> ram" where
  "store32 a w m = m(a := ucast w, a + 1 := ucast (drop_bit 8 w),
     a + 2 := ucast (drop_bit 16 w), a + 3 := ucast (drop_bit 24 w))"

section \<open>Pools\<close>

record pool =
  pool_lock :: bool
  used_map :: bitmap
  base :: u32

record pages =
  kernel_pool :: pool
  user_pool :: pool
  ram :: ram

definition PAL_ASSERT :: u32 where
  "PAL_ASSERT = 1"

definition PAL_ZERO :: u32 where
  "PAL_ZERO = 2"

definition PAL_USER :: u32 where
  "PAL_USER = 4"

definition pool_acquire :: "pool \<Rightarrow> pool option" where
  "pool_acquire p = do { ASSERT (\<not> pool_lock p); Some (p\<lparr>pool_lock := True\<rparr>) }"

definition pool_release :: "pool \<Rightarrow> pool option" where
  "pool_release p = do { ASSERT (pool_lock p); Some (p\<lparr>pool_lock := False\<rparr>) }"

text \<open>The bitmap of a pool lies at its base: an 8-byte header, then the elements, whose contents
  before the first use are whatever memory holds.\<close>

definition init_pool :: "u32 \<Rightarrow> nat \<Rightarrow> ram \<Rightarrow> pool option" where
  "init_pool base' page_cnt m = do {
     let bm_pages = DIV_ROUND_UP (bitmap_buf_size page_cnt) PGSIZE;
     ASSERT (bm_pages \<le> page_cnt);
     let page_cnt = page_cnt - bm_pages;
     let ws = map (\<lambda>i. load32 m (base' + of_nat (8 + 4 * i))) [0..<elem_cnt page_cnt];
     b \<leftarrow> bitmap_create_in_buf page_cnt ws (bm_pages * PGSIZE);
     Some \<lparr>pool_lock = False, used_map = b, base = base' + of_nat (bm_pages * PGSIZE)\<rparr>
   }"

definition page_from_pool :: "pool \<Rightarrow> u32 \<Rightarrow> bool" where
  "page_from_pool p page =
     (let page_no = pg_no page;
          start_page = pg_no (base p);
          end_page = start_page + of_nat (bitmap_size (used_map p))
      in start_page \<le> page_no \<and> page_no < end_page)"

definition palloc_init :: "nat \<Rightarrow> u32 \<Rightarrow> ram \<Rightarrow> pages option" where
  "palloc_init user_page_limit init_ram_pages m = do {
     free_start \<leftarrow> ptov (1024 * 1024);
     free_end \<leftarrow> ptov (init_ram_pages * of_nat PGSIZE);
     let free_pages = unat (word_of_int (sint (free_end - free_start) sdiv int PGSIZE) :: u32);
     let user_pages = free_pages div 2;
     let user_pages = (if user_page_limit < user_pages then user_page_limit else user_pages);
     let kernel_pages = free_pages - user_pages;
     kp \<leftarrow> init_pool free_start kernel_pages m;
     up \<leftarrow> init_pool (free_start + of_nat (kernel_pages * PGSIZE)) user_pages m;
     Some \<lparr>kernel_pool = kp, user_pool = up, ram = m\<rparr>
   }"

section \<open>Allocating and freeing\<close>

definition palloc_get_multiple :: "u32 \<Rightarrow> nat \<Rightarrow> pages \<Rightarrow> (u32 \<times> pages) option" where
  "palloc_get_multiple flags page_cnt s =
     (if page_cnt = 0 then Some (0, s)
      else do {
        let user = flags AND PAL_USER \<noteq> 0;
        p \<leftarrow> pool_acquire (if user then user_pool s else kernel_pool s);
        (page_idx, b) \<leftarrow> bitmap_scan_and_flip (used_map p) 0 page_cnt False;
        p \<leftarrow> pool_release (p\<lparr>used_map := b\<rparr>);
        let s = (if user then s\<lparr>user_pool := p\<rparr> else s\<lparr>kernel_pool := p\<rparr>);
        let pages = (if page_idx \<noteq> BITMAP_ERROR then base p + of_nat (PGSIZE * page_idx) else 0);
        if pages \<noteq> 0
        then Some (pages, if flags AND PAL_ZERO \<noteq> 0
                          then s\<lparr>ram := fill pages (PGSIZE * page_cnt) 0 (ram s)\<rparr> else s)
        else do { ASSERT (flags AND PAL_ASSERT = 0); Some (pages, s) }
      })"

definition palloc_get_page :: "u32 \<Rightarrow> pages \<Rightarrow> (u32 \<times> pages) option" where
  "palloc_get_page flags s = palloc_get_multiple flags 1 s"

definition free_in_pool :: "pool \<Rightarrow> u32 \<Rightarrow> nat \<Rightarrow> pool option" where
  "free_in_pool p pages page_cnt = do {
     let page_idx = unat (pg_no pages - pg_no (base p));
     all \<leftarrow> bitmap_all (used_map p) page_idx page_cnt;
     ASSERT all;
     b \<leftarrow> bitmap_set_multiple (used_map p) page_idx page_cnt False;
     Some (p\<lparr>used_map := b\<rparr>)
   }"

definition palloc_free_multiple :: "u32 \<Rightarrow> nat \<Rightarrow> pages \<Rightarrow> pages option" where
  "palloc_free_multiple pages page_cnt s = do {
     ASSERT (pg_ofs pages = 0);
     if pages = 0 \<or> page_cnt = 0 then Some s
     else do {
       let s' = s\<lparr>ram := fill pages (PGSIZE * page_cnt) 0xcc (ram s)\<rparr>;
       if page_from_pool (kernel_pool s) pages
       then do { p \<leftarrow> free_in_pool (kernel_pool s) pages page_cnt; Some (s'\<lparr>kernel_pool := p\<rparr>) }
       else if page_from_pool (user_pool s) pages
       then do { p \<leftarrow> free_in_pool (user_pool s) pages page_cnt; Some (s'\<lparr>user_pool := p\<rparr>) }
       else None
     }
   }"

definition palloc_free_page :: "u32 \<Rightarrow> pages \<Rightarrow> pages option" where
  "palloc_free_page page s = palloc_free_multiple page 1 s"

section \<open>Addresses and page numbers\<close>

lemma PGMASK_mask: "PGMASK = mask 12"
  by (simp add: PGMASK_def BITMASK_def PGBITS_def mask_eq_exp_minus_1 push_bit_eq_mult)

lemma pg_ofs_take_bit: "pg_ofs va = take_bit 12 va"
  by (simp add: pg_ofs_def PGMASK_mask take_bit_eq_mask)

lemma unat_pg_ofs: "unat (pg_ofs va) = unat va mod 4096"
  by (simp add: pg_ofs_take_bit unsigned_take_bit_eq take_bit_eq_mod unat_mod_distrib)

lemma unat_pg_no: "unat (pg_no va) = unat va div 4096"
  by (simp add: pg_no_def PGBITS_def drop_bit_eq_div unat_div_distrib)

lemma unat_pg_round_down: "unat (pg_round_down va) = unat va div 4096 * 4096"
proof -
  have disj: "pg_round_down va AND pg_ofs va = 0"
    by (auto intro!: bit_word_eqI simp: pg_round_down_def pg_ofs_def bit_simps)
  have "pg_round_down va OR pg_ofs va = va"
    by (auto intro!: bit_word_eqI simp: pg_round_down_def pg_ofs_def bit_simps)
  with disj have "pg_round_down va = va - pg_ofs va"
    by (metis add_diff_cancel_right' disjunctive_add_eq_or)
  moreover have "pg_ofs va \<le> va"
    by (simp add: word_le_nat_alt unat_pg_ofs)
  ultimately show ?thesis
    by (simp add: unat_sub unat_pg_ofs minus_mod_eq_div_mult)
qed

lemma pg_ofs_0_iff: "pg_ofs va = 0 \<longleftrightarrow> 4096 dvd unat va"
  by (metis dvd_eq_mod_eq_0 unat_eq_zero unat_pg_ofs)

lemma ptov_vtop: "ptov pa = Some va \<Longrightarrow> is_kernel_vaddr va \<Longrightarrow> vtop va = Some pa"
  by (auto simp: ptov_def vtop_def ASSERT_bind split: if_splits)

section \<open>What the pools have handed out\<close>

definition page_addr :: "pool \<Rightarrow> nat \<Rightarrow> u32" where
  "page_addr p i = base p + of_nat (PGSIZE * i)"

definition page_run :: "u32 \<Rightarrow> nat \<Rightarrow> u32 set" where
  "page_run a cnt = (\<lambda>k. a + of_nat (PGSIZE * k)) ` {..<cnt}"

definition pool_pages :: "pool \<Rightarrow> u32 set" where
  "pool_pages p = page_addr p ` {..<bit_cnt (used_map p)}"

definition used_pages :: "pool \<Rightarrow> u32 set" where
  "used_pages p = page_addr p ` {i. i < bit_cnt (used_map p) \<and> bitmap_abs (used_map p) ! i}"

definition in_use :: "pages \<Rightarrow> u32 set" where
  "in_use s = used_pages (kernel_pool s) \<union> used_pages (user_pool s)"

definition pool_wf :: "pool \<Rightarrow> bool" where
  "pool_wf p \<longleftrightarrow> bitmap_wf (used_map p) \<and> \<not> pool_lock p \<and> 4096 dvd unat (base p) \<and> 0 < unat (base p) \<and>
     unat (base p) + 4096 * bit_cnt (used_map p) < 2 ^ 32"

definition pages_wf :: "pages \<Rightarrow> bool" where
  "pages_wf s \<longleftrightarrow> pool_wf (kernel_pool s) \<and> pool_wf (user_pool s) \<and>
     pool_pages (kernel_pool s) \<inter> pool_pages (user_pool s) = {}"

definition pool_of :: "u32 \<Rightarrow> pages \<Rightarrow> pool" where
  "pool_of flags s = (if flags AND PAL_USER \<noteq> 0 then user_pool s else kernel_pool s)"

lemma unat_page_addr:
  "pool_wf p \<Longrightarrow> i \<le> bit_cnt (used_map p) \<Longrightarrow> unat (page_addr p i) = unat (base p) + 4096 * i"
proof -
  assume wf: "pool_wf p" and i: "i \<le> bit_cnt (used_map p)"
  from wf i have lt: "unat (base p) + 4096 * i < 2 ^ 32" by (auto simp: pool_wf_def)
  then have "unat (of_nat (4096 * i) :: u32) = 4096 * i"
    by (simp only: unat_of_nat) simp
  then show ?thesis
    using lt unat_add_lem [of "base p" "of_nat (4096 * i)"] by (simp add: page_addr_def PGSIZE_def)
qed

lemma page_addr_eq_iff:
  "pool_wf p \<Longrightarrow> i \<le> bit_cnt (used_map p) \<Longrightarrow> j \<le> bit_cnt (used_map p) \<Longrightarrow>
     page_addr p i = page_addr p j \<longleftrightarrow> i = j"
  by (metis Nat.add_0_right add_left_cancel mult_cancel1 unat_page_addr zero_neq_numeral)

lemma page_addr_aligned: "pool_wf p \<Longrightarrow> i < bit_cnt (used_map p) \<Longrightarrow> pg_ofs (page_addr p i) = 0"
  by (simp add: pg_ofs_0_iff unat_page_addr) (simp add: pool_wf_def)

lemma page_addr_nonzero: "pool_wf p \<Longrightarrow> i < bit_cnt (used_map p) \<Longrightarrow> page_addr p i \<noteq> 0"
  using unat_page_addr [of p i] by (auto simp: pool_wf_def)

lemma page_index:
  "pool_wf p \<Longrightarrow> i < bit_cnt (used_map p) \<Longrightarrow> unat (pg_no (page_addr p i) - pg_no (base p)) = i"
proof -
  assume wf: "pool_wf p" and i: "i < bit_cnt (used_map p)"
  have no: "unat (pg_no (page_addr p i)) = unat (pg_no (base p)) + i"
    using wf by (simp add: unat_pg_no unat_page_addr [OF wf less_imp_le [OF i]])
  then have "pg_no (base p) \<le> pg_no (page_addr p i)" by (simp add: word_le_nat_alt)
  with no show ?thesis by (simp add: unat_sub)
qed

lemma page_run_self: "0 < cnt \<Longrightarrow> a \<in> page_run a cnt"
  unfolding page_run_def by (rule image_eqI [where x = 0]) auto

lemma page_run_addr: "page_run (page_addr p i) cnt = page_addr p ` {i..<i + cnt}"
proof -
  have "{i..<i + cnt} = (\<lambda>k. i + k) ` {..<cnt}"
    by (simp add: lessThan_atLeast0 image_add_atLeastLessThan add.commute)
  then show ?thesis
    by (simp add: page_run_def page_addr_def image_image algebra_simps)
qed

lemma end_page:
  assumes "pool_wf p"
  shows "unat (pg_no (base p) + of_nat (bit_cnt (used_map p))) = unat (base p) div 4096 + bit_cnt (used_map p)"
proof -
  have b: "unat (base p) div 4096 + bit_cnt (used_map p) < 2 ^ 32"
    using assms by (auto simp: pool_wf_def)
  then have "unat (of_nat (bit_cnt (used_map p)) :: u32) = bit_cnt (used_map p)"
    by (simp only: unat_of_nat) simp
  with b show ?thesis
    using unat_add_lem [of "pg_no (base p)" "of_nat (bit_cnt (used_map p))"] by (simp add: unat_pg_no)
qed

lemma page_from_pool_iff:
  assumes "pool_wf p" and "pg_ofs a = 0"
  shows "page_from_pool p a \<longleftrightarrow> a \<in> pool_pages p"
proof
  assume "a \<in> pool_pages p"
  then obtain i where i: "i < bit_cnt (used_map p)" "a = page_addr p i" by (auto simp: pool_pages_def)
  note e = end_page [OF assms(1)]
  show "page_from_pool p a"
    using i assms(1)
    by (simp add: page_from_pool_def bitmap_size_def word_le_nat_alt word_less_nat_alt e unat_pg_no
        unat_page_addr)
next
  assume "page_from_pool p a"
  note e = end_page [OF assms(1)]
  define i where "i = unat a div 4096 - unat (base p) div 4096"
  have r: "unat (base p) div 4096 \<le> unat a div 4096" "i < bit_cnt (used_map p)"
    using \<open>page_from_pool p a\<close>
    by (auto simp: page_from_pool_def bitmap_size_def word_le_nat_alt word_less_nat_alt e unat_pg_no i_def)
  obtain x y where "unat a = 4096 * x" "unat (base p) = 4096 * y"
    using assms by (auto simp: pg_ofs_0_iff pool_wf_def elim!: dvdE)
  with r have "unat (page_addr p i) = unat a"
    by (simp add: unat_page_addr [OF assms(1)] i_def)
  then have "a = page_addr p i" by (metis unsigned_word_eqI)
  then show "a \<in> pool_pages p" using r(2) by (simp add: pool_pages_def)
qed

lemma used_pages_update:
  assumes "pool_wf p" and "bit_cnt b = bit_cnt (used_map p)" and "i + cnt \<le> bit_cnt b"
    and "bitmap_abs b = set_range (bitmap_abs (used_map p)) i cnt v"
  shows "used_pages (p\<lparr>used_map := b\<rparr>) =
     (if v then used_pages p \<union> page_run (page_addr p i) cnt
      else used_pages p - page_run (page_addr p i) cnt)"
proof -
  have addr: "page_addr (p\<lparr>used_map := b\<rparr>) = page_addr p" by (rule ext) (simp add: page_addr_def)
  have nth: "bitmap_abs b ! j = (if i \<le> j \<and> j < i + cnt then v else bitmap_abs (used_map p) ! j)"
    if "j < bit_cnt b" for j
    using that assms by (simp add: nth_set_range)
  have inj: "inj_on (page_addr p) {..<bit_cnt b}"
    using page_addr_eq_iff [OF assms(1)] assms(2) by (auto simp: inj_on_def)
  let ?U = "{j. j < bit_cnt b \<and> bitmap_abs (used_map p) ! j}"
  have set: "{j. j < bit_cnt b \<and> bitmap_abs b ! j} = (if v then ?U \<union> {i..<i + cnt} else ?U - {i..<i + cnt})"
    using nth assms(3) by (auto split: if_splits)
  have "page_addr p ` (?U - {i..<i + cnt}) = page_addr p ` ?U - page_addr p ` {i..<i + cnt}"
    using assms(3) by (intro inj_on_image_set_diff [OF inj]) auto
  then show ?thesis
    by (simp add: used_pages_def addr page_run_addr set image_Un flip: assms(2))
qed

lemma used_pages_subset: "used_pages p \<subseteq> pool_pages p"
  by (auto simp: used_pages_def pool_pages_def)

definition same_shape :: "pool \<Rightarrow> pool \<Rightarrow> bool" where
  "same_shape p q \<longleftrightarrow> base p = base q \<and> bit_cnt (used_map p) = bit_cnt (used_map q)"

lemma same_shape_pages: "same_shape p q \<Longrightarrow> pool_pages p = pool_pages q \<and> page_addr p = page_addr q"
  by (auto simp: same_shape_def pool_pages_def page_addr_def fun_eq_iff)

lemma same_shape_update [simp]:
  "bit_cnt b = bit_cnt (used_map p) \<Longrightarrow> same_shape (p\<lparr>used_map := b\<rparr>) p"
  by (simp add: same_shape_def)

lemma pool_wf_update:
  "pool_wf p \<Longrightarrow> bitmap_wf b \<Longrightarrow> bit_cnt b = bit_cnt (used_map p) \<Longrightarrow> pool_wf (p\<lparr>used_map := b\<rparr>)"
  by (simp add: pool_wf_def)

lemma pool_lock_unchanged [simp]: "\<not> pool_lock p \<Longrightarrow> p\<lparr>pool_lock := False\<rparr> = p"
  by (cases p) simp

text \<open>\<open>room p cnt i\<close>: \<open>cnt\<close> free pages lie at index \<open>i\<close> of the pool.\<close>

abbreviation room :: "pool \<Rightarrow> nat \<Rightarrow> nat \<Rightarrow> bool" where
  "room p cnt i \<equiv> fits (bitmap_abs (used_map p)) cnt False i"

lemma room_unused:
  assumes "pool_wf p" and "room p cnt i"
  shows "page_run (page_addr p i) cnt \<inter> used_pages p = {}"
proof -
  have "\<not> bitmap_abs (used_map p) ! j" if "i \<le> j" "j < i + cnt" for j
  proof -
    have "bit_range (bitmap_abs (used_map p)) i cnt ! (j - i) = False"
      using assms(2) that by (auto simp: fits_def)
    then show ?thesis using assms(2) that by (simp add: bit_range_def fits_def)
  qed
  then show ?thesis
    using assms page_addr_eq_iff [OF assms(1)] by (auto simp: page_run_addr used_pages_def fits_def)
qed

lemma room_iff:
  assumes "pool_wf p"
  shows "room p cnt i \<longleftrightarrow> i + cnt \<le> bit_cnt (used_map p) \<and> page_run (page_addr p i) cnt \<inter> used_pages p = {}"
proof
  assume a: "i + cnt \<le> bit_cnt (used_map p) \<and> page_run (page_addr p i) cnt \<inter> used_pages p = {}"
  have "\<not> bitmap_abs (used_map p) ! j" if "i \<le> j" "j < i + cnt" for j
  proof
    assume "bitmap_abs (used_map p) ! j"
    with that a have "page_addr p j \<in> used_pages p" by (auto simp: used_pages_def)
    moreover have "page_addr p j \<in> page_run (page_addr p i) cnt" using that by (auto simp: page_run_addr)
    ultimately show False using a by blast
  qed
  with a show "room p cnt i"
    by (auto simp: fits_def bit_range_def intro!: nth_equalityI)
qed (use room_unused [OF assms] in \<open>auto simp: fits_def\<close>)

text \<open>What a pool does for a request: it takes the first run that fits.\<close>

lemma pool_take:
  assumes "pool_wf p" and "0 < cnt"
  obtains (got) i b where "bitmap_scan_and_flip (used_map p) 0 cnt False = Some (i, b)" "i \<noteq> BITMAP_ERROR"
      "room p cnt i" "\<forall>j<i. \<not> room p cnt j" "pool_wf (p\<lparr>used_map := b\<rparr>)" "bit_cnt b = bit_cnt (used_map p)"
      "used_pages (p\<lparr>used_map := b\<rparr>) = used_pages p \<union> page_run (page_addr p i) cnt"
    | (full) "bitmap_scan_and_flip (used_map p) 0 cnt False = Some (BITMAP_ERROR, used_map p)"
      "\<forall>j. \<not> room p cnt j"
proof -
  have wf: "bitmap_wf (used_map p)" using assms(1) by (simp add: pool_wf_def)
  show thesis
    using wf le0 assms(2)
  proof (cases rule: bitmap_scan_cases [where v = False])
    case (found i)
    then have le: "i + cnt \<le> bit_cnt (used_map p)" by (simp add: fits_def)
    obtain b where b: "bitmap_set_multiple (used_map p) i cnt True = Some b" "bitmap_wf b"
      "bit_cnt b = bit_cnt (used_map p)" "bitmap_abs b = set_range (bitmap_abs (used_map p)) i cnt True"
      using bitmap_set_multiple_abs [OF wf le] by blast
    show thesis
      using found b le pool_wf_update [OF assms(1) b(2,3)] used_pages_update [OF assms(1) b(3) _ b(4)]
      by (intro got [of i b]) (auto simp: bitmap_scan_and_flip_def)
  next
    case none
    then show thesis by (intro full) (auto simp: bitmap_scan_and_flip_def)
  qed
qed

lemma pages_wf_pool_of: "pages_wf s \<Longrightarrow> pool_wf (pool_of flags s)"
  by (simp add: pages_wf_def pool_of_def)

definition put_pool :: "u32 \<Rightarrow> pool \<Rightarrow> pages \<Rightarrow> pages" where
  "put_pool flags p s = (if flags AND PAL_USER \<noteq> 0 then s\<lparr>user_pool := p\<rparr> else s\<lparr>kernel_pool := p\<rparr>)"

lemma put_pool_same: "put_pool flags (pool_of flags s) s = s"
  by (simp add: put_pool_def pool_of_def)

lemma ram_put_pool [simp]: "ram (put_pool flags p s) = ram s"
  by (simp add: put_pool_def)

lemma pages_wf_ram [simp]: "pages_wf (s\<lparr>ram := m\<rparr>) = pages_wf s"
  by (simp add: pages_wf_def)

lemma in_use_ram [simp]: "in_use (s\<lparr>ram := m\<rparr>) = in_use s"
  by (simp add: in_use_def)

lemma pages_wf_put_pool:
  "pages_wf s \<Longrightarrow> pool_wf p \<Longrightarrow> same_shape p (pool_of flags s) \<Longrightarrow> pages_wf (put_pool flags p s)"
  using same_shape_pages [of p "pool_of flags s"]
  by (auto simp: pages_wf_def put_pool_def pool_of_def split: if_splits)

lemma palloc_get_multiple_cases:
  assumes wf: "pages_wf s" and cnt: "0 < cnt"
  obtains (got) i p where "room (pool_of flags s) cnt i" "\<forall>j<i. \<not> room (pool_of flags s) cnt j"
      "page_addr (pool_of flags s) i \<noteq> 0" "pool_wf p" "same_shape p (pool_of flags s)"
      "used_pages p = used_pages (pool_of flags s) \<union> page_run (page_addr (pool_of flags s) i) cnt"
      "palloc_get_multiple flags cnt s = Some (page_addr (pool_of flags s) i,
         (put_pool flags p s)\<lparr>ram := (if flags AND PAL_ZERO \<noteq> 0
            then fill (page_addr (pool_of flags s) i) (PGSIZE * cnt) 0 (ram s) else ram s)\<rparr>)"
    | (full) "\<forall>i. \<not> room (pool_of flags s) cnt i"
      "palloc_get_multiple flags cnt s = (if flags AND PAL_ASSERT = 0 then Some (0, s) else None)"
proof -
  let ?p = "pool_of flags s"
  have p: "pool_wf ?p" using pages_wf_pool_of [OF wf] .
  have acq: "pool_acquire (if flags AND PAL_USER \<noteq> 0 then user_pool s else kernel_pool s) = Some (?p\<lparr>pool_lock := True\<rparr>)"
    using p by (simp add: pool_acquire_def pool_of_def pool_wf_def split: if_splits)
  show thesis using p cnt
  proof (cases rule: pool_take)
    case (got i b)
    have i: "i < bit_cnt (used_map ?p)" using got(3) cnt by (simp add: fits_def)
    have "pool_release (?p\<lparr>pool_lock := True, used_map := b\<rparr>) = Some (?p\<lparr>used_map := b\<rparr>)"
      using p by (cases ?p) (simp add: pool_release_def pool_wf_def)
    then have "palloc_get_multiple flags cnt s = Some (page_addr ?p i,
         (put_pool flags (?p\<lparr>used_map := b\<rparr>) s)\<lparr>ram := (if flags AND PAL_ZERO \<noteq> 0
            then fill (page_addr ?p i) (PGSIZE * cnt) 0 (ram s) else ram s)\<rparr>)"
      using got(1,2) cnt page_addr_nonzero [OF p i]
      by (simp add: palloc_get_multiple_def acq Let_def put_pool_def page_addr_def)
    with that(1) [OF got(3,4) page_addr_nonzero [OF p i] got(5) same_shape_update [OF got(6)] got(7)]
    show thesis .
  next
    case full
    have "pool_release (?p\<lparr>pool_lock := True\<rparr>) = Some ?p"
      using p by (cases ?p) (simp add: pool_release_def pool_wf_def)
    with full(1) cnt put_pool_same [of flags s] have
      "palloc_get_multiple flags cnt s = (if flags AND PAL_ASSERT = 0 then Some (0, s) else None)"
      by (simp add: palloc_get_multiple_def acq Let_def put_pool_def ASSERT_bind split: if_splits)
    with that(2) full(2) show thesis by blast
  qed
qed

lemma free_in_pool_run:
  assumes p: "pool_wf p" and a: "a \<in> pool_pages p" and cnt: "0 < cnt" and run: "page_run a cnt \<subseteq> used_pages p"
  obtains q where "free_in_pool p a cnt = Some q" "pool_wf q" "same_shape q p"
    "used_pages q = used_pages p - page_run a cnt"
proof -
  obtain i where i: "i < bit_cnt (used_map p)" and a: "a = page_addr p i" using a by (auto simp: pool_pages_def)
  have bits: "i + k < bit_cnt (used_map p) \<and> bitmap_abs (used_map p) ! (i + k)" if "k < cnt" for k
    using that
  proof (induction k rule: less_induct)
    case (less k)
    have "page_addr p (i + k) \<in> page_run a cnt" using less.prems by (auto simp: a page_run_addr)
    with run obtain j where j: "j < bit_cnt (used_map p)" "bitmap_abs (used_map p) ! j" "page_addr p (i + k) = page_addr p j"
      by (auto simp: used_pages_def)
    have "i + k \<le> bit_cnt (used_map p)"
      using i less.IH [of "k - 1"] less.prems by (cases k) auto
    with j page_addr_eq_iff [OF p, of "i + k" j] show ?case by auto
  qed
  have le: "i + cnt \<le> bit_cnt (used_map p)" using bits [of "cnt - 1"] cnt by auto
  have wf: "bitmap_wf (used_map p)" using p by (simp add: pool_wf_def)
  have "bit_range (bitmap_abs (used_map p)) i cnt = replicate cnt True"
    using bits le by (intro nth_equalityI) (auto simp: bit_range_def)
  then have all: "bitmap_all (used_map p) i cnt = Some True" by (simp add: bitmap_all_abs [OF wf le])
  obtain b where b: "bitmap_set_multiple (used_map p) i cnt False = Some b" "bitmap_wf b"
    "bit_cnt b = bit_cnt (used_map p)" "bitmap_abs b = set_range (bitmap_abs (used_map p)) i cnt False"
    using bitmap_set_multiple_abs [OF wf le] by blast
  show ?thesis
  proof (rule that)
    show "free_in_pool p a cnt = Some (p\<lparr>used_map := b\<rparr>)"
      by (simp add: free_in_pool_def a page_index [OF p i] all b(1))
    show "used_pages (p\<lparr>used_map := b\<rparr>) = used_pages p - page_run a cnt"
      using used_pages_update [OF p b(3) _ b(4)] le b(3) by (simp add: a)
  qed (use b pool_wf_update [OF p] in auto)
qed

lemma free_in_pool_unused:
  assumes p: "pool_wf p" and i: "i + cnt \<le> bit_cnt (used_map p)" and cnt: "0 < cnt" and "page_addr p i \<notin> used_pages p"
  shows "free_in_pool p (page_addr p i) cnt = None"
proof -
  have lt: "i < bit_cnt (used_map p)" using i cnt by simp
  have wf: "bitmap_wf (used_map p)" using p by (simp add: pool_wf_def)
  have "\<not> bitmap_abs (used_map p) ! i" using assms(4) lt by (auto simp: used_pages_def)
  moreover have "bit_range (bitmap_abs (used_map p)) i cnt ! 0 = bitmap_abs (used_map p) ! i"
    using i cnt by (simp add: bit_range_def)
  ultimately have "bit_range (bitmap_abs (used_map p)) i cnt \<noteq> replicate cnt True"
    using cnt by (metis nth_replicate)
  then show ?thesis by (simp add: free_in_pool_def page_index [OF p lt] bitmap_all_abs [OF wf i])
qed

lemma pool_pages_aligned: "pool_wf p \<Longrightarrow> a \<in> pool_pages p \<Longrightarrow> pg_ofs a = 0 \<and> a \<noteq> 0"
  using page_addr_aligned page_addr_nonzero by (auto simp: pool_pages_def)

lemma palloc_free_multiple_eq:
  assumes wf: "pages_wf s" and a: "a \<in> pool_pages (pool_of flags s)" and cnt: "0 < cnt"
  shows "palloc_free_multiple a cnt s =
     map_option (\<lambda>q. (put_pool flags q s)\<lparr>ram := fill a (PGSIZE * cnt) 0xcc (ram s)\<rparr>)
       (free_in_pool (pool_of flags s) a cnt)"
proof -
  have al: "pg_ofs a = 0" "a \<noteq> 0" using pool_pages_aligned [OF pages_wf_pool_of [OF wf] a] by auto
  have from_pool: "page_from_pool (kernel_pool s) a \<longleftrightarrow> a \<in> pool_pages (kernel_pool s)"
      "page_from_pool (user_pool s) a \<longleftrightarrow> a \<in> pool_pages (user_pool s)"
    using wf al page_from_pool_iff by (auto simp: pages_wf_def)
  show ?thesis
    using wf a cnt al from_pool
    by (cases "free_in_pool (pool_of flags s) a cnt")
      (auto simp: palloc_free_multiple_def Let_def pool_of_def put_pool_def pages_wf_def split: if_splits)
qed

lemma in_use_put_pool:
  "pages_wf s \<Longrightarrow> used_pages q = used_pages (pool_of flags s) \<union> R \<Longrightarrow> in_use (put_pool flags q s) = in_use s \<union> R"
  by (auto simp: in_use_def put_pool_def pool_of_def split: if_splits)

lemma in_use_put_pool_diff:
  "pages_wf s \<Longrightarrow> used_pages q = used_pages (pool_of flags s) - R \<Longrightarrow> R \<subseteq> pool_pages (pool_of flags s) \<Longrightarrow>
     in_use (put_pool flags q s) = in_use s - R"
  using used_pages_subset [of "kernel_pool s"] used_pages_subset [of "user_pool s"]
  by (auto simp: in_use_def put_pool_def pool_of_def pages_wf_def split: if_splits)

lemma run_in_pool: "room p cnt i \<Longrightarrow> page_run (page_addr p i) cnt \<subseteq> pool_pages p"
  by (auto simp: page_run_addr pool_pages_def fits_def)

lemma room_fresh:
  assumes "pages_wf s" and "room (pool_of flags s) cnt i"
  shows "page_run (page_addr (pool_of flags s) i) cnt \<inter> in_use s = {}"
  using room_unused [OF pages_wf_pool_of [OF assms(1)] assms(2)] run_in_pool [OF assms(2)] assms(1)
    used_pages_subset [of "kernel_pool s"] used_pages_subset [of "user_pool s"]
  by (auto simp: in_use_def pool_of_def pages_wf_def split: if_splits)

section \<open>Properties\<close>

definition sample_pool :: "u32 \<Rightarrow> pool" where
  "sample_pool b = \<lparr>pool_lock = False, used_map = \<lparr>bit_cnt = 4, bits = [2]\<rparr>, base = b\<rparr>"

definition sample_pages :: pages where
  "sample_pages = \<lparr>kernel_pool = sample_pool 0xc0101000, user_pool = sample_pool 0xc0201000, ram = (\<lambda>_. 7)\<rparr>"

lemma sample_pages_wf: "pages_wf sample_pages"
proof -
  have wf: "pool_wf (sample_pool 0xc0101000)" "pool_wf (sample_pool 0xc0201000)"
    by (simp_all add: sample_pool_def pool_wf_def bitmap_wf_def)
  have "pool_pages (sample_pool 0xc0101000) \<inter> pool_pages (sample_pool 0xc0201000) = {}"
    by (auto simp: pool_pages_def sample_pool_def page_addr_def PGSIZE_def lessThan_nat_numeral lessThan_Suc)
  with wf show ?thesis by (simp add: pages_wf_def sample_pages_def)
qed

lemma sample_used: "used_pages (sample_pool b) = {b + 4096}"
proof -
  have two: "bit (2 :: u32) i \<longleftrightarrow> i = 1" for i
    using bit_exp_iff [of 1 i, where 'a = u32] by auto
  have "bitmap_abs (used_map (sample_pool b)) ! i \<longleftrightarrow> i = 1" if "i < 4" for i
    using that two [of i] by (simp add: sample_pool_def nth_bitmap_abs)
  moreover have "bit_cnt (used_map (sample_pool b)) = 4" by (simp add: sample_pool_def)
  ultimately have "{i. i < bit_cnt (used_map (sample_pool b)) \<and> bitmap_abs (used_map (sample_pool b)) ! i} = {1}"
    by (metis (mono_tags, lifting) Collect_cong one_less_numeral_iff semiring_norm(76) singleton_conv)
  then show ?thesis by (simp add: used_pages_def) (simp add: sample_pool_def page_addr_def PGSIZE_def)
qed

lemma sample_room:
  "2 + 2 \<le> bit_cnt (used_map (sample_pool 0xc0101000)) \<and>
   page_run (page_addr (sample_pool 0xc0101000) 2) 2 \<inter> used_pages (sample_pool 0xc0101000) = {}"
  by (auto simp: sample_used page_run_def lessThan_nat_numeral lessThan_Suc)
    (simp_all add: sample_pool_def page_addr_def PGSIZE_def)

text \<open>C6. The page allocator never hands out a page twice.  A request for \<open>cnt\<close> pages returns a run of
  pages of the pool asked for, none of which was in use, and exactly these come into use; they
  are zero if zeroing was asked for and all other memory is as before.  The request fails only
  when the pool has no such run: with a null pointer and no change, or with a panic if
  \<open>PAL_ASSERT\<close> is set.\<close>

theorem palloc_get_fresh:
  assumes "pages_wf s" and "0 < cnt"
  shows "(\<exists>a s'. palloc_get_multiple flags cnt s = Some (a, s') \<and> a \<noteq> 0 \<and> pages_wf s' \<and>
            page_run a cnt \<subseteq> pool_pages (pool_of flags s) \<and> page_run a cnt \<inter> in_use s = {} \<and>
            in_use s' = in_use s \<union> page_run a cnt \<and>
            (\<forall>x. ram s' x = (if unat (x - a) < PGSIZE * cnt \<and> flags AND PAL_ZERO \<noteq> 0 then 0 else ram s x))) \<or>
         ((\<forall>i. i + cnt \<le> bit_cnt (used_map (pool_of flags s)) \<longrightarrow>
             page_run (page_addr (pool_of flags s) i) cnt \<inter> used_pages (pool_of flags s) \<noteq> {}) \<and>
          palloc_get_multiple flags cnt s = (if flags AND PAL_ASSERT = 0 then Some (0, s) else None))"
  using assms
proof (cases rule: palloc_get_multiple_cases [where flags = flags])
  case (got i p)
  show ?thesis
    by (intro disjI1 exI conjI, rule got(7))
      (use got(3) run_in_pool [OF got(1)] room_fresh [OF assms(1) got(1)] in_use_put_pool [OF assms(1) got(6)]
        pages_wf_put_pool [OF assms(1) got(4,5)] in \<open>simp_all add: fill_def\<close>)
next
  case full
  then show ?thesis using room_iff [OF pages_wf_pool_of [OF assms(1)]] by blast
qed

theorem palloc_get_fresh_witness:
  "\<exists>a s'. palloc_get_multiple PAL_ZERO 2 sample_pages = Some (a, s') \<and> a \<noteq> 0 \<and> a \<notin> in_use sample_pages \<and> ram s' a = 0"
proof -
  have pool: "pool_of PAL_ZERO sample_pages = sample_pool 0xc0101000"
    by (simp add: pool_of_def PAL_ZERO_def PAL_USER_def sample_pages_def)
  obtain a s' where a: "palloc_get_multiple PAL_ZERO 2 sample_pages = Some (a, s')" "a \<noteq> 0"
      "page_run a 2 \<inter> in_use sample_pages = {}"
      "\<forall>x. ram s' x = (if unat (x - a) < PGSIZE * 2 \<and> PAL_ZERO AND PAL_ZERO \<noteq> 0 then 0 else ram sample_pages x)"
    using palloc_get_fresh [OF sample_pages_wf zero_less_numeral [of "num.Bit0 num.One"], of PAL_ZERO] sample_room unfolding pool by blast
  have "a \<in> page_run a 2" by (simp add: page_run_self)
  with a show ?thesis by (auto simp: PGSIZE_def PAL_ZERO_def)
qed

text \<open>Freeing undoes allocating: pages just obtained can be freed, after which exactly the same
  pages are in use as before the request, and freeing them a second time stops at the
  assertion.\<close>

theorem palloc_get_free:
  assumes "pages_wf s" and "0 < cnt" and "palloc_get_multiple flags cnt s = Some (a, s')" and "a \<noteq> 0"
  shows "\<exists>s''. palloc_free_multiple a cnt s' = Some s'' \<and> pages_wf s'' \<and> in_use s'' = in_use s \<and>
           palloc_free_multiple a cnt s'' = None"
  using assms(1,2)
proof (cases rule: palloc_get_multiple_cases [where flags = flags])
  case (got i p)
  let ?p = "pool_of flags s"
  have a: "a = page_addr ?p i" and s': "pages_wf s'" "pool_of flags s' = p" "in_use s' = in_use s \<union> page_run a cnt"
    using got assms(3) pages_wf_put_pool [OF assms(1) got(4,5)] in_use_put_pool [OF assms(1) got(6)]
    by (auto simp: put_pool_def pool_of_def)
  have run: "page_run a cnt \<subseteq> pool_pages p" "page_run a cnt \<subseteq> used_pages p" "page_run a cnt \<inter> in_use s = {}"
    using got(6) same_shape_pages [OF got(5)] run_in_pool [OF got(1)] room_fresh [OF assms(1) got(1)] by (auto simp: a)
  have a0: "a \<in> page_run a cnt" using assms(2) by (rule page_run_self)
  obtain q where q: "free_in_pool p a cnt = Some q" "pool_wf q" "same_shape q p"
    "used_pages q = used_pages p - page_run a cnt"
    using free_in_pool_run [OF got(4) _ assms(2) run(2)] a0 run(1) by blast
  define s'' where "s'' = (put_pool flags q s')\<lparr>ram := fill a (PGSIZE * cnt) 0xcc (ram s')\<rparr>"
  have mem: "a \<in> pool_pages p" using a0 run(1) by blast
  have free: "palloc_free_multiple a cnt s' = Some s''"
    using palloc_free_multiple_eq [OF s'(1) _ assms(2), of a flags] mem unfolding s'(2) by (simp add: q(1) s''_def)
  have wf'': "pages_wf s''" using pages_wf_put_pool [OF s'(1) q(2)] q(3) s'(2) by (simp add: s''_def)
  have "in_use (put_pool flags q s') = in_use s' - page_run a cnt"
    by (rule in_use_put_pool_diff [OF s'(1)]) (simp_all add: s'(2) q(4) run(1))
  with s'(3) run(3) have use: "in_use s'' = in_use s" unfolding s''_def in_use_ram by blast
  have pq: "pool_of flags s'' = q" by (simp add: s''_def put_pool_def pool_of_def)
  have addr: "a = page_addr q i" and le: "i + cnt \<le> bit_cnt (used_map q)" using got(1,5) q(3) same_shape_pages [OF q(3)] same_shape_pages [OF got(5)] by (auto simp: a same_shape_def fits_def)
  have "a \<notin> used_pages q" using a0 q(4) by blast
  with free_in_pool_unused [OF q(2) le assms(2)] have "free_in_pool q a cnt = None" unfolding addr by blast
  then have "palloc_free_multiple a cnt s'' = None"
    using palloc_free_multiple_eq [OF wf'' _ assms(2), of a flags] mem same_shape_pages [OF q(3)]
    unfolding pq by simp
  with free wf'' use show ?thesis by blast
next
  case full
  with assms(3,4) show ?thesis by (simp split: if_splits)
qed

theorem palloc_get_free_witness:
  "\<exists>a s' s''. palloc_get_multiple 0 2 sample_pages = Some (a, s') \<and> palloc_free_multiple a 2 s' = Some s'' \<and>
     in_use s'' = in_use sample_pages"
  using sample_pages_wf zero_less_numeral [of "num.Bit0 num.One"]
proof (cases rule: palloc_get_multiple_cases [where flags = 0])
  case (got i p)
  then show ?thesis using palloc_get_free [OF sample_pages_wf zero_less_numeral got(7,3)] by blast
next
  case full
  have "pool_of 0 sample_pages = sample_pool 0xc0101000" by (simp add: pool_of_def sample_pages_def)
  then show ?thesis
    using full(1) sample_room room_iff [OF pages_wf_pool_of [OF sample_pages_wf], of 0 2 2] by simp
qed

end
