(* ===== verification/Pintos_Pagedir.thy ===== *)
theory Pintos_Pagedir
  imports Pintos_Palloc
begin

text \<open>
  Page directories and page tables: the entries of \<open>threads/pte.h\<close> and the operations of
  \<open>userprog/pagedir.c\<close>.  A page directory is an address; its entries and those of its page tables
  are 32-bit words in memory.  The page directory base register CR3 is a field of the state;
  loading it, which empties the translation lookaside buffer, is counted in \<open>tlb_flushes\<close>.
\<close>

unbundle bit_operations_syntax

section \<open>Page table entries\<close>

definition PTSHIFT :: nat where
  "PTSHIFT = PGBITS"

definition PTBITS :: nat where
  "PTBITS = 10"

definition PTMASK :: u32 where
  "PTMASK = BITMASK PTSHIFT PTBITS"

definition PDSHIFT :: nat where
  "PDSHIFT = PTSHIFT + PTBITS"

definition pt_no :: "u32 \<Rightarrow> u32" where
  "pt_no va = drop_bit PTSHIFT (va AND PTMASK)"

definition pd_no :: "u32 \<Rightarrow> u32" where
  "pd_no va = drop_bit PDSHIFT va"

definition PTE_ADDR :: u32 where
  "PTE_ADDR = 0xfffff000"

definition PTE_P :: u32 where
  "PTE_P = 0x1"

definition PTE_W :: u32 where
  "PTE_W = 0x2"

definition PTE_U :: u32 where
  "PTE_U = 0x4"

definition PTE_A :: u32 where
  "PTE_A = 0x20"

definition PTE_D :: u32 where
  "PTE_D = 0x40"

definition pde_create :: "u32 \<Rightarrow> u32 option" where
  "pde_create pt = do { ASSERT (pg_ofs pt = 0); a \<leftarrow> vtop pt; Some (a OR PTE_U OR PTE_P OR PTE_W) }"

definition pde_get_pt :: "u32 \<Rightarrow> u32 option" where
  "pde_get_pt pde = do { ASSERT (pde AND PTE_P \<noteq> 0); ptov (pde AND PTE_ADDR) }"

definition pte_create_kernel :: "u32 \<Rightarrow> bool \<Rightarrow> u32 option" where
  "pte_create_kernel page writable = do {
     ASSERT (pg_ofs page = 0);
     a \<leftarrow> vtop page;
     Some (a OR PTE_P OR (if writable then PTE_W else 0))
   }"

definition pte_create_user :: "u32 \<Rightarrow> bool \<Rightarrow> u32 option" where
  "pte_create_user page writable = do { e \<leftarrow> pte_create_kernel page writable; Some (e OR PTE_U) }"

definition pte_get_page :: "u32 \<Rightarrow> u32 option" where
  "pte_get_page pte = ptov (pte AND PTE_ADDR)"

section \<open>Operations\<close>

record vm =
  pages :: pages
  init_page_dir :: u32
  init_ram_pages :: u32
  cr3 :: u32
  tlb_flushes :: nat

definition mem :: "vm \<Rightarrow> u32 \<Rightarrow> u32" where
  "mem s a = load32 (ram (pages s)) a"

definition put_mem :: "u32 \<Rightarrow> u32 \<Rightarrow> vm \<Rightarrow> vm" where
  "put_mem a w s = s\<lparr>pages := (pages s)\<lparr>ram := store32 a w (ram (pages s))\<rparr>\<rparr>"

definition get_page :: "u32 \<Rightarrow> vm \<Rightarrow> (u32 \<times> vm) option" where
  "get_page flags s = do { (a, ps) \<leftarrow> palloc_get_page flags (pages s); Some (a, s\<lparr>pages := ps\<rparr>) }"

definition free_page :: "u32 \<Rightarrow> vm \<Rightarrow> vm option" where
  "free_page a s = do { ps \<leftarrow> palloc_free_page a (pages s); Some (s\<lparr>pages := ps\<rparr>) }"

text \<open>\<open>memcpy (pd, init_page_dir, PGSIZE)\<close>\<close>

definition copy_page :: "u32 \<Rightarrow> u32 \<Rightarrow> ram \<Rightarrow> ram" where
  "copy_page dst src m = (\<lambda>a. if unat (a - dst) < PGSIZE then m (src + (a - dst)) else m a)"

definition pagedir_create :: "vm \<Rightarrow> (u32 \<times> vm) option" where
  "pagedir_create s = do {
     (pd, s) \<leftarrow> get_page 0 s;
     Some (pd, if pd \<noteq> 0 then s\<lparr>pages := (pages s)\<lparr>ram := copy_page pd (init_page_dir s) (ram (pages s))\<rparr>\<rparr> else s)
   }"

text \<open>The loops of \<open>pagedir_destroy\<close> over the entries of a page table and of the directory.\<close>

fun destroy_pt :: "nat \<Rightarrow> u32 \<Rightarrow> vm \<Rightarrow> vm option" where
  "destroy_pt 0 pte s = Some s"
| "destroy_pt (Suc n) pte s = do {
     s \<leftarrow> (if mem s pte AND PTE_P \<noteq> 0 then do { page \<leftarrow> pte_get_page (mem s pte); free_page page s } else Some s);
     destroy_pt n (pte + 4) s
   }"

fun destroy_pd :: "nat \<Rightarrow> u32 \<Rightarrow> vm \<Rightarrow> vm option" where
  "destroy_pd 0 pde s = Some s"
| "destroy_pd (Suc n) pde s = do {
     s \<leftarrow> (if mem s pde AND PTE_P \<noteq> 0
           then do { pt \<leftarrow> pde_get_pt (mem s pde); s \<leftarrow> destroy_pt (PGSIZE div 4) pt s; free_page pt s }
           else Some s);
     destroy_pd n (pde + 4) s
   }"

definition pagedir_destroy :: "u32 \<Rightarrow> vm \<Rightarrow> vm option" where
  "pagedir_destroy pd s =
     (if pd = 0 then Some s
      else do {
        ASSERT (pd \<noteq> init_page_dir s);
        s \<leftarrow> destroy_pd (unat (pd_no PHYS_BASE)) pd s;
        free_page pd s
      })"

definition lookup_page :: "u32 \<Rightarrow> u32 \<Rightarrow> bool \<Rightarrow> vm \<Rightarrow> (u32 \<times> vm) option" where
  "lookup_page pd vaddr create s = do {
     ASSERT (pd \<noteq> 0);
     ASSERT (\<not> create \<or> is_user_vaddr vaddr);
     let pde = pd + 4 * pd_no vaddr;
     if mem s pde = 0
     then if create
       then do {
         (pt, s) \<leftarrow> get_page PAL_ZERO s;
         if pt = 0 then Some (0, s)
         else do {
           e \<leftarrow> pde_create pt;
           let s = put_mem pde e s;
           pt \<leftarrow> pde_get_pt (mem s pde);
           Some (pt + 4 * pt_no vaddr, s)
         }
       }
       else Some (0, s)
     else do { pt \<leftarrow> pde_get_pt (mem s pde); Some (pt + 4 * pt_no vaddr, s) }
   }"

definition pagedir_set_page :: "u32 \<Rightarrow> u32 \<Rightarrow> u32 \<Rightarrow> bool \<Rightarrow> vm \<Rightarrow> (bool \<times> vm) option" where
  "pagedir_set_page pd upage kpage writable s = do {
     ASSERT (pg_ofs upage = 0);
     ASSERT (pg_ofs kpage = 0);
     ASSERT (is_user_vaddr upage);
     a \<leftarrow> vtop kpage;
     ASSERT (drop_bit PTSHIFT a < init_ram_pages s);
     ASSERT (pd \<noteq> init_page_dir s);
     (pte, s) \<leftarrow> lookup_page pd upage True s;
     if pte \<noteq> 0
     then do {
       ASSERT (mem s pte AND PTE_P = 0);
       e \<leftarrow> pte_create_user kpage writable;
       Some (True, put_mem pte e s)
     }
     else Some (False, s)
   }"

definition pagedir_get_page :: "u32 \<Rightarrow> u32 \<Rightarrow> vm \<Rightarrow> u32 option" where
  "pagedir_get_page pd uaddr s = do {
     ASSERT (is_user_vaddr uaddr);
     (pte, s) \<leftarrow> lookup_page pd uaddr False s;
     if pte \<noteq> 0 \<and> mem s pte AND PTE_P \<noteq> 0
     then do { page \<leftarrow> pte_get_page (mem s pte); Some (page + pg_ofs uaddr) }
     else Some 0
   }"

definition pagedir_activate :: "u32 \<Rightarrow> vm \<Rightarrow> vm option" where
  "pagedir_activate pd s = do {
     let pd = (if pd = 0 then init_page_dir s else pd);
     a \<leftarrow> vtop pd;
     Some (s\<lparr>cr3 := a, tlb_flushes := tlb_flushes s + 1\<rparr>)
   }"

definition active_pd :: "vm \<Rightarrow> u32 option" where
  "active_pd s = ptov (cr3 s)"

definition invalidate_pagedir :: "u32 \<Rightarrow> vm \<Rightarrow> vm option" where
  "invalidate_pagedir pd s = do { a \<leftarrow> active_pd s; if a = pd then pagedir_activate pd s else Some s }"

definition pagedir_clear_page :: "u32 \<Rightarrow> u32 \<Rightarrow> vm \<Rightarrow> vm option" where
  "pagedir_clear_page pd upage s = do {
     ASSERT (pg_ofs upage = 0);
     ASSERT (is_user_vaddr upage);
     (pte, s) \<leftarrow> lookup_page pd upage False s;
     if pte \<noteq> 0 \<and> mem s pte AND PTE_P \<noteq> 0
     then invalidate_pagedir pd (put_mem pte (mem s pte AND NOT PTE_P) s)
     else Some s
   }"

text \<open>The dirty and the accessed bit are read and written alike.\<close>

definition pte_flag :: "u32 \<Rightarrow> u32 \<Rightarrow> u32 \<Rightarrow> vm \<Rightarrow> bool option" where
  "pte_flag flag pd vpage s = do {
     (pte, s) \<leftarrow> lookup_page pd vpage False s;
     Some (pte \<noteq> 0 \<and> mem s pte AND flag \<noteq> 0)
   }"

definition set_pte_flag :: "u32 \<Rightarrow> u32 \<Rightarrow> u32 \<Rightarrow> bool \<Rightarrow> vm \<Rightarrow> vm option" where
  "set_pte_flag flag pd vpage on s = do {
     (pte, s) \<leftarrow> lookup_page pd vpage False s;
     if pte \<noteq> 0
     then if on then Some (put_mem pte (mem s pte OR flag) s)
       else invalidate_pagedir pd (put_mem pte (mem s pte AND NOT flag) s)
     else Some s
   }"

definition pagedir_is_dirty :: "u32 \<Rightarrow> u32 \<Rightarrow> vm \<Rightarrow> bool option" where
  "pagedir_is_dirty pd vpage s = pte_flag PTE_D pd vpage s"

definition pagedir_set_dirty :: "u32 \<Rightarrow> u32 \<Rightarrow> bool \<Rightarrow> vm \<Rightarrow> vm option" where
  "pagedir_set_dirty pd vpage dirty s = set_pte_flag PTE_D pd vpage dirty s"

definition pagedir_is_accessed :: "u32 \<Rightarrow> u32 \<Rightarrow> vm \<Rightarrow> bool option" where
  "pagedir_is_accessed pd vpage s = pte_flag PTE_A pd vpage s"

definition pagedir_set_accessed :: "u32 \<Rightarrow> u32 \<Rightarrow> bool \<Rightarrow> vm \<Rightarrow> vm option" where
  "pagedir_set_accessed pd vpage accessed s = set_pte_flag PTE_A pd vpage accessed s"

section \<open>Words in memory\<close>

lemma load_store_same: "load32 (store32 a w m) a = w"
proof -
  have ne: "a + 1 \<noteq> a" "a + 2 \<noteq> a" "a + 3 \<noteq> a" "a + 2 \<noteq> a + 1" "a + 3 \<noteq> a + 1" "a + 3 \<noteq> a + 2"
    by simp_all
  have "bit (load32 (store32 a w m) a) n \<longleftrightarrow> bit w n" if "n < 32" for n
  proof -
    consider "n < 8" | "8 \<le> n" "n < 16" | "16 \<le> n" "n < 24" | "24 \<le> n" by linarith
    then show ?thesis
      using that by cases (auto simp: load32_def store32_def bit_simps ne)
  qed
  then show ?thesis by (intro bit_word_eqI) simp
qed

lemma aligned_add:
  fixes a :: u32
  assumes "4 dvd unat a" and "k < 4"
  shows "unat (a + of_nat k) = unat a + k"
proof -
  obtain n where n: "unat a = 4 * n" using assms(1) by (elim dvdE)
  have "unat a < 2 ^ LENGTH(32)" by (rule unsigned_less)
  with n have "4 * n < 4294967296" by simp
  then have "unat a + k < 2 ^ 32" using n assms(2) by simp
  moreover have "unat (of_nat k :: u32) = k" using assms(2) by (simp add: unat_of_nat)
  ultimately show ?thesis using unat_add_lem [of a "of_nat k"] by simp
qed

lemma aligned_apart:
  fixes a b :: u32
  assumes "4 dvd unat a" and "4 dvd unat b" and "a \<noteq> b" and "j < 4" and "k < 4"
  shows "a + of_nat j \<noteq> b + of_nat k"
proof
  assume "a + of_nat j = b + of_nat k"
  then have "unat a + j = unat b + k" using aligned_add assms by metis
  with assms(1,2,4,5) have "unat a = unat b" by presburger
  with assms(3) show False by (metis unsigned_word_eqI)
qed

lemma load_store_other:
  assumes "4 dvd unat a" and "4 dvd unat b" and "a \<noteq> b"
  shows "load32 (store32 a w m) b = load32 m b"
proof -
  have ne: "b + of_nat k \<noteq> a + of_nat j" if "j < 4" "k < 4" for j k
    using aligned_apart [OF assms that] by metis
  show ?thesis
    using ne [of 0 0] ne [of 1 0] ne [of 2 0] ne [of 3 0] ne [of 0 1] ne [of 1 1] ne [of 2 1] ne [of 3 1]
      ne [of 0 2] ne [of 1 2] ne [of 2 2] ne [of 3 2] ne [of 0 3] ne [of 1 3] ne [of 2 3] ne [of 3 3]
    by (simp add: load32_def store32_def)
qed

text \<open>\<open>slot p i\<close> is entry \<open>i\<close> of the directory or table that fills the page \<open>p\<close>.\<close>

definition slot :: "u32 \<Rightarrow> nat \<Rightarrow> u32" where
  "slot p i = p + of_nat (4 * i)"

lemma unat_slot:
  assumes "pg_ofs p = 0" and "i < 1024"
  shows "unat (slot p i) = unat p + 4 * i"
proof -
  obtain n where n: "unat p = 4096 * n" using assms(1) by (auto simp: pg_ofs_0_iff elim!: dvdE)
  have "unat p < 2 ^ LENGTH(32)" by (rule unsigned_less)
  with n have "unat p + 4 * i < 2 ^ 32" using assms(2) by simp
  moreover have "unat (of_nat (4 * i) :: u32) = 4 * i" using assms(2) by (simp only: unat_of_nat) simp
  ultimately show ?thesis using unat_add_lem [of p "of_nat (4 * i)"] by (simp add: slot_def)
qed

lemma slot_aligned:
  assumes "pg_ofs p = 0" and "i < 1024"
  shows "4 dvd unat (slot p i)"
proof -
  obtain n where "unat p = 4096 * n" using assms(1) by (auto simp: pg_ofs_0_iff elim!: dvdE)
  then have "unat (slot p i) = 4 * (1024 * n + i)" by (simp add: unat_slot [OF assms])
  then show ?thesis by simp
qed

lemma slot_eq_iff:
  assumes "pg_ofs p = 0" and "pg_ofs q = 0" and "i < 1024" and "j < 1024"
  shows "slot p i = slot q j \<longleftrightarrow> p = q \<and> i = j"
proof
  assume "slot p i = slot q j"
  then have eq: "unat p + 4 * i = unat q + 4 * j" using unat_slot assms by metis
  obtain m n where mn: "unat p = 4096 * m" "unat q = 4096 * n"
    using assms(1,2) by (auto simp: pg_ofs_0_iff elim!: dvdE)
  with eq assms(3,4) have "m = n" by linarith
  with mn eq have "unat p = unat q" "i = j" by simp_all
  then show "p = q \<and> i = j" by (simp add: unsigned_word_eqI)
qed simp

lemma load_fill:
  assumes "pg_ofs p = 0" and "pg_ofs q = 0" and "j < 1024"
  shows "load32 (fill p PGSIZE 0 m) (slot q j) = (if p = q then 0 else load32 m (slot q j))"
proof -
  have eq: "unat (slot q j + of_nat k - p) < PGSIZE \<longleftrightarrow> p = q" if "k < 4" for k
  proof -
    let ?a = "slot q j + of_nat k"
    have a: "unat ?a = unat q + (4 * j + k)"
      using aligned_add [OF slot_aligned [OF assms(2,3)] that] unat_slot [OF assms(2,3)] by simp
    obtain m n where mn: "unat p = 4096 * m" "unat q = 4096 * n"
      using assms(1,2) by (auto simp: pg_ofs_0_iff elim!: dvdE)
    have off: "4 * j + k < 4096" using assms(3) that by simp
    show ?thesis
    proof (cases "p \<le> ?a")
      case True
      then have "unat (?a - p) = unat ?a - unat p" by (rule unat_sub)
      moreover have "unat p \<le> unat ?a" using True by (simp add: word_le_nat_alt)
      ultimately have "unat (?a - p) < PGSIZE \<longleftrightarrow> m = n" using a mn off by (auto simp: PGSIZE_def)
      moreover have "p = q \<longleftrightarrow> m = n" using mn by (metis mult_cancel1 unsigned_word_eqI zero_neq_numeral)
      ultimately show ?thesis by simp
    next
      case False
      then have lt: "unat ?a < unat p" by (simp add: word_less_nat_alt not_le)
      have "unat (?a - p) = 2 ^ 32 + unat ?a - unat p"
        using False unat_sub_if' [of ?a p] by (simp add: word_le_nat_alt)
      moreover have "unat p < 2 ^ LENGTH(32)" by (rule unsigned_less)
      ultimately have "\<not> unat (?a - p) < PGSIZE" using lt a mn off by (auto simp: PGSIZE_def)
      moreover have "p \<noteq> q" using lt a by auto
      ultimately show ?thesis by simp
    qed
  qed
  show ?thesis
    using eq [of 0] eq [of 1] eq [of 2] eq [of 3] by (simp add: load32_def fill_def)
qed

lemma load_store_slot:
  assumes "pg_ofs p = 0" and "pg_ofs q = 0" and "i < 1024" and "j < 1024"
  shows "load32 (store32 (slot p i) w m) (slot q j) = (if p = q \<and> i = j then w else load32 m (slot q j))"
  using load_store_same load_store_other slot_aligned slot_eq_iff assms by metis

section \<open>Indices of an address\<close>

abbreviation pdi :: "u32 \<Rightarrow> nat" where
  "pdi va \<equiv> unat (pd_no va)"

abbreviation pti :: "u32 \<Rightarrow> nat" where
  "pti va \<equiv> unat (pt_no va)"

lemma pdi_eq: "pdi va = unat va div 4194304"
  by (simp add: pd_no_def PDSHIFT_def PTSHIFT_def PGBITS_def PTBITS_def drop_bit_eq_div unat_div_distrib)

lemma pti_eq: "pti va = unat va div 4096 mod 1024"
proof -
  have m: "push_bit 10 1 - 1 = (mask 10 :: u32)" by (simp add: mask_eq_exp_minus_1)
  have "pt_no va = take_bit 10 (drop_bit 12 va)"
    unfolding pt_no_def PTMASK_def BITMASK_def PTSHIFT_def PTBITS_def PGBITS_def m
    by (rule bit_word_eqI) (auto simp: bit_simps)
  then show ?thesis
    by (simp add: unsigned_take_bit_eq drop_bit_eq_div take_bit_eq_mod unat_mod_distrib unat_div_distrib)
qed

lemma pti_less [simp]: "pti va < 1024"
  by (simp add: pti_eq)

lemma pdi_less_iff: "pdi va < 768 \<longleftrightarrow> is_user_vaddr va"
  by (simp add: pdi_eq is_user_vaddr_def PHYS_BASE_def word_less_nat_alt div_less_iff_less_mult)

lemma same_page_iff: "pg_no ua = pg_no va \<longleftrightarrow> pdi ua = pdi va \<and> pti ua = pti va"
proof -
  have split: "unat x div 4096 = pdi x * 1024 + pti x" for x :: u32
  proof -
    have "unat x div 4194304 = unat x div 4096 div 1024" by (simp add: div_mult2_eq [symmetric])
    then show ?thesis by (simp add: pdi_eq pti_eq)
  qed
  have "pg_no ua = pg_no va \<longleftrightarrow> unat ua div 4096 = unat va div 4096"
    by (metis unat_pg_no unsigned_word_eqI)
  also have "\<dots> \<longleftrightarrow> pdi ua = pdi va \<and> pti ua = pti va"
  proof
    assume "unat ua div 4096 = unat va div 4096"
    then have eq: "pdi ua * 1024 + pti ua = pdi va * 1024 + pti va" by (simp add: split)
    then have "pdi ua = pdi va" using pti_less [of ua] pti_less [of va] by linarith
    with eq show "pdi ua = pdi va \<and> pti ua = pti va" by simp
  qed (simp add: split)
  finally show ?thesis .
qed

lemma slot_word: "p + 4 * w = slot p (unat w)"
  by (simp add: slot_def)

section \<open>The invariant of a page directory\<close>

definition table_of :: "u32 \<Rightarrow> u32" where
  "table_of e = (e AND PTE_ADDR) + PHYS_BASE"

definition pde :: "vm \<Rightarrow> u32 \<Rightarrow> nat \<Rightarrow> u32" where
  "pde s pd i = mem s (slot pd i)"

definition vm_wf :: "vm \<Rightarrow> bool" where
  "vm_wf s \<longleftrightarrow> pages_wf (pages s) \<and> PHYS_BASE \<le> base (kernel_pool (pages s))"

definition pde_ok :: "vm \<Rightarrow> u32 \<Rightarrow> u32 \<Rightarrow> bool" where
  "pde_ok s pd e \<longleftrightarrow> e AND PTE_P \<noteq> 0 \<and> e AND PTE_ADDR < PHYS_BASE \<and> table_of e \<in> in_use (pages s) \<and> table_of e \<noteq> pd"

definition user_pdes :: "vm \<Rightarrow> u32 \<Rightarrow> nat set" where
  "user_pdes s pd = {i. i < 768 \<and> pde s pd i \<noteq> 0}"

definition pd_wf :: "vm \<Rightarrow> u32 \<Rightarrow> bool" where
  "pd_wf s pd \<longleftrightarrow> vm_wf s \<and> pd \<in> in_use (pages s) \<and> (\<forall>i \<in> user_pdes s pd. pde_ok s pd (pde s pd i)) \<and>
     inj_on (\<lambda>i. table_of (pde s pd i)) (user_pdes s pd)"

text \<open>The page table entry that the directory has for an address.\<close>

definition walk :: "vm \<Rightarrow> u32 \<Rightarrow> u32 \<Rightarrow> u32 option" where
  "walk s pd va = (if pde s pd (pdi va) = 0 then None
     else Some (mem s (slot (table_of (pde s pd (pdi va))) (pti va))))"

lemma in_use_aligned: "pages_wf ps \<Longrightarrow> a \<in> in_use ps \<Longrightarrow> pg_ofs a = 0 \<and> a \<noteq> 0"
  using pool_pages_aligned used_pages_subset by (fastforce simp: pages_wf_def in_use_def)

lemma slot_nonzero: "pg_ofs p = 0 \<Longrightarrow> p \<noteq> 0 \<Longrightarrow> i < 1024 \<Longrightarrow> slot p i \<noteq> 0"
  using unat_slot [of p i] by (metis add_is_0 unat_eq_zero unat_0)

lemma pde_get_pt_table: "pde_ok s pd e \<Longrightarrow> pde_get_pt e = Some (table_of e)"
  by (simp add: pde_ok_def pde_get_pt_def ptov_def table_of_def)

lemma user_index: "is_user_vaddr va \<Longrightarrow> pde s pd (pdi va) \<noteq> 0 \<Longrightarrow> pdi va \<in> user_pdes s pd"
  by (simp add: user_pdes_def pdi_less_iff)

lemma pd_wfD:
  assumes "pd_wf s pd"
  shows "pg_ofs pd = 0" and "pd \<noteq> 0"
    and "i \<in> user_pdes s pd \<Longrightarrow> pg_ofs (table_of (pde s pd i)) = 0"
    and "i \<in> user_pdes s pd \<Longrightarrow> table_of (pde s pd i) \<noteq> 0"
    and "i \<in> user_pdes s pd \<Longrightarrow> table_of (pde s pd i) \<noteq> pd"
    and "i \<in> user_pdes s pd \<Longrightarrow> pde_ok s pd (pde s pd i)"
  using assms in_use_aligned by (auto simp: pd_wf_def vm_wf_def pde_ok_def)

lemma lookup_existing:
  assumes "pd_wf s pd" and "is_user_vaddr va" and "pde s pd (pdi va) \<noteq> 0"
  shows "lookup_page pd va create s = Some (slot (table_of (pde s pd (pdi va))) (pti va), s)"
    and "slot (table_of (pde s pd (pdi va))) (pti va) \<noteq> 0"
proof -
  note ui = user_index [OF assms(2,3)]
  show "lookup_page pd va create s = Some (slot (table_of (pde s pd (pdi va))) (pti va), s)"
    using assms(2,3) pd_wfD(2) [OF assms(1)] pde_get_pt_table [OF pd_wfD(6) [OF assms(1) ui]]
    by (simp add: lookup_page_def slot_word pde_def Let_def)
  show "slot (table_of (pde s pd (pdi va))) (pti va) \<noteq> 0"
    using slot_nonzero pd_wfD(3,4) [OF assms(1) ui] by simp
qed

lemma lookup_missing:
  assumes "pd_wf s pd" and "is_user_vaddr va" and "pde s pd (pdi va) = 0"
  shows "lookup_page pd va False s = Some (0, s)"
  using assms(3) pd_wfD(2) [OF assms(1)] by (simp add: lookup_page_def slot_word pde_def Let_def)

lemma pagedir_get_page_walk:
  assumes "pd_wf s pd" and "is_user_vaddr va"
  shows "pagedir_get_page pd va s =
     (case walk s pd va of None \<Rightarrow> Some 0
      | Some e \<Rightarrow> if e AND PTE_P = 0 then Some 0 else map_option (\<lambda>p. p + pg_ofs va) (pte_get_page e))"
proof (cases "pde s pd (pdi va) = 0")
  case True
  then show ?thesis using assms lookup_missing by (simp add: pagedir_get_page_def walk_def)
next
  case False
  then show ?thesis
    using lookup_existing [OF assms] assms(2)
    by (auto simp: pagedir_get_page_def walk_def map_conv_bind_option comp_def)
qed

section \<open>Changing one entry\<close>

lemma put_mem_simps [simp]:
  "init_page_dir (put_mem a w s) = init_page_dir s" "init_ram_pages (put_mem a w s) = init_ram_pages s"
  "cr3 (put_mem a w s) = cr3 s" "in_use (pages (put_mem a w s)) = in_use (pages s)"
  "vm_wf (put_mem a w s) = vm_wf s"
  by (simp_all add: put_mem_def vm_wf_def)

lemma mem_put_slot:
  "pg_ofs p = 0 \<Longrightarrow> pg_ofs q = 0 \<Longrightarrow> i < 1024 \<Longrightarrow> j < 1024 \<Longrightarrow>
     mem (put_mem (slot p i) w s) (slot q j) = (if p = q \<and> i = j then w else mem s (slot q j))"
  by (simp add: mem_def put_mem_def load_store_slot)

lemma pde_ok_put_mem [simp]: "pde_ok (put_mem a w s) pd e = pde_ok s pd e"
  by (simp add: pde_ok_def)

lemma put_pte:
  fixes w :: u32
  assumes wf: "pd_wf s pd" and va: "is_user_vaddr va" and e: "pde s pd (pdi va) \<noteq> 0"
  defines "s' \<equiv> put_mem (slot (table_of (pde s pd (pdi va))) (pti va)) w s"
  shows "pd_wf s' pd"
    and "is_user_vaddr ua \<Longrightarrow> walk s' pd ua = (if pg_no ua = pg_no va then Some w else walk s pd ua)"
proof -
  note ui = user_index [OF va e]
  note t = pd_wfD [OF wf]
  have pdes: "pde s' pd i = pde s pd i" if "i < 768" for i
    unfolding pde_def s'_def using mem_put_slot [OF t(3) [OF ui] t(1)] t(5) [OF ui] that by (simp add: pde_def)
  then have up: "user_pdes s' pd = user_pdes s pd" by (auto simp: user_pdes_def)
  have "inj_on (\<lambda>i. table_of (pde s' pd i)) (user_pdes s pd)"
    using wf pdes by (auto simp: pd_wf_def user_pdes_def inj_on_def)
  moreover have "\<forall>i \<in> user_pdes s pd. pde_ok s' pd (pde s' pd i)"
    using t(6) pdes by (auto simp: s'_def user_pdes_def)
  ultimately show "pd_wf s' pd" using wf by (simp add: pd_wf_def up) (simp add: s'_def)
  assume ua: "is_user_vaddr ua"
  then have lt: "pdi ua < 768" by (simp add: pdi_less_iff)
  show "walk s' pd ua = (if pg_no ua = pg_no va then Some w else walk s pd ua)"
  proof (cases "pde s pd (pdi ua) = 0")
    case True
    then show ?thesis using pdes [OF lt] e by (auto simp: walk_def same_page_iff)
  next
    case False
    note uj = user_index [OF ua False]
    have "table_of (pde s pd (pdi va)) = table_of (pde s pd (pdi ua)) \<longleftrightarrow> pdi ua = pdi va"
      using wf ui uj unfolding pd_wf_def by (metis (mono_tags, lifting) inj_onD)
    then have "mem s' (slot (table_of (pde s pd (pdi ua))) (pti ua)) =
        (if pg_no ua = pg_no va then w else mem s (slot (table_of (pde s pd (pdi ua))) (pti ua)))"
      unfolding s'_def same_page_iff using mem_put_slot [OF t(3) [OF ui] t(3) [OF uj]] by auto
    then show ?thesis using False pdes [OF lt] by (simp add: walk_def)
  qed
qed

section \<open>Creating a page table\<close>

lemma page_run_1: "page_run a 1 = {a}"
  by (simp add: page_run_def lessThan_Suc)

lemma get_page_zero_cases:
  assumes "vm_wf s"
  obtains (got) pt ps where "get_page PAL_ZERO s = Some (pt, s\<lparr>pages := ps\<rparr>)" "vm_wf (s\<lparr>pages := ps\<rparr>)"
      "pg_ofs pt = 0" "pt \<noteq> 0" "is_kernel_vaddr pt" "pt \<notin> in_use (pages s)" "in_use ps = insert pt (in_use (pages s))"
      "ram ps = fill pt PGSIZE 0 (ram (pages s))"
    | (full) "get_page PAL_ZERO s = Some (0, s)"
proof -
  let ?ps = "pages s" let ?p = "pool_of PAL_ZERO ?ps"
  have wf: "pages_wf ?ps" and base: "PHYS_BASE \<le> base (kernel_pool ?ps)" using assms by (auto simp: vm_wf_def)
  have k: "?p = kernel_pool ?ps" by (simp add: pool_of_def PAL_ZERO_def PAL_USER_def)
  have zero: "PAL_ZERO AND PAL_ZERO \<noteq> 0" "PAL_ZERO AND PAL_ASSERT = 0"
    by (simp_all add: PAL_ZERO_def PAL_ASSERT_def)
  show thesis using wf zero_less_one
  proof (cases rule: palloc_get_multiple_cases [where flags = PAL_ZERO])
    case (got i p)
    let ?a = "page_addr ?p i"
    define ps where "ps = (put_pool PAL_ZERO p ?ps)\<lparr>ram := fill ?a PGSIZE 0 (ram ?ps)\<rparr>"
    have pw: "pool_wf ?p" by (rule pages_wf_pool_of [OF wf])
    have i: "i < bit_cnt (used_map ?p)" using got(1) by (simp add: fits_def)
    have "unat PHYS_BASE \<le> unat ?a"
      using base unat_page_addr [OF pw less_imp_le [OF i]] by (simp add: k word_le_nat_alt)
    then have kv: "is_kernel_vaddr ?a" by (simp add: is_kernel_vaddr_def word_le_nat_alt)
    have "pages_wf ps" using pages_wf_put_pool [OF wf got(4,5)] by (simp add: ps_def)
    moreover have "base (kernel_pool ps) = base (kernel_pool ?ps)"
      using got(5) k by (simp add: ps_def put_pool_def PAL_ZERO_def PAL_USER_def same_shape_def)
    ultimately have vw: "vm_wf (s\<lparr>pages := ps\<rparr>)" using base by (simp add: vm_wf_def)
    have g: "get_page PAL_ZERO s = Some (?a, s\<lparr>pages := ps\<rparr>)"
      using got(7) zero by (simp add: get_page_def palloc_get_page_def ps_def)
    show thesis
    proof (rule that(1) [OF g vw page_addr_aligned [OF pw i] got(3) kv])
      show "?a \<notin> in_use ?ps" using room_fresh [OF wf got(1)] unfolding page_run_1 by blast
      show "in_use ps = insert ?a (in_use ?ps)"
        using in_use_put_pool [OF wf got(6)] unfolding page_run_1 by (simp add: ps_def)
      show "ram ps = fill ?a PGSIZE 0 (ram ?ps)" by (simp add: ps_def)
    qed
  next
    case full
    then have "get_page PAL_ZERO s = Some (0, s)" using zero by (simp add: get_page_def palloc_get_page_def)
    then show thesis by (rule that(2))
  qed
qed

lemma PTE_ADDR_round: "x AND PTE_ADDR = pg_round_down x"
proof -
  have "PTE_ADDR = NOT PGMASK" by (simp add: PTE_ADDR_def PGMASK_def BITMASK_def PGBITS_def)
  then show ?thesis by (simp add: pg_round_down_def)
qed

lemma round_aligned: "pg_ofs x = 0 \<Longrightarrow> x AND PTE_ADDR = x"
proof -
  assume "pg_ofs x = 0"
  then have "unat (pg_round_down x) = unat x" by (simp add: unat_pg_round_down pg_ofs_0_iff)
  then show ?thesis unfolding PTE_ADDR_round by (rule unsigned_word_eqI)
qed

lemma aligned_vtop:
  assumes "pg_ofs p = 0" and "is_kernel_vaddr p"
  shows "pg_ofs (p - PHYS_BASE) = 0" and "p - PHYS_BASE < PHYS_BASE"
proof -
  have "unat (p - PHYS_BASE) = unat p - 3221225472"
    using assms(2) by (simp add: is_kernel_vaddr_def unat_sub PHYS_BASE_def)
  moreover have "unat p < 2 ^ LENGTH(32)" by (rule unsigned_less)
  moreover obtain n where "unat p = 4096 * n" using assms(1) by (auto simp: pg_ofs_0_iff elim!: dvdE)
  moreover have "4096 * n - 3221225472 = 4096 * (n - 786432)" for n :: nat by (simp add: right_diff_distrib')
  ultimately show "pg_ofs (p - PHYS_BASE) = 0" "p - PHYS_BASE < PHYS_BASE"
    by (simp_all add: pg_ofs_0_iff word_less_nat_alt PHYS_BASE_def)
qed

lemma pde_create_entry:
  assumes "pg_ofs pt = 0" and "is_kernel_vaddr pt"
  obtains e where "pde_create pt = Some e" "e AND PTE_P \<noteq> 0" "e AND PTE_ADDR < PHYS_BASE" "table_of e = pt"
proof
  let ?e = "(pt - PHYS_BASE) OR PTE_U OR PTE_P OR PTE_W"
  show "pde_create pt = Some ?e" using assms by (simp add: pde_create_def vtop_def)
  have "?e AND PTE_ADDR = (pt - PHYS_BASE) AND PTE_ADDR"
    by (simp add: bit.conj_disj_distrib2 PTE_U_def PTE_P_def PTE_W_def PTE_ADDR_def)
  then have a: "?e AND PTE_ADDR = pt - PHYS_BASE" using round_aligned [OF aligned_vtop(1) [OF assms]] by simp
  then show "table_of ?e = pt" "?e AND PTE_ADDR < PHYS_BASE"
    using aligned_vtop(2) [OF assms] by (simp_all add: table_of_def)
  have "bit ?e 0" by (simp add: bit_simps PTE_P_def)
  then have "bit (?e AND PTE_P) 0" by (simp add: bit_simps PTE_P_def)
  then show "?e AND PTE_P \<noteq> 0" by (metis bit_0_eq bot_apply bot_bool_def)
qed

lemma lookup_create:
  assumes wf: "pd_wf s pd" and va: "is_user_vaddr va" and z: "pde s pd (pdi va) = 0"
  obtains (got) s' where "lookup_page pd va True s = Some (slot (table_of (pde s' pd (pdi va))) (pti va), s')"
      "pd_wf s' pd" "pde s' pd (pdi va) \<noteq> 0" "init_page_dir s' = init_page_dir s" "init_ram_pages s' = init_ram_pages s"
      "\<And>ua. is_user_vaddr ua \<Longrightarrow> walk s' pd ua = (if pdi ua = pdi va then Some 0 else walk s pd ua)"
    | (full) "lookup_page pd va True s = Some (0, s)"
proof -
  note t = pd_wfD [OF wf]
  have vw: "vm_wf s" and pd: "pd \<in> in_use (pages s)" using wf by (auto simp: pd_wf_def)
  have lt: "pdi va < 768" using va by (simp add: pdi_less_iff)
  show thesis using vw
  proof (cases rule: get_page_zero_cases)
    case full
    then show thesis
      using z va t(2) by (intro that(2)) (simp add: lookup_page_def slot_word pde_def Let_def)
  next
    case (got pt ps)
    obtain e where e: "pde_create pt = Some e" "e AND PTE_P \<noteq> 0" "e AND PTE_ADDR < PHYS_BASE" "table_of e = pt"
      using pde_create_entry [OF got(3,5)] .
    define s1 where "s1 = s\<lparr>pages := ps\<rparr>"
    define s' where "s' = put_mem (slot pd (pdi va)) e s1"
    have ne: "pt \<noteq> pd" using pd got(6) by blast
    have e0: "e \<noteq> 0" using e(2) by auto
    have m1: "mem s1 (slot q j) = (if pt = q then 0 else mem s (slot q j))" if "pg_ofs q = 0" "j < 1024" for q j
      using load_fill [OF got(3) that] by (simp add: mem_def s1_def got(8))
    have m': "mem s' (slot q j) = (if pd = q \<and> pdi va = j then e else if pt = q then 0 else mem s (slot q j))"
      if "pg_ofs q = 0" "j < 1024" for q j
      unfolding s'_def using mem_put_slot [OF t(1) that(1) _ that(2)] m1 [OF that] lt by simp
    have pdes: "pde s' pd i = (if i = pdi va then e else pde s pd i)" if "i < 768" for i
      using m' [OF t(1), of i] that ne by (auto simp: pde_def)
    have use: "in_use (pages s') = insert pt (in_use (pages s))" by (simp add: s'_def s1_def got(7))
    have up: "user_pdes s' pd = insert (pdi va) (user_pdes s pd)"
      using pdes e0 lt by (auto simp: user_pdes_def split: if_splits)
    have notin: "pdi va \<notin> user_pdes s pd" using z by (simp add: user_pdes_def)
    have tab: "table_of (pde s' pd i) = table_of (pde s pd i)" if "i \<in> user_pdes s pd" for i
      using pdes [of i] that notin by (auto simp: user_pdes_def)
    have tin: "table_of (pde s pd i) \<in> in_use (pages s)" if "i \<in> user_pdes s pd" for i
      using t(6) [OF that] by (simp add: pde_ok_def)
    have "inj_on (\<lambda>i. table_of (pde s' pd i)) (user_pdes s' pd)"
    proof -
      have "inj_on (\<lambda>i. table_of (pde s' pd i)) (user_pdes s pd)"
        using wf tab by (auto simp: pd_wf_def inj_on_def)
      moreover have "table_of (pde s' pd (pdi va)) \<notin> (\<lambda>i. table_of (pde s' pd i)) ` user_pdes s pd"
        using tab tin got(6) pdes [OF lt] e(4) by auto
      ultimately show ?thesis unfolding up by (simp add: notin)
    qed
    moreover have "pde_ok s' pd (pde s' pd i)" if "i \<in> user_pdes s' pd" for i
    proof (cases "i = pdi va")
      case True
      then show ?thesis using pdes [OF lt] e ne use by (simp add: pde_ok_def)
    next
      case False
      then have "i \<in> user_pdes s pd" "pde s' pd i = pde s pd i" using that up pdes [of i] by (auto simp: user_pdes_def)
      then show ?thesis using t(6) [of i] use by (auto simp: pde_ok_def)
    qed
    moreover have "vm_wf s'" using got(2) by (simp add: s'_def s1_def)
    ultimately have wf': "pd_wf s' pd" using pd use by (simp add: pd_wf_def)
    have nz: "pde s' pd (pdi va) \<noteq> 0" using pdes [OF lt] e0 by simp
    have walk: "walk s' pd ua = (if pdi ua = pdi va then Some 0 else walk s pd ua)" if ua: "is_user_vaddr ua" for ua
    proof (cases "pdi ua = pdi va")
      case True
      then show ?thesis using pdes [OF lt] e0 e(4) m' [OF got(3), of "pti ua"] ne by (simp add: walk_def)
    next
      case False
      have lu: "pdi ua < 768" using ua by (simp add: pdi_less_iff)
      show ?thesis
      proof (cases "pde s pd (pdi ua) = 0")
        case nz: False
        note uj = user_index [OF ua nz]
        have "table_of (pde s pd (pdi ua)) \<noteq> pt" using tin [OF uj] got(6) by blast
        then show ?thesis
          using False nz pdes [OF lu] m' [OF t(3) [OF uj], of "pti ua"] t(5) [OF uj] by (auto simp: walk_def)
      qed (use False pdes [OF lu] in \<open>simp add: walk_def\<close>)
    qed
    have get: "pde_get_pt (pde s' pd (pdi va)) = Some (table_of (pde s' pd (pdi va)))"
      using pd_wfD(6) [OF wf' user_index [OF va nz]] by (rule pde_get_pt_table)
    have "lookup_page pd va True s = Some (slot (table_of (pde s' pd (pdi va))) (pti va), s')"
      using z va t(2) got(1,4) e(1) get
      by (simp add: lookup_page_def slot_word pde_def Let_def flip: s1_def s'_def)
    then show thesis
      using wf' nz walk by (intro that(1) [of s']) (simp_all add: s'_def s1_def)
  qed
qed

section \<open>Properties\<close>

lemma pte_create_user_entry:
  assumes "pg_ofs k = 0" and "is_kernel_vaddr k"
  obtains e where "pte_create_user k w = Some e" "e AND PTE_P \<noteq> 0" "pte_get_page e = Some k"
proof
  let ?e = "(k - PHYS_BASE) OR PTE_P OR (if w then PTE_W else 0) OR PTE_U"
  show "pte_create_user k w = Some ?e"
    using assms by (simp add: pte_create_user_def pte_create_kernel_def vtop_def or.assoc)
  have "?e AND PTE_ADDR = (k - PHYS_BASE) AND PTE_ADDR"
    by (simp add: bit.conj_disj_distrib2 PTE_U_def PTE_P_def PTE_W_def PTE_ADDR_def)
  then have a: "?e AND PTE_ADDR = k - PHYS_BASE" using round_aligned [OF aligned_vtop(1) [OF assms]] by simp
  then show "pte_get_page ?e = Some k"
    using aligned_vtop(2) [OF assms] by (simp add: pte_get_page_def ptov_def)
  have "bit (?e AND PTE_P) 0" by (simp add: bit_simps PTE_P_def)
  then show "?e AND PTE_P \<noteq> 0" by (metis bit_0_eq bot_apply bot_bool_def)
qed

text \<open>The arguments that the assertions of \<open>pagedir_set_page\<close> admit.\<close>

definition mappable :: "vm \<Rightarrow> u32 \<Rightarrow> u32 \<Rightarrow> u32 \<Rightarrow> bool" where
  "mappable s pd upage kpage \<longleftrightarrow> pg_ofs upage = 0 \<and> pg_ofs kpage = 0 \<and> is_user_vaddr upage \<and>
     is_kernel_vaddr kpage \<and> drop_bit PTSHIFT (kpage - PHYS_BASE) < init_ram_pages s \<and> pd \<noteq> init_page_dir s"

definition mapped :: "vm \<Rightarrow> u32 \<Rightarrow> u32 \<Rightarrow> bool" where
  "mapped s pd va = (case walk s pd va of None \<Rightarrow> False | Some e \<Rightarrow> e AND PTE_P \<noteq> 0)"

lemma pagedir_set_page_lookup:
  assumes m: "mappable s pd upage kpage" and look: "lookup_page pd upage True s = Some (slot (table_of (pde s' pd (pdi upage))) (pti upage), s')"
    and wf: "pd_wf s' pd" and nz: "pde s' pd (pdi upage) \<noteq> 0"
    and np: "\<not> mapped s' pd upage"
  obtains s'' e where "pagedir_set_page pd upage kpage w s = Some (True, s'')" "pd_wf s'' pd"
    "\<forall>ua. is_user_vaddr ua \<longrightarrow> walk s'' pd ua = (if pg_no ua = pg_no upage then Some e else walk s' pd ua)"
    "e AND PTE_P \<noteq> 0" "pte_get_page e = Some kpage"
proof -
  have u: "is_user_vaddr upage" using m by (simp add: mappable_def)
  obtain e where e: "pte_create_user kpage w = Some e" "e AND PTE_P \<noteq> 0" "pte_get_page e = Some kpage"
    using pte_create_user_entry [of kpage w] m by (auto simp: mappable_def)
  let ?a = "slot (table_of (pde s' pd (pdi upage))) (pti upage)"
  have "mem s' ?a AND PTE_P = 0" using np nz by (simp add: walk_def mapped_def)
  then have "pagedir_set_page pd upage kpage w s = Some (True, put_mem ?a e s')"
    using m look e(1) lookup_existing(2) [OF wf u nz]
    by (simp add: pagedir_set_page_def mappable_def vtop_def)
  then show ?thesis
    using put_pte(1) [OF wf u nz, of e] put_pte(2) [OF wf u nz, where w = e] e
    by (intro that [of "put_mem ?a e s'" e]) blast+
qed

text \<open>C5. Mapping a page: for arguments its assertions admit and a page not yet mapped,
  \<open>pagedir_set_page\<close> returns.  If it returns true, every address of the page translates to the
  frame at the same offset and every other user address translates as before; if it returns
  false nothing has changed.\<close>

theorem pagedir_set_page_maps:
  assumes wf: "pd_wf s pd" and m: "mappable s pd upage kpage" and np: "\<not> mapped s pd upage"
  shows "(\<exists>s'. pagedir_set_page pd upage kpage writable s = Some (True, s') \<and> pd_wf s' pd \<and>
            (\<forall>ua. is_user_vaddr ua \<longrightarrow>
               pagedir_get_page pd ua s' =
                 (if pg_no ua = pg_no upage then Some (kpage + pg_ofs ua) else pagedir_get_page pd ua s))) \<or>
         pagedir_set_page pd upage kpage writable s = Some (False, s)"
proof -
  have u: "is_user_vaddr upage" using m by (simp add: mappable_def)
  have finish: ?thesis
    if look: "lookup_page pd upage True s = Some (slot (table_of (pde s' pd (pdi upage))) (pti upage), s')"
      and wf': "pd_wf s' pd" and nz: "pde s' pd (pdi upage) \<noteq> 0" and np': "\<not> mapped s' pd upage"
      and same: "\<And>ua. is_user_vaddr ua \<Longrightarrow> pg_no ua \<noteq> pg_no upage \<Longrightarrow>
        walk s' pd ua = walk s pd ua \<or> (walk s' pd ua = Some 0 \<and> walk s pd ua = None)" for s'
  proof -
    obtain s'' e where r: "pagedir_set_page pd upage kpage writable s = Some (True, s'')" "pd_wf s'' pd"
      "\<forall>ua. is_user_vaddr ua \<longrightarrow> walk s'' pd ua = (if pg_no ua = pg_no upage then Some e else walk s' pd ua)"
      "e AND PTE_P \<noteq> 0" "pte_get_page e = Some kpage"
      using pagedir_set_page_lookup [OF m look wf' nz np', of writable] by blast
    have "pagedir_get_page pd ua s'' =
        (if pg_no ua = pg_no upage then Some (kpage + pg_ofs ua) else pagedir_get_page pd ua s)"
      if "is_user_vaddr ua" for ua
      using pagedir_get_page_walk [OF r(2) that] pagedir_get_page_walk [OF wf that] r(3) [rule_format, OF that] r(4,5)
        same [OF that] by auto
    with r(1,2) show ?thesis by blast
  qed
  show ?thesis
  proof (cases "pde s pd (pdi upage) = 0")
    case False
    then show ?thesis using finish [OF lookup_existing(1) [OF wf u False] wf False np] by blast
  next
    case True
    show ?thesis using wf u True
    proof (cases rule: lookup_create)
      case (got s')
      show ?thesis
      proof (rule finish [OF got(1-3)])
        show "\<not> mapped s' pd upage" using got(6) [OF u] by (simp add: mapped_def)
        show "walk s' pd ua = walk s pd ua \<or> (walk s' pd ua = Some 0 \<and> walk s pd ua = None)"
          if "is_user_vaddr ua" for ua
          using got(6) [OF that] True by (auto simp: walk_def)
      qed
    next
      case full
      then have "pagedir_set_page pd upage kpage writable s = Some (False, s)"
        using m by (simp add: pagedir_set_page_def mappable_def vtop_def)
      then show ?thesis ..
    qed
  qed
qed

definition sample_vm :: vm where
  "sample_vm = \<lparr>pages = sample_pages\<lparr>ram := (\<lambda>_. 0)\<rparr>, init_page_dir = 0xc0101000, init_ram_pages = 0x1000,
     cr3 = 0x102000, tlb_flushes = 0\<rparr>"

lemma sample_vm_wf: "pd_wf sample_vm 0xc0102000"
proof -
  have "vm_wf sample_vm"
    using sample_pages_wf by (simp add: vm_wf_def sample_vm_def) (simp add: sample_pages_def sample_pool_def PHYS_BASE_def)
  moreover have "pde sample_vm 0xc0102000 i = 0" for i
    by (simp add: pde_def mem_def sample_vm_def load32_def)
  moreover have "0xc0102000 \<in> in_use (pages sample_vm)"
    by (simp add: sample_vm_def in_use_def) (simp add: sample_pages_def sample_used)
  ultimately show ?thesis by (simp add: pd_wf_def user_pdes_def)
qed

theorem pagedir_set_page_maps_witness:
  "(\<exists>s'. pagedir_set_page 0xc0102000 0x8048000 0xc0300000 True sample_vm = Some (True, s') \<and>
      pagedir_get_page 0xc0102000 0x8048123 s' = Some 0xc0300123) \<or>
   pagedir_set_page 0xc0102000 0x8048000 0xc0300000 True sample_vm = Some (False, sample_vm)"
proof -
  have z: "pde sample_vm 0xc0102000 i = 0" for i
    by (simp add: pde_def mem_def sample_vm_def load32_def)
  have np: "\<not> mapped sample_vm 0xc0102000 0x8048000" by (simp add: mapped_def walk_def z)
  have m: "mappable sample_vm 0xc0102000 0x8048000 0xc0300000"
    by (simp add: mappable_def pg_ofs_def PGMASK_def BITMASK_def PGBITS_def is_user_vaddr_def is_kernel_vaddr_def
        PHYS_BASE_def PTSHIFT_def sample_vm_def)
  have u: "is_user_vaddr 0x8048123" "pg_no 0x8048123 = pg_no 0x8048000" "pg_ofs 0x8048123 = 0x123"
    by (simp_all add: is_user_vaddr_def PHYS_BASE_def pg_no_def PGBITS_def pg_ofs_def PGMASK_def BITMASK_def)
  show ?thesis using pagedir_set_page_maps [OF sample_vm_wf m np, of True] u by auto
qed

lemma tlb_simps [simp]:
  "pde (s\<lparr>tlb_flushes := n\<rparr>) pd i = pde s pd i" "walk (s\<lparr>tlb_flushes := n\<rparr>) pd va = walk s pd va"
  "pd_wf (s\<lparr>tlb_flushes := n\<rparr>) pd = pd_wf s pd"
  by (simp_all add: pde_def mem_def walk_def pd_wf_def vm_wf_def user_pdes_def pde_ok_def)

lemma tlb_put_mem [simp]: "tlb_flushes (put_mem a w s) = tlb_flushes s"
  by (simp add: put_mem_def)

lemma invalidate_pagedir_eq:
  assumes "is_kernel_vaddr pd" and "pd \<noteq> 0" and "active_pd s = Some act"
  shows "invalidate_pagedir pd s = Some (if act = pd then s\<lparr>tlb_flushes := tlb_flushes s + 1\<rparr> else s)"
proof -
  have "act = pd \<Longrightarrow> cr3 s = pd - PHYS_BASE"
    using assms(3) by (auto simp: active_pd_def ptov_def ASSERT_bind split: if_splits)
  then show ?thesis
    using assms by (cases s) (auto simp: invalidate_pagedir_def pagedir_activate_def vtop_def)
qed

text \<open>Clearing a page: the page is no longer mapped, the other user addresses translate as
  before, and if the page was mapped in the active directory the translation buffer has been
  emptied, so that no stale translation survives.\<close>

theorem pagedir_clear_page_unmaps:
  assumes wf: "pd_wf s pd" and a: "pg_ofs upage = 0" "is_user_vaddr upage" and k: "is_kernel_vaddr pd"
    and act: "active_pd s = Some act"
  shows "\<exists>s'. pagedir_clear_page pd upage s = Some s' \<and> pd_wf s' pd \<and> cr3 s' = cr3 s \<and>
           (\<forall>ua. is_user_vaddr ua \<longrightarrow>
              pagedir_get_page pd ua s' = (if pg_no ua = pg_no upage then Some 0 else pagedir_get_page pd ua s)) \<and>
           tlb_flushes s' = tlb_flushes s + (if mapped s pd upage \<and> act = pd then 1 else 0)"
proof (cases "mapped s pd upage")
  case False
  have zero: "pagedir_get_page pd ua s = Some 0" if "is_user_vaddr ua" "pg_no ua = pg_no upage" for ua
  proof -
    have "walk s pd ua = walk s pd upage" using that(2) by (simp add: walk_def same_page_iff)
    then show ?thesis
      using False pagedir_get_page_walk [OF wf that(1)] by (auto simp: mapped_def split: option.splits)
  qed
  have "pagedir_clear_page pd upage s = Some s"
  proof (cases "pde s pd (pdi upage) = 0")
    case True
    then show ?thesis using lookup_missing [OF wf a(2)] a by (simp add: pagedir_clear_page_def)
  next
    case nz: False
    then show ?thesis
      using lookup_existing [OF wf a(2) nz] a False by (simp add: pagedir_clear_page_def mapped_def walk_def)
  qed
  with wf zero False show ?thesis by auto
next
  case True
  then have nz: "pde s pd (pdi upage) \<noteq> 0" by (auto simp: mapped_def walk_def split: if_splits)
  let ?a = "slot (table_of (pde s pd (pdi upage))) (pti upage)"
  let ?w = "mem s ?a AND NOT PTE_P"
  define s1 where "s1 = put_mem ?a ?w s"
  note put = put_pte [OF wf a(2) nz, where w = ?w, folded s1_def]
  have wz: "?w AND PTE_P = 0" by (rule bit_word_eqI) (auto simp: bit_simps)
  have inv: "invalidate_pagedir pd s1 = Some (if act = pd then s1\<lparr>tlb_flushes := tlb_flushes s1 + 1\<rparr> else s1)"
    using invalidate_pagedir_eq [OF k pd_wfD(2) [OF wf]] act by (simp add: active_pd_def s1_def)
  then obtain s' where s': "invalidate_pagedir pd s1 = Some s'" "pd_wf s' pd" "cr3 s' = cr3 s"
      "\<And>ua. walk s' pd ua = walk s1 pd ua" "tlb_flushes s' = tlb_flushes s + (if act = pd then 1 else 0)"
    using put(1) by (cases "act = pd") (auto simp: s1_def)
  have "pagedir_clear_page pd upage s = Some s'"
    using lookup_existing [OF wf a(2) nz] a True nz s'(1)
    by (simp add: pagedir_clear_page_def mapped_def walk_def s1_def)
  moreover have "pagedir_get_page pd ua s' = (if pg_no ua = pg_no upage then Some 0 else pagedir_get_page pd ua s)"
    if "is_user_vaddr ua" for ua
    using pagedir_get_page_walk [OF s'(2) that] pagedir_get_page_walk [OF wf that] put(2) [OF that] s'(4) [of ua] wz
    by simp
  ultimately show ?thesis using s' True by auto
qed

theorem pagedir_clear_page_unmaps_witness:
  "\<exists>s'. pagedir_clear_page 0xc0102000 0x8048000 sample_vm = Some s' \<and> pagedir_get_page 0xc0102000 0x8048000 s' = Some 0"
proof -
  have a: "pg_ofs 0x8048000 = 0" "is_user_vaddr 0x8048000" "is_kernel_vaddr 0xc0102000"
      "active_pd sample_vm = Some 0xc0102000"
    by (simp_all add: pg_ofs_def PGMASK_def BITMASK_def PGBITS_def is_user_vaddr_def is_kernel_vaddr_def PHYS_BASE_def
        active_pd_def ptov_def sample_vm_def)
  show ?thesis using pagedir_clear_page_unmaps [OF sample_vm_wf a] a(2) by auto
qed

end
