(* ===== verification/Pintos_Malloc.thy ===== *)
theory Pintos_Malloc
  imports Pintos_Palloc
begin

text \<open>
  The block allocator of \<open>threads/malloc.c\<close>.  The free list of a descriptor is the sequence of the
  addresses of its blocks, so that \<open>list_push_back\<close>, \<open>list_push_front\<close>, \<open>list_pop_front\<close> and
  \<open>list_remove\<close> act on sequences as the list component shows them to.  \<open>arenas\<close> has the arena header
  at the start of a page; where it has none, memory does not hold the magic number.  A descriptor
  is its index and a null pointer is 0, or \<^const>\<open>None\<close> for a descriptor.
\<close>

unbundle bit_operations_syntax

section \<open>Descriptors and arenas\<close>

record desc =
  dblock_size :: nat
  blocks_per_arena :: nat
  free_list :: "u32 list"
  desc_lock :: bool

definition ARENA_MAGIC :: u32 where
  "ARENA_MAGIC = 0x9a548eed"

record arena =
  magic :: u32
  arena_desc :: "nat option"
  free_cnt :: nat

definition sizeof_arena :: nat where
  "sizeof_arena = 12"

record heap =
  heap_pages :: pages
  descs :: "desc list"
  arenas :: "u32 \<Rightarrow> arena option"

definition put_desc :: "nat \<Rightarrow> desc \<Rightarrow> heap \<Rightarrow> heap" where
  "put_desc i d h = h\<lparr>descs := (descs h)[i := d]\<rparr>"

definition put_arena :: "u32 \<Rightarrow> arena \<Rightarrow> heap \<Rightarrow> heap" where
  "put_arena a ar h = h\<lparr>arenas := (arenas h)(a \<mapsto> ar)\<rparr>"

text \<open>The loop of \<open>malloc_init\<close> from \<open>block_size\<close> on; \<open>descs\<close> has room for ten descriptors.\<close>

function malloc_init_loop :: "nat \<Rightarrow> desc list \<Rightarrow> desc list option" where
  "malloc_init_loop bs ds =
     (if 0 < bs \<and> bs < PGSIZE div 2
      then do {
        ASSERT (length ds + 1 \<le> 10);
        malloc_init_loop (bs * 2)
          (ds @ [\<lparr>dblock_size = bs, blocks_per_arena = (PGSIZE - sizeof_arena) div bs, free_list = [], desc_lock = False\<rparr>])
      }
      else Some ds)"
  by pat_completeness auto
termination by (relation "measure (\<lambda>(bs, _). PGSIZE - bs)") (auto simp: PGSIZE_def)

declare malloc_init_loop.simps [simp del]

definition malloc_init :: "pages \<Rightarrow> heap option" where
  "malloc_init ps = do {
     ds \<leftarrow> malloc_init_loop 16 [];
     Some \<lparr>heap_pages = ps, descs = ds, arenas = (\<lambda>_. None)\<rparr>
   }"

section \<open>Blocks\<close>

definition block_to_arena :: "u32 \<Rightarrow> heap \<Rightarrow> (u32 \<times> arena) option" where
  "block_to_arena b h = do {
     let a = pg_round_down b;
     ASSERT (a \<noteq> 0);
     ar \<leftarrow> arenas h a;
     ASSERT (magic ar = ARENA_MAGIC);
     case arena_desc ar of
       Some i \<Rightarrow> do {
         d \<leftarrow> nth_opt (descs h) i;
         ASSERT ((pg_ofs b - of_nat sizeof_arena) mod of_nat (dblock_size d) = 0);
         Some (a, ar)
       }
     | None \<Rightarrow> do { ASSERT (pg_ofs b = of_nat sizeof_arena); Some (a, ar) }
   }"

definition arena_to_block :: "u32 \<Rightarrow> nat \<Rightarrow> heap \<Rightarrow> u32 option" where
  "arena_to_block a idx h = do {
     ASSERT (a \<noteq> 0);
     ar \<leftarrow> arenas h a;
     ASSERT (magic ar = ARENA_MAGIC);
     i \<leftarrow> arena_desc ar;
     d \<leftarrow> nth_opt (descs h) i;
     ASSERT (idx < blocks_per_arena d);
     Some (a + of_nat sizeof_arena + of_nat idx * of_nat (dblock_size d))
   }"

definition desc_acquire :: "nat \<Rightarrow> heap \<Rightarrow> heap option" where
  "desc_acquire i h = do {
     d \<leftarrow> nth_opt (descs h) i;
     ASSERT (\<not> desc_lock d);
     Some (put_desc i (d\<lparr>desc_lock := True\<rparr>) h)
   }"

definition desc_release :: "nat \<Rightarrow> heap \<Rightarrow> heap option" where
  "desc_release i h = do {
     d \<leftarrow> nth_opt (descs h) i;
     ASSERT (desc_lock d);
     Some (put_desc i (d\<lparr>desc_lock := False\<rparr>) h)
   }"

section \<open>Allocating\<close>

text \<open>The search for the smallest descriptor with blocks of \<open>size\<close> bytes, from descriptor \<open>i\<close> on.\<close>

fun find_desc :: "nat \<Rightarrow> nat \<Rightarrow> desc list \<Rightarrow> nat" where
  "find_desc size' i [] = i"
| "find_desc size' i (d # ds) = (if size' \<le> dblock_size d then i else find_desc size' (i + 1) ds)"

text \<open>The loop that adds the blocks of a new arena, \<open>n\<close> of them still to come from \<open>k\<close> on.\<close>

fun add_blocks :: "nat \<Rightarrow> nat \<Rightarrow> nat \<Rightarrow> u32 \<Rightarrow> heap \<Rightarrow> heap option" where
  "add_blocks 0 k i a h = Some h"
| "add_blocks (Suc n) k i a h = do {
     b \<leftarrow> arena_to_block a k h;
     d \<leftarrow> nth_opt (descs h) i;
     add_blocks n (k + 1) i a (put_desc i (d\<lparr>free_list := free_list d @ [b]\<rparr>) h)
   }"

text \<open>A request that no descriptor serves: the pages for the block and its arena, where the sum is
  one of \<open>size_t\<close>.\<close>

definition malloc_big :: "nat \<Rightarrow> heap \<Rightarrow> (u32 \<times> heap) option" where
  "malloc_big size' h = do {
     let page_cnt = size_add (size_add size' sizeof_arena) (PGSIZE - 1) div PGSIZE;
     (a, ps) \<leftarrow> palloc_get_multiple 0 page_cnt (heap_pages h);
     let h = h\<lparr>heap_pages := ps\<rparr>;
     if a = 0 then Some (0, h)
     else Some (a + of_nat sizeof_arena,
       put_arena a \<lparr>magic = ARENA_MAGIC, arena_desc = None, free_cnt = page_cnt\<rparr> h)
   }"

definition new_arena :: "nat \<Rightarrow> heap \<Rightarrow> (bool \<times> heap) option" where
  "new_arena i h = do {
     d \<leftarrow> nth_opt (descs h) i;
     (a, ps) \<leftarrow> palloc_get_page 0 (heap_pages h);
     let h = h\<lparr>heap_pages := ps\<rparr>;
     if a = 0 then Some (False, h)
     else do {
       let h = put_arena a \<lparr>magic = ARENA_MAGIC, arena_desc = Some i, free_cnt = blocks_per_arena d\<rparr> h;
       h \<leftarrow> add_blocks (blocks_per_arena d) 0 i a h;
       Some (True, h)
     }
   }"

definition take_block :: "nat \<Rightarrow> heap \<Rightarrow> (u32 \<times> heap) option" where
  "take_block i h = do {
     d \<leftarrow> nth_opt (descs h) i;
     case free_list d of
       [] \<Rightarrow> None
     | b # bs \<Rightarrow> do {
         let h = put_desc i (d\<lparr>free_list := bs\<rparr>) h;
         (a, ar) \<leftarrow> block_to_arena b h;
         let h = put_arena a (ar\<lparr>free_cnt := size_add (free_cnt ar) (2 ^ 32 - 1)\<rparr>) h;
         h \<leftarrow> desc_release i h;
         Some (b, h)
       }
   }"

definition malloc :: "nat \<Rightarrow> heap \<Rightarrow> (u32 \<times> heap) option" where
  "malloc size' h =
     (if size' = 0 then Some (0, h)
      else let i = find_desc size' 0 (descs h)
        in if i = length (descs h) then malloc_big size' h
        else do {
          h \<leftarrow> desc_acquire i h;
          d \<leftarrow> nth_opt (descs h) i;
          if free_list d = []
          then do {
            (ok, h) \<leftarrow> new_arena i h;
            if ok then take_block i h
            else do { h \<leftarrow> desc_release i h; Some (0, h) }
          }
          else take_block i h
        })"

definition calloc :: "nat \<Rightarrow> nat \<Rightarrow> heap \<Rightarrow> (u32 \<times> heap) option" where
  "calloc a b h =
     (let size' = a * b mod 2 ^ 32
      in if size' < a \<or> size' < b then Some (0, h)
      else do {
        (p, h) \<leftarrow> malloc size' h;
        Some (p, if p \<noteq> 0
          then h\<lparr>heap_pages := (heap_pages h)\<lparr>ram := fill p size' 0 (ram (heap_pages h))\<rparr>\<rparr> else h)
      })"

text \<open>The number of bytes allocated for a block, \<open>block_size\<close> in the source.\<close>

definition block_size :: "u32 \<Rightarrow> heap \<Rightarrow> nat option" where
  "block_size block h = do {
     (a, ar) \<leftarrow> block_to_arena block h;
     case arena_desc ar of
       Some i \<Rightarrow> do { d \<leftarrow> nth_opt (descs h) i; Some (dblock_size d) }
     | None \<Rightarrow> Some (PGSIZE * free_cnt ar - unat (pg_ofs block))
   }"

section \<open>Freeing\<close>

fun remove_blocks :: "nat \<Rightarrow> nat \<Rightarrow> nat \<Rightarrow> u32 \<Rightarrow> heap \<Rightarrow> heap option" where
  "remove_blocks 0 k i a h = Some h"
| "remove_blocks (Suc n) k i a h = do {
     b \<leftarrow> arena_to_block a k h;
     d \<leftarrow> nth_opt (descs h) i;
     ASSERT (b \<in> set (free_list d));
     remove_blocks n (k + 1) i a (put_desc i (d\<lparr>free_list := remove1 b (free_list d)\<rparr>) h)
   }"

text \<open>Giving a page or pages back; the debugging pattern that overwrites them destroys the header.\<close>

definition release_pages :: "u32 \<Rightarrow> nat \<Rightarrow> heap \<Rightarrow> heap option" where
  "release_pages a n h = do {
     ps \<leftarrow> palloc_free_multiple a n (heap_pages h);
     Some (h\<lparr>heap_pages := ps, arenas := (arenas h)(a := None)\<rparr>)
   }"

definition free_block :: "u32 \<Rightarrow> u32 \<Rightarrow> arena \<Rightarrow> nat \<Rightarrow> heap \<Rightarrow> heap option" where
  "free_block b a ar i h = do {
     d \<leftarrow> nth_opt (descs h) i;
     let h = h\<lparr>heap_pages := (heap_pages h)\<lparr>ram := fill b (dblock_size d) 0xcc (ram (heap_pages h))\<rparr>\<rparr>;
     h \<leftarrow> desc_acquire i h;
     d \<leftarrow> nth_opt (descs h) i;
     let h = put_desc i (d\<lparr>free_list := b # free_list d\<rparr>) h;
     let ar = ar\<lparr>free_cnt := size_add (free_cnt ar) 1\<rparr>;
     let h = put_arena a ar h;
     h \<leftarrow> (if blocks_per_arena d \<le> free_cnt ar
           then do {
             ASSERT (free_cnt ar = blocks_per_arena d);
             h \<leftarrow> remove_blocks (blocks_per_arena d) 0 i a h;
             release_pages a 1 h
           }
           else Some h);
     desc_release i h
   }"

definition free :: "u32 \<Rightarrow> heap \<Rightarrow> heap option" where
  "free p h =
     (if p = 0 then Some h
      else do {
        (a, ar) \<leftarrow> block_to_arena p h;
        case arena_desc ar of
          Some i \<Rightarrow> free_block p a ar i h
        | None \<Rightarrow> release_pages a (free_cnt ar) h
      })"

definition realloc :: "u32 \<Rightarrow> nat \<Rightarrow> heap \<Rightarrow> (u32 \<times> heap) option" where
  "realloc old_block new_size h =
     (if new_size = 0 then do { h \<leftarrow> free old_block h; Some (0, h) }
      else do {
        (new_block, h) \<leftarrow> malloc new_size h;
        if old_block \<noteq> 0 \<and> new_block \<noteq> 0
        then do {
          old_size \<leftarrow> block_size old_block h;
          let min_size = (if new_size < old_size then new_size else old_size);
          let m = ram (heap_pages h);
          let m' = (\<lambda>x. if unat (x - new_block) < min_size then m (old_block + (x - new_block)) else m x);
          h \<leftarrow> free old_block (h\<lparr>heap_pages := (heap_pages h)\<lparr>ram := m'\<rparr>\<rparr>);
          Some (new_block, h)
        }
        else Some (new_block, h)
      })"

section \<open>Pages of the kernel pool\<close>

abbreviation used :: "pages \<Rightarrow> u32 set" where
  "used ps \<equiv> used_pages (kernel_pool ps)"

lemma pool_of_0 [simp]: "pool_of 0 ps = kernel_pool ps"
  by (simp add: pool_of_def)

lemma put_pool_0 [simp]: "put_pool 0 p ps = ps\<lparr>kernel_pool := p\<rparr>"
  by (simp add: put_pool_def)

lemma get_kernel_pages:
  assumes "pages_wf ps" and "0 < n"
  obtains (got) a ps' where "palloc_get_multiple 0 n ps = Some (a, ps')" "a \<noteq> 0" "pg_ofs a = 0" "pages_wf ps'"
      "page_run a n \<inter> used ps = {}" "used ps' = used ps \<union> page_run a n"
    | (full) "palloc_get_multiple 0 n ps = Some (0, ps)"
  using assms
proof (cases rule: palloc_get_multiple_cases [where flags = 0])
  case (got i p)
  have pw: "pool_wf (kernel_pool ps)" using assms(1) by (simp add: pages_wf_def)
  have i: "i < bit_cnt (used_map (kernel_pool ps))" using got(1) assms(2) by (simp add: fits_def)
  show thesis
  proof (rule that(1) [OF got(7) got(3)])
    show "pg_ofs (page_addr (pool_of 0 ps) i) = 0" using page_addr_aligned [OF pw i] by simp
    show "page_run (page_addr (pool_of 0 ps) i) n \<inter> used ps = {}" using room_unused [OF pw] got(1) by simp
  qed (use got(6) pages_wf_put_pool [OF assms(1) got(4,5)] in simp_all)
next
  case full
  then show thesis using that(2) by simp
qed

lemma free_kernel_pages:
  assumes "pages_wf ps" and "0 < n" and "page_run a n \<subseteq> used ps"
  obtains ps' where "palloc_free_multiple a n ps = Some ps'" "pages_wf ps'" "used ps' = used ps - page_run a n"
proof -
  have pw: "pool_wf (kernel_pool ps)" using assms(1) by (simp add: pages_wf_def)
  have a: "a \<in> pool_pages (kernel_pool ps)"
    using page_run_self [OF assms(2), of a] assms(3) used_pages_subset by blast
  obtain q where q: "free_in_pool (kernel_pool ps) a n = Some q" "pool_wf q" "same_shape q (kernel_pool ps)"
    "used_pages q = used ps - page_run a n"
    using free_in_pool_run [OF pw a assms(2,3)] .
  show thesis
  proof (rule that)
    show "palloc_free_multiple a n ps = Some (ps\<lparr>kernel_pool := q, ram := fill a (PGSIZE * n) 0xcc (ram ps)\<rparr>)"
      using palloc_free_multiple_eq [OF assms(1) _ assms(2), of a 0] a q(1) by simp
  qed (use q pages_wf_put_pool [OF assms(1) q(2), of 0] in simp_all)
qed

section \<open>Blocks of an arena\<close>

definition blk :: "u32 \<Rightarrow> desc \<Rightarrow> nat \<Rightarrow> u32" where
  "blk a d k = a + of_nat sizeof_arena + of_nat k * of_nat (dblock_size d)"

definition arena_blocks :: "u32 \<Rightarrow> desc \<Rightarrow> u32 set" where
  "arena_blocks a d = blk a d ` {..<blocks_per_arena d}"

definition desc_ok :: "desc \<Rightarrow> bool" where
  "desc_ok d \<longleftrightarrow> 0 < dblock_size d \<and> 0 < blocks_per_arena d \<and>
     sizeof_arena + blocks_per_arena d * dblock_size d \<le> PGSIZE"

lemma unat_offset:
  assumes "pg_ofs a = 0" and "n < 4096"
  shows "unat (a + of_nat n) = unat a + n" and "pg_round_down (a + of_nat n) = a" and "unat (pg_ofs (a + of_nat n)) = n"
proof -
  obtain m where m: "unat a = 4096 * m" using assms(1) by (auto simp: pg_ofs_0_iff elim!: dvdE)
  have "unat a < 2 ^ LENGTH(32)" by (rule unsigned_less)
  with m have "unat a + n < 2 ^ 32" using assms(2) by simp
  moreover have "unat (of_nat n :: u32) = n" using assms(2) by (simp add: unat_of_nat)
  ultimately show eq: "unat (a + of_nat n) = unat a + n" using unat_add_lem [of a "of_nat n"] by simp
  have "unat (pg_round_down (a + of_nat n)) = unat a" using m assms(2) by (simp add: unat_pg_round_down eq)
  then show "pg_round_down (a + of_nat n) = a" by (rule unsigned_word_eqI)
  show "unat (pg_ofs (a + of_nat n)) = n" using m assms(2) by (simp add: unat_pg_ofs eq)
qed

lemma blk_offset: "blk a d k = a + of_nat (sizeof_arena + k * dblock_size d)"
  by (simp add: blk_def add.assoc)

lemma blk_bound:
  assumes "desc_ok d" and "k < blocks_per_arena d"
  shows "sizeof_arena + k * dblock_size d < 4096"
proof -
  have "Suc k * dblock_size d \<le> blocks_per_arena d * dblock_size d" using assms(2) by (intro mult_le_mono1) simp
  with assms(1) show ?thesis by (simp add: desc_ok_def PGSIZE_def)
qed

lemma blk_round: "pg_ofs a = 0 \<Longrightarrow> desc_ok d \<Longrightarrow> k < blocks_per_arena d \<Longrightarrow> pg_round_down (blk a d k) = a"
  by (simp only: blk_offset) (rule unat_offset(2), simp, rule blk_bound)

lemma blk_inj:
  assumes "pg_ofs a = 0" and "desc_ok d" and "j < blocks_per_arena d" and "k < blocks_per_arena d" and "blk a d j = blk a d k"
  shows "j = k"
proof -
  have "sizeof_arena + j * dblock_size d = sizeof_arena + k * dblock_size d"
    using assms unat_offset(3) [OF assms(1) blk_bound] by (metis blk_offset)
  with assms(2) show ?thesis by (simp add: desc_ok_def)
qed

lemma arena_blocks_round: "pg_ofs a = 0 \<Longrightarrow> desc_ok d \<Longrightarrow> b \<in> arena_blocks a d \<Longrightarrow> pg_round_down b = a"
  by (auto simp: arena_blocks_def blk_round)

lemma card_arena_blocks: "pg_ofs a = 0 \<Longrightarrow> desc_ok d \<Longrightarrow> card (arena_blocks a d) = blocks_per_arena d"
  unfolding arena_blocks_def by (subst card_image) (auto simp: inj_on_def dest: blk_inj)

lemma finite_arena_blocks [simp]: "finite (arena_blocks a d)"
  by (simp add: arena_blocks_def)

lemma arena_blocks_eq [simp]: "arena_blocks a (d\<lparr>free_list := fl\<rparr>) = arena_blocks a d"
    "arena_blocks a (d\<lparr>desc_lock := l\<rparr>) = arena_blocks a d"
  by (simp_all add: arena_blocks_def blk_def)

lemma desc_ok_eq [simp]: "desc_ok (d\<lparr>free_list := fl\<rparr>) = desc_ok d" "desc_ok (d\<lparr>desc_lock := l\<rparr>) = desc_ok d"
  by (simp_all add: desc_ok_def)

section \<open>The invariant\<close>

definition arena_run :: "u32 \<Rightarrow> arena \<Rightarrow> u32 set" where
  "arena_run a ar = page_run a (case arena_desc ar of None \<Rightarrow> free_cnt ar | Some _ \<Rightarrow> 1)"

text \<open>A header is in order if its pages are in use and, in an arena of blocks, its counter is the
  number of its blocks on the free list.  Only the arena \<open>full\<close> may have all its blocks there.\<close>

definition arena_ok :: "u32 option \<Rightarrow> heap \<Rightarrow> u32 \<Rightarrow> arena \<Rightarrow> bool" where
  "arena_ok full h a ar \<longleftrightarrow> magic ar = ARENA_MAGIC \<and> arena_run a ar \<subseteq> used (heap_pages h) \<and>
     (case arena_desc ar of
        None \<Rightarrow> 0 < free_cnt ar
      | Some i \<Rightarrow> i < length (descs h) \<and>
          free_cnt ar = card (set (free_list (descs h ! i)) \<inter> arena_blocks a (descs h ! i)) \<and>
          (free_cnt ar = blocks_per_arena (descs h ! i) \<longrightarrow> full = Some a))"

definition block_ok :: "heap \<Rightarrow> nat \<Rightarrow> u32 \<Rightarrow> bool" where
  "block_ok h i b = (case arenas h (pg_round_down b) of
     None \<Rightarrow> False | Some ar \<Rightarrow> arena_desc ar = Some i \<and> b \<in> arena_blocks (pg_round_down b) (descs h ! i))"

definition heap_inv :: "nat option \<Rightarrow> u32 option \<Rightarrow> heap \<Rightarrow> bool" where
  "heap_inv lk full h \<longleftrightarrow> pages_wf (heap_pages h) \<and>
     (\<forall>i < length (descs h). desc_ok (descs h ! i) \<and> (desc_lock (descs h ! i) \<longleftrightarrow> lk = Some i) \<and>
        distinct (free_list (descs h ! i)) \<and> (\<forall>b \<in> set (free_list (descs h ! i)). block_ok h i b)) \<and>
     (\<forall>a ar. arenas h a = Some ar \<longrightarrow> arena_ok full h a ar) \<and>
     (\<forall>a a' ar ar'. arenas h a = Some ar \<longrightarrow> arenas h a' = Some ar' \<longrightarrow> a \<noteq> a' \<longrightarrow>
        arena_run a ar \<inter> arena_run a' ar' = {})"

definition heap_wf :: "heap \<Rightarrow> bool" where
  "heap_wf h \<longleftrightarrow> heap_inv None None h"

text \<open>The blocks the program holds.\<close>

definition held :: "heap \<Rightarrow> u32 \<Rightarrow> arena \<Rightarrow> u32 set" where
  "held h a ar = (case arena_desc ar of
     None \<Rightarrow> {a + of_nat sizeof_arena}
   | Some i \<Rightarrow> arena_blocks a (descs h ! i) - set (free_list (descs h ! i)))"

definition live :: "heap \<Rightarrow> u32 set" where
  "live h = {b. \<exists>a ar. arenas h a = Some ar \<and> b \<in> held h a ar}"

lemma heap_invD:
  assumes "heap_inv lk full h"
  shows "pages_wf (heap_pages h)"
    and "i < length (descs h) \<Longrightarrow> desc_ok (descs h ! i)"
    and "i < length (descs h) \<Longrightarrow> desc_lock (descs h ! i) \<longleftrightarrow> lk = Some i"
    and "i < length (descs h) \<Longrightarrow> distinct (free_list (descs h ! i))"
    and "i < length (descs h) \<Longrightarrow> b \<in> set (free_list (descs h ! i)) \<Longrightarrow> block_ok h i b"
    and "arenas h a = Some ar \<Longrightarrow> arena_ok full h a ar"
    and "arenas h a = Some ar \<Longrightarrow> arenas h a' = Some ar' \<Longrightarrow> a \<noteq> a' \<Longrightarrow> arena_run a ar \<inter> arena_run a' ar' = {}"
  using assms unfolding heap_inv_def by blast+

lemma arena_run_self: "arena_ok full h a ar \<Longrightarrow> a \<in> arena_run a ar"
  by (auto simp: arena_ok_def arena_run_def page_run_self split: option.splits)

lemma used_aligned: "pages_wf ps \<Longrightarrow> a \<in> used ps \<Longrightarrow> pg_ofs a = 0 \<and> a \<noteq> 0"
  using pool_pages_aligned used_pages_subset by (fastforce simp: pages_wf_def)

lemma arena_aligned:
  assumes "heap_inv lk full h" and "arenas h a = Some ar"
  shows "pg_ofs a = 0" and "a \<noteq> 0" and "a \<in> used (heap_pages h)"
proof -
  have ok: "arena_ok full h a ar" using heap_invD(6) [OF assms] .
  then show a: "a \<in> used (heap_pages h)" using arena_run_self [OF ok] by (auto simp: arena_ok_def)
  then show "pg_ofs a = 0" "a \<noteq> 0" using used_aligned [OF heap_invD(1) [OF assms(1)]] by auto
qed

lemma held_round:
  assumes inv: "heap_inv lk full h" and ar: "arenas h a = Some ar" and b: "b \<in> held h a ar"
  shows "pg_round_down b = a"
proof (cases "arena_desc ar")
  case None
  then show ?thesis
    using b unat_offset(2) [OF arena_aligned(1) [OF inv ar], of sizeof_arena] by (simp add: held_def sizeof_arena_def)
next
  case (Some i)
  then have "i < length (descs h)" using heap_invD(6) [OF inv ar] by (simp add: arena_ok_def)
  then show ?thesis
    using b Some arena_blocks_round [OF arena_aligned(1) [OF inv ar] heap_invD(2) [OF inv]] by (auto simp: held_def)
qed

lemma live_iff:
  "heap_inv lk full h \<Longrightarrow> b \<in> live h \<longleftrightarrow> (\<exists>ar. arenas h (pg_round_down b) = Some ar \<and> b \<in> held h (pg_round_down b) ar)"
  using held_round unfolding live_def by blast

section \<open>Changing one arena of blocks\<close>

lemma small_change:
  fixes l' :: bool and fl' :: "u32 list"
  assumes inv: "heap_inv lk full h" and lk: "lk = None \<or> lk = Some i" and i: "i < length (descs h)"
    and a: "pg_ofs a = 0"
    and ds: "descs h' = (descs h)[i := (descs h ! i)\<lparr>free_list := fl', desc_lock := l'\<rparr>]"
    and as: "arenas h' = (arenas h)(a := x')"
    and other: "\<And>b. b \<notin> arena_blocks a (descs h ! i) \<Longrightarrow> b \<in> set fl' \<longleftrightarrow> b \<in> set (free_list (descs h ! i))"
    and dist: "distinct fl'"
    and x': "\<And>ar. x' = Some ar \<Longrightarrow> magic ar = ARENA_MAGIC \<and> arena_desc ar = Some i \<and> a \<in> used (heap_pages h') \<and>
       free_cnt ar = card (set fl' \<inter> arena_blocks a (descs h ! i)) \<and>
       (free_cnt ar = blocks_per_arena (descs h ! i) \<longrightarrow> full' = Some a)"
    and none: "x' = None \<Longrightarrow> set fl' \<inter> arena_blocks a (descs h ! i) = {}"
    and full: "\<And>a'. a' \<noteq> a \<Longrightarrow> full = Some a' \<Longrightarrow> full' = Some a'"
    and pw: "pages_wf (heap_pages h')" and pg: "used (heap_pages h) - {a} \<subseteq> used (heap_pages h')"
    and old: "\<And>a' ar. arenas h a' = Some ar \<Longrightarrow> a' \<noteq> a \<Longrightarrow> a \<notin> arena_run a' ar"
    and same_desc: "\<And>ar j. arenas h a = Some ar \<Longrightarrow> arena_desc ar = Some j \<Longrightarrow> j = i"
  shows "heap_inv (if l' then Some i else None) full' h'"
    and "\<And>b. b \<in> live h' \<longleftrightarrow>
       (if pg_round_down b = a then x' \<noteq> None \<and> b \<in> arena_blocks a (descs h ! i) - set fl' else b \<in> live h)"
proof -
  let ?d = "descs h ! i"
  note D = heap_invD [OF inv]
  have len: "length (descs h') = length (descs h)" by (simp add: ds)
  have d': "descs h' ! j = (if j = i then ?d\<lparr>free_list := fl', desc_lock := l'\<rparr> else descs h ! j)" if "j < length (descs h)" for j
    using that by (simp add: ds)
  have blocks: "arena_blocks a' (descs h' ! j) = arena_blocks a' (descs h ! j)" if "j < length (descs h)" for j a'
    using d' [OF that] by simp
  have mem: "b \<in> set (free_list (descs h' ! j)) \<longleftrightarrow> b \<in> set (free_list (descs h ! j))"
    if "j < length (descs h)" "pg_round_down b \<noteq> a" for j b
  proof -
    have "b \<notin> arena_blocks a ?d" using arena_blocks_round [OF a D(2) [OF i]] that(2) by blast
    then show ?thesis using d' [OF that(1)] other by simp
  qed
  have bpa: "blocks_per_arena (descs h' ! j) = blocks_per_arena (descs h ! j)" if "j < length (descs h)" for j
    using d' [OF that] by simp
  have cut: "set (free_list (descs h' ! j)) \<inter> arena_blocks a' (descs h ! j) = set (free_list (descs h ! j)) \<inter> arena_blocks a' (descs h ! j)"
    if "pg_ofs a' = 0" "j < length (descs h)" "a' \<noteq> a" for a' j
    using mem [OF that(2)] arena_blocks_round [OF that(1) D(2) [OF that(2)]] that(3) by blast
  have arena_other: "arena_ok full' h' a' ar" if "arenas h a' = Some ar" "a' \<noteq> a" for a' ar
  proof -
    have ok: "arena_ok full h a' ar" using D(6) [OF that(1)] .
    have "arena_run a' ar \<subseteq> used (heap_pages h')" using ok old [OF that] pg by (auto simp: arena_ok_def)
    then show ?thesis
      using ok full [OF that(2)] arena_aligned(1) [OF inv that(1)] that(2)
      by (auto simp: arena_ok_def len blocks cut bpa split: option.splits)
  qed
  have bo': "block_ok h' j b" if j: "j < length (descs h)" and b: "b \<in> set (free_list (descs h' ! j))" for j b
  proof (cases "pg_round_down b = a")
    case False
    then have "block_ok h j b" using D(5) [OF j] mem [OF j False] b by simp
    with False show ?thesis by (auto simp: block_ok_def as blocks [OF j] split: option.splits)
  next
    case True
    show ?thesis
    proof (cases "j = i")
      case ji: True
      have ain: "b \<in> arena_blocks a ?d"
      proof (rule ccontr)
        assume n: "b \<notin> arena_blocks a ?d"
        then have "b \<in> set (free_list ?d)" using other [OF n] b d' [OF i] ji by simp
        then have "block_ok h i b" using D(5) [OF i] by simp
        with n True show False by (simp add: block_ok_def split: option.splits)
      qed
      have "x' \<noteq> None" using none ain b d' [OF i] ji by auto
      then obtain ar where "x' = Some ar" by blast
      with x' [OF this] ain True ji blocks [OF i] show ?thesis by (simp add: block_ok_def as)
    next
      case ne: False
      have b': "b \<in> set (free_list (descs h ! j))" using b d' [OF j] ne by simp
      then have bo: "block_ok h j b" using D(5) [OF j] by simp
      then obtain ar where ar: "arenas h a = Some ar" "arena_desc ar = Some j"
        using True by (auto simp: block_ok_def split: option.splits)
      show ?thesis using same_desc [OF ar] ne by simp
    qed
  qed
  have "desc_ok (descs h' ! j) \<and> (desc_lock (descs h' ! j) \<longleftrightarrow> (if l' then Some i else None) = Some j) \<and>
      distinct (free_list (descs h' ! j))" if "j < length (descs h)" for j
    using d' [OF that] D(2,3,4) [OF that] lk dist by auto
  moreover have "arena_ok full' h' a' ar" if "arenas h' a' = Some ar" for a' ar
  proof (cases "a' = a")
    case True
    then show ?thesis
      using x' [of ar] that i d' [OF i] by (auto simp: as arena_ok_def len arena_run_def page_run_def)
  qed (use that arena_other as in simp)
  moreover have run_a: "arena_run a ar = {a}" if "x' = Some ar" for ar
    using x' [OF that] by (simp add: arena_run_def page_run_def lessThan_Suc)
  have "arena_run a1 ar1 \<inter> arena_run a2 ar2 = {}" if "arenas h' a1 = Some ar1" "arenas h' a2 = Some ar2" "a1 \<noteq> a2" for a1 a2 ar1 ar2
    using that D(7) [of a1 ar1 a2 ar2] old [of a1 ar1] old [of a2 ar2] run_a [of ar1] run_a [of ar2]
    by (auto simp: as split: if_splits)
  ultimately show inv': "heap_inv (if l' then Some i else None) full' h'"
    using pw bo' unfolding heap_inv_def len by blast
  show "b \<in> live h' \<longleftrightarrow>
       (if pg_round_down b = a then x' \<noteq> None \<and> b \<in> arena_blocks a ?d - set fl' else b \<in> live h)" for b
  proof (cases "pg_round_down b = a")
    case True
    then show ?thesis
      using x' d' [OF i] blocks [OF i] by (cases x') (auto simp: live_iff [OF inv'] as held_def)
  next
    case False
    have "b \<in> held h' (pg_round_down b) ar \<longleftrightarrow> b \<in> held h (pg_round_down b) ar" if "arenas h (pg_round_down b) = Some ar" for ar
      using D(6) [OF that] mem [OF _ False] blocks by (auto simp: held_def arena_ok_def split: option.splits)
    with False show ?thesis by (auto simp: live_iff [OF inv'] live_iff [OF inv] as)
  qed
qed

section \<open>The steps of the operations\<close>

lemma put_simps [simp]:
  "heap_pages (put_desc i d h) = heap_pages h" "arenas (put_desc i d h) = arenas h"
  "descs (put_desc i d h) = (descs h)[i := d]" "heap_pages (put_arena a ar h) = heap_pages h"
  "descs (put_arena a ar h) = descs h" "arenas (put_arena a ar h) = (arenas h)(a \<mapsto> ar)"
  by (simp_all add: put_desc_def put_arena_def)

lemma block_multiple:
  assumes "pg_ofs a = 0" and "desc_ok d" and "b \<in> arena_blocks a d"
  shows "(pg_ofs b - of_nat sizeof_arena) mod of_nat (dblock_size d) = 0"
proof -
  obtain k where k: "k < blocks_per_arena d" "b = blk a d k" using assms(3) by (auto simp: arena_blocks_def)
  note bound = blk_bound [OF assms(2) k(1)]
  have "unat (pg_ofs b) = sizeof_arena + k * dblock_size d"
    using unat_offset(3) [OF assms(1) bound] by (simp only: k(2) blk_offset)
  then have "pg_ofs b = of_nat (sizeof_arena + k * dblock_size d)" by (metis of_nat_unat ucast_id)
  then have eq: "pg_ofs b - of_nat sizeof_arena = of_nat (k * dblock_size d)" by simp
  have "dblock_size d < 4096" using assms(2) by (cases "blocks_per_arena d") (auto simp: desc_ok_def PGSIZE_def sizeof_arena_def)
  then have u: "unat (of_nat (dblock_size d) :: u32) = dblock_size d" "unat (of_nat (k * dblock_size d) :: u32) = k * dblock_size d"
    using bound by (simp_all only: unat_of_nat) simp_all
  have "unat (of_nat (k * dblock_size d) mod of_nat (dblock_size d) :: u32) = 0"
    unfolding unat_mod_distrib u by simp
  then show ?thesis unfolding eq by (simp add: unat_eq_zero)
qed

lemma block_to_arena_small:
  assumes "heap_inv lk full h" and "arenas h a = Some ar" and "arena_desc ar = Some i" and "b \<in> arena_blocks a (descs h ! i)"
  shows "block_to_arena b h = Some (a, ar)"
proof -
  have i: "i < length (descs h)" "magic ar = ARENA_MAGIC"
    using heap_invD(6) [OF assms(1,2)] assms(3) by (auto simp: arena_ok_def)
  note al = arena_aligned [OF assms(1,2)] and ok = heap_invD(2) [OF assms(1) i(1)]
  show ?thesis
    using arena_blocks_round [OF al(1) ok assms(4)] block_multiple [OF al(1) ok assms(4)] assms(2,3) i al(2)
    by (simp add: block_to_arena_def Let_def)
qed

lemma block_to_arena_desc:
  "length (descs h') = length (descs h) \<Longrightarrow> arenas h' = arenas h \<Longrightarrow>
   (\<And>i. i < length (descs h) \<Longrightarrow> dblock_size (descs h' ! i) = dblock_size (descs h ! i)) \<Longrightarrow>
   block_to_arena b h' = block_to_arena b h"
  by (cases "arenas h (pg_round_down b)") (auto simp: block_to_arena_def nth_opt_def Let_def split: option.splits)

lemma size_add_pred: "0 < n \<Longrightarrow> n < 2 ^ 32 \<Longrightarrow> size_add n (2 ^ 32 - 1) = n - 1"
proof -
  assume n: "0 < n" "n < 2 ^ 32"
  then have "n + (2 ^ 32 - 1) = (n - 1) + 2 ^ 32" by simp
  then have "(n + (2 ^ 32 - 1)) mod 2 ^ 32 = (n - 1) mod 2 ^ 32" by (metis mod_add_self2)
  with n show ?thesis by (simp add: size_add_def)
qed

lemma bpa_bound: "desc_ok d \<Longrightarrow> blocks_per_arena d < 2 ^ 32 - 1"
  by (cases "dblock_size d") (auto simp: desc_ok_def PGSIZE_def)

lemma take_block_ok:
  assumes inv: "heap_inv (Some i) full h" and i: "i < length (descs h)"
    and fl: "free_list (descs h ! i) = b # bs" and full: "full = None \<or> full = Some (pg_round_down b)"
  obtains h' where "take_block i h = Some (b, h')" "heap_wf h'" "live h' = insert b (live h)" "b \<notin> live h" "b \<noteq> 0"
    "block_size b h' = Some (dblock_size (descs h ! i))"
proof -
  let ?d = "descs h ! i" let ?a = "pg_round_down b"
  note D = heap_invD [OF inv]
  have "block_ok h i b" using D(5) [OF i] fl by simp
  then obtain ar where ar: "arenas h ?a = Some ar" "arena_desc ar = Some i" "b \<in> arena_blocks ?a ?d"
    by (auto simp: block_ok_def split: option.splits)
  note al = arena_aligned [OF inv ar(1)] and ok = D(2) [OF i]
  have aok: "magic ar = ARENA_MAGIC" "free_cnt ar = card (set (b # bs) \<inter> arena_blocks ?a ?d)"
    using D(6) [OF ar(1)] ar(2) by (simp_all add: arena_ok_def fl)
  have dist: "distinct (b # bs)" using D(4) [OF i] fl by simp
  have cnt: "free_cnt ar = Suc (card (set bs \<inter> arena_blocks ?a ?d))"
    using aok(2) dist ar(3) by (simp add: Int_insert_left)
  moreover have "free_cnt ar \<le> blocks_per_arena ?d"
    unfolding aok(2) using card_arena_blocks [OF al(1) ok] card_mono [OF finite_arena_blocks [of ?a ?d] Int_lower2] by metis
  ultimately have dec: "size_add (free_cnt ar) (2 ^ 32 - 1) = card (set bs \<inter> arena_blocks ?a ?d)"
      "card (set bs \<inter> arena_blocks ?a ?d) < blocks_per_arena ?d"
    using size_add_pred [of "free_cnt ar"] bpa_bound [OF ok] by simp_all
  let ?ar = "ar\<lparr>free_cnt := card (set bs \<inter> arena_blocks ?a ?d)\<rparr>"
  define h' where "h' = put_desc i (?d\<lparr>free_list := bs, desc_lock := False\<rparr>) (put_arena ?a ?ar h)"
  have "block_to_arena b (put_desc i (?d\<lparr>free_list := bs\<rparr>) h) = block_to_arena b h"
    using i by (intro block_to_arena_desc) (auto simp: nth_list_update)
  also have "\<dots> = Some (?a, ar)" by (rule block_to_arena_small [OF inv ar])
  finally have take: "take_block i h = Some (b, h')"
    using i fl D(3) [OF i] dec(1)
    by (simp add: take_block_def Let_def desc_release_def h'_def put_desc_def put_arena_def)
  have inv': "heap_inv (if False then Some i else None) None h'" and live':
    "\<And>x. x \<in> live h' \<longleftrightarrow> (if pg_round_down x = ?a then Some ?ar \<noteq> None \<and> x \<in> arena_blocks ?a ?d - set bs else x \<in> live h)"
  proof -
    have pre: "x \<notin> arena_blocks ?a ?d \<Longrightarrow> x \<in> set bs \<longleftrightarrow> x \<in> set (free_list ?d)" for x using fl ar(3) by auto
    have old: "arenas h a' = Some ar' \<Longrightarrow> a' \<noteq> ?a \<Longrightarrow> ?a \<notin> arena_run a' ar'" for a' ar'
      using D(7) [OF ar(1), of a' ar'] arena_run_self [OF D(6) [OF ar(1)]] by blast
    note sc = small_change [OF inv _ i al(1), where h' = h' and fl' = bs and l' = False and x' = "Some ?ar" and full' = None]
    show "heap_inv (if False then Some i else None) None h'"
      by (rule sc(1)) (use pre old dist aok(1) ar dec(2) al(3) D(1) full in \<open>auto simp: h'_def\<close>)
    show "x \<in> live h' \<longleftrightarrow> (if pg_round_down x = ?a then Some ?ar \<noteq> None \<and> x \<in> arena_blocks ?a ?d - set bs else x \<in> live h)" for x
      by (rule sc(2)) (use pre old dist aok(1) ar dec(2) al(3) D(1) full in \<open>auto simp: h'_def\<close>)
  qed
  have live: "x \<in> live h \<longleftrightarrow> x \<in> arena_blocks ?a ?d - set (b # bs)" if "pg_round_down x = ?a" for x
    using ar by (auto simp: live_iff [OF inv] that held_def fl)
  have "x \<in> live h' \<longleftrightarrow> x \<in> insert b (live h)" for x
    using live' [of x] live [of x] ar(3) dist by (cases "pg_round_down x = ?a") auto
  then have "live h' = insert b (live h)" by blast
  moreover have "b \<notin> live h" using live [of b] by simp
  moreover have "b \<noteq> 0" using al(2) by (auto simp: pg_round_down_def)
  moreover have wf: "heap_wf h'" using inv' by (simp add: heap_wf_def)
  moreover have "block_to_arena b h' = Some (?a, ?ar)"
    using inv' i ar by (intro block_to_arena_small [where i = i]) (auto simp: h'_def)
  then have "block_size b h' = Some (dblock_size ?d)"
    using ar(2) i by (simp add: block_size_def) (simp add: h'_def)
  ultimately show thesis using take that by blast
qed

lemma add_blocks_ok:
  "i < length (descs h) \<Longrightarrow> a \<noteq> 0 \<Longrightarrow> arenas h a = Some ar \<Longrightarrow> magic ar = ARENA_MAGIC \<Longrightarrow> arena_desc ar = Some i \<Longrightarrow>
   k + n \<le> blocks_per_arena (descs h ! i) \<Longrightarrow>
   add_blocks n k i a h =
     Some (put_desc i ((descs h ! i)\<lparr>free_list := free_list (descs h ! i) @ map (blk a (descs h ! i)) [k..<k + n]\<rparr>) h)"
proof (induction n arbitrary: k h)
  case 0
  then show ?case by (simp add: put_desc_def)
next
  case (Suc n)
  let ?d = "descs h ! i"
  let ?h = "put_desc i (?d\<lparr>free_list := free_list ?d @ [blk a ?d k]\<rparr>) h"
  have "add_blocks n (k + 1) i a ?h =
      Some (put_desc i ((descs ?h ! i)\<lparr>free_list := free_list (descs ?h ! i) @ map (blk a (descs ?h ! i)) [k + 1..<k + 1 + n]\<rparr>) ?h)"
    using Suc.prems by (intro Suc.IH) auto
  moreover have "blk a (?d\<lparr>free_list := fl\<rparr>) = blk a ?d" for fl by (simp add: blk_def fun_eq_iff)
  moreover have "[k..<k + Suc n] = k # [k + 1..<k + 1 + n]" by (simp add: upt_conv_Cons)
  ultimately show ?case
    using Suc.prems by (simp add: arena_to_block_def blk_def [symmetric] put_desc_def)
qed

lemma map_blk_distinct: "pg_ofs a = 0 \<Longrightarrow> desc_ok d \<Longrightarrow> distinct (map (blk a d) [0..<blocks_per_arena d])"
  by (auto simp: distinct_map inj_on_def dest: blk_inj)

lemma set_map_blk: "set (map (blk a d) [0..<blocks_per_arena d]) = arena_blocks a d"
  by (auto simp: arena_blocks_def)

lemma new_arena_cases:
  assumes inv: "heap_inv (Some i) None h" and i: "i < length (descs h)" and fl: "free_list (descs h ! i) = []"
  obtains (got) a h' b bs where "new_arena i h = Some (True, h')" "heap_inv (Some i) (Some a) h'" "live h' = live h"
      "length (descs h') = length (descs h)" "free_list (descs h' ! i) = b # bs" "pg_round_down b = a"
      "dblock_size (descs h' ! i) = dblock_size (descs h ! i)"
    | (full) "new_arena i h = Some (False, h)"
proof -
  let ?d = "descs h ! i"
  note D = heap_invD [OF inv]
  note ok = D(2) [OF i]
  show thesis using D(1) zero_less_one
  proof (cases rule: get_kernel_pages)
    case full
    then show thesis using i by (intro that(2)) (simp add: new_arena_def palloc_get_page_def)
  next
    case (got a ps)
    have run: "page_run a 1 = {a}" by (simp add: page_run_def lessThan_Suc)
    let ?ar = "\<lparr>magic = ARENA_MAGIC, arena_desc = Some i, free_cnt = blocks_per_arena ?d\<rparr>"
    let ?fl = "map (blk a ?d) [0..<blocks_per_arena ?d]"
    define h' where "h' = put_desc i (?d\<lparr>free_list := ?fl\<rparr>) (put_arena a ?ar (h\<lparr>heap_pages := ps\<rparr>))"
    have "add_blocks (blocks_per_arena ?d) 0 i a (put_arena a ?ar (h\<lparr>heap_pages := ps\<rparr>)) = Some h'"
      using i got(2) fl by (subst add_blocks_ok) (auto simp: h'_def)
    then have new: "new_arena i h = Some (True, h')"
      using i got(1,2) by (simp add: new_arena_def palloc_get_page_def Let_def)
    have fresh: "a \<notin> used (heap_pages h)" using got(5) run by blast
    have none: "arenas h a = None" using arena_aligned(3) [OF inv, of a] fresh by (cases "arenas h a") auto
    have lock: "?d\<lparr>free_list := fl', desc_lock := True\<rparr> = ?d\<lparr>free_list := fl'\<rparr>" for fl'
      using D(3) [OF i] by (cases ?d) simp
    have old: "arenas h a' = Some ar' \<Longrightarrow> a' \<noteq> a \<Longrightarrow> a \<notin> arena_run a' ar'" for a' ar'
      using D(6) [of a' ar'] fresh by (auto simp: arena_ok_def)
    note sc = small_change [OF inv _ i got(3), where h' = h' and fl' = ?fl and l' = True and x' = "Some ?ar" and full' = "Some a"]
    have prems: "distinct ?fl" "card (set ?fl \<inter> arena_blocks a ?d) = blocks_per_arena ?d" "set ?fl = arena_blocks a ?d"
      using map_blk_distinct [OF got(3) ok] card_arena_blocks [OF got(3) ok] set_map_blk [of a ?d] by auto
    have us: "used ps = insert a (used (heap_pages h))" using got(6) run by simp
    have inv': "heap_inv (if True then Some i else None) (Some a) h'"
      by (rule sc(1)) (use none old prems us got(4) fl lock in \<open>auto simp: h'_def simp del: set_map set_upt\<close>)
    have live': "x \<in> live h' \<longleftrightarrow> (if pg_round_down x = a then Some ?ar \<noteq> None \<and> x \<in> arena_blocks a ?d - set ?fl else x \<in> live h)" for x
      by (rule sc(2)) (use none old prems us got(4) fl lock in \<open>auto simp: h'_def simp del: set_map set_upt\<close>)
    have "x \<in> live h' \<longleftrightarrow> x \<in> live h" for x
      using live' [of x] prems(3) none by (cases "pg_round_down x = a") (auto simp: live_iff [OF inv])
    then have "live h' = live h" by blast
    moreover have "?fl \<noteq> []" using ok by (simp add: desc_ok_def)
    then obtain b bs where fb: "?fl = b # bs" by (cases ?fl) auto
    moreover have "pg_round_down b = a" using arena_blocks_round [OF got(3) ok] prems(3) fb by (metis list.set_intros(1))
    moreover have "free_list (descs h' ! i) = ?fl" "dblock_size (descs h' ! i) = dblock_size ?d" using i by (simp_all add: h'_def)
    ultimately show thesis
      using new inv' that(1) [of h' a b bs] by (simp add: h'_def)
  qed
qed

lemma big_change:
  assumes inv: "heap_inv lk full h" and ds: "descs h' = descs h" and as: "arenas h' = (arenas h)(a := x')"
    and was: "\<And>ar. arenas h a = Some ar \<Longrightarrow> arena_desc ar = None"
    and x': "\<And>ar. x' = Some ar \<Longrightarrow> magic ar = ARENA_MAGIC \<and> arena_desc ar = None \<and> 0 < free_cnt ar \<and>
       page_run a (free_cnt ar) \<subseteq> used (heap_pages h')"
    and pw: "pages_wf (heap_pages h')"
    and pg: "\<And>a' ar. arenas h a' = Some ar \<Longrightarrow> a' \<noteq> a \<Longrightarrow> arena_run a' ar \<subseteq> used (heap_pages h') \<and>
       (\<forall>ar'. x' = Some ar' \<longrightarrow> page_run a (free_cnt ar') \<inter> arena_run a' ar = {})"
  shows "heap_inv lk full h'"
    and "\<And>b. b \<in> live h' \<longleftrightarrow> (if pg_round_down b = a then x' \<noteq> None \<and> b = a + of_nat sizeof_arena else b \<in> live h)"
proof -
  note D = heap_invD [OF inv]
  have bo: "block_ok h' i b" if "i < length (descs h)" "b \<in> set (free_list (descs h ! i))" for i b
    using D(5) [OF that] was by (auto simp: block_ok_def as ds split: option.splits)
  have ao: "arena_ok full h' a' ar" if "arenas h' a' = Some ar" for a' ar
  proof (cases "a' = a")
    case True
    then show ?thesis using x' that by (simp add: as arena_ok_def arena_run_def)
  next
    case False
    with that have ar: "arenas h a' = Some ar" by (simp add: as)
    show ?thesis using D(6) [OF ar] pg [OF ar False] by (auto simp: arena_ok_def ds split: option.splits)
  qed
  have run_a: "arena_run a ar = page_run a (free_cnt ar)" if "x' = Some ar" for ar
    using x' [OF that] by (simp add: arena_run_def)
  have "arena_run a1 ar1 \<inter> arena_run a2 ar2 = {}" if "arenas h' a1 = Some ar1" "arenas h' a2 = Some ar2" "a1 \<noteq> a2" for a1 a2 ar1 ar2
  proof -
    consider "a1 = a" | "a2 = a" | "a1 \<noteq> a" "a2 \<noteq> a" by blast
    then show ?thesis
    proof cases
      case 1
      then have "x' = Some ar1" "arenas h a2 = Some ar2" "a2 \<noteq> a" using that by (auto simp: as)
      with pg [OF this(2,3)] run_a [OF this(1)] 1 show ?thesis by blast
    next
      case 2
      then have "x' = Some ar2" "arenas h a1 = Some ar1" "a1 \<noteq> a" using that by (auto simp: as)
      with pg [OF this(2,3)] run_a [OF this(1)] 2 show ?thesis by blast
    next
      case 3
      with that D(7) [of a1 ar1 a2 ar2] show ?thesis by (simp add: as)
    qed
  qed
  with pw bo ao show inv': "heap_inv lk full h'"
    unfolding heap_inv_def ds using D(2,3,4) by simp
  show "b \<in> live h' \<longleftrightarrow> (if pg_round_down b = a then x' \<noteq> None \<and> b = a + of_nat sizeof_arena else b \<in> live h)" for b
  proof (cases "pg_round_down b = a")
    case True
    then show ?thesis using x' by (cases x') (auto simp: live_iff [OF inv'] as held_def)
  next
    case False
    have "held h' = held h" by (simp add: held_def fun_eq_iff ds split: option.splits)
    with False show ?thesis by (simp add: live_iff [OF inv'] live_iff [OF inv] as)
  qed
qed

lemma find_desc_cases:
  "(find_desc n k ds = k + length ds \<and> (\<forall>d \<in> set ds. dblock_size d < n)) \<or>
   (\<exists>j < length ds. find_desc n k ds = k + j \<and> n \<le> dblock_size (ds ! j) \<and> (\<forall>i < j. dblock_size (ds ! i) < n))"
proof (induction ds arbitrary: k)
  case (Cons d ds)
  show ?case
  proof (cases "n \<le> dblock_size d")
    case True
    then show ?thesis by (intro disjI2 exI [of _ 0]) simp
  next
    case False
    show ?thesis
      using Cons.IH [of "k + 1"]
    proof (elim disjE exE conjE)
      fix j assume "j < length ds" "find_desc n (k + 1) ds = k + 1 + j" "n \<le> dblock_size (ds ! j)" "\<forall>i<j. dblock_size (ds ! i) < n"
      with False show ?thesis by (intro disjI2 exI [of _ "Suc j"]) (auto simp: nth_Cons' )
    qed (use False in auto)
  qed
qed simp

lemma malloc_big_pages:
  assumes inv: "heap_wf h" and cnt: "size_add (size_add n sizeof_arena) (PGSIZE - 1) div PGSIZE = np" and pos: "0 < np"
  obtains b h' where "malloc_big n h = Some (b, h')" "heap_wf h'" "b = 0 \<Longrightarrow> h' = h"
    "b \<noteq> 0 \<Longrightarrow> b \<notin> live h \<and> live h' = insert b (live h) \<and> block_size b h' = Some (4096 * np - 12)"
proof -
  note inv' = inv [unfolded heap_wf_def]
  note D = heap_invD [OF inv']
  show thesis using D(1) pos
  proof (cases rule: get_kernel_pages)
    case full
    then have "malloc_big n h = Some (0, h)" unfolding malloc_big_def cnt Let_def by simp
    then show thesis using inv by (rule that) simp_all
  next
    case (got a ps)
    let ?ar = "\<lparr>magic = ARENA_MAGIC, arena_desc = None, free_cnt = np\<rparr>"
    define h' where "h' = put_arena a ?ar (h\<lparr>heap_pages := ps\<rparr>)"
    let ?b = "a + of_nat sizeof_arena"
    have res: "malloc_big n h = Some (?b, h')" using got(1,2) unfolding malloc_big_def cnt Let_def by (simp add: h'_def)
    have sub: "arenas h a' = Some ar \<Longrightarrow> arena_run a' ar \<subseteq> used (heap_pages h)" for a' ar
      using D(6) by (simp add: arena_ok_def)
    have none: "arenas h a = None"
      using arena_aligned(3) [OF inv', of a] page_run_self [OF pos, of a] got(5) by (cases "arenas h a") auto
    note bc = big_change [OF inv', of h' a "Some ?ar"]
    have wf: "heap_inv None None h'"
      by (rule bc(1)) (use none pos got(4,5,6) sub in \<open>fastforce simp: h'_def\<close>)+
    have live': "x \<in> live h' \<longleftrightarrow> (if pg_round_down x = a then Some ?ar \<noteq> None \<and> x = ?b else x \<in> live h)" for x
      by (rule bc(2)) (use none pos got(4,5,6) sub in \<open>fastforce simp: h'_def\<close>)+
    have round: "pg_round_down ?b = a" "unat (pg_ofs ?b) = 12"
      using unat_offset(2,3) [OF got(3), of sizeof_arena] by (simp_all add: sizeof_arena_def)
    have notin: "x \<notin> live h" if "pg_round_down x = a" for x using none that by (simp add: live_iff [OF inv'])
    have "x \<in> live h' \<longleftrightarrow> x \<in> insert ?b (live h)" for x
      using live' [of x] notin [of x] round(1) by auto
    then have "live h' = insert ?b (live h)" by blast
    moreover have "pg_ofs ?b = of_nat sizeof_arena"
      using round(2) by (metis of_nat_unat sizeof_arena_def ucast_id)
    then have "block_size ?b h' = Some (4096 * np - 12)"
      using round got(2) by (simp add: block_size_def block_to_arena_def Let_def h'_def PGSIZE_def)
    moreover have "?b \<noteq> 0" using round(2) by (auto simp: pg_ofs_def)
    ultimately show thesis
      using that [OF res] wf notin [OF round(1)] by (simp add: heap_wf_def)
  qed
qed

text \<open>The size of the block that is returned for a request of \<open>n\<close> bytes: for the last eleven values of
  \<open>size_t\<close> the number of pages wraps around to 1.\<close>

definition served :: "nat \<Rightarrow> nat \<Rightarrow> bool" where
  "served n m \<longleftrightarrow> (if n < 2 ^ 32 - 11 then n \<le> m else m = 4084)"

lemma malloc_big_ok:
  assumes inv: "heap_wf h" and sz: "0 < n" "n < 2 ^ 32"
  obtains b h' where "malloc_big n h = Some (b, h')" "heap_wf h'" "b = 0 \<Longrightarrow> h' = h"
    "b \<noteq> 0 \<Longrightarrow> b \<notin> live h \<and> live h' = insert b (live h) \<and> (\<exists>m. block_size b h' = Some m \<and> served n m)"
proof -
  define np where "np = size_add (size_add n sizeof_arena) (PGSIZE - 1) div PGSIZE"
  have np: "np = ((n + 12) mod 2 ^ 32 + 4095) mod 2 ^ 32 div 4096"
    by (simp add: np_def size_add_def sizeof_arena_def PGSIZE_def)
  consider (none) "np = 0" "2 ^ 32 - 4107 \<le> n" "n < 2 ^ 32 - 11" | (fits) "0 < np" "n + 12 \<le> 4096 * np" "n < 2 ^ 32 - 11"
    | (wraps) "np = 1" "2 ^ 32 - 11 \<le> n"
  proof -
    consider "n + 4107 < 2 ^ 32" | "2 ^ 32 \<le> n + 4107" "n + 12 < 2 ^ 32" | "2 ^ 32 \<le> n + 12" by linarith
    then show thesis
    proof cases
      case 1
      then have "np = (n + 4107) div 4096" by (simp add: np)
      then have "n + 4107 = np * 4096 + (n + 4107) mod 4096" by (simp only: div_mult_mod_eq)
      moreover have "(n + 4107) mod 4096 < 4096" by simp
      ultimately have "n + 12 \<le> 4096 * np" by linarith
      then have "0 < np" "n + 12 \<le> 4096 * np" by simp_all
      then show thesis using 1 by (intro fits) simp_all
    next
      case 2
      then have "((n + 12) + 4095) mod 2 ^ 32 = n + 4107 - 2 ^ 32" by (simp add: mod_if)
      then have "np = 0" using 2 by (simp add: np)
      then show thesis using 2 by (intro none) simp_all
    next
      case 3
      then have "(n + 12) mod 2 ^ 32 = n + 12 - 2 ^ 32" using sz(2) by (simp add: mod_if)
      then have q: "np = (n + 12 - 2 ^ 32 + 4095) div 4096" using sz(2) by (simp add: np)
      show thesis
      proof (cases "n < 2 ^ 32 - 11")
        case True
        then have "np = 0" using 3 by (simp add: q)
        then show thesis using True 3 by (intro none) simp_all
      next
        case False
        then have "np = 1" using sz(2) by (simp add: q div_nat_eqI)
        then show thesis using False by (intro wraps) simp_all
      qed
    qed
  qed
  then show thesis
  proof cases
    case none
    then have "malloc_big n h = Some (0, h)"
      using np_def by (simp add: malloc_big_def palloc_get_multiple_def Let_def)
    then show thesis using inv by (rule that) simp_all
  next
    case fits
    obtain b h' where r: "malloc_big n h = Some (b, h')" "heap_wf h'" "b = 0 \<Longrightarrow> h' = h"
      "b \<noteq> 0 \<Longrightarrow> b \<notin> live h \<and> live h' = insert b (live h) \<and> block_size b h' = Some (4096 * np - 12)"
      using malloc_big_pages [OF inv np_def [symmetric] fits(1)] by blast
    have "served n (4096 * np - 12)" using fits by (simp add: served_def)
    then show thesis by (intro that [OF r(1-3)]) (use r(4) in blast)+
  next
    case wraps
    obtain b h' where r: "malloc_big n h = Some (b, h')" "heap_wf h'" "b = 0 \<Longrightarrow> h' = h"
      "b \<noteq> 0 \<Longrightarrow> b \<notin> live h \<and> live h' = insert b (live h) \<and> block_size b h' = Some (4096 * 1 - 12)"
      using malloc_big_pages [OF inv np_def [symmetric, unfolded wraps(1)] zero_less_one] by blast
    have "served n (4096 * 1 - 12)" using wraps(2) by (simp add: served_def)
    then show thesis by (intro that [OF r(1-3)]) (use r(4) in blast)+
  qed
qed

lemma lock_change:
  fixes l :: bool
  assumes inv: "heap_inv lk full h" and lk: "lk = None \<or> lk = Some i" and i: "i < length (descs h)"
  defines "h' \<equiv> put_desc i ((descs h ! i)\<lparr>desc_lock := l\<rparr>) h"
  shows "heap_inv (if l then Some i else None) full h'" and "live h' = live h"
proof -
  note D = heap_invD [OF inv]
  have d': "descs h' ! j = (if j = i then (descs h ! i)\<lparr>desc_lock := l\<rparr> else descs h ! j)" if "j < length (descs h)" for j
    using that by (simp add: h'_def nth_list_update)
  have len: "length (descs h') = length (descs h)" and as: "arenas h' = arenas h" and ps: "heap_pages h' = heap_pages h"
    by (simp_all add: h'_def)
  have same: "free_list (descs h' ! j) = free_list (descs h ! j)" "arena_blocks a (descs h' ! j) = arena_blocks a (descs h ! j)"
      "blocks_per_arena (descs h' ! j) = blocks_per_arena (descs h ! j)" "desc_ok (descs h' ! j) = desc_ok (descs h ! j)"
    if "j < length (descs h)" for j a using d' [OF that] by auto
  have bo: "block_ok h' j b \<longleftrightarrow> block_ok h j b" if "j < length (descs h)" for j b
    using same [OF that] by (auto simp: block_ok_def as split: option.splits)
  have ao: "arena_ok full h' a ar \<longleftrightarrow> arena_ok full h a ar" for a ar
    using same by (auto simp: arena_ok_def len ps split: option.splits)
  have lock: "desc_lock (descs h' ! j) \<longleftrightarrow> (if l then Some i else None) = Some j" if "j < length (descs h)" for j
    using d' [OF that] D(3) [OF that] lk by auto
  show "heap_inv (if l then Some i else None) full h'"
    unfolding heap_inv_def len as ps using D(1,7) lock D(2,4,5,6) by (simp add: same bo ao)
  have "held h' a ar = held h a ar" if "arenas h a = Some ar" for a ar
    using D(6) [OF that] same by (auto simp: held_def arena_ok_def split: option.splits)
  then show "live h' = live h" unfolding live_def as by (metis (no_types, lifting))
qed

lemma malloc_ok:
  assumes wf: "heap_wf h" and sz: "n < 2 ^ 32"
  obtains b h' where "malloc n h = Some (b, h')" "heap_wf h'" "b = 0 \<Longrightarrow> live h' = live h"
    "b \<noteq> 0 \<Longrightarrow> b \<notin> live h \<and> live h' = insert b (live h) \<and> (\<exists>m. block_size b h' = Some m \<and> served n m)"
proof (cases "n = 0")
  case True
  show thesis by (rule that [of 0 h]) (use wf True in \<open>simp_all add: malloc_def\<close>)
next
  case False
  note inv = wf [unfolded heap_wf_def]
  let ?i = "find_desc n 0 (descs h)"
  consider (big) "?i = length (descs h)" | (small) "?i < length (descs h)" "n \<le> dblock_size (descs h ! ?i)"
    using find_desc_cases [of n 0 "descs h"] by auto
  then show thesis
  proof cases
    case big
    obtain b h' where r: "malloc_big n h = Some (b, h')" "heap_wf h'" "b = 0 \<Longrightarrow> h' = h"
      "b \<noteq> 0 \<Longrightarrow> b \<notin> live h \<and> live h' = insert b (live h) \<and> (\<exists>m. block_size b h' = Some m \<and> served n m)"
      using malloc_big_ok [OF wf _ sz] False by blast
    show thesis by (rule that [of b h']) (use big False r in \<open>simp_all add: malloc_def\<close>)
  next
    case small
    note D = heap_invD [OF inv]
    have "dblock_size (descs h ! ?i) < 2 ^ 32 - 11"
      using D(2) [OF small(1)] by (cases "blocks_per_arena (descs h ! ?i)") (auto simp: desc_ok_def PGSIZE_def)
    then have ok: "served n (dblock_size (descs h ! ?i))" using small(2) by (simp add: served_def)
    let ?h1 = "put_desc ?i ((descs h ! ?i)\<lparr>desc_lock := True\<rparr>) h"
    have acq: "desc_acquire ?i h = Some ?h1" using small(1) D(3) by (simp add: desc_acquire_def)
    have l1: "heap_inv (Some ?i) None ?h1" "live ?h1 = live h"
      using lock_change [OF inv _ small(1), of True] by simp_all
    have i1: "?i < length (descs ?h1)" and d1: "descs ?h1 ! ?i = (descs h ! ?i)\<lparr>desc_lock := True\<rparr>" using small(1) by simp_all
    have run: "malloc n h = (if free_list (descs ?h1 ! ?i) = []
        then do { (ok, h) \<leftarrow> new_arena ?i ?h1; if ok then take_block ?i h else do { h \<leftarrow> desc_release ?i h; Some (0, h) } }
        else take_block ?i ?h1)"
      using False small(1) acq by (simp add: malloc_def Let_def)
    show thesis
    proof (cases "free_list (descs ?h1 ! ?i)")
      case (Cons b bs)
      obtain h' where r: "take_block ?i ?h1 = Some (b, h')" "heap_wf h'" "live h' = insert b (live ?h1)" "b \<notin> live ?h1" "b \<noteq> 0"
        "block_size b h' = Some (dblock_size (descs ?h1 ! ?i))"
        using take_block_ok [OF l1(1) i1 Cons] by blast
      show thesis by (rule that [of b h']) (use r ok l1(2) Cons run d1 in simp_all)
    next
      case Nil
      show thesis using l1(1) i1 Nil
      proof (cases rule: new_arena_cases)
        case (got a h2 b bs)
        obtain h' where r: "take_block ?i h2 = Some (b, h')" "heap_wf h'" "live h' = insert b (live h2)" "b \<notin> live h2" "b \<noteq> 0"
          "block_size b h' = Some (dblock_size (descs h2 ! ?i))"
          using take_block_ok [OF got(2) _ got(5)] got(4,6) i1 by auto
        show thesis by (rule that [of b h']) (use r ok l1(2) Nil run d1 got(1,3,7) in simp_all)
      next
        case full
        have rel: "desc_release ?i ?h1 = Some (put_desc ?i ((descs ?h1 ! ?i)\<lparr>desc_lock := False\<rparr>) ?h1)"
          using small(1) by (simp add: desc_release_def)
        let ?h2 = "put_desc ?i ((descs ?h1 ! ?i)\<lparr>desc_lock := False\<rparr>) ?h1"
        have l2: "heap_inv None None ?h2" "live ?h2 = live ?h1"
          using lock_change [OF l1(1) _ i1, of False] by simp_all
        have res: "malloc n h = Some (0, ?h2)" using run full rel Nil by simp
        show thesis by (rule that [OF res]) (use l2 l1(2) in \<open>simp_all add: heap_wf_def\<close>)
      qed
    qed
  qed
qed

lemma remove_blocks_ok:
  "i < length (descs h) \<Longrightarrow> a \<noteq> 0 \<Longrightarrow> arenas h a = Some ar \<Longrightarrow> magic ar = ARENA_MAGIC \<Longrightarrow> arena_desc ar = Some i \<Longrightarrow>
   pg_ofs a = 0 \<Longrightarrow> desc_ok (descs h ! i) \<Longrightarrow> k + n \<le> blocks_per_arena (descs h ! i) \<Longrightarrow> distinct (free_list (descs h ! i)) \<Longrightarrow>
   blk a (descs h ! i) ` {k..<k + n} \<subseteq> set (free_list (descs h ! i)) \<Longrightarrow>
   remove_blocks n k i a h =
     Some (put_desc i ((descs h ! i)\<lparr>free_list := filter (\<lambda>b. b \<notin> blk a (descs h ! i) ` {k..<k + n}) (free_list (descs h ! i))\<rparr>) h)"
proof (induction n arbitrary: k h)
  case 0
  then show ?case by (simp add: put_desc_def)
next
  case (Suc n)
  let ?d = "descs h ! i" let ?b = "blk a ?d k"
  let ?h = "put_desc i (?d\<lparr>free_list := remove1 ?b (free_list ?d)\<rparr>) h"
  have blk: "blk a (?d\<lparr>free_list := fl\<rparr>) = blk a ?d" for fl by (simp add: blk_def fun_eq_iff)
  have split: "{k..<k + Suc n} = insert k {k + 1..<k + 1 + n}" by auto
  have inl: "?b \<in> set (free_list ?d)" using Suc.prems(10) by auto
  have ne: "?b \<notin> blk a ?d ` {k + 1..<k + 1 + n}"
  proof
    assume "?b \<in> blk a ?d ` {k + 1..<k + 1 + n}"
    then obtain j where "j \<in> {k + 1..<k + 1 + n}" "?b = blk a ?d j" by blast
    then show False using blk_inj [OF Suc.prems(6,7), of k j] Suc.prems(8) by auto
  qed
  have rm: "remove1 ?b (free_list ?d) = filter (\<lambda>x. x \<noteq> ?b) (free_list ?d)"
    using Suc.prems(9) by (auto simp: distinct_remove1_removeAll removeAll_filter_not_eq intro: filter_cong)
  have sub: "blk a ?d ` {k + 1..<k + 1 + n} \<subseteq> set (filter (\<lambda>x. x \<noteq> ?b) (free_list ?d))"
    using Suc.prems(10) ne unfolding split set_filter by blast
  have "remove_blocks n (k + 1) i a ?h = Some (put_desc i ((descs ?h ! i)\<lparr>free_list :=
      filter (\<lambda>b. b \<notin> blk a (descs ?h ! i) ` {k + 1..<k + 1 + n}) (free_list (descs ?h ! i))\<rparr>) ?h)"
    using Suc.prems(1-9) sub by (intro Suc.IH) (simp_all add: blk rm)
  moreover have "filter (\<lambda>b. b \<notin> blk a ?d ` {k..<k + Suc n}) fl =
      filter (\<lambda>b. b \<notin> blk a ?d ` {k + 1..<k + 1 + n}) (filter (\<lambda>x. x \<noteq> ?b) fl)" for fl
    unfolding split filter_filter by (rule filter_cong) auto
  ultimately show ?case
    using Suc.prems(1-9) inl by (simp add: arena_to_block_def blk_def [symmetric] blk rm put_desc_def)
qed

lemma free_block_ok:
  assumes wf: "heap_wf h" and ar: "arenas h a = Some ar" "arena_desc ar = Some i"
    and b: "b \<in> arena_blocks a (descs h ! i)" "b \<notin> set (free_list (descs h ! i))"
  obtains h' where "free_block b a ar i h = Some h'" "heap_wf h'" "live h' = live h - {b}"
proof -
  note inv = wf [unfolded heap_wf_def]
  note D = heap_invD [OF inv]
  let ?d = "descs h ! i"
  let ?fl = "b # free_list ?d"
  have aok: "i < length (descs h)" "magic ar = ARENA_MAGIC" "free_cnt ar = card (set (free_list ?d) \<inter> arena_blocks a ?d)"
    "free_cnt ar \<noteq> blocks_per_arena ?d" "arena_run a ar \<subseteq> used (heap_pages h)"
    using D(6) [OF ar(1)] ar(2) by (auto simp: arena_ok_def)
  note al = arena_aligned [OF inv ar(1)] and ok = D(2) [OF aok(1)]
  have le: "free_cnt ar \<le> blocks_per_arena ?d"
    unfolding aok(3) using card_arena_blocks [OF al(1) ok] card_mono [OF finite_arena_blocks [of a ?d] Int_lower2] by metis
  have cnt: "card (set ?fl \<inter> arena_blocks a ?d) = Suc (free_cnt ar)" using b by (simp add: aok(3) Int_insert_left)
  have inc: "size_add (free_cnt ar) (Suc 0) = Suc (free_cnt ar)" using le bpa_bound [OF ok] by simp
  let ?ar = "ar\<lparr>free_cnt := Suc (free_cnt ar)\<rparr>"
  let ?ps = "(heap_pages h)\<lparr>ram := fill b (dblock_size ?d) 0xcc (ram (heap_pages h))\<rparr>"
  let ?h1 = "put_arena a ?ar (put_desc i (?d\<lparr>desc_lock := True, free_list := ?fl\<rparr>) (h\<lparr>heap_pages := ?ps\<rparr>))"
  have run: "free_block b a ar i h = do {
      h \<leftarrow> (if blocks_per_arena ?d \<le> Suc (free_cnt ar)
            then do { ASSERT (Suc (free_cnt ar) = blocks_per_arena ?d); h \<leftarrow> remove_blocks (blocks_per_arena ?d) 0 i a ?h1; release_pages a 1 h }
            else Some ?h1);
      desc_release i h }"
    using aok(1) D(3) [OF aok(1)] by (simp add: free_block_def desc_acquire_def Let_def inc put_desc_def)
  have old: "arenas h a' = Some ar' \<Longrightarrow> a' \<noteq> a \<Longrightarrow> a \<notin> arena_run a' ar'" for a' ar'
    using D(7) [OF ar(1), of a' ar'] arena_run_self [OF D(6) [OF ar(1)]] by blast
  have mem: "x \<notin> arena_blocks a ?d \<Longrightarrow> x \<in> set ?fl \<longleftrightarrow> x \<in> set (free_list ?d)" for x using b(1) by auto
  have dist: "distinct ?fl" using D(4) [OF aok(1)] b(2) by simp
  have rb: "pg_round_down b = a" using arena_blocks_round [OF al(1) ok b(1)] .
  have live: "x \<in> live h \<longleftrightarrow> x \<in> arena_blocks a ?d - set (free_list ?d)" if "pg_round_down x = a" for x
    using ar by (auto simp: live_iff [OF inv] that held_def)
  show thesis
  proof (cases "Suc (free_cnt ar) = blocks_per_arena ?d")
    case False
    define h' where "h' = put_desc i (?d\<lparr>free_list := ?fl, desc_lock := False\<rparr>) (put_arena a ?ar (h\<lparr>heap_pages := ?ps\<rparr>))"
    have lt: "\<not> blocks_per_arena ?d \<le> Suc (free_cnt ar)" using False le aok(4) by simp
    have "free_block b a ar i h = Some h'"
      using run lt aok(1) by (simp add: desc_release_def h'_def put_desc_def put_arena_def)
    moreover have inv': "heap_inv (if False then Some i else None) None h'"
      by (rule small_change(1) [OF inv _ aok(1) al(1), where fl' = ?fl and x' = "Some ?ar"])
        (use mem dist aok ar al(3) cnt False D(1) old in \<open>auto simp: h'_def simp del: list.set\<close>)
    have "x \<in> live h' \<longleftrightarrow> (if pg_round_down x = a then Some ?ar \<noteq> None \<and> x \<in> arena_blocks a ?d - set ?fl else x \<in> live h)" for x
      by (rule small_change(2) [OF inv _ aok(1) al(1), where fl' = ?fl and l' = False and full' = None])
        (use mem dist aok ar al(3) cnt False D(1) old in \<open>auto simp: h'_def simp del: list.set\<close>)
    then have "x \<in> live h' \<longleftrightarrow> x \<in> live h - {b}" for x using live [of x] rb by (cases "pg_round_down x = a") auto
    then have "live h' = live h - {b}" by blast
    ultimately show thesis using that inv' by (simp add: heap_wf_def)
  next
    case True
    have all: "arena_blocks a ?d \<subseteq> set ?fl"
    proof -
      have "set ?fl \<inter> arena_blocks a ?d = arena_blocks a ?d"
        using cnt True card_arena_blocks [OF al(1) ok] by (intro card_subset_eq) auto
      then show ?thesis by blast
    qed
    let ?fl2 = "filter (\<lambda>x. x \<notin> arena_blocks a ?d) ?fl"
    let ?h2 = "put_desc i (?d\<lparr>desc_lock := True, free_list := ?fl2\<rparr>) ?h1"
    have blk: "blk a (?d\<lparr>desc_lock := True, free_list := fl\<rparr>) = blk a ?d" for fl by (simp add: blk_def fun_eq_iff)
    have blks: "blk a ?d ` {0..<blocks_per_arena ?d} = arena_blocks a ?d" by (simp add: arena_blocks_def lessThan_atLeast0)
    have rm: "remove_blocks (blocks_per_arena ?d) 0 i a ?h1 = Some ?h2"
      using aok al ok dist all ar(2) by (subst remove_blocks_ok [where ar = ?ar]) (auto simp: blk blks put_desc_def put_arena_def simp del: list.set)
    have "page_run a 1 \<subseteq> used ?ps" using aok(5) ar(2) by (simp add: arena_run_def)
    then obtain ps' where ps': "palloc_free_multiple a 1 ?ps = Some ps'" "pages_wf ps'" "used ps' = used ?ps - page_run a 1"
      using free_kernel_pages [of ?ps 1 a] D(1) by auto
    define h' where "h' = put_desc i (?d\<lparr>free_list := ?fl2, desc_lock := False\<rparr>) (h\<lparr>heap_pages := ps', arenas := (arenas h)(a := None)\<rparr>)"
    have "release_pages a 1 ?h2 = Some (?h2\<lparr>heap_pages := ps', arenas := (arenas h)(a := None)\<rparr>)"
      using ps'(1) by (simp add: release_pages_def put_desc_def put_arena_def)
    then have "free_block b a ar i h = Some h'"
      using run True rm aok(1) by (simp add: desc_release_def h'_def put_desc_def put_arena_def)
    moreover have us: "used (heap_pages h) - {a} \<subseteq> used ps'" using ps'(3) by (auto simp: page_run_def lessThan_Suc)
    have mem2: "x \<notin> arena_blocks a ?d \<Longrightarrow> x \<in> set ?fl2 \<longleftrightarrow> x \<in> set (free_list ?d)" for x using b(1) by auto
    have inv': "heap_inv (if False then Some i else None) None h'"
      by (rule small_change(1) [OF inv _ aok(1) al(1), where fl' = ?fl2 and x' = None])
        (use mem2 dist ar ps'(2) us old in \<open>auto simp: h'_def\<close>)
    have "x \<in> live h' \<longleftrightarrow> (if pg_round_down x = a then (None :: arena option) \<noteq> None \<and> x \<in> arena_blocks a ?d - set ?fl2 else x \<in> live h)" for x
      by (rule small_change(2) [OF inv _ aok(1) al(1), where fl' = ?fl2 and l' = False and full' = None])
        (use mem2 dist ar ps'(2) us old in \<open>auto simp: h'_def\<close>)
    then have "x \<in> live h' \<longleftrightarrow> x \<in> live h - {b}" for x using live [of x] rb all by (cases "pg_round_down x = a") auto
    then have "live h' = live h - {b}" by blast
    ultimately show thesis using that inv' by (simp add: heap_wf_def)
  qed
qed

lemma free_ok:
  assumes wf: "heap_wf h" and b: "b \<in> live h"
  obtains h' where "free b h = Some h'" "heap_wf h'" "live h' = live h - {b}"
proof -
  note inv = wf [unfolded heap_wf_def]
  note D = heap_invD [OF inv]
  let ?a = "pg_round_down b"
  obtain ar where ar: "arenas h ?a = Some ar" and held: "b \<in> held h ?a ar" using b live_iff [OF inv] by blast
  note al = arena_aligned [OF inv ar]
  have b0: "b \<noteq> 0" using al(2) by (auto simp: pg_round_down_def)
  show thesis
  proof (cases "arena_desc ar")
    case (Some i)
    then have bl: "b \<in> arena_blocks ?a (descs h ! i)" "b \<notin> set (free_list (descs h ! i))" using held by (simp_all add: held_def)
    have "free b h = free_block b ?a ar i h"
      using b0 block_to_arena_small [OF inv ar Some bl(1)] Some by (simp add: free_def)
    then show thesis using free_block_ok [OF wf ar Some bl] that by metis
  next
    case None
    let ?n = "free_cnt ar"
    have aok: "0 < ?n" "page_run ?a ?n \<subseteq> used (heap_pages h)" "magic ar = ARENA_MAGIC"
      using D(6) [OF ar] None by (simp_all add: arena_ok_def arena_run_def)
    have be: "b = ?a + of_nat sizeof_arena" using held None by (simp add: held_def)
    have "unat (pg_ofs b) = 12" using unat_offset(3) [OF al(1), of sizeof_arena] be by (simp add: sizeof_arena_def)
    then have ofs: "pg_ofs b = of_nat sizeof_arena" by (metis of_nat_unat sizeof_arena_def ucast_id)
    obtain ps' where ps': "palloc_free_multiple ?a ?n (heap_pages h) = Some ps'" "pages_wf ps'"
      "used ps' = used (heap_pages h) - page_run ?a ?n"
      using free_kernel_pages [OF D(1) aok(1,2)] .
    define h' where "h' = h\<lparr>heap_pages := ps', arenas := (arenas h)(?a := None)\<rparr>"
    have res: "free b h = Some h'"
      using b0 al(2) ar None aok(3) ofs ps'(1)
      by (simp add: free_def block_to_arena_def Let_def release_pages_def h'_def)
    have pg: "arena_run a' ar' \<subseteq> used ps'" if "arenas h a' = Some ar'" "a' \<noteq> ?a" for a' ar'
    proof -
      have "arena_run ?a ar \<inter> arena_run a' ar' = {}" using D(7) [OF ar that(1)] that(2) by blast
      moreover have "arena_run a' ar' \<subseteq> used (heap_pages h)" using D(6) [OF that(1)] by (simp add: arena_ok_def)
      ultimately show ?thesis using ps'(3) None by (auto simp: arena_run_def)
    qed
    note bc = big_change [OF inv, where h' = h' and a = ?a and x' = None]
    have wf': "heap_inv None None h'"
      by (rule bc(1)) (use ar None ps'(2) pg in \<open>simp_all add: h'_def\<close>)
    have "x \<in> live h' \<longleftrightarrow> (if pg_round_down x = ?a then (None :: arena option) \<noteq> None \<and> x = ?a + of_nat sizeof_arena else x \<in> live h)" for x
      by (rule bc(2)) (use ar None ps'(2) pg in \<open>simp_all add: h'_def\<close>)
    moreover have "x \<in> live h \<longleftrightarrow> x = b" if "pg_round_down x = ?a" for x
      using ar None be that by (simp add: live_iff [OF inv] held_def)
    ultimately have "x \<in> live h' \<longleftrightarrow> x \<in> live h - {b}" for x by (cases "pg_round_down x = ?a") auto
    then have "live h' = live h - {b}" by blast
    then show thesis using that [OF res] wf' by (simp add: heap_wf_def)
  qed
qed

lemma malloc_init_eval:
  "malloc_init ps = Some \<lparr>heap_pages = ps,
     descs = map (\<lambda>bs. \<lparr>dblock_size = bs, blocks_per_arena = 4084 div bs, free_list = [], desc_lock = False\<rparr>) [16, 32, 64, 128, 256, 512, 1024],
     arenas = (\<lambda>_. None)\<rparr>"
  by (simp add: malloc_init_def malloc_init_loop.simps PGSIZE_def sizeof_arena_def)

lemma malloc_init_wf:
  assumes "pages_wf ps"
  shows "\<exists>h. malloc_init ps = Some h \<and> heap_wf h \<and> live h = {}"
proof -
  let ?ds = "map (\<lambda>bs. \<lparr>dblock_size = bs, blocks_per_arena = 4084 div bs, free_list = [], desc_lock = False\<rparr>) [16, 32, 64, 128, 256, 512, 1024]"
  have "\<forall>d \<in> set ?ds. desc_ok d \<and> \<not> desc_lock d \<and> free_list d = []" by (simp add: desc_ok_def sizeof_arena_def PGSIZE_def)
  then have "\<forall>i < length ?ds. desc_ok (?ds ! i) \<and> \<not> desc_lock (?ds ! i) \<and> free_list (?ds ! i) = []"
    using nth_mem by blast
  then show ?thesis
    using assms unfolding malloc_init_eval heap_wf_def heap_inv_def live_def by (auto simp del: list.map)
qed

section \<open>Properties\<close>

definition sample_heap :: heap where
  "sample_heap = \<lparr>heap_pages = sample_pages, descs = [],
     arenas = [0xc0102000 \<mapsto> \<lparr>magic = ARENA_MAGIC, arena_desc = None, free_cnt = 1\<rparr>]\<rparr>"

lemma sample_heap_wf: "heap_wf sample_heap" and sample_heap_live: "live sample_heap = {0xc010200c}"
proof -
  have run: "page_run 0xc0102000 (Suc 0) = {0xc0102000}" by (simp add: page_run_def lessThan_Suc)
  have "used sample_pages = {0xc0102000}" by (simp add: sample_pages_def sample_used)
  then show "heap_wf sample_heap"
    using sample_pages_wf run
    by (auto simp: heap_wf_def heap_inv_def sample_heap_def arena_ok_def arena_run_def split: if_splits)
  show "live sample_heap = {0xc010200c}"
    by (auto simp: live_def held_def sample_heap_def sizeof_arena_def split: if_splits)
qed

text \<open>C2. After \<open>malloc_init\<close> no block is held, and from then on every allocator state is in order: on
  such a state \<open>malloc\<close> returns for every value of its argument, a \<open>size_t\<close>, and unless it returns a null
  pointer the block is one the program did not hold and it becomes the only new one.  For a request
  below \<open>2 ^ 32 - 11\<close> it has at least the size asked for; for the eleven largest values the number of
  pages wraps around and a block of 4084 bytes is returned.\<close>

theorem malloc_fresh:
  assumes "heap_wf h" and "n < 2 ^ 32"
  shows "\<exists>b h'. malloc n h = Some (b, h') \<and> heap_wf h' \<and>
     (if b = 0 then live h' = live h
      else b \<notin> live h \<and> live h' = insert b (live h) \<and>
        (\<exists>m. block_size b h' = Some m \<and> (if n < 2 ^ 32 - 11 then n \<le> m else m = 4084)))"
proof -
  obtain b h' where r: "malloc n h = Some (b, h')" "heap_wf h'" "b = 0 \<Longrightarrow> live h' = live h"
    "b \<noteq> 0 \<Longrightarrow> b \<notin> live h \<and> live h' = insert b (live h) \<and> (\<exists>m. block_size b h' = Some m \<and> (if n < 2 ^ 32 - 11 then n \<le> m else m = 4084))"
    using malloc_ok [OF assms] unfolding served_def by blast
  show ?thesis by (intro exI conjI, rule r(1), rule r(2)) (use r(3,4) in auto)
qed

theorem malloc_fresh_witness:
  "\<exists>h b h'. malloc_init sample_pages = Some h \<and> malloc 100 h = Some (b, h') \<and> heap_wf h' \<and>
     (if b = 0 then live h' = {} else live h' = {b})"
proof -
  obtain h where h: "malloc_init sample_pages = Some h" "heap_wf h" "live h = {}"
    using malloc_init_wf [OF sample_pages_wf] by blast
  obtain b h' where r: "malloc 100 h = Some (b, h')" "heap_wf h'"
      "if b = 0 then live h' = live h
       else b \<notin> live h \<and> live h' = insert b (live h) \<and> (\<exists>m. block_size b h' = Some m \<and> 100 \<le> m)"
  proof -
    have "(100 :: nat) < 2 ^ 32" and lt: "(100 :: nat) < 2 ^ 32 - 11" by simp_all
    from malloc_fresh [OF h(2) this(1)] show thesis unfolding if_P [OF lt] by (elim exE conjE) (rule that)
  qed
  then show ?thesis using h by (intro exI [of _ h] exI [of _ b] exI [of _ h']) (simp split: if_splits)
qed

text \<open>C12. A block the program holds can be freed; it is then the only one no longer held, the state is
  in order again, and no assertion about arenas, free lists or pages fails on the way.\<close>

theorem free_live:
  assumes "heap_wf h" and "b \<in> live h"
  shows "\<exists>h'. free b h = Some h' \<and> heap_wf h' \<and> live h' = live h - {b}"
  using free_ok [OF assms] by blast

theorem free_live_witness:
  "\<exists>h'. free 0xc010200c sample_heap = Some h' \<and> heap_wf h' \<and> live h' = {}"
  using free_live [OF sample_heap_wf, of "0xc010200c"] by (simp add: sample_heap_live)

end
