(* ===== verification/Pintos_Cache.thy ===== *)
theory Pintos_Cache
  imports Pintos_Bitmap
begin

text \<open>
  Block devices (\<open>devices/block.c\<close>) and the buffer cache (\<open>filesys/cache.c\<close>).  A device is its sectors;
  the driver below \<open>ops\<close> stores a sector and returns what was stored last.  The hash table of the
  cache is the map from a sector number to its entry, as the hash component shows it to be; an
  entry is an object with an address.  \<open>memory\<close> is the number of entries that can still be
  allocated: writing through the null pointer that a failed allocation returns is a fault.  The
  lock of a slot is the flag that it is held.
\<close>

section \<open>Block devices\<close>

definition BLOCK_SECTOR_SIZE :: nat where
  "BLOCK_SECTOR_SIZE = 512"

datatype block_type = BLOCK_KERNEL | BLOCK_FILESYS | BLOCK_SCRATCH | BLOCK_SWAP | BLOCK_RAW | BLOCK_FOREIGN

record block =
  dev_type :: block_type
  dev_size :: nat
  sectors :: "nat \<Rightarrow> u8 list"
  read_cnt :: nat
  write_cnt :: nat

definition check_sector :: "block \<Rightarrow> nat \<Rightarrow> unit option" where
  "check_sector block sector = (if dev_size block \<le> sector then None else Some ())"

definition block_read :: "block \<Rightarrow> nat \<Rightarrow> (u8 list \<times> block) option" where
  "block_read block sector = do {
     check_sector block sector;
     Some (sectors block sector, block\<lparr>read_cnt := read_cnt block + 1\<rparr>)
   }"

definition block_write :: "block \<Rightarrow> nat \<Rightarrow> u8 list \<Rightarrow> block option" where
  "block_write block sector data = do {
     check_sector block sector;
     ASSERT (dev_type block \<noteq> BLOCK_FOREIGN);
     Some (block\<lparr>sectors := (sectors block)(sector := data), write_cnt := write_cnt block + 1\<rparr>)
   }"

section \<open>The cache\<close>

definition MAX_CACHE_SECTORS :: nat where
  "MAX_CACHE_SECTORS = 64"

record cache_sector =
  sector_idx :: nat
  entry_clock :: nat
  dirty :: bool

record cache =
  index :: "nat \<Rightarrow> nat option"
  buffer :: "u8 list"
  clock_idx :: nat
  refbits :: bitmap
  cache_sectors :: "nat option list"
  sector_locks :: "bool list"
  entries :: "nat \<Rightarrow> cache_sector option"
  next_entry :: nat
  memory :: nat
  dev :: block

text \<open>\<open>malloc (sizeof (struct cache_sector))\<close> followed by stores through the result; \<open>free\<close>.\<close>

definition new_entry :: "cache_sector \<Rightarrow> cache \<Rightarrow> (nat \<times> cache) option" where
  "new_entry e c = do {
     ASSERT (0 < memory c);
     Some (next_entry c, c\<lparr>entries := (entries c)(next_entry c \<mapsto> e), next_entry := next_entry c + 1, memory := memory c - 1\<rparr>)
   }"

definition free_entry :: "nat option \<Rightarrow> cache \<Rightarrow> cache" where
  "free_entry p c = (case p of None \<Rightarrow> c | Some p \<Rightarrow> c\<lparr>entries := (entries c)(p := None), memory := memory c + 1\<rparr>)"

text \<open>Copying \<open>n\<close> bytes out of and into the memory of the cache, which is contiguous.\<close>

definition copy_out :: "u8 list \<Rightarrow> nat \<Rightarrow> nat \<Rightarrow> u8 list option" where
  "copy_out buf pos n = (if pos + n \<le> length buf then Some (take n (drop pos buf)) else None)"

definition overlay :: "u8 list \<Rightarrow> nat \<Rightarrow> u8 list \<Rightarrow> u8 list" where
  "overlay buf pos data = take pos buf @ data @ drop (pos + length data) buf"

definition copy_in :: "u8 list \<Rightarrow> nat \<Rightarrow> u8 list \<Rightarrow> u8 list option" where
  "copy_in buf pos data = (if pos + length data \<le> length buf then Some (overlay buf pos data) else None)"

definition idx2addr :: "nat \<Rightarrow> nat" where
  "idx2addr cache_idx = cache_idx * BLOCK_SECTOR_SIZE"

definition buffer_cache_init :: "u8 list \<Rightarrow> u32 list \<Rightarrow> nat \<Rightarrow> block \<Rightarrow> cache option" where
  "buffer_cache_init buf ws mem block = do {
     b \<leftarrow> bitmap_create True (Some ws) MAX_CACHE_SECTORS;
     bits \<leftarrow> b;
     Some \<lparr>index = (\<lambda>_. None), buffer = buf, clock_idx = 0, refbits = bits,
       cache_sectors = replicate MAX_CACHE_SECTORS None, sector_locks = replicate MAX_CACHE_SECTORS False,
       entries = (\<lambda>_. None), next_entry = 0, memory = mem, dev = block\<rparr>
   }"

definition slot_acquire :: "nat \<Rightarrow> cache \<Rightarrow> cache option" where
  "slot_acquire i c = do {
     l \<leftarrow> nth_opt (sector_locks c) i;
     ASSERT (\<not> l);
     Some (c\<lparr>sector_locks := (sector_locks c)[i := True]\<rparr>)
   }"

definition slot_release :: "nat \<Rightarrow> cache \<Rightarrow> cache option" where
  "slot_release i c = do {
     l \<leftarrow> nth_opt (sector_locks c) i;
     ASSERT l;
     Some (c\<lparr>sector_locks := (sector_locks c)[i := False]\<rparr>)
   }"

text \<open>The loop around \<open>bitmap_test\<close> returns after its first round.\<close>

definition update_clock_idx :: "cache \<Rightarrow> cache option" where
  "update_clock_idx c = do {
     all \<leftarrow> bitmap_all (refbits c) 0 MAX_CACHE_SECTORS;
     if all
     then do {
       b \<leftarrow> bitmap_set_all (refbits c) False;
       Some (c\<lparr>refbits := b, clock_idx := 0\<rparr>)
     }
     else do {
       t \<leftarrow> bitmap_test (refbits c) (clock_idx c);
       Some (if t then c\<lparr>clock_idx := (clock_idx c + 1) mod MAX_CACHE_SECTORS\<rparr> else c)
     }
   }"

text \<open>The key that is allocated for the lookup is not freed.\<close>

definition buffer_cache_find :: "nat \<Rightarrow> cache \<Rightarrow> (nat option \<times> cache) option" where
  "buffer_cache_find sector c = do {
     ASSERT (0 < memory c);
     Some (index c sector, c\<lparr>memory := memory c - 1\<rparr>)
   }"

definition buffer_cache_insert :: "nat \<Rightarrow> cache \<Rightarrow> cache option" where
  "buffer_cache_insert p c = do {
     e \<leftarrow> entries c p;
     b \<leftarrow> bitmap_set (refbits c) (entry_clock e) True;
     ps \<leftarrow> update_opt (cache_sectors c) (entry_clock e) (Some p);
     Some (c\<lparr>index := (index c)(sector_idx e \<mapsto> p), refbits := b, cache_sectors := ps\<rparr>)
   }"

definition buffer_cache_evict :: "nat option \<Rightarrow> cache \<Rightarrow> cache option" where
  "buffer_cache_evict entry c =
     (case entry of
        None \<Rightarrow> Some c
      | Some p \<Rightarrow> do {
          e \<leftarrow> entries c p;
          let cache_idx = entry_clock e;
          let sector_start = idx2addr cache_idx;
          c \<leftarrow> (if dirty e
                then do {
                  data \<leftarrow> copy_out (buffer c) sector_start BLOCK_SECTOR_SIZE;
                  b \<leftarrow> block_write (dev c) (sector_idx e) data;
                  Some (c\<lparr>dev := b\<rparr>)
                }
                else Some c);
          let c = c\<lparr>index := (index c)(sector_idx e := None)\<rparr>;
          q \<leftarrow> nth_opt (cache_sectors c) cache_idx;
          let c = (free_entry q c)\<lparr>cache_sectors := (cache_sectors c)[cache_idx := None]\<rparr>;
          buf \<leftarrow> copy_in (buffer c) sector_start (replicate BLOCK_SECTOR_SIZE 0);
          Some (c\<lparr>buffer := buf\<rparr>)
        })"

section \<open>Reading and writing\<close>

definition read_from_buffer :: "nat \<Rightarrow> nat \<Rightarrow> nat \<Rightarrow> cache \<Rightarrow> (u8 list \<times> cache) option" where
  "read_from_buffer sector size' offset c = do {
     (e, c) \<leftarrow> buffer_cache_find sector c;
     p \<leftarrow> e;
     entry \<leftarrow> entries c p;
     b \<leftarrow> bitmap_set (refbits c) (entry_clock entry) True;
     let c = c\<lparr>refbits := b\<rparr>;
     data \<leftarrow> copy_out (buffer c) (idx2addr (entry_clock entry) + offset) size';
     Some (data, c)
   }"

definition read_from_disk :: "nat \<Rightarrow> nat \<Rightarrow> nat \<Rightarrow> nat \<Rightarrow> cache \<Rightarrow> (u8 list \<times> cache) option" where
  "read_from_disk sector clock_hand size' offset c = do {
     (p, c) \<leftarrow> new_entry \<lparr>sector_idx = sector, entry_clock = clock_hand, dirty = False\<rparr> c;
     to_evict \<leftarrow> nth_opt (cache_sectors c) clock_hand;
     c \<leftarrow> buffer_cache_evict to_evict c;
     c \<leftarrow> buffer_cache_insert p c;
     (data, b) \<leftarrow> block_read (dev c) sector;
     buf \<leftarrow> copy_in (buffer c) (idx2addr clock_hand) data;
     let c = c\<lparr>dev := b, buffer := buf\<rparr>;
     data \<leftarrow> copy_out (buffer c) (idx2addr clock_hand + offset) size';
     Some (data, c)
   }"

definition write_exist_buffer :: "nat \<Rightarrow> u8 list \<Rightarrow> nat \<Rightarrow> cache \<Rightarrow> cache option" where
  "write_exist_buffer sector data offset c = do {
     (e, c) \<leftarrow> buffer_cache_find sector c;
     p \<leftarrow> e;
     entry \<leftarrow> entries c p;
     let c = c\<lparr>entries := (entries c)(p \<mapsto> entry\<lparr>dirty := True\<rparr>)\<rparr>;
     b \<leftarrow> bitmap_set (refbits c) (entry_clock entry) True;
     buf \<leftarrow> copy_in (buffer c) (idx2addr (entry_clock entry) + offset) data;
     Some (c\<lparr>refbits := b, buffer := buf\<rparr>)
   }"

definition write_new_buffer :: "nat \<Rightarrow> u8 list \<Rightarrow> nat \<Rightarrow> nat \<Rightarrow> cache \<Rightarrow> cache option" where
  "write_new_buffer sector data clock_hand offset c = do {
     (p, c) \<leftarrow> new_entry \<lparr>sector_idx = sector, entry_clock = clock_hand, dirty = True\<rparr> c;
     to_evict \<leftarrow> nth_opt (cache_sectors c) clock_hand;
     c \<leftarrow> buffer_cache_evict to_evict c;
     c \<leftarrow> buffer_cache_insert p c;
     buf \<leftarrow> copy_in (buffer c) (idx2addr clock_hand + offset) data;
     Some (c\<lparr>buffer := buf\<rparr>)
   }"

definition buffer_cache_read :: "nat \<Rightarrow> nat \<Rightarrow> nat \<Rightarrow> cache \<Rightarrow> (u8 list \<times> cache) option" where
  "buffer_cache_read sector size' offset c = do {
     (e, c) \<leftarrow> buffer_cache_find sector c;
     case e of
       Some p \<Rightarrow> do {
         entry \<leftarrow> entries c p;
         c \<leftarrow> slot_acquire (entry_clock entry) c;
         (e, c) \<leftarrow> buffer_cache_find sector c;
         (data, c) \<leftarrow> (if e = None then read_from_disk sector (entry_clock entry) size' offset c
                       else read_from_buffer sector size' offset c);
         c \<leftarrow> slot_release (entry_clock entry) c;
         Some (data, c)
       }
     | None \<Rightarrow> do {
         c \<leftarrow> update_clock_idx c;
         let clock_hand = clock_idx c;
         c \<leftarrow> slot_acquire clock_hand c;
         (e, c) \<leftarrow> buffer_cache_find sector c;
         (data, c) \<leftarrow> (if e = None then read_from_disk sector clock_hand size' offset c
                       else read_from_buffer sector size' offset c);
         c \<leftarrow> slot_release clock_hand c;
         Some (data, c)
       }
   }"

definition buffer_cache_write :: "nat \<Rightarrow> u8 list \<Rightarrow> nat \<Rightarrow> cache \<Rightarrow> cache option" where
  "buffer_cache_write sector data offset c = do {
     (e, c) \<leftarrow> buffer_cache_find sector c;
     case e of
       Some p \<Rightarrow> do {
         entry \<leftarrow> entries c p;
         c \<leftarrow> slot_acquire (entry_clock entry) c;
         (e, c) \<leftarrow> buffer_cache_find sector c;
         c \<leftarrow> (if e = None then write_new_buffer sector data (entry_clock entry) offset c
               else write_exist_buffer sector data offset c);
         slot_release (entry_clock entry) c
       }
     | None \<Rightarrow> do {
         c \<leftarrow> update_clock_idx c;
         let clock_hand = clock_idx c;
         c \<leftarrow> slot_acquire clock_hand c;
         (e, c) \<leftarrow> buffer_cache_find sector c;
         c \<leftarrow> (if e = None then write_new_buffer sector data clock_hand offset c
               else write_exist_buffer sector data offset c);
         slot_release clock_hand c
       }
   }"

text \<open>The three loops of \<open>buffer_cache_flush\<close>.\<close>

fun acquire_all :: "nat \<Rightarrow> nat \<Rightarrow> cache \<Rightarrow> cache option" where
  "acquire_all 0 i c = Some c"
| "acquire_all (Suc n) i c = do { c \<leftarrow> slot_acquire i c; acquire_all n (i + 1) c }"

fun flush_loop :: "nat \<Rightarrow> nat \<Rightarrow> cache \<Rightarrow> cache option" where
  "flush_loop 0 i c = Some c"
| "flush_loop (Suc n) i c = do {
     entry \<leftarrow> nth_opt (cache_sectors c) i;
     c \<leftarrow> (case entry of
             None \<Rightarrow> Some c
           | Some p \<Rightarrow> do {
               e \<leftarrow> entries c p;
               if dirty e
               then do {
                 data \<leftarrow> copy_out (buffer c) (idx2addr i) BLOCK_SECTOR_SIZE;
                 b \<leftarrow> block_write (dev c) (sector_idx e) data;
                 Some (c\<lparr>dev := b\<rparr>)
               }
               else Some c
             });
     flush_loop n (i + 1) c
   }"

fun release_all :: "nat \<Rightarrow> nat \<Rightarrow> cache \<Rightarrow> cache option" where
  "release_all 0 i c = Some c"
| "release_all (Suc n) i c = do { c \<leftarrow> slot_release i c; release_all n (i + 1) c }"

definition buffer_cache_flush :: "cache \<Rightarrow> cache option" where
  "buffer_cache_flush c = do {
     c \<leftarrow> acquire_all MAX_CACHE_SECTORS 0 c;
     c \<leftarrow> flush_loop MAX_CACHE_SECTORS 0 c;
     release_all MAX_CACHE_SECTORS 0 c
   }"

section \<open>Slots of the buffer\<close>

definition slot :: "nat \<Rightarrow> u8 list \<Rightarrow> u8 list" where
  "slot i buf = take 512 (drop (i * 512) buf)"

lemma length_overlay [simp]: "pos + length data \<le> length buf \<Longrightarrow> length (overlay buf pos data) = length buf"
  by (simp add: overlay_def)

lemma nth_overlay:
  "pos + length data \<le> length buf \<Longrightarrow> k < length buf \<Longrightarrow>
     overlay buf pos data ! k = (if pos \<le> k \<and> k < pos + length data then data ! (k - pos) else buf ! k)"
  by (auto simp: overlay_def nth_append not_less)

lemma length_slot: "length buf = 64 * 512 \<Longrightarrow> i < 64 \<Longrightarrow> length (slot i buf) = 512"
  by (simp add: slot_def)

lemma slot_overlay:
  assumes "length buf = 64 * 512" and "i < 64" and "j < 64" and "off + length data \<le> 512"
  shows "slot j (overlay buf (i * 512 + off) data) = (if i = j then overlay (slot i buf) off data else slot j buf)"
proof (rule nth_equalityI)
  have le: "i * 512 + off + length data \<le> length buf" using assms by simp
  show "length (slot j (overlay buf (i * 512 + off) data)) = length (if i = j then overlay (slot i buf) off data else slot j buf)"
    using assms le by (simp add: length_slot)
  fix k assume "k < length (slot j (overlay buf (i * 512 + off) data))"
  then have k: "k < 512" using assms le by (simp add: length_slot)
  have "i \<noteq> j \<Longrightarrow> \<not> (i * 512 + off \<le> j * 512 + k \<and> j * 512 + k < i * 512 + off + length data)"
    using assms(4) k by linarith
  then show "slot j (overlay buf (i * 512 + off) data) ! k = (if i = j then overlay (slot i buf) off data else slot j buf) ! k"
    using assms k le by (auto simp: slot_def nth_overlay add.assoc)
qed

lemma overlay_whole: "length data = length buf \<Longrightarrow> overlay buf 0 data = data"
  by (simp add: overlay_def)

lemma copy_out_slot:
  "length buf = 64 * 512 \<Longrightarrow> i < 64 \<Longrightarrow> off + n \<le> 512 \<Longrightarrow>
     copy_out buf (idx2addr i + off) n = Some (take n (drop off (slot i buf)))"
  by (simp add: copy_out_def idx2addr_def BLOCK_SECTOR_SIZE_def slot_def drop_take min_def add.commute)

lemma copy_in_slot:
  "length buf = 64 * 512 \<Longrightarrow> i < 64 \<Longrightarrow> off + length data \<le> 512 \<Longrightarrow>
     copy_in buf (idx2addr i + off) data = Some (overlay buf (i * 512 + off) data)"
  by (simp add: copy_in_def idx2addr_def BLOCK_SECTOR_SIZE_def)

section \<open>The invariant and what the cache holds\<close>

text \<open>\<open>slot_ok c i p\<close>: the entry \<open>p\<close> describes slot \<open>i\<close>; a clean slot agrees with the disk.\<close>

definition slot_ok :: "cache \<Rightarrow> nat \<Rightarrow> nat \<Rightarrow> bool" where
  "slot_ok c i p = (case entries c p of None \<Rightarrow> False
     | Some e \<Rightarrow> entry_clock e = i \<and> index c (sector_idx e) = Some p \<and> sector_idx e < dev_size (dev c) \<and>
         (\<not> dirty e \<longrightarrow> slot i (buffer c) = sectors (dev c) (sector_idx e)))"

definition index_ok :: "cache \<Rightarrow> nat \<Rightarrow> nat \<Rightarrow> bool" where
  "index_ok c s p = (case entries c p of None \<Rightarrow> False
     | Some e \<Rightarrow> sector_idx e = s \<and> entry_clock e < 64 \<and> cache_sectors c ! entry_clock e = Some p)"

definition cache_inv :: "cache \<Rightarrow> bool" where
  "cache_inv c \<longleftrightarrow> length (cache_sectors c) = 64 \<and> length (buffer c) = 64 * 512 \<and>
     bitmap_wf (refbits c) \<and> bit_cnt (refbits c) = 64 \<and> clock_idx c < 64 \<and>
     dev_type (dev c) \<noteq> BLOCK_FOREIGN \<and> (\<forall>s. length (sectors (dev c) s) = 512) \<and>
     (\<forall>i < 64. \<forall>p. cache_sectors c ! i = Some p \<longrightarrow> slot_ok c i p) \<and>
     (\<forall>s p. index c s = Some p \<longrightarrow> index_ok c s p) \<and>
     (\<forall>p. entries c p \<noteq> None \<longrightarrow> p < next_entry c)"

definition cache_wf :: "cache \<Rightarrow> bool" where
  "cache_wf c \<longleftrightarrow> cache_inv c \<and> sector_locks c = replicate 64 False"

text \<open>The current contents of a sector: those of its slot if it is cached, else those on disk.\<close>

definition contents :: "cache \<Rightarrow> nat \<Rightarrow> u8 list" where
  "contents c s = (case index c s of None \<Rightarrow> sectors (dev c) s
     | Some p \<Rightarrow> (case entries c p of None \<Rightarrow> [] | Some e \<Rightarrow> slot (entry_clock e) (buffer c)))"

lemma cache_invD:
  assumes "cache_inv c"
  shows "length (cache_sectors c) = 64" and "length (buffer c) = 64 * 512" and "bitmap_wf (refbits c)"
    and "bit_cnt (refbits c) = 64" and "clock_idx c < 64" and "dev_type (dev c) \<noteq> BLOCK_FOREIGN"
    and "length (sectors (dev c) s) = 512" and "i < 64 \<Longrightarrow> cache_sectors c ! i = Some p \<Longrightarrow> slot_ok c i p"
    and "index c s = Some p \<Longrightarrow> index_ok c s p" and "entries c p \<noteq> None \<Longrightarrow> p < next_entry c"
  using assms unfolding cache_inv_def by blast+

lemma ok_fields [simp]:
  "slot_ok (c\<lparr>sector_locks := l\<rparr>) i p = slot_ok c i p" "slot_ok (c\<lparr>memory := m\<rparr>) i p = slot_ok c i p"
  "slot_ok (c\<lparr>refbits := b\<rparr>) i p = slot_ok c i p" "slot_ok (c\<lparr>clock_idx := k\<rparr>) i p = slot_ok c i p"
  "index_ok (c\<lparr>sector_locks := l\<rparr>) s p = index_ok c s p" "index_ok (c\<lparr>memory := m\<rparr>) s p = index_ok c s p"
  "index_ok (c\<lparr>refbits := b\<rparr>) s p = index_ok c s p" "index_ok (c\<lparr>clock_idx := k\<rparr>) s p = index_ok c s p"
  "contents (c\<lparr>sector_locks := l\<rparr>) s = contents c s" "contents (c\<lparr>memory := m\<rparr>) s = contents c s"
  "contents (c\<lparr>refbits := b\<rparr>) s = contents c s" "contents (c\<lparr>clock_idx := k\<rparr>) s = contents c s"
  by (simp_all add: slot_ok_def index_ok_def contents_def split: option.splits)

lemma inv_fields [simp]:
  "cache_inv (c\<lparr>sector_locks := l\<rparr>) = cache_inv c" "cache_inv (c\<lparr>memory := m\<rparr>) = cache_inv c"
  "contents (c\<lparr>sector_locks := l\<rparr>) = contents c" "contents (c\<lparr>memory := m\<rparr>) = contents c"
  "contents (c\<lparr>refbits := b\<rparr>) = contents c" "contents (c\<lparr>clock_idx := i\<rparr>) = contents c"
  by (simp_all add: cache_inv_def fun_eq_iff)

lemma inv_refbits: "cache_inv c \<Longrightarrow> bitmap_wf b \<Longrightarrow> bit_cnt b = 64 \<Longrightarrow> cache_inv (c\<lparr>refbits := b\<rparr>)"
  by (simp add: cache_inv_def)

lemma inv_clock: "cache_inv c \<Longrightarrow> i < 64 \<Longrightarrow> cache_inv (c\<lparr>clock_idx := i\<rparr>)"
  by (simp add: cache_inv_def)

lemma set_refbit:
  assumes "cache_inv c" and "i < 64"
  obtains b where "bitmap_set (refbits c) i True = Some b" "bitmap_wf b" "bit_cnt b = 64"
  using bitmap_set_abs [of "refbits c" i True] cache_invD(3,4) [OF assms(1)] assms(2) by auto

lemma update_clock_ok:
  assumes "cache_inv c"
  obtains c' where "update_clock_idx c = Some c'" "cache_inv c'" "contents c' = contents c" "index c' = index c"
    "memory c' = memory c" "sector_locks c' = sector_locks c" "dev c' = dev c" "cache_sectors c' = cache_sectors c"
    "entries c' = entries c" "buffer c' = buffer c" "next_entry c' = next_entry c"
proof -
  note D = cache_invD [OF assms]
  obtain b where b: "bitmap_set_all (refbits c) False = Some b" "bitmap_wf b" "bit_cnt b = 64"
    using bitmap_set_all_abs [OF D(3)] D(4) by auto
  obtain all where all: "bitmap_all (refbits c) 0 64 = Some all" using bitmap_all_abs [OF D(3), of 0 64] D(4) by auto
  obtain t where t: "bitmap_test (refbits c) (clock_idx c) = Some t" using bitmap_test_abs [OF D(3)] D(4,5) by auto
  have lt: "(clock_idx c + 1) mod 64 < 64" by simp
  consider all | "\<not> all" t | "\<not> all" "\<not> t" by blast
  then show thesis
  proof cases
    case 1
    show thesis
      by (rule that [of "c\<lparr>refbits := b, clock_idx := 0\<rparr>"])
        (use all 1 b inv_clock [OF inv_refbits [OF assms b(2,3)], of 0] in \<open>simp_all add: update_clock_idx_def MAX_CACHE_SECTORS_def\<close>)
  next
    case 2
    show thesis
      by (rule that [of "c\<lparr>clock_idx := (clock_idx c + 1) mod 64\<rparr>"])
        (use all 2 t inv_clock [OF assms lt] in \<open>simp_all add: update_clock_idx_def MAX_CACHE_SECTORS_def\<close>)
  next
    case 3
    show thesis
      by (rule that [of c]) (use all 3 t assms in \<open>simp_all add: update_clock_idx_def MAX_CACHE_SECTORS_def\<close>)
  qed
qed

section \<open>Evicting and installing a slot\<close>

lemma index_cached:
  assumes "cache_inv c" and "index c s = Some p"
  obtains e where "entries c p = Some e" "sector_idx e = s" "entry_clock e < 64" "cache_sectors c ! entry_clock e = Some p"
    "contents c s = slot (entry_clock e) (buffer c)" "s < dev_size (dev c)"
proof -
  obtain e where e: "entries c p = Some e" "sector_idx e = s" "entry_clock e < 64" "cache_sectors c ! entry_clock e = Some p"
    using cache_invD(9) [OF assms] by (auto simp: index_ok_def split: option.splits)
  moreover have "s < dev_size (dev c)"
    using cache_invD(8) [OF assms(1) e(3,4)] e(1,2) by (auto simp: slot_ok_def)
  ultimately show thesis using that assms(2) by (simp add: contents_def)
qed

lemma slot_cached:
  assumes "cache_inv c" and "i < 64" and "cache_sectors c ! i = Some p"
  obtains e where "entries c p = Some e" "entry_clock e = i" "index c (sector_idx e) = Some p" "sector_idx e < dev_size (dev c)"
    "\<not> dirty e \<longrightarrow> slot i (buffer c) = sectors (dev c) (sector_idx e)"
  using cache_invD(8) [OF assms] by (auto simp: slot_ok_def split: option.splits)

lemma contents_length: "cache_inv c \<Longrightarrow> length (contents c s) = 512"
proof (cases "index c s")
  case None
  assume "cache_inv c"
  with None cache_invD(7) show ?thesis by (simp add: contents_def)
next
  case (Some p)
  assume inv: "cache_inv c"
  show ?thesis by (rule index_cached [OF inv Some]) (simp add: length_slot [OF cache_invD(2) [OF inv]])
qed

lemma evict_ok:
  assumes inv: "cache_inv c" and i: "i < 64"
  obtains c' where "buffer_cache_evict (cache_sectors c ! i) c = Some c'" "cache_inv c'" "cache_sectors c' ! i = None"
    "contents c' = contents c" "sector_locks c' = sector_locks c" "dev_size (dev c') = dev_size (dev c)"
    "memory c \<le> memory c'" "next_entry c' = next_entry c" "\<forall>s. index c s = None \<longrightarrow> index c' s = None"
    "\<forall>p. cache_sectors c ! i \<noteq> Some p \<longrightarrow> entries c' p = entries c p"
    "slot i (buffer c') = (if cache_sectors c ! i = None then slot i (buffer c) else replicate 512 0)"
proof (cases "cache_sectors c ! i")
  case None
  show thesis by (rule that [of c]) (use None inv in \<open>simp_all add: buffer_cache_evict_def\<close>)
next
  case (Some p)
  note D = cache_invD [OF inv]
  obtain e where e: "entries c p = Some e" "entry_clock e = i" "index c (sector_idx e) = Some p" "sector_idx e < dev_size (dev c)"
    "\<not> dirty e \<longrightarrow> slot i (buffer c) = sectors (dev c) (sector_idx e)"
    by (rule slot_cached [OF inv i Some])
  let ?s = "sector_idx e"
  let ?d = "if dirty e then (dev c)\<lparr>sectors := (sectors (dev c))(?s := slot i (buffer c)), write_cnt := write_cnt (dev c) + 1\<rparr> else dev c"
  let ?buf = "overlay (buffer c) (i * 512) (replicate 512 0)"
  define c' where "c' = c\<lparr>dev := ?d, index := (index c)(?s := None), entries := (entries c)(p := None), memory := memory c + 1,
    cache_sectors := (cache_sectors c)[i := None], buffer := ?buf\<rparr>"
  have out: "copy_out (buffer c) (idx2addr i) BLOCK_SECTOR_SIZE = Some (slot i (buffer c))"
    using copy_out_slot [OF D(2) i, of 0 512] by (simp add: BLOCK_SECTOR_SIZE_def length_slot [OF D(2) i])
  have inn: "copy_in (buffer c) (idx2addr i) (replicate BLOCK_SECTOR_SIZE 0) = Some ?buf"
    using copy_in_slot [OF D(2) i, of 0 "replicate 512 0"] by (simp add: BLOCK_SECTOR_SIZE_def)
  have ev: "buffer_cache_evict (cache_sectors c ! i) c = Some c'"
    using Some e(1,2,4) out inn D(1,6) i
    by (cases "dirty e") (simp_all add: buffer_cache_evict_def Let_def block_write_def check_sector_def free_entry_def c'_def)
  have buf: "slot j ?buf = (if j = i then replicate 512 0 else slot j (buffer c))" if "j < 64" for j
    using slot_overlay [OF D(2) i that, of 0 "replicate 512 0"] length_slot [OF D(2) i] by (auto simp: overlay_whole)
  have sec: "sectors ?d s = (if s = ?s then slot i (buffer c) else sectors (dev c) s)" for s using e(5) by auto
  have other_slot: "p' \<noteq> p \<and> entries c' p' = entries c p' \<and> slot_ok c' j p'"
    if j: "j < 64" "j \<noteq> i" "cache_sectors c ! j = Some p'" for j p'
  proof -
    obtain e' where e': "entries c p' = Some e'" "entry_clock e' = j" "index c (sector_idx e') = Some p'" "sector_idx e' < dev_size (dev c)"
      "\<not> dirty e' \<longrightarrow> slot j (buffer c) = sectors (dev c) (sector_idx e')"
      by (rule slot_cached [OF inv j(1,3)])
    have ne: "p' \<noteq> p" using e'(1,2) e(1,2) j(2) by auto
    then have "sector_idx e' \<noteq> ?s" using e'(3) e(3) by auto
    then show ?thesis using ne e' sec [of "sector_idx e'"] buf [OF j(1)] j(2) by (simp add: slot_ok_def c'_def)
  qed
  have other_index: "p' \<noteq> p \<and> index_ok c' s p' \<and> contents c' s = contents c s" if s: "s \<noteq> ?s" "index c s = Some p'" for s p'
  proof -
    obtain e' where e': "entries c p' = Some e'" "sector_idx e' = s" "entry_clock e' < 64" "cache_sectors c ! entry_clock e' = Some p'"
        "contents c s = slot (entry_clock e') (buffer c)" "s < dev_size (dev c)"
      by (rule index_cached [OF inv s(2)])
    have ne: "p' \<noteq> p" using e'(1,2) e(1) s(1) by auto
    then have "entry_clock e' \<noteq> i" using e'(4) Some by auto
    then show ?thesis using ne e' s buf [OF e'(3)] by (simp add: index_ok_def contents_def c'_def)
  qed
  have "slot_ok c' j p'" if "j < 64" "cache_sectors c' ! j = Some p'" for j p'
    using that other_slot [of j p'] D(1) by (cases "j = i") (auto simp: c'_def)
  moreover have "index_ok c' s p'" if "index c' s = Some p'" for s p'
    using that other_index [of s p'] by (cases "s = ?s") (auto simp: c'_def)
  moreover have "length (sectors (dev c') s) = 512" for s
    using sec [of s] D(7) [of s] length_slot [OF D(2) i] by (simp add: c'_def split: if_splits)
  moreover have "dev_type (dev c') \<noteq> BLOCK_FOREIGN" "length (buffer c') = 64 * 512" using D(2,6) i by (simp_all add: c'_def)
  ultimately have inv': "cache_inv c'" using D unfolding cache_inv_def by (simp add: c'_def split: if_splits)
  have "contents c' s = contents c s" for s
  proof (cases "s = ?s")
    case True
    then show ?thesis using e(1,2,3) sec [of s] by (simp add: contents_def c'_def)
  next
    case ne: False
    show ?thesis
    proof (cases "index c s")
      case None
      then show ?thesis using ne sec [of s] by (simp add: contents_def c'_def)
    qed (use other_index [OF ne] in blast)
  qed
  then have "contents c' = contents c" by (rule ext)
  then show thesis
    by (intro that [OF ev inv']) (use Some D(1) i buf [OF i] in \<open>auto simp: c'_def\<close>)
qed

lemma install_ok:
  assumes inv: "cache_inv c" and i: "i < 64" and free: "cache_sectors c ! i = None"
    and e: "entries c p = Some e" "entry_clock e = i" "sector_idx e = s" and s: "index c s = None" "s < dev_size (dev c)"
    and new: "\<And>j. j < 64 \<Longrightarrow> cache_sectors c ! j \<noteq> Some p"
    and buf: "length buf = 64 * 512" "\<And>j. j < 64 \<Longrightarrow> j \<noteq> i \<Longrightarrow> slot j buf = slot j (buffer c)"
    and b: "bitmap_wf b" "bit_cnt b = 64" and clean: "dirty e \<or> slot i buf = sectors (dev c) s"
    and d: "sectors d = sectors (dev c)" "dev_size d = dev_size (dev c)" "dev_type d = dev_type (dev c)"
  defines "c' \<equiv> c\<lparr>index := (index c)(s \<mapsto> p), refbits := b, cache_sectors := (cache_sectors c)[i := Some p], buffer := buf, dev := d\<rparr>"
  shows "cache_inv c'" and "contents c' = (contents c)(s := slot i buf)"
proof -
  note D = cache_invD [OF inv]
  have other: "p' \<noteq> p \<and> index_ok c' s' p' \<and> contents c' s' = contents c s'" if s': "s' \<noteq> s" "index c s' = Some p'" for s' p'
  proof -
    obtain e' where e': "entries c p' = Some e'" "sector_idx e' = s'" "entry_clock e' < 64" "cache_sectors c ! entry_clock e' = Some p'"
        "contents c s' = slot (entry_clock e') (buffer c)" "s' < dev_size (dev c)"
      by (rule index_cached [OF inv s'(2)])
    have "p' \<noteq> p" using e'(3,4) new by blast
    moreover have "entry_clock e' \<noteq> i" using e'(4) free by auto
    ultimately show ?thesis using e' s' buf(2) [OF e'(3)] by (simp add: index_ok_def contents_def c'_def)
  qed
  have "slot_ok c' j p'" if j: "j < 64" "cache_sectors c' ! j = Some p'" for j p'
  proof (cases "j = i")
    case True
    then show ?thesis using j e s clean d D(1) by (auto simp: slot_ok_def c'_def)
  next
    case False
    then have "cache_sectors c ! j = Some p'" using j by (simp add: c'_def)
    then obtain e' where e': "entries c p' = Some e'" "entry_clock e' = j" "index c (sector_idx e') = Some p'" "sector_idx e' < dev_size (dev c)"
      "\<not> dirty e' \<longrightarrow> slot j (buffer c) = sectors (dev c) (sector_idx e')"
      using slot_cached [OF inv j(1)] by blast
    then have "sector_idx e' \<noteq> s" using s(1) by auto
    then show ?thesis using e' False buf(2) [OF j(1)] d by (simp add: slot_ok_def c'_def)
  qed
  moreover have "index_ok c' s' p'" if "index c' s' = Some p'" for s' p'
    using that other [of s' p'] e i D(1) by (cases "s' = s") (auto simp: c'_def index_ok_def)
  ultimately show "cache_inv c'" using D buf(1) b d unfolding cache_inv_def by (simp add: c'_def)
  have "contents c' s' = ((contents c)(s := slot i buf)) s'" for s'
  proof (cases "s' = s")
    case True
    then show ?thesis using e by (simp add: contents_def c'_def)
  next
    case ne: False
    show ?thesis
    proof (cases "index c s'")
      case None
      then show ?thesis using ne d by (simp add: contents_def c'_def)
    qed (use ne other [OF ne] in auto)
  qed
  then show "contents c' = (contents c)(s := slot i buf)" by (rule ext)
qed

section \<open>The cases of reading and writing\<close>

lemma claim_slot:
  assumes inv: "cache_inv c" and i: "i < 64" and s: "index c s = None" "s < dev_size (dev c)" and m: "0 < memory c"
    and e: "entry_clock e = i" "sector_idx e = s"
  obtains p c1 x c2 b where "new_entry e c = Some (p, c1)" "nth_opt (cache_sectors c1) i = Some x" "buffer_cache_evict x c1 = Some c2"
    "buffer_cache_insert p c2 = Some (c2\<lparr>index := (index c2)(s \<mapsto> p), refbits := b, cache_sectors := (cache_sectors c2)[i := Some p]\<rparr>)"
    "cache_inv c2" "contents c2 = contents c" "index c2 s = None" "cache_sectors c2 ! i = None" "entries c2 p = Some e"
    "\<forall>j < 64. cache_sectors c2 ! j \<noteq> Some p" "bitmap_wf b" "bit_cnt b = 64" "sector_locks c2 = sector_locks c"
    "dev_size (dev c2) = dev_size (dev c)" "memory c \<le> memory c2 + 1"
    "slot i (buffer c2) = (if cache_sectors c ! i = None then slot i (buffer c) else replicate 512 0)"
proof -
  note D = cache_invD [OF inv]
  let ?p = "next_entry c"
  define c1 where "c1 = c\<lparr>entries := (entries c)(?p \<mapsto> e), next_entry := ?p + 1, memory := memory c - 1\<rparr>"
  have old: "entries c p \<noteq> None \<Longrightarrow> p \<noteq> ?p" for p using D(10) by blast
  have so: "slot_ok c1 j q" if "j < 64" "cache_sectors c ! j = Some q" for j q
    using D(8) [OF that] old [of q] by (auto simp: slot_ok_def c1_def split: option.splits)
  have io: "index_ok c1 t q \<and> contents c1 t = contents c t" if "index c t = Some q" for t q
    using D(9) [OF that] old [of q] that by (auto simp: index_ok_def contents_def c1_def split: option.splits)
  have ct: "contents c1 t = contents c t" for t using io [of t] by (cases "index c t") (auto simp: contents_def c1_def)
  have "p < next_entry c1" if "entries c1 p \<noteq> None" for p
    using that D(10) [of p] by (cases "p = ?p") (auto simp: c1_def)
  then have inv1: "cache_inv c1"
    using D(1-7) so io unfolding cache_inv_def by (simp add: c1_def)
  obtain c2 where c2: "buffer_cache_evict (cache_sectors c1 ! i) c1 = Some c2" "cache_inv c2" "cache_sectors c2 ! i = None"
    "contents c2 = contents c1" "sector_locks c2 = sector_locks c1" "dev_size (dev c2) = dev_size (dev c1)"
    "memory c1 \<le> memory c2" "next_entry c2 = next_entry c1" "\<forall>s. index c1 s = None \<longrightarrow> index c2 s = None"
    "\<forall>p. cache_sectors c1 ! i \<noteq> Some p \<longrightarrow> entries c2 p = entries c1 p"
    "slot i (buffer c2) = (if cache_sectors c1 ! i = None then slot i (buffer c1) else replicate 512 0)"
    by (rule evict_ok [OF inv1 i])
  have fresh: "cache_sectors c ! j \<noteq> Some ?p" if "j < 64" for j
  proof
    assume "cache_sectors c ! j = Some ?p"
    from slot_cached [OF inv that this] show False using old [of ?p] by auto
  qed
  have ent: "entries c2 ?p = Some e" using c2(10) fresh [OF i] by (simp add: c1_def)
  have fresh2: "cache_sectors c2 ! j \<noteq> Some ?p" if "j < 64" for j
  proof
    assume a: "cache_sectors c2 ! j = Some ?p"
    from slot_cached [OF c2(2) that a] have "index c2 s = Some ?p" using ent e(2) by auto
    then show False using c2(9) s(1) by (simp add: c1_def)
  qed
  obtain b where b: "bitmap_set (refbits c2) i True = Some b" "bitmap_wf b" "bit_cnt b = 64" by (rule set_refbit [OF c2(2) i])
  have ins: "buffer_cache_insert ?p c2 = Some (c2\<lparr>index := (index c2)(s \<mapsto> ?p), refbits := b, cache_sectors := (cache_sectors c2)[i := Some ?p]\<rparr>)"
    using ent e b(1) cache_invD(1) [OF c2(2)] i by (simp add: buffer_cache_insert_def)
  show thesis
    by (rule that [of ?p c1 "cache_sectors c1 ! i" c2 b])
      (use m D(1) i c2 ins ent fresh2 b s ct in \<open>auto simp: new_entry_def c1_def fun_eq_iff\<close>)
qed

lemma read_from_disk_ok:
  assumes inv: "cache_inv c" and i: "i < 64" and s: "index c s = None" "s < dev_size (dev c)" and m: "0 < memory c" and n: "off + n \<le> 512"
  obtains c' where "read_from_disk s i n off c = Some (take n (drop off (contents c s)), c')" "cache_inv c'" "contents c' = contents c"
    "sector_locks c' = sector_locks c" "dev_size (dev c') = dev_size (dev c)" "memory c \<le> memory c' + 1"
proof -
  let ?e = "\<lparr>sector_idx = s, entry_clock = i, dirty = False\<rparr>"
  obtain p c1 x c2 b where c: "new_entry ?e c = Some (p, c1)" "nth_opt (cache_sectors c1) i = Some x" "buffer_cache_evict x c1 = Some c2"
    "buffer_cache_insert p c2 = Some (c2\<lparr>index := (index c2)(s \<mapsto> p), refbits := b, cache_sectors := (cache_sectors c2)[i := Some p]\<rparr>)"
    "cache_inv c2" "contents c2 = contents c" "index c2 s = None" "cache_sectors c2 ! i = None" "entries c2 p = Some ?e"
    "\<forall>j < 64. cache_sectors c2 ! j \<noteq> Some p" "bitmap_wf b" "bit_cnt b = 64" "sector_locks c2 = sector_locks c"
    "dev_size (dev c2) = dev_size (dev c)" "memory c \<le> memory c2 + 1"
    by (rule claim_slot [OF inv i s m, of ?e]) simp_all
  note D = cache_invD [OF c(5)]
  let ?data = "contents c s"
  have disk: "sectors (dev c2) s = ?data" using c(6,7) by (metis contents_def option.simps(4))
  have len: "length ?data = 512" by (rule contents_length [OF inv])
  let ?buf = "overlay (buffer c2) (i * 512) ?data"
  let ?d = "(dev c2)\<lparr>read_cnt := read_cnt (dev c2) + 1\<rparr>"
  have lb: "length ?buf = 64 * 512" using D(2) i len by simp
  have sl: "slot j ?buf = (if j = i then ?data else slot j (buffer c2))" if "j < 64" for j
    using slot_overlay [OF D(2) i that, of 0 ?data] len length_slot [OF D(2) i] by (auto simp: overlay_whole)
  have inn: "copy_in (buffer c2) (idx2addr i) ?data = Some ?buf" using copy_in_slot [OF D(2) i, of 0 ?data] len by simp
  have out: "copy_out ?buf (idx2addr i + off) n = Some (take n (drop off ?data))"
    using copy_out_slot [OF lb i n] sl [OF i] by simp
  let ?c' = "c2\<lparr>index := (index c2)(s \<mapsto> p), refbits := b, cache_sectors := (cache_sectors c2)[i := Some p], buffer := ?buf, dev := ?d\<rparr>"
  have "cache_inv ?c' \<and> contents ?c' = (contents c2)(s := slot i ?buf)"
    by (intro conjI install_ok [OF c(5) i c(8,9)])
      (use c lb sl s disk i in \<open>simp_all\<close>)
  moreover have "read_from_disk s i n off c = Some (take n (drop off ?data), ?c')"
    using c s(2) disk inn out by (simp add: read_from_disk_def block_read_def check_sector_def Let_def)
  ultimately show thesis by (intro that [of ?c']) (use c sl [OF i] in \<open>simp_all add: fun_upd_idem\<close>)
qed

lemma write_new_ok:
  assumes inv: "cache_inv c" and i: "i < 64" and s: "index c s = None" "s < dev_size (dev c)" and m: "0 < memory c"
    and n: "off + length data \<le> 512"
  obtains c' where "write_new_buffer s data i off c = Some c'" "cache_inv c'"
    "contents c' = (contents c)(s := overlay (if cache_sectors c ! i = None then slot i (buffer c) else replicate 512 0) off data)"
    "sector_locks c' = sector_locks c" "dev_size (dev c') = dev_size (dev c)" "memory c \<le> memory c' + 1"
proof -
  let ?e = "\<lparr>sector_idx = s, entry_clock = i, dirty = True\<rparr>"
  obtain p c1 x c2 b where c: "new_entry ?e c = Some (p, c1)" "nth_opt (cache_sectors c1) i = Some x" "buffer_cache_evict x c1 = Some c2"
    "buffer_cache_insert p c2 = Some (c2\<lparr>index := (index c2)(s \<mapsto> p), refbits := b, cache_sectors := (cache_sectors c2)[i := Some p]\<rparr>)"
    "cache_inv c2" "contents c2 = contents c" "index c2 s = None" "cache_sectors c2 ! i = None" "entries c2 p = Some ?e"
    "\<forall>j < 64. cache_sectors c2 ! j \<noteq> Some p" "bitmap_wf b" "bit_cnt b = 64" "sector_locks c2 = sector_locks c"
    "dev_size (dev c2) = dev_size (dev c)" "memory c \<le> memory c2 + 1"
    "slot i (buffer c2) = (if cache_sectors c ! i = None then slot i (buffer c) else replicate 512 0)"
    by (rule claim_slot [OF inv i s m, of ?e]) simp_all
  note D = cache_invD [OF c(5)]
  let ?buf = "overlay (buffer c2) (i * 512 + off) data"
  have lb: "length ?buf = 64 * 512" using D(2) i n by simp
  have sl: "slot j ?buf = (if i = j then overlay (slot i (buffer c2)) off data else slot j (buffer c2))" if "j < 64" for j
    by (rule slot_overlay [OF D(2) i that n])
  have inn: "copy_in (buffer c2) (idx2addr i + off) data = Some ?buf" by (rule copy_in_slot [OF D(2) i n])
  let ?c' = "c2\<lparr>index := (index c2)(s \<mapsto> p), refbits := b, cache_sectors := (cache_sectors c2)[i := Some p], buffer := ?buf, dev := dev c2\<rparr>"
  have "cache_inv ?c' \<and> contents ?c' = (contents c2)(s := slot i ?buf)"
    by (intro conjI install_ok [OF c(5) i c(8,9)])
      (use c lb sl s i in \<open>simp_all\<close>)
  moreover have "write_new_buffer s data i off c = Some ?c'"
    using c inn by (simp add: write_new_buffer_def)
  ultimately show thesis by (intro that [of ?c']) (use c sl [OF i] in simp_all)
qed

lemma read_from_buffer_ok:
  assumes inv: "cache_inv c" and s: "index c s = Some p" and m: "0 < memory c" and n: "off + n \<le> 512"
  obtains c' where "read_from_buffer s n off c = Some (take n (drop off (contents c s)), c')" "cache_inv c'" "contents c' = contents c"
    "sector_locks c' = sector_locks c" "dev_size (dev c') = dev_size (dev c)" "memory c = memory c' + 1"
proof -
  obtain e where e: "entries c p = Some e" "entry_clock e < 64" "contents c s = slot (entry_clock e) (buffer c)"
    using index_cached [OF inv s] by blast
  obtain b where b: "bitmap_set (refbits c) (entry_clock e) True = Some b" "bitmap_wf b" "bit_cnt b = 64"
    by (rule set_refbit [OF inv e(2)])
  show thesis
    by (rule that [of "c\<lparr>memory := memory c - 1, refbits := b\<rparr>"])
      (use inv inv_refbits [OF _ b(2,3), of "c\<lparr>memory := memory c - 1\<rparr>"] e b(1) s m copy_out_slot [OF cache_invD(2) [OF inv] e(2) n]
        in \<open>simp_all add: read_from_buffer_def buffer_cache_find_def fun_eq_iff\<close>)
qed

lemma write_exist_ok:
  assumes inv: "cache_inv c" and s: "index c s = Some p" and m: "0 < memory c" and n: "off + length data \<le> 512"
  obtains c' where "write_exist_buffer s data off c = Some c'" "cache_inv c'"
    "contents c' = (contents c)(s := overlay (contents c s) off data)"
    "sector_locks c' = sector_locks c" "dev_size (dev c') = dev_size (dev c)" "memory c = memory c' + 1"
proof -
  note D = cache_invD [OF inv]
  obtain e where e: "entries c p = Some e" "sector_idx e = s" "entry_clock e < 64" "cache_sectors c ! entry_clock e = Some p"
      "contents c s = slot (entry_clock e) (buffer c)" "s < dev_size (dev c)"
    by (rule index_cached [OF inv s])
  let ?i = "entry_clock e"
  obtain b where b: "bitmap_set (refbits c) ?i True = Some b" "bitmap_wf b" "bit_cnt b = 64" by (rule set_refbit [OF inv e(3)])
  let ?buf = "overlay (buffer c) (?i * 512 + off) data"
  have sl: "slot j ?buf = (if ?i = j then overlay (slot ?i (buffer c)) off data else slot j (buffer c))" if "j < 64" for j
    by (rule slot_overlay [OF D(2) e(3) that n])
  define c' where "c' = c\<lparr>memory := memory c - 1, entries := (entries c)(p \<mapsto> e\<lparr>dirty := True\<rparr>), refbits := b, buffer := ?buf\<rparr>"
  have res: "write_exist_buffer s data off c = Some c'"
    using e s m b(1) copy_in_slot [OF D(2) e(3) n]
    by (simp add: write_exist_buffer_def buffer_cache_find_def Let_def c'_def)
  have other: "q \<noteq> p \<Longrightarrow> entries c' q = entries c q" for q by (simp add: c'_def)
  have so: "slot_ok c' j q" if j: "j < 64" "cache_sectors c ! j = Some q" for j q
  proof (cases "j = ?i")
    case True
    then show ?thesis using j e s by (auto simp: slot_ok_def c'_def)
  next
    case False
    obtain e' where e': "entries c q = Some e'" "entry_clock e' = j" "index c (sector_idx e') = Some q" "sector_idx e' < dev_size (dev c)"
      "\<not> dirty e' \<longrightarrow> slot j (buffer c) = sectors (dev c) (sector_idx e')"
      by (rule slot_cached [OF inv j])
    then have "q \<noteq> p" using e False by auto
    then show ?thesis using e' False sl [OF j(1)] by (simp add: slot_ok_def c'_def)
  qed
  have io: "index_ok c' t q" if t: "index c t = Some q" for t q
    using D(9) [OF t] e by (cases "q = p") (auto simp: index_ok_def c'_def split: option.splits)
  have nx: "q < next_entry c'" if "entries c' q \<noteq> None" for q
    using that D(10) [of q] e(1) by (cases "q = p") (auto simp: c'_def)
  have "length (buffer c') = 64 * 512" using D(2) e(3) n by (simp add: c'_def)
  then have inv': "cache_inv c'" using D(1-7) b so io nx unfolding cache_inv_def by (simp add: c'_def)
  have "contents c' t = ((contents c)(s := overlay (contents c s) off data)) t" for t
  proof (cases "index c t")
    case None
    then show ?thesis using s by (auto simp: contents_def c'_def)
  next
    case (Some q)
    obtain e' where e': "entries c q = Some e'" "sector_idx e' = t" "entry_clock e' < 64" "cache_sectors c ! entry_clock e' = Some q"
        "contents c t = slot (entry_clock e') (buffer c)"
      using index_cached [OF inv Some] by blast
    show ?thesis
    proof (cases "q = p")
      case True
      then show ?thesis using e e' s Some sl [OF e(3)] by (auto simp: contents_def c'_def)
    next
      case False
      then have "entry_clock e' \<noteq> ?i" "t \<noteq> s" using e e' s Some by auto
      then show ?thesis using e' Some False sl [OF e'(3)] by (simp add: contents_def c'_def)
    qed
  qed
  then have "contents c' = (contents c)(s := overlay (contents c s) off data)" by (rule ext)
  then show thesis by (rule that [OF res inv']) (use m in \<open>simp_all add: c'_def\<close>)
qed

lemma acquire_release:
  assumes "sector_locks c = replicate 64 False" and "i < 64"
  shows "slot_acquire i c = Some (c\<lparr>sector_locks := (replicate 64 False)[i := True]\<rparr>)"
    and "sector_locks c' = (replicate 64 False)[i := True] \<Longrightarrow> slot_release i c' = Some (c'\<lparr>sector_locks := replicate 64 False\<rparr>)"
proof -
  show "slot_acquire i c = Some (c\<lparr>sector_locks := (replicate 64 False)[i := True]\<rparr>)"
    using assms by (simp add: slot_acquire_def)
  have "(replicate 64 False)[i := False] = replicate 64 False"
    by (rule nth_equalityI) (use assms(2) in \<open>auto simp: nth_list_update\<close>)
  then show "slot_release i c' = Some (c'\<lparr>sector_locks := replicate 64 False\<rparr>)" if "sector_locks c' = (replicate 64 False)[i := True]"
    using assms(2) that by (simp add: slot_release_def)
qed

lemma inv_wf: "cache_inv c \<Longrightarrow> cache_wf (c\<lparr>sector_locks := replicate 64 False\<rparr>)"
  by (simp add: cache_wf_def)

lemma buffer_cache_read_ok:
  assumes wf: "cache_wf c" and s: "s < dev_size (dev c)" and n: "off + n \<le> 512" and m: "3 \<le> memory c"
  obtains c' where "buffer_cache_read s n off c = Some (take n (drop off (contents c s)), c')" "cache_wf c'" "contents c' = contents c"
    "dev_size (dev c') = dev_size (dev c)" "memory c \<le> memory c' + 3" "index c s \<noteq> None \<Longrightarrow> memory c = memory c' + 3"
proof -
  have inv: "cache_inv c" and locks: "sector_locks c = replicate 64 False" using wf by (auto simp: cache_wf_def)
  show thesis
  proof (cases "index c s")
    case (Some p)
    obtain e where e: "entries c p = Some e" "entry_clock e < 64" using index_cached [OF inv Some] by blast
    let ?c = "c\<lparr>sector_locks := (replicate 64 False)[entry_clock e := True], memory := memory c - Suc (Suc 0)\<rparr>"
    obtain c1 where c1: "read_from_buffer s n off ?c = Some (take n (drop off (contents ?c s)), c1)" "cache_inv c1" "contents c1 = contents ?c"
      "sector_locks c1 = sector_locks ?c" "dev_size (dev c1) = dev_size (dev ?c)" "memory ?c = memory c1 + 1"
      by (rule read_from_buffer_ok [of ?c s p off n]) (use inv Some m n in simp_all)
    have "buffer_cache_read s n off c = Some (take n (drop off (contents c s)), c1\<lparr>sector_locks := replicate 64 False\<rparr>)"
      using Some e m acquire_release(1) [of "c\<lparr>memory := memory c - 1\<rparr>", OF _ e(2)] acquire_release(2) [OF locks e(2), of c1] c1(1,4) locks
      by (simp add: buffer_cache_read_def buffer_cache_find_def)
    then show thesis
      by (rule that) (use c1 inv_wf [OF c1(2)] m in \<open>simp_all add: fun_eq_iff\<close>)
  next
    case None
    let ?c0 = "c\<lparr>memory := memory c - 1\<rparr>"
    obtain cu where cu: "update_clock_idx ?c0 = Some cu" "cache_inv cu" "contents cu = contents ?c0" "index cu = index ?c0"
      "memory cu = memory ?c0" "sector_locks cu = sector_locks ?c0" "dev cu = dev ?c0"
      using update_clock_ok [of ?c0] inv by auto
    let ?i = "clock_idx cu"
    have i: "?i < 64" by (rule cache_invD(5) [OF cu(2)])
    let ?c = "cu\<lparr>sector_locks := (replicate 64 False)[?i := True], memory := memory c - Suc (Suc 0)\<rparr>"
    obtain c1 where c1: "read_from_disk s ?i n off ?c = Some (take n (drop off (contents ?c s)), c1)" "cache_inv c1" "contents c1 = contents ?c"
      "sector_locks c1 = sector_locks ?c" "dev_size (dev c1) = dev_size (dev ?c)" "memory ?c \<le> memory c1 + 1"
      by (rule read_from_disk_ok [of ?c ?i s off n]) (use cu i None s m n in simp_all)
    have "buffer_cache_read s n off c = Some (take n (drop off (contents c s)), c1\<lparr>sector_locks := replicate 64 False\<rparr>)"
      using None m cu acquire_release(1) [of cu, OF _ i] acquire_release(2) [OF locks i, of c1] c1(1,4) locks
      by (simp add: buffer_cache_read_def buffer_cache_find_def Let_def)
    then show thesis
      by (rule that) (use c1 cu inv_wf [OF c1(2)] m None in \<open>simp_all add: fun_eq_iff\<close>)
  qed
qed

text \<open>A read allocates three times, so it fails with less memory.\<close>

lemma memory_needs:
  "buffer_cache_find s c = Some (x, c') \<Longrightarrow> memory c = Suc (memory c')"
  "slot_acquire i c = Some c' \<Longrightarrow> memory c' = memory c"
  "update_clock_idx c = Some c' \<Longrightarrow> memory c' = memory c"
  "read_from_buffer s n off c = Some r \<Longrightarrow> 0 < memory c"
  "read_from_disk s i n off c = Some r \<Longrightarrow> 0 < memory c"
  by (auto simp: buffer_cache_find_def slot_acquire_def update_clock_idx_def read_from_buffer_def read_from_disk_def
      new_entry_def ASSERT_def bind_eq_Some_conv split: if_splits)

lemma buffer_cache_read_needs:
  assumes "buffer_cache_read s n off c = Some r"
  shows "3 \<le> memory c"
proof -
  obtain x c1 where c1: "buffer_cache_find s c = Some (x, c1)"
    using assms by (auto simp: buffer_cache_read_def bind_eq_Some_conv)
  obtain i y c2 c3 c4 where c: "c2 = c1 \<or> update_clock_idx c1 = Some c2" "slot_acquire i c2 = Some c3" "buffer_cache_find s c3 = Some (y, c4)"
      "read_from_disk s i n off c4 \<noteq> None \<or> read_from_buffer s n off c4 \<noteq> None"
  proof (cases x)
    case (Some p)
    then show thesis
      using assms c1 by (auto simp: buffer_cache_read_def bind_eq_Some_conv split: if_splits intro: that [of c1])
  next
    case None
    then show thesis
      using assms c1 by (auto simp: buffer_cache_read_def bind_eq_Some_conv Let_def split: if_splits intro: that)
  qed
  have "0 < memory c4" using c(4) memory_needs(4,5) by blast
  then show ?thesis
    using memory_needs(1) [OF c1] memory_needs(3) [of c1 c2] c(1) memory_needs(2) [OF c(2)] memory_needs(1) [OF c(3)] by auto
qed

text \<open>The bytes that a write to a sector that is not cached starts from: the cleared slot, or the
  slot as it is if it was never used.\<close>

definition stale :: "cache \<Rightarrow> u8 list \<Rightarrow> bool" where
  "stale c old \<longleftrightarrow> old = replicate 512 0 \<or> (\<exists>i < 64. cache_sectors c ! i = None \<and> old = slot i (buffer c))"

lemma buffer_cache_write_ok:
  assumes wf: "cache_wf c" and s: "s < dev_size (dev c)" and n: "off + length data \<le> 512" and m: "3 \<le> memory c"
  obtains c' old where "buffer_cache_write s data off c = Some c'" "cache_wf c'"
    "contents c' = (contents c)(s := overlay old off data)" "index c s \<noteq> None \<longrightarrow> old = contents c s"
    "index c s = None \<longrightarrow> stale c old" "length old = 512"
    "dev_size (dev c') = dev_size (dev c)" "memory c \<le> memory c' + 3"
proof -
  have inv: "cache_inv c" and locks: "sector_locks c = replicate 64 False" using wf by (auto simp: cache_wf_def)
  show thesis
  proof (cases "index c s")
    case (Some p)
    obtain e where e: "entries c p = Some e" "entry_clock e < 64" using index_cached [OF inv Some] by blast
    let ?c = "c\<lparr>sector_locks := (replicate 64 False)[entry_clock e := True], memory := memory c - Suc (Suc 0)\<rparr>"
    obtain c1 where c1: "write_exist_buffer s data off ?c = Some c1" "cache_inv c1"
      "contents c1 = (contents ?c)(s := overlay (contents ?c s) off data)" "sector_locks c1 = sector_locks ?c"
      "dev_size (dev c1) = dev_size (dev ?c)" "memory ?c = memory c1 + 1"
      by (rule write_exist_ok [of ?c s p off data]) (use inv Some m n in simp_all)
    have "buffer_cache_write s data off c = Some (c1\<lparr>sector_locks := replicate 64 False\<rparr>)"
      using Some e m acquire_release(1) [of "c\<lparr>memory := memory c - 1\<rparr>", OF _ e(2)] acquire_release(2) [OF locks e(2), of c1] c1(1,4) locks
      by (simp add: buffer_cache_write_def buffer_cache_find_def)
    then show thesis
      by (rule that [of _ "contents c s"]) (use c1 inv_wf [OF c1(2)] Some contents_length [OF inv] m in \<open>simp_all add: fun_eq_iff\<close>)
  next
    case None
    let ?c0 = "c\<lparr>memory := memory c - 1\<rparr>"
    obtain cu where cu: "update_clock_idx ?c0 = Some cu" "cache_inv cu" "contents cu = contents ?c0" "index cu = index ?c0"
      "memory cu = memory ?c0" "sector_locks cu = sector_locks ?c0" "dev cu = dev ?c0" "cache_sectors cu = cache_sectors ?c0"
      "buffer cu = buffer ?c0"
      using update_clock_ok [of ?c0] inv by auto
    let ?i = "clock_idx cu"
    have i: "?i < 64" by (rule cache_invD(5) [OF cu(2)])
    let ?old = "if cache_sectors c ! ?i = None then slot ?i (buffer c) else replicate 512 0"
    let ?c = "cu\<lparr>sector_locks := (replicate 64 False)[?i := True], memory := memory c - Suc (Suc 0)\<rparr>"
    obtain c1 where c1: "write_new_buffer s data ?i off ?c = Some c1" "cache_inv c1"
      "contents c1 = (contents ?c)(s := overlay (if cache_sectors ?c ! ?i = None then slot ?i (buffer ?c) else replicate 512 0) off data)"
      "sector_locks c1 = sector_locks ?c" "dev_size (dev c1) = dev_size (dev ?c)" "memory ?c \<le> memory c1 + 1"
      by (rule write_new_ok [of ?c ?i s off data]) (use cu i None s m n in simp_all)
    have "buffer_cache_write s data off c = Some (c1\<lparr>sector_locks := replicate 64 False\<rparr>)"
      using None m cu acquire_release(1) [of cu, OF _ i] acquire_release(2) [OF locks i, of c1] c1(1,4) locks
      by (simp add: buffer_cache_write_def buffer_cache_find_def Let_def)
    then show thesis
    proof (rule that [of _ ?old])
      show "index c s = None \<longrightarrow> stale c ?old" using i by (auto simp: stale_def)
      show "length ?old = 512" using i length_slot [OF cache_invD(2) [OF inv]] by simp
      show "contents (c1\<lparr>sector_locks := replicate 64 False\<rparr>) = (contents c)(s := overlay ?old off data)"
        using c1(3) cu(3,8,9) by (cases "cache_sectors c ! ?i") (simp_all add: fun_eq_iff)
    qed (use inv_wf [OF c1(2)] None c1(5,6) cu(7) m in simp_all)
  qed
qed

section \<open>Flushing\<close>

lemma acquire_all_ok:
  "sector_locks c = replicate i True @ replicate n False \<Longrightarrow>
     acquire_all n i c = Some (c\<lparr>sector_locks := replicate (i + n) True\<rparr>)"
proof (induction n arbitrary: i c)
  case (Suc n)
  have "slot_acquire i c = Some (c\<lparr>sector_locks := replicate (Suc i) True @ replicate n False\<rparr>)"
    using Suc.prems by (simp add: slot_acquire_def nth_append list_update_append replicate_append_same)
  then show ?case using Suc.IH [of "c\<lparr>sector_locks := replicate (Suc i) True @ replicate n False\<rparr>" "Suc i"] by simp
qed simp

lemma release_all_ok:
  "sector_locks c = replicate i False @ replicate n True \<Longrightarrow>
     release_all n i c = Some (c\<lparr>sector_locks := replicate (i + n) False\<rparr>)"
proof (induction n arbitrary: i c)
  case (Suc n)
  have "slot_release i c = Some (c\<lparr>sector_locks := replicate (Suc i) False @ replicate n True\<rparr>)"
    using Suc.prems by (simp add: slot_release_def nth_append list_update_append replicate_append_same)
  then show ?case using Suc.IH [of "c\<lparr>sector_locks := replicate (Suc i) False @ replicate n True\<rparr>" "Suc i"] by simp
qed simp

lemma disk_write_ok:
  assumes inv: "cache_inv c" and i: "i < 64" and p: "cache_sectors c ! i = Some p" and e: "entries c p = Some e"
  defines "c' \<equiv> c\<lparr>dev := (dev c)\<lparr>sectors := (sectors (dev c))(sector_idx e := slot i (buffer c)), write_cnt := write_cnt (dev c) + 1\<rparr>\<rparr>"
  shows "cache_inv c'" and "contents c' = contents c"
proof -
  note D = cache_invD [OF inv]
  obtain ex where ex: "ex = e" "entry_clock e = i" "index c (sector_idx e) = Some p" using slot_cached [OF inv i p] e by auto
  have so: "slot_ok c' j q" if j: "j < 64" "cache_sectors c ! j = Some q" for j q
  proof -
    obtain e' where e': "entries c q = Some e'" "entry_clock e' = j" "index c (sector_idx e') = Some q" "sector_idx e' < dev_size (dev c)"
      "\<not> dirty e' \<longrightarrow> slot j (buffer c) = sectors (dev c) (sector_idx e')"
      by (rule slot_cached [OF inv j])
    then show ?thesis using ex e by (cases "sector_idx e' = sector_idx e") (auto simp: slot_ok_def c'_def)
  qed
  have io: "index_ok c' t q" if "index c t = Some q" for t q
    using D(9) [OF that] by (auto simp: index_ok_def c'_def split: option.splits)
  show "cache_inv c'" using D so io length_slot [OF D(2) i] unfolding cache_inv_def by (simp add: c'_def)
  show "contents c' = contents c"
  proof
    fix t
    show "contents c' t = contents c t"
      using ex(3) by (cases "index c t") (auto simp: contents_def c'_def split: option.splits)
  qed
qed

lemma flush_loop_ok:
  "cache_inv c \<Longrightarrow> i + n = 64 \<Longrightarrow>
     (\<forall>j < i. \<forall>p e. cache_sectors c ! j = Some p \<longrightarrow> entries c p = Some e \<longrightarrow> sectors (dev c) (sector_idx e) = contents c (sector_idx e)) \<Longrightarrow>
     \<exists>c'. flush_loop n i c = Some c' \<and> cache_inv c' \<and> contents c' = contents c \<and> sector_locks c' = sector_locks c \<and>
       index c' = index c \<and> entries c' = entries c \<and> cache_sectors c' = cache_sectors c \<and> dev_size (dev c') = dev_size (dev c) \<and>
       (\<forall>j < 64. \<forall>p e. cache_sectors c ! j = Some p \<longrightarrow> entries c p = Some e \<longrightarrow> sectors (dev c') (sector_idx e) = contents c (sector_idx e))"
proof (induction n arbitrary: i c)
  case 0
  then show ?case by auto
next
  case (Suc n)
  note D = cache_invD [OF Suc.prems(1)]
  have i: "i < 64" using Suc.prems(2) by simp
  have nth: "nth_opt (cache_sectors c) i = Some (cache_sectors c ! i)" using D(1) i by simp
  show ?case
  proof (cases "cache_sectors c ! i")
    case None
    then have "flush_loop (Suc n) i c = flush_loop n (i + 1) c" using nth by simp
    with Suc.IH [of c "i + 1"] Suc.prems None show ?thesis by (auto simp: less_Suc_eq)
  next
    case (Some p)
    obtain e where e: "entries c p = Some e" "entry_clock e = i" "index c (sector_idx e) = Some p" "sector_idx e < dev_size (dev c)"
      "\<not> dirty e \<longrightarrow> slot i (buffer c) = sectors (dev c) (sector_idx e)"
      by (rule slot_cached [OF Suc.prems(1) i Some])
    have now: "contents c (sector_idx e) = slot i (buffer c)" using e by (simp add: contents_def)
    show ?thesis
    proof (cases "dirty e")
      case False
      have "flush_loop (Suc n) i c = flush_loop n (i + 1) c" using nth Some e False by simp
      moreover have "\<forall>j < i + 1. \<forall>p e. cache_sectors c ! j = Some p \<longrightarrow> entries c p = Some e \<longrightarrow>
          sectors (dev c) (sector_idx e) = contents c (sector_idx e)"
        using Suc.prems(3) Some e False now by (auto simp: less_Suc_eq)
      ultimately show ?thesis using Suc.IH [of c "i + 1"] Suc.prems by simp
    next
      case True
      let ?c = "c\<lparr>dev := (dev c)\<lparr>sectors := (sectors (dev c))(sector_idx e := slot i (buffer c)), write_cnt := write_cnt (dev c) + 1\<rparr>\<rparr>"
      have out: "copy_out (buffer c) (idx2addr i) BLOCK_SECTOR_SIZE = Some (slot i (buffer c))"
        using copy_out_slot [OF D(2) i, of 0 512] by (simp add: BLOCK_SECTOR_SIZE_def length_slot [OF D(2) i])
      have step: "flush_loop (Suc n) i c = flush_loop n (i + 1) ?c"
        using nth Some e True out D(6) by (simp add: block_write_def check_sector_def)
      have c': "cache_inv ?c" "contents ?c = contents c" using disk_write_ok [OF Suc.prems(1) i Some e(1)] by simp_all
      have "\<forall>j < i + 1. \<forall>q f. cache_sectors ?c ! j = Some q \<longrightarrow> entries ?c q = Some f \<longrightarrow>
          sectors (dev ?c) (sector_idx f) = contents ?c (sector_idx f)"
        using Suc.prems(3) Some e now unfolding c'(2) by (auto simp: less_Suc_eq)
      with Suc.IH [of ?c "i + 1"] Suc.prems(2) c' step show ?thesis by simp
    qed
  qed
qed

lemma buffer_cache_flush_ok:
  assumes wf: "cache_wf c"
  obtains c' where "buffer_cache_flush c = Some c'" "cache_wf c'" "contents c' = contents c" "sectors (dev c') = contents c"
proof -
  have inv: "cache_inv c" and locks: "sector_locks c = replicate 64 False" using wf by (auto simp: cache_wf_def)
  let ?c = "c\<lparr>sector_locks := replicate 64 True\<rparr>"
  have acq: "acquire_all 64 0 c = Some ?c" using acquire_all_ok [of c 0 64] locks by simp
  obtain c1 where c1: "flush_loop 64 0 ?c = Some c1" "cache_inv c1" "contents c1 = contents ?c" "sector_locks c1 = sector_locks ?c"
      "index c1 = index ?c" "entries c1 = entries ?c" "cache_sectors c1 = cache_sectors ?c"
      and disk: "\<forall>j < 64. \<forall>p e. cache_sectors ?c ! j = Some p \<longrightarrow> entries ?c p = Some e \<longrightarrow> sectors (dev c1) (sector_idx e) = contents ?c (sector_idx e)"
    using flush_loop_ok [of ?c 0 64] inv by (elim exE conjE meta_impE) simp_all
  have same: "contents ?c = contents c" "contents (c1\<lparr>sector_locks := replicate 64 False\<rparr>) = contents c1"
    by (simp_all add: fun_eq_iff)
  have rel: "release_all 64 0 c1 = Some (c1\<lparr>sector_locks := replicate 64 False\<rparr>)" using release_all_ok [of c1 0 64] c1(4) by simp
  have "sectors (dev c1) s = contents c s" for s
  proof (cases "index c s")
    case None
    then have "sectors (dev c1) s = contents c1 s" using c1(5) by (simp add: contents_def)
    then show ?thesis using c1(3) same by simp
  next
    case (Some p)
    obtain e where "entries c p = Some e" "sector_idx e = s" "entry_clock e < 64" "cache_sectors c ! entry_clock e = Some p"
      using index_cached [OF inv Some] by blast
    then show ?thesis using disk [rule_format, of "entry_clock e" p e] same by simp
  qed
  then show thesis
    by (intro that [of "c1\<lparr>sector_locks := replicate 64 False\<rparr>"])
      (use acq c1 rel same inv_wf [OF c1(2)] in \<open>simp_all add: buffer_cache_flush_def MAX_CACHE_SECTORS_def fun_eq_iff\<close>)
qed

lemma buffer_cache_init_ok:
  assumes "length buf = 64 * 512" and "length ws = 2" and "dev_type block \<noteq> BLOCK_FOREIGN" and "\<And>s. length (sectors block s) = 512"
  obtains c where "buffer_cache_init buf ws mem block = Some c" "cache_wf c" "contents c = sectors block" "memory c = mem"
    "dev c = block" "buffer c = buf" "index c = (\<lambda>_. None)" "cache_sectors c = replicate 64 None"
proof -
  obtain b where b: "bitmap_set_all \<lparr>bit_cnt = 64, bits = ws\<rparr> False = Some b" "bitmap_wf b" "bit_cnt b = 64"
    using bitmap_set_all_abs [of "\<lparr>bit_cnt = 64, bits = ws\<rparr>" False] assms(2) by (auto simp: bitmap_wf_def)
  let ?c = "\<lparr>index = (\<lambda>_. None), buffer = buf, clock_idx = 0, refbits = b, cache_sectors = replicate 64 None,
       sector_locks = replicate 64 False, entries = (\<lambda>_. None), next_entry = 0, memory = mem, dev = block\<rparr>"
  show thesis
  proof (rule that [of ?c])
    show "buffer_cache_init buf ws mem block = Some ?c"
      using b by (simp add: buffer_cache_init_def bitmap_create_def MAX_CACHE_SECTORS_def)
    show "cache_wf ?c" using assms b by (simp add: cache_wf_def cache_inv_def)
  qed (simp_all add: contents_def fun_eq_iff)
qed

section \<open>Properties\<close>

definition sample_disk :: block where
  "sample_disk = \<lparr>dev_type = BLOCK_FILESYS, dev_size = 16, sectors = (\<lambda>s. replicate 512 (of_nat s)), read_cnt = 0, write_cnt = 0\<rparr>"

lemma sample_cache:
  obtains c where "buffer_cache_init (replicate (64 * 512) 0) [0, 0] 10 sample_disk = Some c" "cache_wf c"
    "contents c = (\<lambda>s. replicate 512 (of_nat s))" "memory c = 10" "dev_size (dev c) = 16" "index c = (\<lambda>_. None)"
    "stale c old \<Longrightarrow> old = replicate 512 0"
proof -
  obtain c where c: "buffer_cache_init (replicate (64 * 512) 0) [0, 0] 10 sample_disk = Some c" "cache_wf c"
      "contents c = sectors sample_disk" "memory c = 10" "dev c = sample_disk" "buffer c = replicate (64 * 512) 0"
      "index c = (\<lambda>_. None)" "cache_sectors c = replicate 64 None"
    by (rule buffer_cache_init_ok [of "replicate (64 * 512) 0" "[0, 0]" sample_disk 10]) (simp_all add: sample_disk_def)
  have "slot i (replicate (64 * 512) 0) = replicate 512 0" if "i < 64" for i
    using that by (simp add: slot_def min_def)
  then have old: "old = replicate 512 0" if "stale c old"
    using that c(6) by (auto simp: stale_def)
  show thesis by (rule that [OF c(1,2) _ c(4) _ c(7) old]) (use c in \<open>simp_all add: sample_disk_def\<close>)
qed

text \<open>C4. Reading \<open>size\<close> bytes at \<open>offset\<close> of a sector returns those bytes of its current
  contents, whether it is cached or must be fetched into a slot that another sector occupies, and
  changes the contents of no sector.  The key that \<open>buffer_cache_find\<close> allocates for its look-up is
  never freed: when the sector is cached, three units of memory are gone afterwards.\<close>

theorem buffer_cache_read_contents:
  assumes "cache_wf c" and "s < dev_size (dev c)" and "off + n \<le> BLOCK_SECTOR_SIZE" and "3 \<le> memory c"
  shows "\<exists>c'. buffer_cache_read s n off c = Some (take n (drop off (contents c s)), c') \<and> cache_wf c' \<and>
           contents c' = contents c \<and> (index c s \<noteq> None \<longrightarrow> memory c = memory c' + 3)"
proof -
  obtain c' where "buffer_cache_read s n off c = Some (take n (drop off (contents c s)), c')" "cache_wf c'"
      "contents c' = contents c" "index c s \<noteq> None \<Longrightarrow> memory c = memory c' + 3"
    by (rule buffer_cache_read_ok [OF assms(1,2) _ assms(4), of off n]) (use assms(3) in \<open>simp_all add: BLOCK_SECTOR_SIZE_def\<close>)
  then show ?thesis by blast
qed

theorem buffer_cache_read_contents_witness:
  "\<exists>c c'. buffer_cache_init (replicate (64 * 512) 0) [0, 0] 10 sample_disk = Some c \<and>
     buffer_cache_read 3 2 100 c = Some ([3, 3], c')"
proof -
  obtain c where c: "buffer_cache_init (replicate (64 * 512) 0) [0, 0] 10 sample_disk = Some c" "cache_wf c"
    "contents c = (\<lambda>s. replicate 512 (of_nat s))" "memory c = 10" "dev_size (dev c) = 16"
    by (rule sample_cache) simp
  have "take 2 (drop 100 (replicate 512 (3 :: u8))) = [3, 3]" by (simp add: min_def numeral_2_eq_2)
  then show ?thesis
    using buffer_cache_read_contents [of c 3 100 2] c by (auto simp: BLOCK_SECTOR_SIZE_def)
qed

text \<open>C11. Writing to a sector that is cached, or writing a whole sector, replaces exactly the
  written bytes of that sector and leaves every other sector as it was.\<close>

theorem buffer_cache_write_contents:
  assumes "cache_wf c" and "s < dev_size (dev c)" and "off + length data \<le> BLOCK_SECTOR_SIZE" and "3 \<le> memory c"
    and "index c s \<noteq> None \<or> length data = BLOCK_SECTOR_SIZE"
  shows "\<exists>c'. buffer_cache_write s data off c = Some c' \<and> cache_wf c' \<and>
           contents c' = (contents c)(s := overlay (contents c s) off data)"
proof -
  have n: "off + length data \<le> 512" using assms(3) by (simp add: BLOCK_SECTOR_SIZE_def)
  obtain c' old where c': "buffer_cache_write s data off c = Some c'" "cache_wf c'"
      "contents c' = (contents c)(s := overlay old off data)" "index c s \<noteq> None \<longrightarrow> old = contents c s"
      "index c s = None \<longrightarrow> stale c old" "length old = 512" "dev_size (dev c') = dev_size (dev c)" "memory c \<le> memory c' + 3"
    by (rule buffer_cache_write_ok [OF assms(1,2) n assms(4)])
  have "length (contents c s) = 512" using assms(1) by (auto simp: cache_wf_def intro: contents_length)
  then have "overlay old off data = overlay (contents c s) off data"
    using assms(5) c'(4,6) n overlay_whole [of data] by (auto simp: BLOCK_SECTOR_SIZE_def)
  then show ?thesis using c'(1,2,3) by auto
qed

theorem buffer_cache_write_contents_witness:
  "\<exists>c c'. buffer_cache_init (replicate (64 * 512) 0) [0, 0] 10 sample_disk = Some c \<and>
     buffer_cache_write 5 (replicate 512 9) 0 c = Some c' \<and> contents c' 5 = replicate 512 9 \<and> contents c' 6 = replicate 512 6"
proof -
  obtain c where c: "buffer_cache_init (replicate (64 * 512) 0) [0, 0] 10 sample_disk = Some c" "cache_wf c"
    "contents c = (\<lambda>s. replicate 512 (of_nat s))" "memory c = 10" "dev_size (dev c) = 16"
    by (rule sample_cache) simp
  then show ?thesis
    using buffer_cache_write_contents [of c 5 0 "replicate 512 9"]
    by (auto simp: BLOCK_SECTOR_SIZE_def overlay_whole)
qed

text \<open>C21. Writing part of a sector that is not cached does not fetch the sector: the bytes
  around the written ones become zero, or what a slot that was never used happens to hold, and the
  contents on disk are lost.\<close>

theorem buffer_cache_write_loses:
  assumes "cache_wf c" and "s < dev_size (dev c)" and "off + length data \<le> BLOCK_SECTOR_SIZE" and "3 \<le> memory c"
    and "index c s = None"
  shows "\<exists>c' old. buffer_cache_write s data off c = Some c' \<and> stale c old \<and>
           contents c' = (contents c)(s := overlay old off data)"
proof -
  have n: "off + length data \<le> 512" using assms(3) by (simp add: BLOCK_SECTOR_SIZE_def)
  obtain c' old where "buffer_cache_write s data off c = Some c'" "cache_wf c'"
      "contents c' = (contents c)(s := overlay old off data)" "index c s \<noteq> None \<longrightarrow> old = contents c s"
      "index c s = None \<longrightarrow> stale c old" "length old = 512" "dev_size (dev c') = dev_size (dev c)" "memory c \<le> memory c' + 3"
    by (rule buffer_cache_write_ok [OF assms(1,2) n assms(4)])
  with assms(5) show ?thesis by blast
qed

theorem buffer_cache_write_loses_witness:
  "\<exists>c c'. buffer_cache_init (replicate (64 * 512) 0) [0, 0] 10 sample_disk = Some c \<and>
     contents c 5 = replicate 512 5 \<and> buffer_cache_write 5 [9] 0 c = Some c' \<and> contents c' 5 = 9 # replicate 511 0"
proof -
  obtain c where c: "buffer_cache_init (replicate (64 * 512) 0) [0, 0] 10 sample_disk = Some c" "cache_wf c"
    "contents c = (\<lambda>s. replicate 512 (of_nat s))" "memory c = 10" "dev_size (dev c) = 16" "index c = (\<lambda>_. None)"
    by (rule sample_cache) simp
  have st: "old = replicate 512 0" if "stale c old" for old
    by (rule sample_cache [of old]) (use c(1) that in simp_all)
  obtain c' old where c': "buffer_cache_write 5 [9] 0 c = Some c'" "stale c old" "contents c' = (contents c)(5 := overlay old 0 [9])"
    using buffer_cache_write_loses [of c 5 0 "[9]"] c by (auto simp: BLOCK_SECTOR_SIZE_def)
  show ?thesis using c' st [OF c'(2)] c(1,3) by (simp add: overlay_def)
qed

text \<open>C15. \<open>buffer_cache_flush\<close> makes the current contents of every sector durable: afterwards
  the disk holds them, and no lock of the cache is held.\<close>

theorem buffer_cache_flush_durable:
  assumes "cache_wf c"
  shows "\<exists>c'. buffer_cache_flush c = Some c' \<and> cache_wf c' \<and> contents c' = contents c \<and> sectors (dev c') = contents c"
proof -
  obtain c' where "buffer_cache_flush c = Some c'" "cache_wf c'" "contents c' = contents c" "sectors (dev c') = contents c"
    by (rule buffer_cache_flush_ok [OF assms])
  then show ?thesis by blast
qed

theorem buffer_cache_flush_durable_witness:
  "\<exists>c c1 c'. buffer_cache_init (replicate (64 * 512) 0) [0, 0] 10 sample_disk = Some c \<and>
     buffer_cache_write 5 (replicate 512 9) 0 c = Some c1 \<and> buffer_cache_flush c1 = Some c' \<and> sectors (dev c') 5 = replicate 512 9"
proof -
  obtain c where c: "buffer_cache_init (replicate (64 * 512) 0) [0, 0] 10 sample_disk = Some c" "cache_wf c"
    "contents c = (\<lambda>s. replicate 512 (of_nat s))" "memory c = 10" "dev_size (dev c) = 16"
    by (rule sample_cache) simp
  obtain c1 old where c1: "buffer_cache_write 5 (replicate 512 9) 0 c = Some c1" "cache_wf c1"
      "contents c1 = (contents c)(5 := overlay old 0 (replicate 512 9))" "length old = 512"
    by (rule buffer_cache_write_ok [OF c(2), of 5 0 "replicate 512 9"]) (use c in simp_all)
  show ?thesis using c(1) c1 buffer_cache_flush_durable [OF c1(2)] by (auto simp: overlay_whole)
qed

end
