(* ===== verification/Pintos_Cache_Keys.thy ===== *)
theory Pintos_Cache_Keys
  imports Pintos_Cache Pintos_Hash
begin

text \<open>
  The two functions that \<open>filesys/cache.c\<close> passes to its hash table, and that they meet the contract
  of the hash component: its facts about insertion, look-up and deletion hold for the table of the
  cache, which is why the cache model can use the map from sector numbers to entries.
\<close>

definition hash_func :: "cache_sector \<Rightarrow> u32" where
  "hash_func e = of_nat (sector_idx e)"

definition less_func :: "cache_sector \<Rightarrow> cache_sector \<Rightarrow> bool" where
  "less_func a b = (hash_func a < hash_func b)"

interpretation cache_keys: hash_order less_func hash_func
proof
  show "hash_func a = hash_func b" if "equivalent less_func a b" for a b
    using that by (auto simp: equivalent_def less_func_def)
qed (auto simp: less_func_def)

text \<open>Sector numbers are 32-bit, so entries are equivalent exactly when they are for the same
  sector.\<close>

lemma cache_keys_sector:
  assumes "sector_idx a < 2 ^ 32" and "sector_idx b < 2 ^ 32"
  shows "equivalent less_func a b \<longleftrightarrow> sector_idx a = sector_idx b"
proof -
  have "hash_func a = hash_func b \<longleftrightarrow> sector_idx a = sector_idx b"
    using assms by (simp add: hash_func_def of_nat_eq_iff [symmetric] word_of_nat_eq_iff take_bit_nat_eq_self)
  moreover have "equivalent less_func a b \<longleftrightarrow> hash_func a = hash_func b" by (auto simp: equivalent_def less_func_def)
  ultimately show ?thesis by simp
qed

end
