(* ===== verification/Pintos_Fixed_Point.thy ===== *)
theory Pintos_Fixed_Point
  imports Pintos_Prelude "HOL-Library.Signed_Division"
begin

text \<open>
  Fixed-point numbers (\<open>threads/fixed-point.h\<close>): an \<open>int\<close> with 16 fractional bits.  \<open>int32\<close> is the
  wrap-around of a 32-bit \<open>int\<close>; a division truncates towards zero, as in C.  The contract of a
  comparison function of the library is the locale \<open>strcmp_type\<close>.
\<close>

section \<open>Operations\<close>

definition int32 :: "int \<Rightarrow> int" where
  "int32 x = (x + 2 ^ 31) mod 2 ^ 32 - 2 ^ 31"

definition FIX_F :: int where
  "FIX_F = 2 ^ 16"

definition FIX_MAX_INT :: int where
  "FIX_MAX_INT = 2 ^ 16 - 1"

definition FIX_MIN_INT :: int where
  "FIX_MIN_INT = - FIX_MAX_INT"

record fixed_point_t =
  f :: int

definition mk_fix :: "int \<Rightarrow> fixed_point_t" where
  "mk_fix x = \<lparr>f = int32 x\<rparr>"

definition fix_int :: "int \<Rightarrow> fixed_point_t option" where
  "fix_int n = do {
     ASSERT (FIX_MIN_INT \<le> n \<and> n \<le> FIX_MAX_INT);
     Some (mk_fix (n * FIX_F))
   }"

definition fix_frac :: "int \<Rightarrow> int \<Rightarrow> fixed_point_t option" where
  "fix_frac n d = do {
     ASSERT (d \<noteq> 0);
     ASSERT (FIX_MIN_INT \<le> n sdiv d \<and> n sdiv d \<le> FIX_MAX_INT);
     Some (mk_fix (n * FIX_F sdiv d))
   }"

definition fix_round :: "fixed_point_t \<Rightarrow> int" where
  "fix_round x = int32 (f x + FIX_F sdiv 2) sdiv FIX_F"

definition fix_trunc :: "fixed_point_t \<Rightarrow> int" where
  "fix_trunc x = f x sdiv FIX_F"

definition fix_add :: "fixed_point_t \<Rightarrow> fixed_point_t \<Rightarrow> fixed_point_t" where
  "fix_add x y = mk_fix (f x + f y)"

definition fix_sub :: "fixed_point_t \<Rightarrow> fixed_point_t \<Rightarrow> fixed_point_t" where
  "fix_sub x y = mk_fix (f x - f y)"

definition fix_mul :: "fixed_point_t \<Rightarrow> fixed_point_t \<Rightarrow> fixed_point_t" where
  "fix_mul x y = mk_fix (f x * f y sdiv FIX_F)"

definition fix_scale :: "fixed_point_t \<Rightarrow> int \<Rightarrow> fixed_point_t option" where
  "fix_scale x n = do { ASSERT (0 \<le> n); Some (mk_fix (f x * n)) }"

definition fix_div :: "fixed_point_t \<Rightarrow> fixed_point_t \<Rightarrow> fixed_point_t option" where
  "fix_div x y = (if f y = 0 then None else Some (mk_fix (f x * FIX_F sdiv f y)))"

definition fix_unscale :: "fixed_point_t \<Rightarrow> int \<Rightarrow> fixed_point_t option" where
  "fix_unscale x n = do { ASSERT (0 < n); Some (mk_fix (f x sdiv n)) }"

definition fix_inv :: "fixed_point_t \<Rightarrow> fixed_point_t option" where
  "fix_inv x = do { one \<leftarrow> fix_int 1; fix_div one x }"

definition fix_compare :: "fixed_point_t \<Rightarrow> fixed_point_t \<Rightarrow> int" where
  "fix_compare x y = (if f x < f y then - 1 else if f x > f y then 1 else 0)"

section \<open>Comparison functions\<close>

text \<open>A comparison function returns the sign of the difference of the keys of its arguments.\<close>

locale strcmp_type =
  fixes compare' :: "'a \<Rightarrow> 'a \<Rightarrow> int" and key :: "'a \<Rightarrow> 'k::linorder"
  assumes compare_pos: "0 < compare' a b \<longleftrightarrow> key b < key a"
    and compare_neg: "compare' a b < 0 \<longleftrightarrow> key a < key b"
begin

lemma compare_zero: "compare' a b = 0 \<longleftrightarrow> key a = key b"
  using compare_pos [of a b] compare_neg [of a b] by (metis less_irrefl linorder_neqE)

lemma compare_antisym: "sgn (compare' a b) = - sgn (compare' b a)"
  using compare_pos [of a b] compare_neg [of a b] compare_pos [of b a] compare_neg [of b a]
  by (auto simp: sgn_if)

end

interpretation fixed: strcmp_type fix_compare f
  by unfold_locales (auto simp: fix_compare_def)

section \<open>Conversions\<close>

lemma int32_id: "- (2 ^ 31) \<le> x \<Longrightarrow> x < 2 ^ 31 \<Longrightarrow> int32 x = x"
  by (simp add: int32_def)

lemma int32_range: "- (2 ^ 31) \<le> int32 x \<and> int32 x < 2 ^ 31"
  using pos_mod_bound [of "2 ^ 32 :: int" "x + 2 ^ 31"] pos_mod_sign [of "2 ^ 32 :: int" "x + 2 ^ 31"]
  by (simp add: int32_def)

lemma sdiv_mult: "0 < (d :: int) \<Longrightarrow> n * d sdiv d = n"
  by (simp add: signed_divide_int_def sgn_mult abs_mult sgn_mult_abs)

text \<open>An integer that \<open>fix_int\<close> accepts survives the conversion to a fixed-point number and
  back exactly when it fits in 16 bits: \<open>FIX_MAX_INT\<close> counts the sign bit as a bit of the integer,
  so the assertion accepts integers up to 65535 whose fixed-point number overflows.\<close>

theorem fix_int_trunc:
  assumes "FIX_MIN_INT \<le> n" and "n \<le> FIX_MAX_INT"
  shows "\<exists>x. fix_int n = Some x \<and> (fix_trunc x = n \<longleftrightarrow> - (2 ^ 15) \<le> n \<and> n < 2 ^ 15)"
proof -
  have fits: "int32 (n * 2 ^ 16) = n * 2 ^ 16" if "- (2 ^ 15) \<le> n" "n < 2 ^ 15"
    using that by (intro int32_id) simp_all
  have "int32 (n * 2 ^ 16) sdiv 2 ^ 16 \<noteq> n" if "\<not> (- (2 ^ 15) \<le> n \<and> n < 2 ^ 15)"
  proof
    assume eq: "int32 (n * 2 ^ 16) sdiv 2 ^ 16 = n"
    have "\<bar>int32 (n * 2 ^ 16)\<bar> \<le> 2 ^ 31" using int32_range [of "n * 2 ^ 16"] by linarith
    then have "\<bar>int32 (n * 2 ^ 16)\<bar> div 2 ^ 16 \<le> 2 ^ 15" using zdiv_mono1 [of "\<bar>int32 (n * 2 ^ 16)\<bar>" "2 ^ 31" "2 ^ 16"] by simp
    then have "\<bar>n\<bar> \<le> 2 ^ 15" using eq by (auto simp: signed_divide_int_def abs_mult sgn_if split: if_splits)
    with that have "n = 2 ^ 15" by linarith
    with eq show False by (simp add: int32_def signed_divide_int_def)
  qed
  then show ?thesis
    using assms fits by (auto simp: fix_int_def fix_trunc_def mk_fix_def FIX_F_def sdiv_mult)
qed

theorem fix_int_trunc_witness:
  "\<exists>x y. fix_int 1234 = Some x \<and> fix_trunc x = 1234 \<and> fix_int 40000 = Some y \<and> fix_trunc y \<noteq> 40000"
  using fix_int_trunc [of 1234] fix_int_trunc [of 40000]
  by (auto simp: FIX_MIN_INT_def FIX_MAX_INT_def)

end
