(* ===== verification/Pintos_Stdlib.thy ===== *)
theory Pintos_Stdlib
  imports Pintos_Fixed_Point "HOL-Library.Multiset"
begin

text \<open>
  Sorting and searching (\<open>lib/stdlib.c\<close>).  An array is the list of its bytes; elements have \<open>size\<close>
  bytes and 1-based indexes.  Reading or writing outside the array is \<open>None\<close>.  A comparison function
  sees the bytes of two elements and is a parameter with its contract \<open>strcmp_type\<close>.
\<close>

section \<open>Operations\<close>

type_synonym bytes = "u8 list"

definition elem_at :: "nat \<Rightarrow> bytes \<Rightarrow> nat \<Rightarrow> bytes" where
  "elem_at size' array idx = take size' (drop ((idx - 1) * size') array)"

definition read_elem :: "nat \<Rightarrow> bytes \<Rightarrow> nat \<Rightarrow> bytes option" where
  "read_elem size' array idx =
     (if 1 \<le> idx \<and> idx * size' \<le> length array then Some (elem_at size' array idx) else None)"

text \<open>The loop of \<open>do_swap\<close>: \<open>n\<close> rounds from \<open>i\<close> on.\<close>

fun swap_loop :: "nat \<Rightarrow> nat \<Rightarrow> nat \<Rightarrow> nat \<Rightarrow> bytes \<Rightarrow> bytes option" where
  "swap_loop 0 i a b array = Some array"
| "swap_loop (Suc n) i a b array = do {
     t \<leftarrow> nth_opt array (a + i);
     u \<leftarrow> nth_opt array (b + i);
     array \<leftarrow> update_opt array (a + i) u;
     array \<leftarrow> update_opt array (b + i) t;
     swap_loop n (i + 1) a b array
   }"

definition do_swap :: "bytes \<Rightarrow> nat \<Rightarrow> nat \<Rightarrow> nat \<Rightarrow> bytes option" where
  "do_swap array a_idx b_idx size' = swap_loop size' 0 ((a_idx - 1) * size') ((b_idx - 1) * size') array"

definition do_compare :: "bytes \<Rightarrow> nat \<Rightarrow> nat \<Rightarrow> nat \<Rightarrow> (bytes \<Rightarrow> bytes \<Rightarrow> int) \<Rightarrow> int option" where
  "do_compare array a_idx b_idx size' cmp = do {
     a \<leftarrow> read_elem size' array a_idx;
     b \<leftarrow> read_elem size' array b_idx;
     Some (cmp a b)
   }"

text \<open>The larger of the elements \<open>child\<close>, if there is one, and \<open>m\<close>.\<close>

definition pick :: "bytes \<Rightarrow> nat \<Rightarrow> nat \<Rightarrow> (bytes \<Rightarrow> bytes \<Rightarrow> int) \<Rightarrow> nat \<Rightarrow> nat \<Rightarrow> nat option" where
  "pick array cnt size' cmp child m =
     (if child \<le> cnt then do {
        c \<leftarrow> do_compare array child m size' cmp;
        Some (if 0 < c then child else m)
      }
      else Some m)"

partial_function (option) heapify ::
  "bytes \<Rightarrow> nat \<Rightarrow> nat \<Rightarrow> nat \<Rightarrow> (bytes \<Rightarrow> bytes \<Rightarrow> int) \<Rightarrow> bytes option" where
  "heapify array i cnt size' cmp = do {
     let left = 2 * i mod 2 ^ 32;
     let right = (2 * i + 1) mod 2 ^ 32;
     m \<leftarrow> pick array cnt size' cmp left i;
     m \<leftarrow> pick array cnt size' cmp right m;
     if m = i then Some array
     else do {
       array \<leftarrow> do_swap array i m size';
       heapify array m cnt size' cmp
     }
   }"

text \<open>The two loops of \<open>sort\<close>, over the value of \<open>i\<close>.\<close>

fun build_heap :: "nat \<Rightarrow> bytes \<Rightarrow> nat \<Rightarrow> nat \<Rightarrow> (bytes \<Rightarrow> bytes \<Rightarrow> int) \<Rightarrow> bytes option" where
  "build_heap 0 array cnt size' cmp = Some array"
| "build_heap (Suc i) array cnt size' cmp = do {
     array \<leftarrow> heapify array (Suc i) cnt size' cmp;
     build_heap i array cnt size' cmp
   }"

fun sort_heap :: "nat \<Rightarrow> bytes \<Rightarrow> nat \<Rightarrow> (bytes \<Rightarrow> bytes \<Rightarrow> int) \<Rightarrow> bytes option" where
  "sort_heap (Suc (Suc i)) array size' cmp = do {
     array \<leftarrow> do_swap array 1 (Suc (Suc i)) size';
     array \<leftarrow> heapify array 1 (Suc i) size' cmp;
     sort_heap (Suc i) array size' cmp
   }"
| "sort_heap i array size' cmp = Some array"

definition sort_array :: "bytes \<Rightarrow> nat \<Rightarrow> nat \<Rightarrow> (bytes \<Rightarrow> bytes \<Rightarrow> int) \<Rightarrow> bytes option" where
  "sort_array array cnt size' cmp = do {
     ASSERT (0 < size');
     array \<leftarrow> build_heap (cnt div 2) array cnt size' cmp;
     sort_heap cnt array size' cmp
   }"

definition qsort :: "bytes \<Rightarrow> nat \<Rightarrow> nat \<Rightarrow> (bytes \<Rightarrow> bytes \<Rightarrow> int) \<Rightarrow> bytes option" where
  "qsort array cnt size' cmp = sort_array array cnt size' cmp"

text \<open>\<open>first\<close> and \<open>last'\<close> are offsets from the start of the array; dividing by an element size of
  zero is a fault.\<close>

function search_loop :: "bytes \<Rightarrow> bytes \<Rightarrow> nat \<Rightarrow> (bytes \<Rightarrow> bytes \<Rightarrow> int) \<Rightarrow> nat \<Rightarrow> nat \<Rightarrow> nat option option" where
  "search_loop key' array size' cmp first last' =
     (if first < last' then
        if size' = 0 then None
        else
          let range' = (last' - first) div size';
              middle = first + range' div 2 * size'
          in if length array < middle + size' then None
             else
               let c = cmp key' (take size' (drop middle array))
               in if c < 0 then search_loop key' array size' cmp first middle
                  else if 0 < c then search_loop key' array size' cmp (middle + size') last'
                  else Some (Some middle)
      else Some None)"
  by pat_completeness auto
termination
proof (relation "measure (\<lambda>(key', array, size', cmp, first, last'). last' - first)", goal_cases)
  case (2 key' array size' cmp first last' range' middle c)
  have "range' div 2 * size' < last' - first"
  proof (cases "range' = 0")
    case False
    have "range' div 2 < range'" using False by simp
    then have "range' div 2 * size' < range' * size'" using 2 by simp
    also have "\<dots> \<le> last' - first" using 2 by simp
    finally show ?thesis .
  qed (use 2 in simp)
  then show ?case using 2 by simp
qed auto

declare search_loop.simps [simp del]

definition binary_search :: "bytes \<Rightarrow> bytes \<Rightarrow> nat \<Rightarrow> nat \<Rightarrow> (bytes \<Rightarrow> bytes \<Rightarrow> int) \<Rightarrow> nat option option" where
  "binary_search key' array cnt size' cmp = search_loop key' array size' cmp 0 (size' * cnt mod 2 ^ 32)"

definition bsearch :: "bytes \<Rightarrow> bytes \<Rightarrow> nat \<Rightarrow> nat \<Rightarrow> (bytes \<Rightarrow> bytes \<Rightarrow> int) \<Rightarrow> nat option option" where
  "bsearch key' array cnt size' cmp = binary_search key' array cnt size' cmp"

section \<open>Swapping elements\<close>

lemma swap_loop_ok:
  assumes "a + i + n \<le> length array" and "b + i + n \<le> length array" and "a + i + n \<le> b \<or> b + i + n \<le> a"
  shows "\<exists>array'. swap_loop n i a b array = Some array' \<and> length array' = length array \<and>
    (\<forall>k < length array. array' ! k =
       (if a + i \<le> k \<and> k < a + i + n then array ! (b + (k - a))
        else if b + i \<le> k \<and> k < b + i + n then array ! (a + (k - b)) else array ! k))"
  using assms
proof (induction n arbitrary: i array)
  case 0
  then show ?case by auto
next
  case (Suc n)
  let ?arr = "array[a + i := array ! (b + i), b + i := array ! (a + i)]"
  have "\<exists>r. swap_loop n (i + 1) a b ?arr = Some r \<and> length r = length ?arr \<and>
      (\<forall>k < length ?arr. r ! k = (if a + (i + 1) \<le> k \<and> k < a + (i + 1) + n then ?arr ! (b + (k - a))
        else if b + (i + 1) \<le> k \<and> k < b + (i + 1) + n then ?arr ! (a + (k - b)) else ?arr ! k))"
    by (rule Suc.IH) (use Suc.prems in simp_all)
  then obtain r where r: "swap_loop n (i + 1) a b ?arr = Some r" "length r = length ?arr"
      "\<forall>k < length ?arr. r ! k = (if a + (i + 1) \<le> k \<and> k < a + (i + 1) + n then ?arr ! (b + (k - a))
        else if b + (i + 1) \<le> k \<and> k < b + (i + 1) + n then ?arr ! (a + (k - b)) else ?arr ! k)"
    by blast
  have "swap_loop (Suc n) i a b array = Some r" using r(1) Suc.prems by simp
  moreover have "r ! k = (if a + i \<le> k \<and> k < a + i + Suc n then array ! (b + (k - a))
        else if b + i \<le> k \<and> k < b + i + Suc n then array ! (a + (k - b)) else array ! k)" if k: "k < length array" for k
  proof -
    have rk: "r ! k = (if a + (i + 1) \<le> k \<and> k < a + (i + 1) + n then ?arr ! (b + (k - a))
        else if b + (i + 1) \<le> k \<and> k < b + (i + 1) + n then ?arr ! (a + (k - b)) else ?arr ! k)"
      using r(3) [rule_format, of k] k by simp
    have A: "?arr ! j = (if j = b + i then array ! (a + i) else if j = a + i then array ! (b + i) else array ! j)"
      if "j < length array" for j
      using that Suc.prems by (simp add: nth_list_update)
    consider "k = a + i" | "k = b + i" "k \<noteq> a + i" | "a + (i + 1) \<le> k" "k < a + (i + 1) + n" |
        "b + (i + 1) \<le> k" "k < b + (i + 1) + n" | "\<not> (a + i \<le> k \<and> k < a + i + Suc n)" "\<not> (b + i \<le> k \<and> k < b + i + Suc n)"
      by linarith
    then show ?thesis
    proof cases
      case 1
      then have "\<not> (b + (i + 1) \<le> k \<and> k < b + (i + 1) + n)" "k \<noteq> b + i" using Suc.prems by linarith+
      then show ?thesis using rk A [OF k] 1 by auto
    next
      case 2
      then have "\<not> (a + i \<le> k \<and> k < a + i + Suc n)" using Suc.prems by linarith
      then show ?thesis using rk A [OF k] 2 by auto
    next
      case 3
      then have "b + (k - a) < length array" "b + (k - a) \<noteq> b + i" "b + (k - a) \<noteq> a + i" using Suc.prems by linarith+
      then show ?thesis using rk A [of "b + (k - a)"] 3 by auto
    next
      case 4
      then have "a + (k - b) < length array" "a + (k - b) \<noteq> a + i" "a + (k - b) \<noteq> b + i"
          "\<not> (a + i \<le> k \<and> k < a + i + Suc n)" using Suc.prems by linarith+
      then show ?thesis using rk A [of "a + (k - b)"] 4 by auto
    next
      case 5
      then show ?thesis using rk A [OF k] by auto
    qed
  qed
  ultimately show ?case using r(2) by simp
qed

lemma block_end: "1 \<le> k \<Longrightarrow> (k - 1) * size' + size' = k * (size' :: nat)"
  by (cases k) auto

lemma block_apart:
  assumes "k \<noteq> a" and "1 \<le> k" and "1 \<le> a"
  shows "k * size' \<le> (a - 1) * size' \<or> a * size' \<le> (k - 1) * (size' :: nat)"
proof (cases "k < a")
  case True
  then have "k \<le> a - 1" by simp
  then show ?thesis by (blast intro: mult_le_mono1)
next
  case False
  with assms have "a \<le> k - 1" by simp
  then show ?thesis by (blast intro: mult_le_mono1)
qed

lemma length_elem_at: "1 \<le> k \<Longrightarrow> k * size' \<le> length array \<Longrightarrow> length (elem_at size' array k) = size'"
  using block_end [of k size'] by (simp add: elem_at_def)

lemma nth_elem_at:
  "1 \<le> k \<Longrightarrow> k * size' \<le> length array \<Longrightarrow> m < size' \<Longrightarrow> elem_at size' array k ! m = array ! ((k - 1) * size' + m)"
  using block_end [of k size'] by (simp add: elem_at_def)

lemma do_swap_ok:
  assumes a: "1 \<le> a" "a * size' \<le> length array" and b: "1 \<le> b" "b * size' \<le> length array" and "a \<noteq> b"
  obtains array' where "do_swap array a b size' = Some array'" "length array' = length array"
    "\<forall>k. 1 \<le> k \<longrightarrow> k * size' \<le> length array \<longrightarrow> elem_at size' array' k = elem_at size' array (if k = a then b else if k = b then a else k)"
proof -
  let ?a = "(a - 1) * size'" and ?b = "(b - 1) * size'"
  note ends = block_end [OF a(1), of size'] block_end [OF b(1), of size']
  obtain r where r: "swap_loop size' 0 ?a ?b array = Some r" "length r = length array"
      "\<forall>k < length array. r ! k = (if ?a \<le> k \<and> k < ?a + size' then array ! (?b + (k - ?a))
        else if ?b \<le> k \<and> k < ?b + size' then array ! (?a + (k - ?b)) else array ! k)"
    using swap_loop_ok [of ?a 0 size' array ?b] a b ends block_apart [OF assms(5) a(1) b(1), of size'] by auto
  have "elem_at size' r k = elem_at size' array (if k = a then b else if k = b then a else k)"
    if k: "1 \<le> k" "k * size' \<le> length array" for k
  proof (rule nth_equalityI)
    let ?k = "if k = a then b else if k = b then a else k"
    have k': "1 \<le> ?k" "?k * size' \<le> length array" using a b k by auto
    show "length (elem_at size' r k) = length (elem_at size' array ?k)"
      using k k' r(2) by (simp only: length_elem_at)
    fix m assume "m < length (elem_at size' r k)"
    then have m: "m < size'" using k r(2) by (simp add: length_elem_at)
    have lt: "(k - 1) * size' + m < length array" using k m block_end [OF k(1), of size'] by linarith
    have "r ! ((k - 1) * size' + m) = array ! ((?k - 1) * size' + m)"
    proof -
      have apart: "\<not> (?a \<le> (k - 1) * size' + m \<and> (k - 1) * size' + m < ?a + size')" if "k \<noteq> a"
        using block_apart [OF that k(1) a(1), of size'] m ends block_end [OF k(1), of size'] by linarith
      have apart': "\<not> (?b \<le> (k - 1) * size' + m \<and> (k - 1) * size' + m < ?b + size')" if "k \<noteq> b"
        using block_apart [OF that k(1) b(1), of size'] m ends block_end [OF k(1), of size'] by linarith
      note rk = r(3) [rule_format, OF lt]
      show ?thesis
      proof (cases "k = a")
        case True
        then show ?thesis using rk m by simp
      next
        case False
        show ?thesis
        proof (cases "k = b")
          case True
          then show ?thesis using rk m unfolding if_not_P [OF apart [OF False]] by simp
        next
          case nb: False
          show ?thesis using rk False nb unfolding if_not_P [OF apart [OF False]] if_not_P [OF apart' [OF nb]] by simp
        qed
      qed
    qed
    then show "elem_at size' r k ! m = elem_at size' array ?k ! m"
      using nth_elem_at [of k size' r m] nth_elem_at [OF k' m] k m r(2) by simp
  qed
  then show thesis by (intro that [of r]) (use r in \<open>simp_all add: do_swap_def\<close>)
qed

text \<open>The first \<open>cnt\<close> elements of an array.\<close>

definition elems :: "nat \<Rightarrow> bytes \<Rightarrow> nat \<Rightarrow> bytes list" where
  "elems size' array cnt = map (elem_at size' array) [1..<Suc cnt]"

lemma elems_swap:
  assumes "1 \<le> a" "a \<le> cnt" "1 \<le> b" "b \<le> cnt"
    and "\<And>k. 1 \<le> k \<Longrightarrow> k \<le> cnt \<Longrightarrow> elem_at size' array' k = elem_at size' array (if k = a then b else if k = b then a else k)"
  shows "mset (elems size' array' cnt) = mset (elems size' array cnt)"
proof -
  let ?xs = "elems size' array cnt"
  have "elems size' array' cnt = ?xs[a - 1 := ?xs ! (b - 1), b - 1 := ?xs ! (a - 1)]"
    using assms by (intro nth_equalityI) (auto simp: elems_def nth_list_update simp del: upt_Suc)
  then show ?thesis
    using assms mset_swap [of "b - 1" ?xs "a - 1"] by (simp add: elems_def del: upt_Suc)
qed

lemma elems_set:
  assumes "mset (elems size' array' cnt) = mset (elems size' array cnt)" and "1 \<le> k" and "k \<le> cnt"
  obtains j where "1 \<le> j" "j \<le> cnt" "elem_at size' array' k = elem_at size' array j"
proof -
  have "elem_at size' array' k \<in> set (elems size' array' cnt)" using assms(2,3) by (auto simp: elems_def simp del: upt_Suc)
  then have "elem_at size' array' k \<in> set (elems size' array cnt)" using mset_eq_setD [OF assms(1)] by simp
  then obtain j where "j \<in> {1..<Suc cnt}" "elem_at size' array' k = elem_at size' array j"
    by (auto simp: elems_def simp del: upt_Suc)
  then show thesis by (intro that [of j]) auto
qed

lemma elems_tail:
  assumes "i \<le> cnt" and "mset (elems size' a i) = mset (elems size' r i)"
    and "\<And>k. i < k \<Longrightarrow> k \<le> cnt \<Longrightarrow> elem_at size' a k = elem_at size' r k"
  shows "mset (elems size' a cnt) = mset (elems size' r cnt)"
proof -
  have "[1..<Suc cnt] = [1..<Suc i] @ [Suc i..<Suc cnt]"
    using assms(1) upt_add_eq_append [of 1 "Suc i" "cnt - i"] by simp
  then have "elems size' b cnt = elems size' b i @ map (elem_at size' b) [Suc i..<Suc cnt]" for b
    unfolding elems_def by (simp del: upt_Suc)
  moreover have "map (elem_at size' a) [Suc i..<Suc cnt] = map (elem_at size' r) [Suc i..<Suc cnt]"
    using assms(3) by (simp del: upt_Suc)
  ultimately show ?thesis using assms(2) by (simp only: mset_append)
qed

section \<open>Heaps\<close>

text \<open>\<open>heap v l n\<close>: in the tree with \<open>n\<close> nodes where the parent of \<open>k\<close> is \<open>k div 2\<close>, every node whose
  parent is at least \<open>l\<close> has a value at most that of its parent; \<open>heap_except\<close> leaves out the
  children of \<open>i\<close>, which are at most the parent of \<open>i\<close>.\<close>

definition heap :: "(nat \<Rightarrow> 'k::linorder) \<Rightarrow> nat \<Rightarrow> nat \<Rightarrow> bool" where
  "heap v l n \<longleftrightarrow> (\<forall>k. 2 \<le> k \<and> k \<le> n \<and> l \<le> k div 2 \<longrightarrow> v k \<le> v (k div 2))"

definition heap_except :: "(nat \<Rightarrow> 'k::linorder) \<Rightarrow> nat \<Rightarrow> nat \<Rightarrow> nat \<Rightarrow> bool" where
  "heap_except v l n i \<longleftrightarrow> (\<forall>k. 2 \<le> k \<and> k \<le> n \<and> l \<le> k div 2 \<and> k div 2 \<noteq> i \<longrightarrow> v k \<le> v (k div 2)) \<and>
     (\<forall>k. 2 \<le> k \<and> k \<le> n \<and> k div 2 = i \<and> l \<le> i div 2 \<and> 2 \<le> i \<longrightarrow> v k \<le> v (i div 2))"

lemma heap_done:
  "heap_except v l n i \<Longrightarrow> (\<And>k. 2 \<le> k \<Longrightarrow> k \<le> n \<Longrightarrow> k div 2 = i \<Longrightarrow> v k \<le> v i) \<Longrightarrow> heap v l n"
  unfolding heap_def heap_except_def by blast

lemma heap_step:
  assumes ex: "heap_except v l n i" and i: "1 \<le> i" "l \<le> i" and m: "m div 2 = i" "2 \<le> m" "m \<le> n"
    and lt: "v i < v m" and sib: "\<And>k. 2 \<le> k \<Longrightarrow> k \<le> n \<Longrightarrow> k div 2 = i \<Longrightarrow> v k \<le> v m"
    and w: "\<And>k. 1 \<le> k \<Longrightarrow> k \<le> n \<Longrightarrow> w k = v (if k = i then m else if k = m then i else k)"
  shows "heap_except w l n m"
proof -
  have im: "i \<noteq> m" "i \<le> n" "i < m" using i m by linarith+
  have wi: "w i = v m" "w m = v i" using w [of i] w [of m] im i m by auto
  have w': "w k = v k" if "1 \<le> k" "k \<le> n" "k \<noteq> i" "k \<noteq> m" for k using w [OF that(1,2)] that by simp
  have "w k \<le> w (k div 2)" if k: "2 \<le> k" "k \<le> n" "l \<le> k div 2" "k div 2 \<noteq> m" for k
  proof -
    have p: "1 \<le> k div 2" "k div 2 \<le> n" using k by linarith+
    consider "k = m" | "k \<noteq> m" "k div 2 = i" | "k = i" "k div 2 \<noteq> i" | "k \<noteq> m" "k \<noteq> i" "k div 2 \<noteq> i" by blast
    then show ?thesis
    proof cases
      case 1
      then show ?thesis using wi m lt by simp
    next
      case 2
      then have "k \<noteq> i" using i by auto
      then show ?thesis using 2 w' [of k] k wi sib [of k] by simp
    next
      case 3
      then have "v m \<le> v (k div 2)" using ex m i k unfolding heap_except_def by auto
      then show ?thesis using 3 wi w' [of "k div 2"] p k by simp
    next
      case 4
      then show ?thesis using w' [of k] w' [of "k div 2"] p k ex unfolding heap_except_def by auto
    qed
  qed
  moreover have "w k \<le> w (m div 2)" if k: "2 \<le> k" "k \<le> n" "k div 2 = m" for k
  proof -
    have "k \<noteq> i" "k \<noteq> m" using k m im by linarith+
    then have "w k = v k" using w' k by simp
    also have "\<dots> \<le> v m" using ex k i im unfolding heap_except_def by auto
    finally show ?thesis using wi m by simp
  qed
  ultimately show ?thesis unfolding heap_except_def by blast
qed

lemma heap_root:
  assumes "heap v 1 n"
  shows "1 \<le> k \<Longrightarrow> k \<le> n \<Longrightarrow> v k \<le> v 1"
proof (induction k rule: less_induct)
  case (less k)
  show ?case
  proof (cases "k = 1")
    case False
    then have k: "2 \<le> k" "k div 2 < k" "1 \<le> k div 2" using less.prems by linarith+
    then have "v k \<le> v (k div 2)" using assms less.prems unfolding heap_def by blast
    also have "\<dots> \<le> v 1" using less.IH [OF k(2,3)] less.prems by simp
    finally show ?thesis .
  qed simp
qed

section \<open>Sorting\<close>

text \<open>An array whose elements a comparison function orders by their keys; \<open>array_ok\<close> says that \<open>cnt\<close>
  elements lie in the array and that twice their number does not wrap around.\<close>

definition array_ok :: "nat \<Rightarrow> nat \<Rightarrow> bytes \<Rightarrow> bool" where
  "array_ok size' cnt array \<longleftrightarrow> 0 < size' \<and> cnt * size' \<le> length array \<and> cnt < 2 ^ 31"

lemma array_okD:
  assumes "array_ok size' cnt array"
  shows "k \<le> cnt \<Longrightarrow> k * size' \<le> length array" and "0 < size'" and "cnt < 2 ^ 31"
  using assms by (auto simp: array_ok_def intro: le_trans [OF mult_le_mono1])

locale array_type = strcmp_type cmp key
  for cmp :: "bytes \<Rightarrow> bytes \<Rightarrow> int" and key :: "bytes \<Rightarrow> 'k::linorder"
begin

lemma do_compare_ok:
  assumes "array_ok size' cnt array" "1 \<le> a" "a \<le> cnt" "1 \<le> b" "b \<le> cnt"
  shows "\<exists>c. do_compare array a b size' cmp = Some c \<and> (0 < c \<longleftrightarrow> key (elem_at size' array b) < key (elem_at size' array a))"
  using assms array_okD(1) [OF assms(1), of a] array_okD(1) [OF assms(1), of b]
  by (simp add: do_compare_def read_elem_def compare_pos)

lemma pick_ok:
  assumes "array_ok size' cnt array" "1 \<le> child" "1 \<le> m" "m \<le> cnt"
  shows "pick array cnt size' cmp child m =
    Some (if child \<le> cnt \<and> key (elem_at size' array m) < key (elem_at size' array child) then child else m)"
  using do_compare_ok [OF assms(1,2) _ assms(3,4)] by (auto simp: pick_def)

lemma heapify_step:
  assumes ok: "array_ok size' cnt array" and i: "1 \<le> i" "i \<le> cnt"
  obtains (stop) "heapify array i cnt size' cmp = Some array"
      "\<forall>k. 2 \<le> k \<longrightarrow> k \<le> cnt \<longrightarrow> k div 2 = i \<longrightarrow> key (elem_at size' array k) \<le> key (elem_at size' array i)"
    | (down) m array' where "heapify array i cnt size' cmp = heapify array' m cnt size' cmp"
      "do_swap array i m size' = Some array'" "m div 2 = i" "2 \<le> m" "m \<le> cnt"
      "key (elem_at size' array i) < key (elem_at size' array m)"
      "\<forall>k. 2 \<le> k \<longrightarrow> k \<le> cnt \<longrightarrow> k div 2 = i \<longrightarrow> key (elem_at size' array k) \<le> key (elem_at size' array m)"
proof -
  let ?v = "\<lambda>k. key (elem_at size' array k)"
  have small: "2 * i mod 2 ^ 32 = 2 * i" "(2 * i + 1) mod 2 ^ 32 = 2 * i + 1"
    using array_okD(3) [OF ok] i by simp_all
  define m1 where "m1 = (if 2 * i \<le> cnt \<and> ?v i < ?v (2 * i) then 2 * i else i)"
  define m where "m = (if 2 * i + 1 \<le> cnt \<and> ?v m1 < ?v (2 * i + 1) then 2 * i + 1 else m1)"
  have p1: "pick array cnt size' cmp (2 * i) i = Some m1"
    using pick_ok [OF ok, of "2 * i" i] i by (simp add: m1_def)
  have m1: "1 \<le> m1" "m1 \<le> cnt" using i by (auto simp: m1_def)
  have p2: "pick array cnt size' cmp (2 * i + 1) m1 = Some m"
    using pick_ok [OF ok, of "2 * i + 1" m1] m1 by (simp add: m_def)
  have kids: "?v k \<le> ?v m" if "2 \<le> k" "k \<le> cnt" "k div 2 = i" for k
  proof -
    have "k = 2 * i \<or> k = 2 * i + 1" using that(3) by linarith
    then show ?thesis using that(2) by (auto simp: m_def m1_def)
  qed
  show thesis
  proof (cases "m = i")
    case True
    show thesis
    proof (rule stop)
      show "heapify array i cnt size' cmp = Some array" using True p1 p2 small by (subst heapify.simps) simp
    qed (use True kids in blast)
  next
    case False
    then have mm: "m = 2 * i \<or> m = 2 * i + 1" "m \<le> cnt" "?v i < ?v m"
      by (auto simp: m_def m1_def split: if_splits)
    then have m: "m div 2 = i" "2 \<le> m" "i \<noteq> m" using i by auto
    obtain array' where sw: "do_swap array i m size' = Some array'"
      using do_swap_ok [of i size' array m] i m mm array_okD(1) [OF ok] by (metis le_trans one_le_numeral)
    have "heapify array i cnt size' cmp = heapify array' m cnt size' cmp"
      using False sw p1 p2 small by (subst heapify.simps) simp
    then show thesis using down sw m mm kids by blast
  qed
qed

lemma heapify_ok:
  assumes "array_ok size' cnt array" and "1 \<le> i" "i \<le> cnt" "l \<le> i"
    and "heap_except (\<lambda>k. key (elem_at size' array k)) l cnt i"
  shows "\<exists>array'. heapify array i cnt size' cmp = Some array' \<and> length array' = length array \<and>
    heap (\<lambda>k. key (elem_at size' array' k)) l cnt \<and> mset (elems size' array' cnt) = mset (elems size' array cnt) \<and>
    (\<forall>k. cnt < k \<longrightarrow> k * size' \<le> length array \<longrightarrow> elem_at size' array' k = elem_at size' array k)"
  using assms
proof (induction "cnt - i" arbitrary: i array rule: less_induct)
  case (less i array)
  note ok = less.prems(1) and i = less.prems(2-4)
  from ok i(1,2) show ?case
  proof (cases rule: heapify_step)
    case stop
    then show ?thesis using heap_done [OF less.prems(5)] by blast
  next
    case (down m array1)
    have m: "1 \<le> m" "i \<noteq> m" "i < m" using down(3,4) by linarith+
    obtain r where "do_swap array i m size' = Some r" and len: "length r = length array"
      and sw: "\<forall>k. 1 \<le> k \<longrightarrow> k * size' \<le> length array \<longrightarrow> elem_at size' r k = elem_at size' array (if k = i then m else if k = m then i else k)"
      by (rule do_swap_ok [OF i(1) array_okD(1) [OF ok i(2)] m(1) array_okD(1) [OF ok down(5)] m(2)])
    with down(2) have r: "array1 = r" by simp
    have ok1: "array_ok size' cnt r" using ok len by (simp add: array_ok_def)
    have sw': "elem_at size' r k = elem_at size' array (if k = i then m else if k = m then i else k)" if "1 \<le> k" "k \<le> cnt" for k
      using sw array_okD(1) [OF ok that(2)] that(1) by blast
    have ms: "mset (elems size' r cnt) = mset (elems size' array cnt)"
      by (rule elems_swap [OF i(1,2) m(1) down(5)]) (rule sw')
    have ex: "heap_except (\<lambda>k. key (elem_at size' r k)) l cnt m"
      by (rule heap_step [OF less.prems(5) i(1,3) down(3,4,5,6)]) (use down(7) sw' in simp_all)
    have lt: "cnt - m < cnt - i" "l \<le> m" using m(3) i down(5) by linarith+
    obtain a where a: "heapify r m cnt size' cmp = Some a" "length a = length r" "heap (\<lambda>k. key (elem_at size' a k)) l cnt"
        "mset (elems size' a cnt) = mset (elems size' r cnt)"
        "\<forall>k. cnt < k \<longrightarrow> k * size' \<le> length r \<longrightarrow> elem_at size' a k = elem_at size' r k"
      using less.hyps [OF lt(1) ok1 m(1) down(5) lt(2) ex] by (elim exE conjE) (rule that)
    have "elem_at size' a k = elem_at size' array k" if "cnt < k" "k * size' \<le> length array" for k
      using a(5) [rule_format, of k] sw [rule_format, of k] that len i(2) down(5) by simp
    then show ?thesis using a(1-4) ms len r down(1) by (intro exI [of _ a]) simp
  qed
qed

lemma build_heap_ok:
  assumes "array_ok size' cnt array" and "i \<le> cnt" and "heap (\<lambda>k. key (elem_at size' array k)) (Suc i) cnt"
  shows "\<exists>array'. build_heap i array cnt size' cmp = Some array' \<and> length array' = length array \<and>
    heap (\<lambda>k. key (elem_at size' array' k)) 1 cnt \<and> mset (elems size' array' cnt) = mset (elems size' array cnt)"
  using assms
proof (induction i arbitrary: array)
  case (Suc i)
  have "heap_except (\<lambda>k. key (elem_at size' array k)) (Suc i) cnt (Suc i)"
    using Suc.prems(3) by (auto simp: heap_def heap_except_def)
  then obtain a where a: "heapify array (Suc i) cnt size' cmp = Some a" "length a = length array"
      "heap (\<lambda>k. key (elem_at size' a k)) (Suc i) cnt" "mset (elems size' a cnt) = mset (elems size' array cnt)"
    using heapify_ok [OF Suc.prems(1) _ Suc.prems(2) le_refl] by (elim exE conjE meta_impE) simp_all
  moreover have "array_ok size' cnt a" using Suc.prems(1) a(2) by (simp add: array_ok_def)
  ultimately show ?case using Suc.IH [of a] Suc.prems(2) by simp
qed simp

lemma sort_step:
  assumes ok: "array_ok size' cnt array" and n: "Suc i \<le> cnt" "1 \<le> i" and hp: "heap (\<lambda>k. key (elem_at size' array k)) 1 (Suc i)"
    and suf: "\<forall>j k. Suc i < j \<longrightarrow> j \<le> cnt \<longrightarrow> 1 \<le> k \<longrightarrow> k < j \<longrightarrow> key (elem_at size' array k) \<le> key (elem_at size' array j)"
  obtains r a where "do_swap array 1 (Suc i) size' = Some r" "heapify r 1 i size' cmp = Some a" "length a = length array"
    "heap (\<lambda>k. key (elem_at size' a k)) 1 i" "mset (elems size' a cnt) = mset (elems size' array cnt)"
    "\<forall>j k. i < j \<longrightarrow> j \<le> cnt \<longrightarrow> 1 \<le> k \<longrightarrow> k < j \<longrightarrow> key (elem_at size' a k) \<le> key (elem_at size' a j)"
proof -
  let ?n = "Suc i"
  have le: "1 \<le> cnt" "1 \<noteq> ?n" "1 \<le> ?n" "i \<le> cnt" using n by simp_all
  obtain r where r: "do_swap array 1 ?n size' = Some r" and len: "length r = length array"
    and sw: "\<forall>k. 1 \<le> k \<longrightarrow> k * size' \<le> length array \<longrightarrow> elem_at size' r k = elem_at size' array (if k = 1 then ?n else if k = ?n then 1 else k)"
    by (rule do_swap_ok [OF le_refl array_okD(1) [OF ok le(1)] le(3) array_okD(1) [OF ok n(1)] le(2)])
  have sw': "elem_at size' r k = elem_at size' array (if k = 1 then ?n else if k = ?n then 1 else k)" if "1 \<le> k" "k \<le> cnt" for k
    using sw array_okD(1) [OF ok that(2)] that(1) by blast
  have ex: "heap_except (\<lambda>k. key (elem_at size' r k)) 1 i 1"
    unfolding heap_except_def
  proof (intro conjI allI impI)
    fix k assume k: "2 \<le> k \<and> k \<le> i \<and> 1 \<le> k div 2 \<and> k div 2 \<noteq> 1"
    then have "k div 2 \<le> i" by linarith
    with k show "key (elem_at size' r k) \<le> key (elem_at size' r (k div 2))"
      using sw' [of k] sw' [of "k div 2"] le(4) hp unfolding heap_def by auto
  qed auto
  have ok1: "array_ok size' i r" using ok len array_okD(1) [OF ok le(4)] le(4) by (simp add: array_ok_def)
  obtain a where a: "heapify r 1 i size' cmp = Some a" "length a = length r" "heap (\<lambda>k. key (elem_at size' a k)) 1 i"
      "mset (elems size' a i) = mset (elems size' r i)" "\<forall>k. i < k \<longrightarrow> k * size' \<le> length r \<longrightarrow> elem_at size' a k = elem_at size' r k"
    using heapify_ok [OF ok1 le_refl n(2) le_refl ex] by (elim exE conjE) (rule that)
  have tail: "elem_at size' a k = elem_at size' r k" if "i < k" "k \<le> cnt" for k
    using a(5) that array_okD(1) [OF ok that(2)] len by simp
  have "mset (elems size' a cnt) = mset (elems size' r cnt)"
    by (rule elems_tail [OF le(4) a(4) tail])
  also have "\<dots> = mset (elems size' array cnt)"
    by (rule elems_swap [OF le_refl le(1) le(3) n(1)]) (rule sw')
  finally have ms: "mset (elems size' a cnt) = mset (elems size' array cnt)" .
  have low: "\<exists>j. 1 \<le> j \<and> j \<le> ?n \<and> elem_at size' a k = elem_at size' array j" if k: "1 \<le> k" "k \<le> ?n" for k
  proof (cases "k = ?n")
    case True
    then show ?thesis using tail [of k] sw' [of k] n by (intro exI [of _ 1]) simp
  next
    case False
    then have ki: "k \<le> i" using k by simp
    obtain j where j: "1 \<le> j" "j \<le> i" "elem_at size' a k = elem_at size' r j" by (rule elems_set [OF a(4) k(1) ki])
    then show ?thesis using sw' [of j] le(4) by (intro exI [of _ "if j = 1 then ?n else j"]) auto
  qed
  have "key (elem_at size' a k) \<le> key (elem_at size' a j)" if jk: "i < j" "j \<le> cnt" "1 \<le> k" "k < j" for j k
  proof (cases "j = ?n")
    case True
    obtain k' where k': "1 \<le> k'" "k' \<le> ?n" "elem_at size' a k = elem_at size' array k'" using low [of k] jk True by auto
    moreover have "elem_at size' a j = elem_at size' array 1" using True tail [OF jk(1,2)] sw' [of j] n by simp
    ultimately show ?thesis using heap_root [OF hp, of k'] by simp
  next
    case False
    then have jn: "?n < j" using jk by simp
    then have aj: "elem_at size' a j = elem_at size' array j" using tail [OF jk(1,2)] sw' [of j] jk by simp
    obtain k' where "1 \<le> k'" "k' < j" "elem_at size' a k = elem_at size' array k'"
    proof (cases "k \<le> ?n")
      case True
      then show thesis using low [OF jk(3) True] jn that by (meson le_less_trans)
    next
      case False
      then show thesis using that [of k] tail [of k] sw' [of k] jk by simp
    qed
    then show ?thesis using suf jn jk aj by simp
  qed
  then show thesis by (intro that [of r a]) (use r a len ms in simp_all)
qed

lemma sort_heap_ok:
  assumes "array_ok size' cnt array" and "i \<le> cnt" and "heap (\<lambda>k. key (elem_at size' array k)) 1 i"
    and "\<forall>j k. i < j \<longrightarrow> j \<le> cnt \<longrightarrow> 1 \<le> k \<longrightarrow> k < j \<longrightarrow> key (elem_at size' array k) \<le> key (elem_at size' array j)"
  shows "\<exists>array'. sort_heap i array size' cmp = Some array' \<and> length array' = length array \<and>
    mset (elems size' array' cnt) = mset (elems size' array cnt) \<and>
    (\<forall>j k. j \<le> cnt \<longrightarrow> 1 \<le> k \<longrightarrow> k < j \<longrightarrow> key (elem_at size' array' k) \<le> key (elem_at size' array' j))"
  using assms
proof (induction i arbitrary: array)
  case (Suc i)
  show ?case
  proof (cases i)
    case 0
    have "key (elem_at size' array k) \<le> key (elem_at size' array j)" if "j \<le> cnt" "1 \<le> k" "k < j" for j k
      using Suc.prems(4) that 0 by simp
    then show ?thesis using 0 by simp
  next
    case (Suc i')
    have n: "Suc i \<le> cnt" "1 \<le> i" using Suc Suc.prems(2) by simp_all
    obtain r a where a: "do_swap array 1 (Suc i) size' = Some r" "heapify r 1 i size' cmp = Some a" "length a = length array"
        "heap (\<lambda>k. key (elem_at size' a k)) 1 i" "mset (elems size' a cnt) = mset (elems size' array cnt)"
        "\<forall>j k. i < j \<longrightarrow> j \<le> cnt \<longrightarrow> 1 \<le> k \<longrightarrow> k < j \<longrightarrow> key (elem_at size' a k) \<le> key (elem_at size' a j)"
      by (rule sort_step [OF Suc.prems(1) n Suc.prems(3,4)])
    have ok: "array_ok size' cnt a" "i \<le> cnt" using Suc.prems(1,2) a(3) by (simp_all add: array_ok_def)
    have "sort_heap (Suc i) array size' cmp = sort_heap i a size' cmp" using Suc a(1,2) by simp
    then show ?thesis using Suc.IH [OF ok a(4,6)] a(3,5) by simp
  qed
qed auto

lemma sort_array_ok:
  assumes "array_ok size' cnt array"
  shows "\<exists>array'. sort_array array cnt size' cmp = Some array' \<and> length array' = length array \<and>
    mset (elems size' array' cnt) = mset (elems size' array cnt) \<and>
    map key (elems size' array' cnt) = sort (map key (elems size' array cnt))"
proof -
  have "heap (\<lambda>k. key (elem_at size' array k)) (Suc (cnt div 2)) cnt"
    unfolding heap_def by (intro allI impI) (use div_le_mono [of _ cnt 2] in \<open>fastforce simp: not_le\<close>)
  then obtain b where b: "build_heap (cnt div 2) array cnt size' cmp = Some b" "length b = length array"
      "heap (\<lambda>k. key (elem_at size' b k)) 1 cnt" "mset (elems size' b cnt) = mset (elems size' array cnt)"
    using build_heap_ok [OF assms, of "cnt div 2"] by auto
  have ok: "array_ok size' cnt b" using assms b(2) by (simp add: array_ok_def)
  have "\<forall>j k. cnt < j \<longrightarrow> j \<le> cnt \<longrightarrow> 1 \<le> k \<longrightarrow> k < j \<longrightarrow> key (elem_at size' b k) \<le> key (elem_at size' b j)" by simp
  from sort_heap_ok [OF ok le_refl b(3) this]
  obtain c where c: "sort_heap cnt b size' cmp = Some c" "length c = length b" "mset (elems size' c cnt) = mset (elems size' b cnt)"
      "\<forall>j k. j \<le> cnt \<longrightarrow> 1 \<le> k \<longrightarrow> k < j \<longrightarrow> key (elem_at size' c k) \<le> key (elem_at size' c j)"
    by (elim exE conjE) (rule that)
  have "sorted (map key (elems size' c cnt))"
    unfolding sorted_iff_nth_mono_less by (auto simp: elems_def c(4) simp del: upt_Suc)
  moreover have "mset (map key (elems size' c cnt)) = mset (map key (elems size' array cnt))"
    using c(3) b(4) by (metis mset_map)
  ultimately have "sort (map key (elems size' array cnt)) = map key (elems size' c cnt)"
    by (rule properties_for_sort [rotated])
  then show ?thesis
    using b c array_okD(2) [OF assms] by (intro exI [of _ c]) (simp add: sort_array_def)
qed

lemma search_loop_ok:
  assumes "0 < size'" and "cnt * size' \<le> length array" and "fi \<le> la" "la \<le> cnt"
    and "\<forall>j k. 1 \<le> k \<longrightarrow> k < j \<longrightarrow> j \<le> cnt \<longrightarrow> key (elem_at size' array k) \<le> key (elem_at size' array j)"
    and "\<forall>k. 1 \<le> k \<longrightarrow> k \<le> fi \<longrightarrow> key (elem_at size' array k) < key x"
    and "\<forall>k. la < k \<longrightarrow> k \<le> cnt \<longrightarrow> key x < key (elem_at size' array k)"
  shows "(\<exists>k < cnt. search_loop x array size' cmp (fi * size') (la * size') = Some (Some (k * size')) \<and>
            key (elem_at size' array (Suc k)) = key x) \<or>
         (search_loop x array size' cmp (fi * size') (la * size') = Some None \<and>
            (\<forall>k. 1 \<le> k \<longrightarrow> k \<le> cnt \<longrightarrow> key (elem_at size' array k) \<noteq> key x))"
  using assms
proof (induction "la - fi" arbitrary: fi la rule: less_induct)
  case (less fi la)
  show ?case
  proof (cases "fi < la")
    case False
    then have "search_loop x array size' cmp (fi * size') (la * size') = Some None"
      by (subst search_loop.simps) simp
    moreover have "key (elem_at size' array k) \<noteq> key x" if "1 \<le> k" "k \<le> cnt" for k
      using less.prems(3,6,7) False that by (cases "k \<le> fi") (auto simp: not_le)
    ultimately show ?thesis by blast
  next
    case True
    let ?md = "fi + (la - fi) div 2"
    let ?e = "elem_at size' array (Suc ?md)"
    have md: "fi \<le> ?md" "?md < la" "Suc ?md \<le> cnt" using True less.prems(4) by linarith+
    have "(la * size' - fi * size') div size' = la - fi" using less.prems(1) by (simp flip: diff_mult_distrib)
    moreover have "fi * size' + (la - fi) div 2 * size' = ?md * size'" by (simp add: add_mult_distrib)
    moreover have "?md * size' + size' \<le> length array" using mult_le_mono1 [OF md(3), of size'] less.prems(2) by simp
    ultimately have step: "search_loop x array size' cmp (fi * size') (la * size') =
        (if cmp x ?e < 0 then search_loop x array size' cmp (fi * size') (?md * size')
         else if 0 < cmp x ?e then search_loop x array size' cmp (Suc ?md * size') (la * size') else Some (Some (?md * size')))"
      using True less.prems(1) by (subst search_loop.simps) (simp add: Let_def elem_at_def add.commute)
    consider "cmp x ?e < 0" | "0 < cmp x ?e" | "cmp x ?e = 0" by linarith
    then show ?thesis
    proof cases
      case 1
      have "key x < key (elem_at size' array k)" if "?md < k" "k \<le> cnt" for k
      proof (cases "k = Suc ?md")
        case False
        then have "key ?e \<le> key (elem_at size' array k)" using less.prems(5) that by simp
        then show ?thesis using 1 compare_neg [of x ?e] by auto
      qed (use 1 compare_neg in simp)
      then show ?thesis using less.hyps [of ?md fi] md less.prems(1,2,4,5,6) step 1 by simp
    next
      case 2
      have "key (elem_at size' array k) < key x" if "1 \<le> k" "k \<le> Suc ?md" for k
      proof (cases "k = Suc ?md")
        case False
        then have "key (elem_at size' array k) \<le> key ?e" using less.prems(5) that md(3) by simp
        then show ?thesis using 2 compare_pos [of x ?e] by auto
      qed (use 2 compare_pos in simp)
      then show ?thesis using less.hyps [of la "Suc ?md"] md less.prems(1,2,4,5,7) step 2 by simp
    next
      case 3
      then show ?thesis using step md(3) compare_zero [of x ?e] by (intro disjI1 exI [of _ ?md]) simp
    qed
  qed
qed

end

text \<open>An array of fixed-point numbers: an element is the four bytes of its \<open>int\<close>, lowest first.\<close>

definition load_fix :: "bytes \<Rightarrow> fixed_point_t" where
  "load_fix bs = mk_fix (foldr (\<lambda>b acc. uint b + 256 * acc) bs 0)"

interpretation fixed_array: array_type "\<lambda>a b. fix_compare (load_fix a) (load_fix b)" "\<lambda>a. f (load_fix a)"
  by unfold_locales (simp_all add: fixed.compare_pos fixed.compare_neg)

section \<open>Properties\<close>

text \<open>C17. \<open>sort\<close> returns and leaves the elements of the array in the order of their keys: the
  sequence of keys is what the library function \<open>sort\<close> makes of it, and the elements are the same
  with the same multiplicities.  Twice the number of elements must not wrap around.\<close>

theorem sort_array_correct:
  fixes cmp :: "bytes \<Rightarrow> bytes \<Rightarrow> int" and key :: "bytes \<Rightarrow> 'k::linorder"
  assumes "0 < size'" and "length array = cnt * size'" and "cnt < 2 ^ 31"
    and "\<And>a b. 0 < cmp a b \<longleftrightarrow> key b < key a" and "\<And>a b. cmp a b < 0 \<longleftrightarrow> key a < key b"
  shows "\<exists>array'. sort_array array cnt size' cmp = Some array' \<and> length array' = length array \<and>
    mset (elems size' array' cnt) = mset (elems size' array cnt) \<and>
    map key (elems size' array' cnt) = sort (map key (elems size' array cnt))"
proof -
  have "array_type cmp key" using assms(4,5) by unfold_locales
  then show ?thesis using assms(1-3) by (intro array_type.sort_array_ok) (simp_all add: array_ok_def)
qed

theorem sort_array_correct_witness:
  "\<exists>array'. sort_array [3, 0, 0, 0, 1, 0, 0, 0, 2, 0, 0, 0] 3 4 (\<lambda>a b. fix_compare (load_fix a) (load_fix b)) = Some array' \<and>
     map (\<lambda>a. f (load_fix a)) (elems 4 array' 3) = [1, 2, 3]"
proof -
  have "sort (map (\<lambda>a. f (load_fix a)) (elems 4 [3, 0, 0, 0, 1, 0, 0, 0, 2, 0, 0, 0] 3)) = [1, 2, 3]"
    by code_simp
  then show ?thesis
    using sort_array_correct [of 4 "[3, 0, 0, 0, 1, 0, 0, 0, 2, 0, 0, 0]" 3
        "\<lambda>a b. fix_compare (load_fix a) (load_fix b)" "\<lambda>a. f (load_fix a)"]
    by (auto simp: fixed_array.compare_pos fixed_array.compare_neg)
qed

text \<open>On an array sorted by its keys \<open>binary_search\<close> returns: the address of an element that
  compares equal to the key searched for, or a null pointer if there is none.\<close>

theorem binary_search_correct:
  fixes cmp :: "bytes \<Rightarrow> bytes \<Rightarrow> int" and key :: "bytes \<Rightarrow> 'k::linorder"
  assumes "0 < size'" and "length array = cnt * size'" and "length array < 2 ^ 32"
    and "\<And>a b. 0 < cmp a b \<longleftrightarrow> key b < key a" and "\<And>a b. cmp a b < 0 \<longleftrightarrow> key a < key b"
    and "sorted (map key (elems size' array cnt))"
  shows "(\<exists>k < cnt. binary_search x array cnt size' cmp = Some (Some (k * size')) \<and> cmp x (elems size' array cnt ! k) = 0) \<or>
         (binary_search x array cnt size' cmp = Some None \<and> (\<forall>e \<in> set (elems size' array cnt). cmp x e \<noteq> 0))"
proof -
  have at: "array_type cmp key" using assms(4,5) by unfold_locales
  then have st: "strcmp_type cmp key" by (simp add: array_type_def)
  note zero = strcmp_type.compare_zero [OF st]
  have s: "key (elem_at size' array k) \<le> key (elem_at size' array j)" if "1 \<le> k" "k < j" "j \<le> cnt" for j k
    using sorted_nth_mono [OF assms(6), of "k - 1" "j - 1"] that by (simp add: elems_def del: upt_Suc)
  have "(\<exists>k < cnt. search_loop x array size' cmp (0 * size') (cnt * size') = Some (Some (k * size')) \<and>
            key (elem_at size' array (Suc k)) = key x) \<or>
         (search_loop x array size' cmp (0 * size') (cnt * size') = Some None \<and>
            (\<forall>k. 1 \<le> k \<longrightarrow> k \<le> cnt \<longrightarrow> key (elem_at size' array k) \<noteq> key x))"
    by (rule array_type.search_loop_ok [OF at]) (use assms(1,2) s in auto)
  moreover have "binary_search x array cnt size' cmp = search_loop x array size' cmp (0 * size') (cnt * size')"
    using assms(2,3) by (simp add: binary_search_def mult.commute)
  moreover have "cmp x e = 0 \<longleftrightarrow> key e = key x" for e using zero [of x e] by auto
  moreover have "elems size' array cnt ! k = elem_at size' array (Suc k)" if "k < cnt" for k
    using that by (simp add: elems_def del: upt_Suc)
  moreover have "\<exists>k. 1 \<le> k \<and> k \<le> cnt \<and> e = elem_at size' array k" if "e \<in> set (elems size' array cnt)" for e
    using that by (auto simp: elems_def less_Suc_eq_le simp del: upt_Suc)
  ultimately show ?thesis by metis
qed

theorem binary_search_correct_witness:
  "(\<exists>k < 3. binary_search [2, 0, 0, 0] [1, 0, 0, 0, 2, 0, 0, 0, 3, 0, 0, 0] 3 4 (\<lambda>a b. fix_compare (load_fix a) (load_fix b)) =
     Some (Some (k * 4)))"
proof -
  let ?cmp = "\<lambda>a b. fix_compare (load_fix a) (load_fix b)" and ?arr = "[1, 0, 0, 0, 2, 0, 0, 0, 3, 0, 0, 0] :: bytes"
  have srt: "sorted (map (\<lambda>a. f (load_fix a)) (elems 4 ?arr 3))" by code_simp
  have hit: "\<not> (\<forall>e \<in> set (elems 4 ?arr 3). ?cmp [2, 0, 0, 0] e \<noteq> 0)" by code_simp
  show ?thesis
    using binary_search_correct [of 4 ?arr 3 ?cmp "\<lambda>a. f (load_fix a)" "[2, 0, 0, 0]", OF _ _ _ _ _ srt] hit
    by (auto simp: fixed_array.compare_pos fixed_array.compare_neg)
qed

end
