(* ===== verification/Pintos_Intq.thy ===== *)
theory Pintos_Intq
  imports Pintos_Prelude
begin

text \<open>
  Interrupt queues (\<open>devices/intq.c\<close>): a ring buffer of 64 bytes between interrupt handlers and
  threads.  A call that must wait is cut where the thread loses the processor: \<open>Blocked\<close> in
  \<open>thread_block\<close>, to continue with the \<open>_resumed\<close> function once another call returns it as the
  thread to unblock; \<open>Lock_wait\<close> in \<open>lock_acquire\<close>, to continue with the \<open>_locked\<close> function once
  the lock is free; \<open>Yielded\<close> in \<open>lock_release\<close>, whose calls of \<open>thread_yield\<close> let other threads run
  between the release and the next test of the loop, to continue with \<open>intq_getc\<close> or \<open>intq_putc\<close>
  itself, which begins with that test.  \<open>cpu\<close> is what the assertions ask about the processor.
\<close>

section \<open>Operations\<close>

type_synonym thread_id = nat

record cpu =
  intr_off :: bool
  in_intr :: bool
  running :: thread_id

definition INTQ_BUFSIZE :: nat where
  "INTQ_BUFSIZE = 64"

record intq =
  locked :: bool
  not_full :: "thread_id option"
  not_empty :: "thread_id option"
  buf :: "u8 list"
  head :: nat
  tail :: nat

datatype outcome = Done "u8 option" intq "thread_id option" | Blocked intq | Lock_wait intq | Yielded intq

datatype condition = Not_empty | Not_full

definition intq_init :: "intq \<Rightarrow> intq" where
  "intq_init q = q\<lparr>locked := False, not_full := None, not_empty := None, head := 0, tail := 0\<rparr>"

definition next_pos :: "nat \<Rightarrow> nat" where
  "next_pos pos = (pos + 1) mod INTQ_BUFSIZE"

definition intq_empty :: "cpu \<Rightarrow> intq \<Rightarrow> bool option" where
  "intq_empty c q = do { ASSERT (intr_off c); Some (head q = tail q) }"

definition intq_full :: "cpu \<Rightarrow> intq \<Rightarrow> bool option" where
  "intq_full c q = do { ASSERT (intr_off c); Some (next_pos (head q) = tail q) }"

text \<open>\<open>wait\<close> up to its call of \<open>thread_block\<close>.\<close>

definition wait :: "cpu \<Rightarrow> condition \<Rightarrow> intq \<Rightarrow> intq option" where
  "wait c waiter q = do {
     ASSERT (\<not> in_intr c);
     ASSERT (intr_off c);
     empty \<leftarrow> intq_empty c q;
     full \<leftarrow> intq_full c q;
     ASSERT (waiter = Not_empty \<and> empty \<or> waiter = Not_full \<and> full);
     Some (case waiter of Not_empty \<Rightarrow> q\<lparr>not_empty := Some (running c)\<rparr>
                        | Not_full \<Rightarrow> q\<lparr>not_full := Some (running c)\<rparr>)
   }"

text \<open>\<open>signal\<close> with the thread it passes to \<open>thread_unblock\<close>.\<close>

definition signal :: "cpu \<Rightarrow> condition \<Rightarrow> intq \<Rightarrow> (thread_id option \<times> intq) option" where
  "signal c waiter q = do {
     ASSERT (intr_off c);
     empty \<leftarrow> intq_empty c q;
     full \<leftarrow> intq_full c q;
     ASSERT (waiter = Not_empty \<and> \<not> empty \<or> waiter = Not_full \<and> \<not> full);
     Some (case waiter of Not_empty \<Rightarrow> (not_empty q, q\<lparr>not_empty := None\<rparr>)
                        | Not_full \<Rightarrow> (not_full q, q\<lparr>not_full := None\<rparr>))
   }"

definition intq_getc_locked :: "cpu \<Rightarrow> intq \<Rightarrow> outcome option" where
  "intq_getc_locked c q = do {
     q \<leftarrow> wait c Not_empty (q\<lparr>locked := True\<rparr>);
     Some (Blocked q)
   }"

definition intq_getc :: "cpu \<Rightarrow> intq \<Rightarrow> outcome option" where
  "intq_getc c q = do {
     ASSERT (intr_off c);
     empty \<leftarrow> intq_empty c q;
     if empty
     then do {
       ASSERT (\<not> in_intr c);
       if locked q then Some (Lock_wait q) else intq_getc_locked c q
     }
     else do {
       byte \<leftarrow> nth_opt (buf q) (tail q);
       (t, q) \<leftarrow> signal c Not_full (q\<lparr>tail := next_pos (tail q)\<rparr>);
       Some (Done (Some byte) q t)
     }
   }"

text \<open>After \<open>thread_block\<close>: \<open>lock_release\<close> up to its calls of \<open>thread_yield\<close>.\<close>

definition intq_getc_resumed :: "intq \<Rightarrow> outcome option" where
  "intq_getc_resumed q = do { ASSERT (locked q); Some (Yielded (q\<lparr>locked := False\<rparr>)) }"

definition intq_putc_locked :: "cpu \<Rightarrow> intq \<Rightarrow> outcome option" where
  "intq_putc_locked c q = do {
     q \<leftarrow> wait c Not_full (q\<lparr>locked := True\<rparr>);
     Some (Blocked q)
   }"

definition intq_putc :: "cpu \<Rightarrow> intq \<Rightarrow> u8 \<Rightarrow> outcome option" where
  "intq_putc c q byte = do {
     ASSERT (intr_off c);
     full \<leftarrow> intq_full c q;
     if full
     then do {
       ASSERT (\<not> in_intr c);
       if locked q then Some (Lock_wait q) else intq_putc_locked c q
     }
     else do {
       b \<leftarrow> update_opt (buf q) (head q) byte;
       (t, q) \<leftarrow> signal c Not_empty (q\<lparr>buf := b, head := next_pos (head q)\<rparr>);
       Some (Done None q t)
     }
   }"

definition intq_putc_resumed :: "intq \<Rightarrow> outcome option" where
  "intq_putc_resumed q = do { ASSERT (locked q); Some (Yielded (q\<lparr>locked := False\<rparr>)) }"

section \<open>The bytes of a queue\<close>

definition intq_wf :: "intq \<Rightarrow> bool" where
  "intq_wf q \<longleftrightarrow> length (buf q) = 64 \<and> head q < 64 \<and> tail q < 64"

definition intq_len :: "intq \<Rightarrow> nat" where
  "intq_len q = (head q + 64 - tail q) mod 64"

definition intq_bytes :: "intq \<Rightarrow> u8 list" where
  "intq_bytes q = map (\<lambda>i. buf q ! ((tail q + i) mod 64)) [0..<intq_len q]"

lemma ring_mod: "(x :: nat) < 128 \<Longrightarrow> x mod 64 = (if x < 64 then x else x - 64)"
  by (simp add: mod_if)

lemma length_intq_bytes [simp]: "length (intq_bytes q) = intq_len q"
  by (simp add: intq_bytes_def)

lemma intq_len_cases:
  "intq_wf q \<Longrightarrow> intq_len q = (if tail q \<le> head q then head q - tail q else head q + 64 - tail q)"
  by (auto simp: intq_len_def intq_wf_def ring_mod)

lemma intq_bytes_fields [simp]:
  "intq_bytes (q\<lparr>locked := l\<rparr>) = intq_bytes q" "intq_bytes (q\<lparr>not_empty := t\<rparr>) = intq_bytes q"
  "intq_bytes (q\<lparr>not_full := t\<rparr>) = intq_bytes q" "intq_wf (q\<lparr>locked := l\<rparr>) = intq_wf q"
  "intq_wf (q\<lparr>not_empty := t\<rparr>) = intq_wf q" "intq_wf (q\<lparr>not_full := t\<rparr>) = intq_wf q"
  by (simp_all add: intq_bytes_def intq_len_def intq_wf_def)

lemma intq_empty_iff: "intq_wf q \<Longrightarrow> head q = tail q \<longleftrightarrow> intq_bytes q = []"
  using intq_len_cases [of q] by (auto simp: intq_bytes_def intq_wf_def split: if_splits)

lemma intq_full_iff: "intq_wf q \<Longrightarrow> next_pos (head q) = tail q \<longleftrightarrow> length (intq_bytes q) = 63"
  using intq_len_cases [of q] by (auto simp: next_pos_def INTQ_BUFSIZE_def intq_wf_def ring_mod split: if_splits)

lemma intq_take:
  assumes "intq_wf q" and "intq_bytes q \<noteq> []"
  shows "intq_wf (q\<lparr>tail := next_pos (tail q)\<rparr>)" "intq_bytes (q\<lparr>tail := next_pos (tail q)\<rparr>) = tl (intq_bytes q)"
    "buf q ! tail q = hd (intq_bytes q)" "next_pos (head q) \<noteq> next_pos (tail q)"
proof -
  let ?q = "q\<lparr>tail := next_pos (tail q)\<rparr>"
  show wf: "intq_wf ?q" using assms(1) by (simp add: intq_wf_def next_pos_def INTQ_BUFSIZE_def)
  have ne: "head q \<noteq> tail q" using intq_empty_iff assms by blast
  have len: "intq_len q = Suc (intq_len ?q)"
    using ne assms(1) intq_len_cases [OF assms(1)] intq_len_cases [OF wf]
    by (auto simp: next_pos_def INTQ_BUFSIZE_def intq_wf_def ring_mod split: if_splits)
  have "(next_pos (tail q) + i) mod 64 = (tail q + Suc i) mod 64" for i
    by (simp add: next_pos_def INTQ_BUFSIZE_def mod_add_left_eq)
  then show "intq_bytes ?q = tl (intq_bytes q)"
    by (simp add: intq_bytes_def len upt_conv_Cons map_Suc_upt [symmetric] del: upt_Suc)
  show "buf q ! tail q = hd (intq_bytes q)"
    using assms(1) by (simp add: intq_bytes_def len upt_conv_Cons intq_wf_def del: upt_Suc)
  show "next_pos (head q) \<noteq> next_pos (tail q)"
    using ne assms(1) by (auto simp: next_pos_def INTQ_BUFSIZE_def intq_wf_def ring_mod split: if_splits)
qed

lemma intq_add:
  fixes b :: u8
  assumes "intq_wf q" and "length (intq_bytes q) \<noteq> 63"
  defines "q' \<equiv> q\<lparr>buf := (buf q)[head q := b], head := next_pos (head q)\<rparr>"
  shows "intq_wf q'" "intq_bytes q' = intq_bytes q @ [b]"
proof -
  show wf: "intq_wf q'" using assms(1) by (simp add: q'_def intq_wf_def next_pos_def INTQ_BUFSIZE_def)
  have len: "intq_len q' = Suc (intq_len q)" "intq_len q < 63"
    using assms(1,2) intq_len_cases [OF assms(1)] intq_len_cases [OF wf]
    by (auto simp: q'_def next_pos_def INTQ_BUFSIZE_def intq_wf_def ring_mod split: if_splits)
  have pos: "(tail q + intq_len q) mod 64 = head q"
    using assms(1) intq_len_cases [OF assms(1)] ring_mod [of "tail q + intq_len q"]
    by (auto simp: intq_wf_def split: if_splits)
  have "(tail q + i) mod 64 \<noteq> head q" if "i < intq_len q" for i
    using assms(1) intq_len_cases [OF assms(1)] that ring_mod [of "tail q + i"]
    by (auto simp: intq_wf_def split: if_splits)
  then have "(buf q)[head q := b] ! ((tail q + i) mod 64) = buf q ! ((tail q + i) mod 64)" if "i < intq_len q" for i
    using that by (metis nth_list_update_neq)
  then show "intq_bytes q' = intq_bytes q @ [b]"
    using pos assms(1) by (simp add: intq_bytes_def len(1)) (simp add: q'_def intq_wf_def)
qed

lemma intq_putc_ok:
  assumes "intq_wf q" and "intr_off c" and "length (intq_bytes q) < 63"
  obtains q' where "intq_putc c q b = Some (Done None q' (not_empty q))" "intq_wf q'" "intq_bytes q' = intq_bytes q @ [b]"
    "not_empty q' = None" "not_full q' = not_full q" "locked q' = locked q"
proof -
  let ?q = "q\<lparr>buf := (buf q)[head q := b], head := next_pos (head q)\<rparr>"
  have "length (intq_bytes q) \<noteq> 63" using assms(3) by simp
  note add = intq_add [OF assms(1) this, of b] and full = intq_full_iff [OF assms(1)]
  have "next_pos (head q) \<noteq> tail q" using full assms(3) by auto
  moreover have "head q < length (buf q)" using assms(1) by (simp add: intq_wf_def)
  ultimately have "intq_putc c q b = Some (Done None (?q\<lparr>not_empty := None\<rparr>) (not_empty q))"
    using assms(2) by (simp add: intq_putc_def intq_full_def intq_empty_def signal_def)
  then show thesis by (rule that) (use add in simp_all)
qed

lemma intq_getc_ok:
  assumes "intq_wf q" and "intr_off c" and "intq_bytes q \<noteq> []"
  obtains q' where "intq_getc c q = Some (Done (Some (hd (intq_bytes q))) q' (not_full q))" "intq_wf q'"
    "intq_bytes q' = tl (intq_bytes q)" "not_full q' = None" "not_empty q' = not_empty q" "locked q' = locked q"
proof -
  let ?q = "q\<lparr>tail := next_pos (tail q)\<rparr>"
  note take = intq_take [OF assms(1,3)]
  have "head q \<noteq> tail q" using intq_empty_iff assms(1,3) by blast
  moreover have "tail q < length (buf q)" using assms(1) by (simp add: intq_wf_def)
  ultimately have "intq_getc c q = Some (Done (Some (hd (intq_bytes q))) (?q\<lparr>not_full := None\<rparr>) (not_full q))"
    using assms(2) take(3,4) by (simp add: intq_getc_def intq_full_def intq_empty_def signal_def)
  then show thesis by (rule that) (use take in simp_all)
qed

lemma intq_getc_blocks:
  assumes "intq_wf q" and "intr_off c" and "\<not> in_intr c" and "intq_bytes q = []" and "\<not> locked q"
  shows "intq_getc c q = Some (Blocked (q\<lparr>locked := True, not_empty := Some (running c)\<rparr>))"
  using assms intq_empty_iff [OF assms(1)]
  by (simp add: intq_getc_def intq_getc_locked_def intq_empty_def intq_full_def wait_def)

section \<open>Bounded queues\<close>

text \<open>The interface that a producer and a consumer rely on, and what follows from it: a sequence
  of values that fits comes out in the order in which it went in.\<close>

fun put_all :: "('q \<Rightarrow> 'b \<Rightarrow> 'q option) \<Rightarrow> 'q \<Rightarrow> 'b list \<Rightarrow> 'q option" where
  "put_all put q [] = Some q"
| "put_all put q (x # xs) = do { q \<leftarrow> put q x; put_all put q xs }"

fun get_all :: "('q \<Rightarrow> ('b \<times> 'q) option) \<Rightarrow> 'q \<Rightarrow> nat \<Rightarrow> ('b list \<times> 'q) option" where
  "get_all get q 0 = Some ([], q)"
| "get_all get q (Suc n) = do { (x, q) \<leftarrow> get q; (xs, q) \<leftarrow> get_all get q n; Some (x # xs, q) }"

locale bounded_fifo =
  fixes inv :: "'q \<Rightarrow> bool" and contents :: "'q \<Rightarrow> 'b list" and put :: "'q \<Rightarrow> 'b \<Rightarrow> 'q option"
    and get :: "'q \<Rightarrow> ('b \<times> 'q) option" and capacity :: nat
  assumes put_law: "inv q \<Longrightarrow> length (contents q) < capacity \<Longrightarrow> \<exists>q'. put q x = Some q' \<and> inv q' \<and> contents q' = contents q @ [x]"
    and get_law: "inv q \<Longrightarrow> contents q = x # xs \<Longrightarrow> \<exists>q'. get q = Some (x, q') \<and> inv q' \<and> contents q' = xs"
begin

lemma put_all_law:
  "inv q \<Longrightarrow> length (contents q) + length xs \<le> capacity \<Longrightarrow>
     \<exists>q'. put_all put q xs = Some q' \<and> inv q' \<and> contents q' = contents q @ xs"
proof (induction xs arbitrary: q)
  case (Cons x xs)
  obtain q1 where "put q x = Some q1" "inv q1" "contents q1 = contents q @ [x]"
    using put_law [OF Cons.prems(1), of x] Cons.prems(2) by auto
  with Cons.IH [of q1] Cons.prems(2) show ?case by auto
qed simp

lemma get_all_law: "inv q \<Longrightarrow> contents q = xs @ ys \<Longrightarrow> \<exists>q'. get_all get q (length xs) = Some (xs, q') \<and> inv q' \<and> contents q' = ys"
proof (induction xs arbitrary: q)
  case (Cons x xs)
  obtain q1 where "get q = Some (x, q1)" "inv q1" "contents q1 = xs @ ys" using get_law [OF Cons.prems(1), of x "xs @ ys"] Cons.prems(2) by auto
  with Cons.IH [of q1] show ?case by auto
qed auto

lemma transfer:
  assumes "inv q" and "length (contents q) + length xs \<le> capacity"
  shows "\<exists>q1 q2. put_all put q xs = Some q1 \<and> get_all get q1 (length (contents q) + length xs) = Some (contents q @ xs, q2) \<and>
    inv q2 \<and> contents q2 = []"
  using put_all_law [OF assms] get_all_law [of _ "contents q @ xs" "[]"] by force

end

text \<open>Calls that do not have to wait, as an interrupt handler makes them.\<close>

definition handler :: cpu where
  "handler = \<lparr>intr_off = True, in_intr = True, running = 0\<rparr>"

definition put_byte :: "intq \<Rightarrow> u8 \<Rightarrow> intq option" where
  "put_byte q b = (case intq_putc handler q b of Some (Done _ q' _) \<Rightarrow> Some q' | _ \<Rightarrow> None)"

definition get_byte :: "intq \<Rightarrow> (u8 \<times> intq) option" where
  "get_byte q = (case intq_getc handler q of Some (Done (Some b) q' _) \<Rightarrow> Some (b, q') | _ \<Rightarrow> None)"

interpretation ring: bounded_fifo intq_wf intq_bytes put_byte get_byte 63
proof unfold_locales
  fix q :: intq and x :: u8
  assume wf: "intq_wf q" and len: "length (intq_bytes q) < 63"
  obtain q' where "intq_putc handler q x = Some (Done None q' (not_empty q))" "intq_wf q'" "intq_bytes q' = intq_bytes q @ [x]"
    using intq_putc_ok [OF wf _ len, of handler x] by (auto simp: handler_def)
  then show "\<exists>q'. put_byte q x = Some q' \<and> intq_wf q' \<and> intq_bytes q' = intq_bytes q @ [x]" by (simp add: put_byte_def)
next
  fix q :: intq and x xs
  assume wf: "intq_wf q" and b: "intq_bytes q = x # xs"
  then have "intq_bytes q \<noteq> []" by simp
  then obtain q' where "intq_getc handler q = Some (Done (Some (hd (intq_bytes q))) q' (not_full q))" "intq_wf q'"
      "intq_bytes q' = tl (intq_bytes q)"
    using intq_getc_ok [OF wf, of handler] by (auto simp: handler_def)
  with b show "\<exists>q'. get_byte q = Some (x, q') \<and> intq_wf q' \<and> intq_bytes q' = xs" by (simp add: get_byte_def)
qed

section \<open>Properties\<close>

definition sample_intq :: intq where
  "sample_intq = \<lparr>locked = False, not_full = None, not_empty = None, buf = replicate 64 0, head = 63, tail = 63\<rparr>"

lemma sample_intq_wf [simp]: "intq_wf sample_intq" "intq_bytes sample_intq = []"
  by (simp_all add: sample_intq_def intq_wf_def intq_bytes_def intq_len_def)

lemma sample_intq_fields: "locked sample_intq = False" "not_full sample_intq = None"
  by (simp_all add: sample_intq_def)

text \<open>C18. Bytes put into a queue come out in order, behind those already there, as long as no
  more than 63 are in it at a time.\<close>

theorem intq_fifo:
  assumes "intq_wf q" and "length (intq_bytes q) + length xs \<le> INTQ_BUFSIZE - 1"
  shows "\<exists>q1 q2. put_all put_byte q xs = Some q1 \<and>
    get_all get_byte q1 (length (intq_bytes q) + length xs) = Some (intq_bytes q @ xs, q2) \<and> intq_wf q2 \<and> intq_bytes q2 = []"
  using ring.transfer [of q xs] assms by (simp add: INTQ_BUFSIZE_def)

theorem intq_fifo_witness:
  "\<exists>q1 q2. put_all put_byte sample_intq [1, 2, 3] = Some q1 \<and> get_all get_byte q1 3 = Some ([1, 2, 3], q2)"
  using intq_fifo [of sample_intq "[1, 2, 3]"] by (auto simp: INTQ_BUFSIZE_def numeral_3_eq_3)

section \<open>What other threads do in the meantime\<close>

text \<open>\<open>others free g p q q'\<close>: threads and interrupt handlers other than the one considered take the queue
  from \<open>q\<close> to \<open>q'\<close>, taking \<open>g\<close> bytes and putting \<open>p\<close>.  Unless \<open>free\<close> holds the thread considered holds the
  lock, so that no other thread can be in the part of a call that owns it.\<close>

inductive others :: "bool \<Rightarrow> nat \<Rightarrow> nat \<Rightarrow> intq \<Rightarrow> intq \<Rightarrow> bool" for free where
  none: "others free 0 0 q q"
| get: "others free g p q q1 \<Longrightarrow> intq_getc c q1 = Some (Done b q2 t) \<Longrightarrow> others free (Suc g) p q q2"
| put: "others free g p q q1 \<Longrightarrow> intq_putc c q1 b = Some (Done r q2 t) \<Longrightarrow> others free g (Suc p) q q2"
| wait_get: "others free g p q q1 \<Longrightarrow> intq_getc c q1 \<in> {Some (Blocked q2), Some (Lock_wait q2)} \<Longrightarrow> others free g p q q2"
| wait_put: "others free g p q q1 \<Longrightarrow> intq_putc c q1 b \<in> {Some (Blocked q2), Some (Lock_wait q2)} \<Longrightarrow> others free g p q q2"
| lock_get: "others free g p q q1 \<Longrightarrow> \<not> locked q1 \<Longrightarrow> intq_getc_locked c q1 = Some (Blocked q2) \<Longrightarrow> others free g p q q2"
| lock_put: "others free g p q q1 \<Longrightarrow> \<not> locked q1 \<Longrightarrow> intq_putc_locked c q1 = Some (Blocked q2) \<Longrightarrow> others free g p q q2"
| resume_get: "others free g p q q1 \<Longrightarrow> free \<Longrightarrow> intq_getc_resumed q1 = Some (Yielded q2) \<Longrightarrow> others free g p q q2"
| resume_put: "others free g p q q1 \<Longrightarrow> free \<Longrightarrow> intq_putc_resumed q1 = Some (Yielded q2) \<Longrightarrow> others free g p q q2"

lemma waits_same:
  "wait c w q = Some q' \<Longrightarrow> intq_wf q' = intq_wf q \<and> intq_bytes q' = intq_bytes q \<and> locked q' = locked q"
  by (cases w) (auto simp: wait_def intq_empty_def intq_full_def ASSERT_def split: if_splits)

lemma intq_getc_cases:
  assumes "intq_wf q" "intq_getc c q = Some r"
  obtains (got) q' where "intq_bytes q \<noteq> []" "r = Done (Some (hd (intq_bytes q))) q' (not_full q)" "intq_wf q'"
      "intq_bytes q' = tl (intq_bytes q)" "locked q' = locked q"
  | (blocked) q' where "intq_bytes q = []" "r = Blocked q'" "\<not> locked q" "intq_wf q'" "intq_bytes q' = []" "locked q'"
  | (lock) "intq_bytes q = []" "r = Lock_wait q" "locked q"
proof (cases "intq_bytes q = []")
  case False
  have "intr_off c" using assms(2) by (auto simp: intq_getc_def ASSERT_def split: if_splits)
  then show thesis by (rule intq_getc_ok [OF assms(1) _ False]) (use assms(2) False in \<open>auto intro: got\<close>)
next
  case True
  then have "head q = tail q" using intq_empty_iff [OF assms(1)] by simp
  then have r: "if locked q then r = Lock_wait q else \<exists>q'. wait c Not_empty (q\<lparr>locked := True\<rparr>) = Some q' \<and> r = Blocked q'"
    using assms(2) by (auto simp: intq_getc_def intq_getc_locked_def intq_empty_def ASSERT_def bind_eq_Some_conv split: if_splits)
  show thesis
  proof (cases "locked q")
    case True
    with r \<open>intq_bytes q = []\<close> show thesis by (intro lock) simp_all
  next
    case False
    with r obtain q' where "wait c Not_empty (q\<lparr>locked := True\<rparr>) = Some q'" "r = Blocked q'" by auto
    with waits_same [of c Not_empty "q\<lparr>locked := True\<rparr>" q'] False \<open>intq_bytes q = []\<close> assms(1) show thesis
      by (intro blocked [of q']) simp_all
  qed
qed

lemma intq_putc_cases:
  assumes "intq_wf q" "intq_putc c q b = Some r"
  obtains (put) q' where "r = Done None q' (not_empty q)" "intq_wf q'" "intq_bytes q' = intq_bytes q @ [b]" "locked q' = locked q"
  | (blocked) q' where "r = Blocked q'" "\<not> locked q" "intq_wf q'" "intq_bytes q' = intq_bytes q" "locked q'"
  | (lock) "r = Lock_wait q" "locked q"
proof (cases "length (intq_bytes q) = 63")
  case False
  have "intq_len q < 64" by (simp add: intq_len_def)
  then have "length (intq_bytes q) < 63" using False by simp
  moreover have "intr_off c" using assms(2) by (auto simp: intq_putc_def ASSERT_def split: if_splits)
  ultimately show thesis using assms by (metis intq_putc_ok option.inject put)
next
  case True
  then have "next_pos (head q) = tail q" using intq_full_iff [OF assms(1)] by simp
  then have r: "if locked q then r = Lock_wait q else \<exists>q'. wait c Not_full (q\<lparr>locked := True\<rparr>) = Some q' \<and> r = Blocked q'"
    using assms(2) by (auto simp: intq_putc_def intq_putc_locked_def intq_full_def ASSERT_def bind_eq_Some_conv split: if_splits)
  show thesis
  proof (cases "locked q")
    case True
    with r show thesis by (intro lock) simp_all
  next
    case False
    with r obtain q' where "wait c Not_full (q\<lparr>locked := True\<rparr>) = Some q'" "r = Blocked q'" by auto
    with waits_same [of c Not_full "q\<lparr>locked := True\<rparr>" q'] False assms(1) show thesis
      by (intro blocked [of q']) simp_all
  qed
qed

text \<open>The bytes after any such steps, and the lock that the thread considered holds.\<close>

definition stays :: "bool \<Rightarrow> nat \<Rightarrow> nat \<Rightarrow> intq \<Rightarrow> intq \<Rightarrow> bool" where
  "stays free g p q q' \<longleftrightarrow> intq_wf q' \<and> length (intq_bytes q') + g = length (intq_bytes q) + p \<and>
     (\<exists>xs. intq_bytes q' = drop g (intq_bytes q @ xs) \<and> length xs = p) \<and> (\<not> free \<longrightarrow> locked q \<longrightarrow> locked q')"

lemma stays_same:
  assumes "stays free g p q q1" "intq_wf q2" "intq_bytes q2 = intq_bytes q1" "\<not> free \<longrightarrow> locked q1 \<longrightarrow> locked q2"
  shows "stays free g p q q2"
  using assms unfolding stays_def by auto

lemma others_stays: "others free g p q q' \<Longrightarrow> intq_wf q \<Longrightarrow> stays free g p q q'"
proof (induction rule: others.induct)
  case (none q)
  then show ?case by (simp add: stays_def)
next
  case (get g p q q1 c b q2 t)
  then have s: "stays free g p q q1" by simp
  then have "intq_wf q1" by (simp add: stays_def)
  then show ?case
  proof (rule intq_getc_cases [OF _ get.hyps(2)])
    fix q' assume d: "intq_bytes q1 \<noteq> []" "Done b q2 t = Done (Some (hd (intq_bytes q1))) q' (not_full q1)" "intq_wf q'"
      "intq_bytes q' = tl (intq_bytes q1)" "locked q' = locked q1"
    obtain xs where xs: "intq_bytes q1 = drop g (intq_bytes q @ xs)" "length xs = p" using s by (auto simp: stays_def)
    have "tl (intq_bytes q1) = drop (Suc g) (intq_bytes q @ xs)" by (simp only: xs(1) drop_Suc tl_drop)
    then show ?thesis using s d xs(2) by (cases "intq_bytes q1") (auto simp: stays_def)
  qed simp_all
next
  case (put g p q q1 c b r q2 t)
  then have s: "stays free g p q q1" by simp
  then have "intq_wf q1" by (simp add: stays_def)
  then show ?case
  proof (rule intq_putc_cases [OF _ put.hyps(2)])
    fix q' assume d: "Done r q2 t = Done None q' (not_empty q1)" "intq_wf q'" "intq_bytes q' = intq_bytes q1 @ [b]" "locked q' = locked q1"
    obtain xs where xs: "intq_bytes q1 = drop g (intq_bytes q @ xs)" "length xs = p" using s by (auto simp: stays_def)
    have "g \<le> length (intq_bytes q) + p" using s by (simp add: stays_def)
    then have "intq_bytes q1 @ [b] = drop g (intq_bytes q @ (xs @ [b]))" by (simp add: xs)
    moreover have "length (xs @ [b]) = Suc p" using xs by simp
    ultimately have "\<exists>ys. intq_bytes q2 = drop g (intq_bytes q @ ys) \<and> length ys = Suc p"
      using d(1,3) by (intro exI [of _ "xs @ [b]"]) (simp del: drop_append append_assoc)
    then show ?thesis using s d(1) [symmetric] d(2-) by (simp add: stays_def del: drop_append)
  qed simp_all
next
  case (wait_get g p q q1 c q2)
  then have s: "stays free g p q q1" and "intq_wf q1" by (simp_all add: stays_def)
  then show ?case using wait_get.hyps(2) by (auto elim!: intq_getc_cases [rotated] intro!: stays_same [OF s])
next
  case (wait_put g p q q1 c b q2)
  then have s: "stays free g p q q1" and "intq_wf q1" by (simp_all add: stays_def)
  then show ?case using wait_put.hyps(2) by (auto elim!: intq_putc_cases [rotated] intro!: stays_same [OF s])
next
  case (lock_get g p q q1 c q2)
  then have s: "stays free g p q q1" and "intq_wf q1" by (simp_all add: stays_def)
  then show ?case
    using lock_get.hyps(3) waits_same [of c Not_empty "q1\<lparr>locked := True\<rparr>" q2]
    by (intro stays_same [OF s]) (auto simp: intq_getc_locked_def bind_eq_Some_conv)
next
  case (lock_put g p q q1 c q2)
  then have s: "stays free g p q q1" and "intq_wf q1" by (simp_all add: stays_def)
  then show ?case
    using lock_put.hyps(3) waits_same [of c Not_full "q1\<lparr>locked := True\<rparr>" q2]
    by (intro stays_same [OF s]) (auto simp: intq_putc_locked_def bind_eq_Some_conv)
next
  case (resume_get g p q q1 q2)
  then have s: "stays free g p q q1" and "intq_wf q1" by (simp_all add: stays_def)
  then show ?case using resume_get.hyps(2,3)
    by (intro stays_same [OF s]) (auto simp: intq_getc_resumed_def ASSERT_def split: if_splits)
next
  case (resume_put g p q q1 q2)
  then have s: "stays free g p q q1" and "intq_wf q1" by (simp_all add: stays_def)
  then show ?case using resume_put.hyps(2,3)
    by (intro stays_same [OF s]) (auto simp: intq_putc_resumed_def ASSERT_def split: if_splits)
qed

section \<open>Waiting readers\<close>

definition reader :: "thread_id \<Rightarrow> cpu" where
  "reader t = \<lparr>intr_off = True, in_intr = False, running = t\<rparr>"

text \<open>What the call of a woken reader does when it goes on, after other threads took \<open>g\<close> bytes and put \<open>p\<close>.\<close>

definition reader_goes_on :: "thread_id \<Rightarrow> u8 \<Rightarrow> nat \<Rightarrow> nat \<Rightarrow> intq \<Rightarrow> bool" where
  "reader_goes_on me b g p q \<longleftrightarrow>
     (if g \<le> p
      then \<exists>x q' t. intq_getc (reader me) q = Some (Done (Some x) q' t) \<and> x = hd (intq_bytes q) \<and> (g = 0 \<longrightarrow> x = b)
      else \<exists>q'. intq_getc (reader me) q \<in> {Some (Blocked q'), Some (Lock_wait q')} \<and> intq_bytes q' = [])"

lemma reader_goes_onI:
  assumes "intq_wf q" "length (intq_bytes q) + g = 1 + p" "g = 0 \<Longrightarrow> hd (intq_bytes q) = b"
  shows "reader_goes_on me b g p q"
proof (cases "g \<le> p")
  case True
  then have "intq_bytes q \<noteq> []" using assms(2) by (auto simp del: length_intq_bytes)
  then show ?thesis
    by (rule intq_getc_ok [OF assms(1), of "reader me", rotated])
      (use True assms(3) in \<open>auto simp: reader_def reader_goes_on_def\<close>)
next
  case False
  then have "length (intq_bytes q) = 0" using assms(2) by linarith
  then have e: "intq_bytes q = []" by (simp del: length_intq_bytes)
  then have "head q = tail q" using intq_empty_iff [OF assms(1)] by simp
  then have "locked q \<Longrightarrow> intq_getc (reader me) q = Some (Lock_wait q)"
    by (simp add: intq_getc_def intq_empty_def reader_def)
  then show ?thesis
    using intq_getc_blocks [OF assms(1), of "reader me"] e False
    by (cases "locked q") (auto simp: reader_def reader_goes_on_def)
qed

text \<open>From the wake-up on: the reader finds the lock its own, and whatever other threads do before and
  while it yields, it goes on as described.\<close>

lemma woken_reader:
  assumes "intq_wf q2" "intq_bytes q2 = [b]" "locked q2" "others False g1 p1 q2 q3"
  shows "\<exists>q4. intq_getc_resumed q3 = Some (Yielded q4) \<and>
    (\<forall>g2 p2 q5. others True g2 p2 q4 q5 \<longrightarrow> reader_goes_on me b (g1 + g2) (p1 + p2) q5)"
proof -
  have s3: "stays False g1 p1 q2 q3" by (rule others_stays [OF assms(4,1)])
  then have q3: "intq_wf q3" "locked q3" and len: "length (intq_bytes q3) + g1 = 1 + p1"
    using assms(2,3) length_intq_bytes [of q2] by (simp_all add: stays_def)
  have first: "\<exists>xs. intq_bytes q3 = b # xs" if "g1 = 0" using s3 that assms(2) by (auto simp: stays_def)
  let ?q4 = "q3\<lparr>locked := False\<rparr>"
  have "reader_goes_on me b (g1 + g2) (p1 + p2) q5" if "others True g2 p2 ?q4 q5" for g2 p2 q5
  proof (rule reader_goes_onI)
    have s5: "stays True g2 p2 ?q4 q5" by (rule others_stays [OF that]) (use q3 in simp)
    then show "intq_wf q5" by (simp add: stays_def)
    show "length (intq_bytes q5) + (g1 + g2) = 1 + (p1 + p2)"
      using s5 len unfolding stays_def intq_bytes_fields by linarith
    show "hd (intq_bytes q5) = b" if "g1 + g2 = 0" using s5 that first by (auto simp: stays_def)
  qed
  then show ?thesis using q3(2) by (intro exI [of _ ?q4] conjI allI impI) (simp_all add: intq_getc_resumed_def)
qed

text \<open>C19. A thread that waits in \<open>intq_getc\<close> on an empty queue is woken by the next byte: the call that
  puts it returns exactly this thread to unblock.  The woken thread does not own the byte.  Other
  threads may take \<open>g1\<close> bytes and put \<open>p1\<close> before it runs, and \<open>g2\<close> and \<open>p2\<close> while it yields in
  \<open>lock_release\<close>.  If they took no more than they put, its call returns the first byte of the queue,
  the byte that woke it when they took none; otherwise the queue is empty and the call waits again.\<close>

theorem intq_wakes_reader:
  assumes "intq_wf q" and "intq_bytes q = []" and "\<not> locked q" and "intr_off h"
  shows "\<exists>q1 q2. intq_getc (reader me) q = Some (Blocked q1) \<and> intq_putc h q1 b = Some (Done None q2 (Some me)) \<and>
    (\<forall>g1 p1 q3. others False g1 p1 q2 q3 \<longrightarrow> (\<exists>q4. intq_getc_resumed q3 = Some (Yielded q4) \<and>
      (\<forall>g2 p2 q5. others True g2 p2 q4 q5 \<longrightarrow> reader_goes_on me b (g1 + g2) (p1 + p2) q5)))"
proof -
  let ?q1 = "q\<lparr>locked := True, not_empty := Some me\<rparr>"
  have block: "intq_getc (reader me) q = Some (Blocked ?q1)"
    using intq_getc_blocks [OF assms(1), of "reader me"] assms(2,3) by (simp add: reader_def)
  obtain q2 where q2: "intq_putc h ?q1 b = Some (Done None q2 (not_empty ?q1))" "intq_wf q2" "intq_bytes q2 = intq_bytes ?q1 @ [b]"
      "locked q2 = locked ?q1"
    by (rule intq_putc_ok [of ?q1 h b]) (use assms in simp_all)
  have "intq_bytes q2 = [b]" "locked q2" using q2(3,4) assms(2) by simp_all
  note woken = woken_reader [OF q2(2) this, where me = me]
  have "intq_putc h ?q1 b = Some (Done None q2 (Some me))" using q2(1) by simp
  with block show ?thesis using woken by blast
qed

theorem intq_wakes_reader_witness:
  "\<exists>q1 q2 q4. intq_getc (reader 7) sample_intq = Some (Blocked q1) \<and> intq_putc handler q1 42 = Some (Done None q2 (Some 7)) \<and>
     intq_getc_resumed q2 = Some (Yielded q4) \<and> (\<exists>q5 t. intq_getc (reader 7) q4 = Some (Done (Some 42) q5 t))"
proof -
  obtain q1 q2 where q: "intq_getc (reader 7) sample_intq = Some (Blocked q1)" "intq_putc handler q1 42 = Some (Done None q2 (Some 7))"
    and rest: "\<forall>g1 p1 q3. others False g1 p1 q2 q3 \<longrightarrow> (\<exists>q4. intq_getc_resumed q3 = Some (Yielded q4) \<and>
      (\<forall>g2 p2 q5. others True g2 p2 q4 q5 \<longrightarrow> reader_goes_on 7 42 (g1 + g2) (p1 + p2) q5))"
    using intq_wakes_reader [of sample_intq handler 7 42] by (auto simp: handler_def sample_intq_fields)
  obtain q4 where q4: "intq_getc_resumed q2 = Some (Yielded q4)" and last: "reader_goes_on 7 42 (0 + 0) (0 + 0) q4"
    using rest others.none [of False q2] others.none [of True] by blast
  then have "\<exists>q5 t. intq_getc (reader 7) q4 = Some (Done (Some 42) q5 t)" by (auto simp: reader_goes_on_def)
  with q q4 show ?thesis by blast
qed

text \<open>C40. Two readers can stop the kernel.  While the first waits for a byte, the second waits for the
  lock.  When a byte arrives the first is woken and releases the lock, and if the second runs while
  the first yields there, it finds the queue not empty inside \<open>wait\<close>, whose assertion fails:
  \<open>intq_getc\<close> does not test the condition again after \<open>lock_acquire\<close>.\<close>

theorem intq_second_reader_panics:
  assumes "intq_wf q" and "intq_bytes q = []" and "\<not> locked q" and "intr_off h"
  shows "\<exists>q1 q2 q3. intq_getc (reader t1) q = Some (Blocked q1) \<and> intq_getc (reader t2) q1 = Some (Lock_wait q1) \<and>
    intq_putc h q1 b = Some (Done None q2 (Some t1)) \<and> intq_getc_resumed q2 = Some (Yielded q3) \<and> \<not> locked q3 \<and>
    intq_getc_locked (reader t2) q3 = None"
proof -
  let ?q1 = "q\<lparr>locked := True, not_empty := Some t1\<rparr>"
  have block: "intq_getc (reader t1) q = Some (Blocked ?q1)"
    using intq_getc_blocks [OF assms(1), of "reader t1"] assms(2,3) by (simp add: reader_def)
  obtain q2 where q2: "intq_putc h ?q1 b = Some (Done None q2 (not_empty ?q1))" "intq_wf q2" "intq_bytes q2 = intq_bytes ?q1 @ [b]"
      "locked q2 = locked ?q1"
    by (rule intq_putc_ok [of ?q1 h b]) (use assms in simp_all)
  have "head q = tail q" using intq_empty_iff [OF assms(1)] assms(2) by simp
  then have wait2: "intq_getc (reader t2) ?q1 = Some (Lock_wait ?q1)" by (simp add: intq_getc_def intq_empty_def reader_def)
  have "head q2 \<noteq> tail q2" using intq_empty_iff [OF q2(2)] q2(3) by simp
  then have "intq_getc_locked (reader t2) (q2\<lparr>locked := False\<rparr>) = None"
    by (simp add: intq_getc_locked_def wait_def intq_empty_def intq_full_def reader_def)
  then show ?thesis
    using block wait2 q2 by (intro exI [of _ ?q1] exI [of _ q2] exI [of _ "q2\<lparr>locked := False\<rparr>"]) (simp add: intq_getc_resumed_def)
qed

theorem intq_second_reader_panics_witness:
  "\<exists>q1 q2 q3. intq_getc (reader 1) sample_intq = Some (Blocked q1) \<and> intq_getc (reader 2) q1 = Some (Lock_wait q1) \<and>
     intq_putc handler q1 10 = Some (Done None q2 (Some 1)) \<and> intq_getc_resumed q2 = Some (Yielded q3) \<and>
     intq_getc_locked (reader 2) q3 = None"
  using intq_second_reader_panics [of sample_intq handler 1 2 10] by (auto simp: handler_def sample_intq_fields)

end
