(* ===== verification/Pintos_Random.thy ===== *)
theory Pintos_Random
  imports Pintos_Prelude "HOL-Library.Multiset"
begin

text \<open>
  The pseudo-random number generator (\<open>lib/random.c\<close>): RC4 with its state of 256 bytes and two
  indexes.  Bytes wrap around as 8-bit words; reading or writing outside the state is \<open>None\<close>.
\<close>

section \<open>Operations\<close>

record rc4 =
  s :: "u8 list"
  s_i :: u8
  s_j :: u8
  inited :: bool

definition swap_byte :: "u8 list \<Rightarrow> nat \<Rightarrow> nat \<Rightarrow> u8 list option" where
  "swap_byte m a b = do {
     t \<leftarrow> nth_opt m a;
     u \<leftarrow> nth_opt m b;
     m \<leftarrow> update_opt m a u;
     update_opt m b t
   }"

text \<open>The two loops of \<open>random_init\<close>: \<open>n\<close> rounds from \<open>i\<close> on.\<close>

fun fill_loop :: "nat \<Rightarrow> nat \<Rightarrow> u8 list \<Rightarrow> u8 list option" where
  "fill_loop 0 i m = Some m"
| "fill_loop (Suc n) i m = do { m \<leftarrow> update_opt m i (of_nat i); fill_loop n (i + 1) m }"

fun key_loop :: "nat \<Rightarrow> nat \<Rightarrow> u8 \<Rightarrow> u8 list \<Rightarrow> u8 list \<Rightarrow> u8 list option" where
  "key_loop 0 i j seedp m = Some m"
| "key_loop (Suc n) i j seedp m = do {
     b \<leftarrow> nth_opt m i;
     k \<leftarrow> nth_opt seedp (i mod 4);
     let j = j + (b + k);
     m \<leftarrow> swap_byte m i (unat j);
     key_loop n (i + 1) j seedp m
   }"

definition random_init :: "u32 \<Rightarrow> rc4 \<Rightarrow> rc4 option" where
  "random_init seed r = do {
     let seedp = map (\<lambda>i. ucast (drop_bit (8 * i) seed) :: u8) [0, 1, 2, 3];
     m \<leftarrow> fill_loop 256 0 (s r);
     m \<leftarrow> key_loop 256 0 0 seedp m;
     Some (r\<lparr>s := m, s_i := 0, s_j := 0, inited := True\<rparr>)
   }"

fun bytes_loop :: "nat \<Rightarrow> rc4 \<Rightarrow> (u8 list \<times> rc4) option" where
  "bytes_loop 0 r = Some ([], r)"
| "bytes_loop (Suc n) r = do {
     let i = s_i r + 1;
     b \<leftarrow> nth_opt (s r) (unat i);
     let j = s_j r + b;
     m \<leftarrow> swap_byte (s r) (unat i) (unat j);
     x \<leftarrow> nth_opt m (unat i);
     y \<leftarrow> nth_opt m (unat j);
     z \<leftarrow> nth_opt m (unat (x + y));
     (out, r) \<leftarrow> bytes_loop n (r\<lparr>s := m, s_i := i, s_j := j\<rparr>);
     Some (z # out, r)
   }"

definition random_bytes :: "nat \<Rightarrow> rc4 \<Rightarrow> (u8 list \<times> rc4) option" where
  "random_bytes size' r = do {
     r \<leftarrow> (if inited r then Some r else random_init 0 r);
     bytes_loop size' r
   }"

definition random_ulong :: "rc4 \<Rightarrow> (u32 \<times> rc4) option" where
  "random_ulong r = do {
     (bs, r) \<leftarrow> random_bytes 4 r;
     Some (foldr (\<lambda>b acc. ucast b + push_bit 8 acc) bs 0, r)
   }"

section \<open>The state is a permutation\<close>

definition rc4_ok :: "rc4 \<Rightarrow> bool" where
  "rc4_ok r \<longleftrightarrow> length (s r) = 256 \<and> (inited r \<longrightarrow> set (s r) = UNIV)"

lemma unat_byte: "unat (x :: u8) < 256"
proof -
  have "unat x < 2 ^ LENGTH(8)" by (rule unsigned_less)
  then show ?thesis by simp
qed

lemma set_swap: "i < length m \<Longrightarrow> j < length m \<Longrightarrow> set (m[i := m ! j, j := m ! i]) = set m"
  using mset_swap [of j m i] by (metis mset_eq_setD)

lemma swap_byte_ok:
  "i < length m \<Longrightarrow> j < length m \<Longrightarrow> \<exists>m'. swap_byte m i j = Some m' \<and> length m' = length m \<and> set m' = set m"
  by (simp add: swap_byte_def set_swap)

lemma fill_loop_ok:
  "length m = i + n \<Longrightarrow> \<exists>m'. fill_loop n i m = Some m' \<and> length m' = i + n \<and> take i m' = take i m \<and>
     (\<forall>k. i \<le> k \<longrightarrow> k < i + n \<longrightarrow> m' ! k = of_nat k)"
proof (induction n arbitrary: i m)
  case (Suc n)
  obtain m' where m': "fill_loop n (i + 1) (m[i := of_nat i]) = Some m'" "length m' = i + 1 + n"
      "take (i + 1) m' = take (i + 1) (m[i := of_nat i])" "\<forall>k. i + 1 \<le> k \<longrightarrow> k < i + 1 + n \<longrightarrow> m' ! k = of_nat k"
    using Suc.IH [of "m[i := of_nat i]" "i + 1"] Suc.prems by (elim exE conjE meta_impE) simp_all
  have pre: "take i m' = take i m"
    using arg_cong [OF m'(3), of "take i"] by simp
  have "take (i + 1) m' ! i = (m[i := of_nat i]) ! i" using m'(3) by simp
  then have at: "m' ! i = of_nat i" using Suc.prems by simp
  have "m' ! k = of_nat k" if "i \<le> k" "k < i + Suc n" for k
    using m'(4) [rule_format, of k] at that by (cases "k = i") simp_all
  then show ?case using m'(1,2) pre Suc.prems by (intro exI [of _ m']) simp
qed simp

lemma fill_all: "length m = 256 \<Longrightarrow> \<exists>m'. fill_loop 256 0 m = Some m' \<and> length m' = 256 \<and> set m' = UNIV"
proof -
  assume "length m = 256"
  then obtain m' where m': "fill_loop 256 0 m = Some m'" "length m' = 256" "\<forall>k. 0 \<le> k \<longrightarrow> k < 0 + 256 \<longrightarrow> m' ! k = of_nat k"
    using fill_loop_ok [of m 0 256] by (elim exE conjE meta_impE) simp_all
  have "x \<in> set m'" for x :: u8
  proof -
    have "m' ! unat x = x" using m'(3) unat_byte [of x] by simp
    then show ?thesis using nth_mem [of "unat x" m'] unat_byte [of x] m'(2) by simp
  qed
  then show ?thesis using m'(1,2) by auto
qed

lemma key_loop_ok:
  "length m = 256 \<Longrightarrow> i + n = 256 \<Longrightarrow> length seedp = 4 \<Longrightarrow>
     \<exists>m'. key_loop n i j seedp m = Some m' \<and> length m' = 256 \<and> set m' = set m"
proof (induction n arbitrary: i j m)
  case (Suc n)
  let ?j = "j + (m ! i + seedp ! (i mod 4))"
  have i: "i < length m" "unat ?j < length m" using Suc.prems unat_byte [of ?j] by linarith+
  obtain m1 where "swap_byte m i (unat ?j) = Some m1" "length m1 = length m" "set m1 = set m"
    using swap_byte_ok [OF i] by blast
  with Suc.IH [of m1 "i + 1" ?j] Suc.prems i(1) show ?case by simp
qed simp

lemma random_init_ok:
  assumes "rc4_ok r"
  obtains r' where "random_init seed r = Some r'" "rc4_ok r'" "inited r'" "s_i r' = 0" "s_j r' = 0"
proof -
  obtain m where m: "fill_loop 256 0 (s r) = Some m" "length m = 256" "set m = UNIV" using fill_all [of "s r"] assms by (auto simp: rc4_ok_def)
  obtain m' where "key_loop 256 0 0 (map (\<lambda>i. ucast (drop_bit (8 * i) seed) :: u8) [0, 1, 2, 3]) m = Some m'" "length m' = 256" "set m' = UNIV"
    using key_loop_ok [OF m(2), of 0 256 "map (\<lambda>i. ucast (drop_bit (8 * i) seed) :: u8) [0, 1, 2, 3]" 0] m(3) by auto
  then show thesis using m by (intro that [of "r\<lparr>s := m', s_i := 0, s_j := 0, inited := True\<rparr>"]) (simp_all add: random_init_def rc4_ok_def)
qed

lemma bytes_loop_ok:
  "rc4_ok r \<Longrightarrow> inited r \<Longrightarrow> \<exists>out r'. bytes_loop n r = Some (out, r') \<and> length out = n \<and> rc4_ok r' \<and> inited r' \<and>
     s_i r' = s_i r + of_nat n"
proof (induction n arbitrary: r)
  case (Suc n)
  let ?i = "s_i r + 1"
  let ?j = "s_j r + s r ! unat ?i"
  have len: "length (s r) = 256" "set (s r) = UNIV" using Suc.prems by (simp_all add: rc4_ok_def)
  have lt: "unat ?i < length (s r)" "unat ?j < length (s r)" using unat_byte [of ?i] unat_byte [of ?j] len by simp_all
  obtain m where m: "swap_byte (s r) (unat ?i) (unat ?j) = Some m" "length m = 256" "set m = UNIV"
    using swap_byte_ok [OF lt] len by auto
  let ?r = "r\<lparr>s := m, s_i := ?i, s_j := ?j\<rparr>"
  obtain out r' where "bytes_loop n ?r = Some (out, r')" "length out = n" "rc4_ok r'" "inited r'" "s_i r' = s_i ?r + of_nat n"
    using Suc.IH [of ?r] Suc.prems m by (auto simp: rc4_ok_def)
  then show ?case using m lt unat_byte by (simp add: len Let_def add.assoc)
qed simp

text \<open>The generator never reads or writes outside its state, returns as many bytes as asked
  for, and keeps the state a permutation of the 256 bytes; after the first use it is initialised.\<close>

theorem random_bytes_ok:
  assumes "rc4_ok r"
  shows "\<exists>out r'. random_bytes n r = Some (out, r') \<and> length out = n \<and> rc4_ok r' \<and> inited r' \<and> distinct (s r')"
proof -
  obtain r1 where r1: "(if inited r then Some r else random_init 0 r) = Some r1" "rc4_ok r1" "inited r1"
  proof (cases "inited r")
    case True
    then show thesis using that assms by simp
  next
    case False
    obtain r' where "random_init 0 r = Some r'" "rc4_ok r'" "inited r'" by (rule random_init_ok [OF assms])
    then show thesis using that False by simp
  qed
  obtain out r' where r': "bytes_loop n r1 = Some (out, r')" "length out = n" "rc4_ok r'" "inited r'"
    using bytes_loop_ok [OF r1(2,3), of n] by blast
  have "card (set (s r')) = length (s r')" using r'(3,4) by (simp add: rc4_ok_def card_word)
  then have "distinct (s r')" by (rule card_distinct)
  then show ?thesis using r1 r' by (simp add: random_bytes_def)
qed

theorem random_bytes_ok_witness:
  "\<exists>out r'. random_bytes 5 \<lparr>s = replicate 256 0, s_i = 0, s_j = 0, inited = False\<rparr> = Some (out, r') \<and> length out = 5 \<and> distinct (s r')"
  using random_bytes_ok [of "\<lparr>s = replicate 256 0, s_i = 0, s_j = 0, inited = False\<rparr>" 5] by (auto simp: rc4_ok_def)

end
