(* ===== verification/Pintos_Inode.thy ===== *)
theory Pintos_Inode
  imports Pintos_Cache "HOL-Library.Signed_Division"
begin

text \<open>
  The free map, inodes and files (\<open>filesys/free-map.c\<close>, \<open>filesys/inode.c\<close>, \<open>filesys/file.c\<close>) on the buffer
  cache.  In-memory inodes and files are objects with addresses.  A \<open>struct inode_disk\<close> is its 512
  bytes with an accessor per member.  The memory counter of the cache also serves the allocations
  of these files.  Writing the free map to its file can allocate sectors and so write the free map:
  the operations take that write, \<open>wr\<close>, as an argument, and \<open>bitmap_write\<close> closes the circle to a
  given depth; the free map file has its full size from its creation on, so one level is reached.
\<close>

section \<open>State\<close>

record inode =
  sector :: u32
  open_cnt :: int
  removed :: bool
  deny_write_cnt :: int

record open_file =
  file_inode :: nat
  pos :: int
  deny_write :: bool

record fs =
  bc :: cache
  free_map :: bitmap
  free_map_file :: "nat option"
  inodes :: "nat \<Rightarrow> inode option"
  open_inodes :: "nat list"
  files :: "nat \<Rightarrow> open_file option"
  next_obj :: nat

type_synonym writer = "fs \<Rightarrow> (bool \<times> fs) option"

definition set_memory :: "nat \<Rightarrow> fs \<Rightarrow> fs" where
  "set_memory n s = s\<lparr>bc := (bc s)\<lparr>memory := n\<rparr>\<rparr>"

text \<open>An allocation whose result is used without a test, and freeing it.\<close>

definition take_memory :: "fs \<Rightarrow> fs option" where
  "take_memory s = do { ASSERT (0 < memory (bc s)); Some (set_memory (memory (bc s) - 1) s) }"

definition give_memory :: "fs \<Rightarrow> fs" where
  "give_memory s = set_memory (memory (bc s) + 1) s"

definition cache_read :: "u32 \<Rightarrow> nat \<Rightarrow> nat \<Rightarrow> fs \<Rightarrow> (u8 list \<times> fs) option" where
  "cache_read sec n off s = do {
     (bs, c) \<leftarrow> buffer_cache_read (unat sec) n off (bc s);
     Some (bs, s\<lparr>bc := c\<rparr>)
   }"

definition cache_write :: "u32 \<Rightarrow> u8 list \<Rightarrow> nat \<Rightarrow> fs \<Rightarrow> fs option" where
  "cache_write sec data off s = do {
     c \<leftarrow> buffer_cache_write (unat sec) data off (bc s);
     Some (s\<lparr>bc := c\<rparr>)
   }"

section \<open>On-disk inodes\<close>

definition get32 :: "u8 list \<Rightarrow> nat \<Rightarrow> u32" where
  "get32 bs off = foldr (\<lambda>b acc. ucast b + push_bit 8 acc) (take 4 (drop off bs)) 0"

definition put32 :: "u8 list \<Rightarrow> nat \<Rightarrow> u32 \<Rightarrow> u8 list" where
  "put32 bs off v = overlay bs off (map (\<lambda>i. ucast (drop_bit (8 * i) v)) [0, 1, 2, 3])"

type_synonym inode_disk = "u8 list"

definition DIRECT_SIZE :: nat where
  "DIRECT_SIZE = 122"

definition INDIRECT_SIZE :: nat where
  "INDIRECT_SIZE = 128"

definition FS_LIMIT :: nat where
  "FS_LIMIT = 2 ^ 23"

definition INODE_MAGIC :: u32 where
  "INODE_MAGIC = 0x494e4f44"

definition direct :: "inode_disk \<Rightarrow> nat \<Rightarrow> u32" where
  "direct d i = get32 d (4 * i)"

definition singly_indirect :: "inode_disk \<Rightarrow> u32" where
  "singly_indirect d = get32 d 488"

definition doubly_indirect :: "inode_disk \<Rightarrow> u32" where
  "doubly_indirect d = get32 d 492"

definition length_of :: "inode_disk \<Rightarrow> int" where
  "length_of d = sint (get32 d 496)"

definition is_dir :: "inode_disk \<Rightarrow> bool" where
  "is_dir d = (d ! 500 \<noteq> 0)"

datatype sector_level = DIRECT | SINGLY_INDIRECT | DOUBLY_INDIRECT

definition bytes_to_sectors :: "int \<Rightarrow> nat" where
  "bytes_to_sectors size' = nat ((size' + 511) sdiv 512 mod 2 ^ 32)"

definition determine_level :: "nat \<Rightarrow> sector_level" where
  "determine_level sector_idx' =
     (if sector_idx' < DIRECT_SIZE then DIRECT
      else if sector_idx' < DIRECT_SIZE + INDIRECT_SIZE then SINGLY_INDIRECT
      else DOUBLY_INDIRECT)"

text \<open>\<open>malloc\<close> of an inode and reading it from its sector.\<close>

definition read_inode :: "u32 \<Rightarrow> fs \<Rightarrow> (inode_disk \<times> fs) option" where
  "read_inode sec s = do { s \<leftarrow> take_memory s; cache_read sec 512 0 s }"

definition byte_to_sector :: "u32 \<Rightarrow> int \<Rightarrow> fs \<Rightarrow> (u32 \<times> fs) option" where
  "byte_to_sector sec pos' s = do {
     (d, s) \<leftarrow> read_inode sec s;
     if length_of d \<le> pos' then Some (- 1, give_memory s)
     else do {
       let sector_idx' = nat (pos' sdiv 512 mod 2 ^ 32);
       (block_ptr, s) \<leftarrow>
         (case determine_level sector_idx' of
            DIRECT \<Rightarrow> Some (direct d sector_idx', s)
          | SINGLY_INDIRECT \<Rightarrow> do {
              (bs, s) \<leftarrow> cache_read (singly_indirect d) 4 (sector_idx' - DIRECT_SIZE) s;
              Some (get32 bs 0, s)
            }
          | DOUBLY_INDIRECT \<Rightarrow> do {
              let i = sector_idx' - DIRECT_SIZE - INDIRECT_SIZE;
              (bs, s) \<leftarrow> cache_read (doubly_indirect d) 4 (i div INDIRECT_SIZE) s;
              (bs, s) \<leftarrow> cache_read (get32 bs 0) 4 (i mod INDIRECT_SIZE) s;
              Some (get32 bs 0, s)
            });
       Some (block_ptr, give_memory s)
     }
   }"

section \<open>The free map\<close>

definition FREE_MAP_SECTOR :: u32 where
  "FREE_MAP_SECTOR = 0"

definition ROOT_DIR_SECTOR :: u32 where
  "ROOT_DIR_SECTOR = 1"

definition free_map_init :: "u32 list \<Rightarrow> fs \<Rightarrow> fs option" where
  "free_map_init ws s = do {
     b \<leftarrow> bitmap_create True (Some ws) (dev_size (dev (bc s)));
     b \<leftarrow> b;
     b \<leftarrow> bitmap_mark b (unat FREE_MAP_SECTOR);
     b \<leftarrow> bitmap_mark b (unat ROOT_DIR_SECTOR);
     Some (s\<lparr>free_map := b\<rparr>)
   }"

definition free_map_allocate :: "writer \<Rightarrow> nat \<Rightarrow> fs \<Rightarrow> (u32 option \<times> fs) option" where
  "free_map_allocate wr cnt s = do {
     (sec, b) \<leftarrow> bitmap_scan_and_flip (free_map s) 0 cnt False;
     let s = s\<lparr>free_map := b\<rparr>;
     if sec = BITMAP_ERROR then Some (None, s)
     else if free_map_file s = None then Some (Some (of_nat sec), s)
     else do {
       (ok, s) \<leftarrow> wr s;
       if ok then Some (Some (of_nat sec), s)
       else do {
         b \<leftarrow> bitmap_set_multiple (free_map s) sec cnt False;
         Some (None, s\<lparr>free_map := b\<rparr>)
       }
     }
   }"

definition free_map_release :: "writer \<Rightarrow> u32 \<Rightarrow> nat \<Rightarrow> fs \<Rightarrow> fs option" where
  "free_map_release wr sec cnt s = do {
     all \<leftarrow> bitmap_all (free_map s) (unat sec) cnt;
     ASSERT all;
     b \<leftarrow> bitmap_set_multiple (free_map s) (unat sec) cnt False;
     ASSERT (free_map_file s \<noteq> None);
     (ok, s) \<leftarrow> wr (s\<lparr>free_map := b\<rparr>);
     Some s
   }"

section \<open>Growing and freeing inodes\<close>

definition sector_zero :: "u8 list" where
  "sector_zero = replicate 512 0"

text \<open>Allocating a sector into a pointer and clearing it.\<close>

definition inode_allocate :: "writer \<Rightarrow> inode_disk \<Rightarrow> fs \<Rightarrow> (bool \<times> inode_disk \<times> fs) option" where
  "inode_allocate wr d s = do {
     (p, s) \<leftarrow> free_map_allocate wr 1 s;
     case p of
       None \<Rightarrow> Some (False, d, s)
     | Some p \<Rightarrow> do {
         let d = put32 d 488 p;
         s \<leftarrow> cache_write p sector_zero 0 s;
         (q, s) \<leftarrow> free_map_allocate wr 1 s;
         case q of
           None \<Rightarrow> Some (False, d, s)
         | Some q \<Rightarrow> do {
             let d = put32 d 492 q;
             s \<leftarrow> cache_write q sector_zero 0 s;
             Some (True, d, s)
           }
       }
   }"

text \<open>The body of the loop of \<open>inode_extend\<close> for one sector.\<close>

definition extend_one :: "writer \<Rightarrow> nat \<Rightarrow> inode_disk \<Rightarrow> fs \<Rightarrow> (bool \<times> inode_disk \<times> fs) option" where
  "extend_one wr sector_idx' d s =
     (case determine_level sector_idx' of
        DIRECT \<Rightarrow> do {
          (p, s) \<leftarrow> free_map_allocate wr 1 s;
          case p of None \<Rightarrow> Some (False, d, s) | Some p \<Rightarrow> Some (True, put32 d (4 * sector_idx') p, s)
        }
      | SINGLY_INDIRECT \<Rightarrow> do {
          (bs, s) \<leftarrow> cache_read (singly_indirect d) 4 (sector_idx' - DIRECT_SIZE) s;
          (p, s) \<leftarrow> free_map_allocate wr 1 s;
          case p of None \<Rightarrow> Some (False, d, s)
          | Some p \<Rightarrow> do { s \<leftarrow> cache_write p sector_zero 0 s; Some (True, d, s) }
        }
      | DOUBLY_INDIRECT \<Rightarrow> do {
          let i = sector_idx' - DIRECT_SIZE - INDIRECT_SIZE;
          (bs, s) \<leftarrow> cache_read (doubly_indirect d) 4 (i div INDIRECT_SIZE) s;
          (ptr, s) \<leftarrow>
            (if i mod INDIRECT_SIZE = 0 then do {
               (p, s) \<leftarrow> free_map_allocate wr 1 s;
               case p of None \<Rightarrow> Some (None, s)
               | Some p \<Rightarrow> do { s \<leftarrow> cache_write p sector_zero 0 s; Some (Some p, s) }
             }
             else Some (Some (get32 bs 0), s));
          case ptr of None \<Rightarrow> Some (False, d, s)
          | Some ptr \<Rightarrow> do {
              (bs, s) \<leftarrow> cache_read ptr 4 (i mod INDIRECT_SIZE) s;
              (p, s) \<leftarrow> free_map_allocate wr 1 s;
              case p of None \<Rightarrow> Some (False, d, s)
              | Some p \<Rightarrow> do { s \<leftarrow> cache_write p sector_zero 0 s; Some (True, d, s) }
            }
        })"

fun extend_loop :: "writer \<Rightarrow> nat \<Rightarrow> nat \<Rightarrow> inode_disk \<Rightarrow> fs \<Rightarrow> (bool \<times> inode_disk \<times> fs) option" where
  "extend_loop wr 0 sector_idx' d s = Some (True, d, s)"
| "extend_loop wr (Suc n) sector_idx' d s = do {
     (ok, d, s) \<leftarrow> extend_one wr sector_idx' d s;
     if ok then extend_loop wr n (sector_idx' + 1) d s else Some (False, d, s)
   }"

definition inode_extend :: "writer \<Rightarrow> inode_disk \<Rightarrow> u32 \<Rightarrow> fs \<Rightarrow> (bool \<times> inode_disk \<times> fs) option" where
  "inode_extend wr d len s =
     (if len < get32 d 496 then Some (False, d, s)
      else if FS_LIMIT - 512 < unat len then Some (False, d, s)
      else do {
        let cur_sectors = bytes_to_sectors (length_of d);
        let new_sectors = bytes_to_sectors (sint len);
        (ok, d, s) \<leftarrow> extend_loop wr (new_sectors - cur_sectors) cur_sectors d s;
        if ok then Some (True, put32 d 496 len, s) else Some (False, d, s)
      })"

definition inode_create :: "writer \<Rightarrow> u32 \<Rightarrow> int \<Rightarrow> fs \<Rightarrow> (bool \<times> fs) option" where
  "inode_create wr sec len s = do {
     ASSERT (0 \<le> len);
     ASSERT (len \<le> int (FS_LIMIT - 512));
     if memory (bc s) = 0 then Some (False, s)
     else do {
       s \<leftarrow> take_memory s;
       let d = put32 (put32 sector_zero 496 0) 508 INODE_MAGIC;
       (ok1, d, s) \<leftarrow> inode_allocate wr d s;
       (ok2, d, s) \<leftarrow> inode_extend wr d (word_of_int len) s;
       s \<leftarrow> cache_write sec d 0 s;
       Some (ok2 \<and> ok1, give_memory s)
     }
   }"

fun deallocate_loop :: "writer \<Rightarrow> nat \<Rightarrow> nat \<Rightarrow> inode_disk \<Rightarrow> fs \<Rightarrow> fs option" where
  "deallocate_loop wr 0 sector_idx' d s = Some s"
| "deallocate_loop wr (Suc n) sector_idx' d s = do {
     s \<leftarrow> (case determine_level sector_idx' of
        DIRECT \<Rightarrow> free_map_release wr (direct d sector_idx') 1 s
      | SINGLY_INDIRECT \<Rightarrow> do {
          (bs, s) \<leftarrow> cache_read (singly_indirect d) 4 (sector_idx' - DIRECT_SIZE) s;
          free_map_release wr (get32 bs 0) 1 s
        }
      | DOUBLY_INDIRECT \<Rightarrow> do {
          let i = sector_idx' - DIRECT_SIZE - INDIRECT_SIZE;
          (bs, s) \<leftarrow> cache_read (doubly_indirect d) 4 (i div INDIRECT_SIZE) s;
          (bs, s) \<leftarrow> cache_read (get32 bs 0) 4 (i mod INDIRECT_SIZE) s;
          s \<leftarrow> free_map_release wr (get32 bs 0) 1 s;
          if i mod INDIRECT_SIZE = INDIRECT_SIZE - 1
          then do {
            (bs, s) \<leftarrow> cache_read (doubly_indirect d) 4 (i div INDIRECT_SIZE) s;
            free_map_release wr (get32 bs 0) 1 s
          }
          else Some s
        });
     deallocate_loop wr n (sector_idx' + 1) d s
   }"

definition inode_deallocate :: "writer \<Rightarrow> inode_disk \<Rightarrow> fs \<Rightarrow> fs option" where
  "inode_deallocate wr d s = deallocate_loop wr (bytes_to_sectors (length_of d)) 0 d s"

section \<open>In-memory inodes\<close>

definition upd_inode :: "nat \<Rightarrow> (inode \<Rightarrow> inode) \<Rightarrow> fs \<Rightarrow> fs option" where
  "upd_inode p f s = do { i \<leftarrow> inodes s p; Some (s\<lparr>inodes := (inodes s)(p \<mapsto> f i)\<rparr>) }"

definition inode_init :: "fs \<Rightarrow> fs" where
  "inode_init s = s\<lparr>open_inodes := []\<rparr>"

definition inode_reopen :: "nat option \<Rightarrow> fs \<Rightarrow> (nat option \<times> fs) option" where
  "inode_reopen p s =
     (case p of None \<Rightarrow> Some (None, s)
      | Some q \<Rightarrow> do { s \<leftarrow> upd_inode q (\<lambda>i. i\<lparr>open_cnt := open_cnt i + 1\<rparr>) s; Some (p, s) })"

fun find_inode :: "u32 \<Rightarrow> fs \<Rightarrow> nat list \<Rightarrow> nat option option" where
  "find_inode sec s [] = Some None"
| "find_inode sec s (p # ps) = do {
     i \<leftarrow> inodes s p;
     if sector i = sec then Some (Some p) else find_inode sec s ps
   }"

definition inode_open :: "u32 \<Rightarrow> fs \<Rightarrow> (nat option \<times> fs) option" where
  "inode_open sec s = do {
     p \<leftarrow> find_inode sec s (open_inodes s);
     if p \<noteq> None then inode_reopen p s
     else if memory (bc s) = 0 then Some (None, s)
     else do {
       s \<leftarrow> take_memory s;
       let q = next_obj s;
       Some (Some q, s\<lparr>next_obj := q + 1, open_inodes := q # open_inodes s,
         inodes := (inodes s)(q \<mapsto> \<lparr>sector = sec, open_cnt = 1, removed = False, deny_write_cnt = 0\<rparr>)\<rparr>)
     }
   }"

definition inode_get_inumber :: "nat \<Rightarrow> fs \<Rightarrow> u32 option" where
  "inode_get_inumber p s = do { i \<leftarrow> inodes s p; Some (sector i) }"

definition inode_close :: "writer \<Rightarrow> nat option \<Rightarrow> fs \<Rightarrow> fs option" where
  "inode_close wr p s =
     (case p of None \<Rightarrow> Some s
      | Some p \<Rightarrow> do {
          s \<leftarrow> upd_inode p (\<lambda>i. i\<lparr>open_cnt := open_cnt i - 1\<rparr>) s;
          i \<leftarrow> inodes s p;
          if open_cnt i = 0
          then do {
            let s = s\<lparr>open_inodes := remove1 p (open_inodes s)\<rparr>;
            s \<leftarrow> (if removed i
                  then do {
                    (d, s) \<leftarrow> read_inode (sector i) s;
                    s \<leftarrow> inode_deallocate wr d s;
                    Some (give_memory s)
                  }
                  else Some s);
            Some (give_memory (s\<lparr>inodes := (inodes s)(p := None)\<rparr>))
          }
          else Some s
        })"

definition inode_remove :: "nat \<Rightarrow> fs \<Rightarrow> fs option" where
  "inode_remove p s = upd_inode p (\<lambda>i. i\<lparr>removed := True\<rparr>) s"

definition inode_deny_write :: "nat \<Rightarrow> fs \<Rightarrow> fs option" where
  "inode_deny_write p s = do {
     s \<leftarrow> upd_inode p (\<lambda>i. i\<lparr>deny_write_cnt := deny_write_cnt i + 1\<rparr>) s;
     i \<leftarrow> inodes s p;
     ASSERT (deny_write_cnt i \<le> open_cnt i);
     Some s
   }"

definition inode_allow_write :: "nat \<Rightarrow> fs \<Rightarrow> fs option" where
  "inode_allow_write p s = do {
     i \<leftarrow> inodes s p;
     ASSERT (0 < deny_write_cnt i);
     ASSERT (deny_write_cnt i \<le> open_cnt i);
     upd_inode p (\<lambda>i. i\<lparr>deny_write_cnt := deny_write_cnt i - 1\<rparr>) s
   }"

definition inode_length :: "nat \<Rightarrow> fs \<Rightarrow> (int \<times> fs) option" where
  "inode_length p s = do {
     i \<leftarrow> inodes s p;
     (d, s) \<leftarrow> read_inode (sector i) s;
     Some (length_of d, give_memory s)
   }"

definition inode_isdir :: "nat \<Rightarrow> fs \<Rightarrow> (bool \<times> fs) option" where
  "inode_isdir p s = do {
     i \<leftarrow> inodes s p;
     (d, s) \<leftarrow> read_inode (sector i) s;
     Some (is_dir d, give_memory s)
   }"

definition inode_setdir :: "nat \<Rightarrow> fs \<Rightarrow> fs option" where
  "inode_setdir p s = do {
     i \<leftarrow> inodes s p;
     (d, s) \<leftarrow> read_inode (sector i) s;
     s \<leftarrow> cache_write (sector i) (d[500 := 1]) 0 s;
     Some (give_memory s)
   }"

text \<open>\<open>cwd_in_use\<close> is what \<open>thread_contain_cwd\<close> returns for the sector.\<close>

definition inode_isdepend :: "(u32 \<Rightarrow> bool) \<Rightarrow> nat \<Rightarrow> fs \<Rightarrow> bool option" where
  "inode_isdepend cwd_in_use p s = do {
     i \<leftarrow> inodes s p;
     Some (0 < open_cnt i \<or> cwd_in_use (sector i))
   }"

section \<open>Reading and writing\<close>

definition chunk :: "int \<Rightarrow> int \<Rightarrow> int \<Rightarrow> int" where
  "chunk size' offset len =
     (let inode_left = len - offset;
          sector_left = 512 - offset smod 512;
          min_left = (if inode_left < sector_left then inode_left else sector_left)
      in if size' < min_left then size' else min_left)"

partial_function (option) read_loop :: "nat \<Rightarrow> int \<Rightarrow> int \<Rightarrow> u8 list \<Rightarrow> fs \<Rightarrow> (u8 list \<times> fs) option" where
  "read_loop p size' offset out s =
     (if 0 < size' then do {
        i \<leftarrow> inodes s p;
        (sec, s) \<leftarrow> byte_to_sector (sector i) offset s;
        (len, s) \<leftarrow> inode_length p s;
        let chunk_size = chunk size' offset len;
        if chunk_size \<le> 0 then Some (out, s)
        else do {
          (bs, s) \<leftarrow> cache_read sec (nat chunk_size) (nat (offset smod 512)) s;
          read_loop p (size' - chunk_size) (offset + chunk_size) (out @ bs) s
        }
      }
      else Some (out, s))"

text \<open>\<open>off_t\<close> is a signed 32-bit integer: the end of a range is computed as a 32-bit \<open>size_t\<close> and passed on
  as an \<open>off_t\<close>, negative from \<open>2 ^ 31\<close> on.\<close>

definition to_off_t :: "int \<Rightarrow> int" where
  "to_off_t x = sint (word_of_int x :: u32)"

text \<open>The bytes read; their number is what the function returns.\<close>

definition inode_read_at :: "nat \<Rightarrow> int \<Rightarrow> int \<Rightarrow> fs \<Rightarrow> (u8 list \<times> fs) option" where
  "inode_read_at p size' offset s = do {
     i \<leftarrow> inodes s p;
     (sec, s) \<leftarrow> byte_to_sector (sector i) (to_off_t (offset + size' - 1)) s;
     if sec = - 1 then Some ([], s) else read_loop p size' offset [] s
   }"

partial_function (option) write_loop :: "nat \<Rightarrow> u8 list \<Rightarrow> int \<Rightarrow> int \<Rightarrow> fs \<Rightarrow> (int \<times> fs) option" where
  "write_loop p data offset bytes_written s =
     (if data \<noteq> [] then do {
        i \<leftarrow> inodes s p;
        (sec, s) \<leftarrow> byte_to_sector (sector i) offset s;
        (len, s) \<leftarrow> inode_length p s;
        let chunk_size = chunk (int (length data)) offset len;
        if chunk_size \<le> 0 then Some (bytes_written, s)
        else do {
          s \<leftarrow> cache_write sec (take (nat chunk_size) data) (nat (offset smod 512)) s;
          write_loop p (drop (nat chunk_size) data) (offset + chunk_size) (bytes_written + chunk_size) s
        }
      }
      else Some (bytes_written, s))"

definition inode_write_at :: "writer \<Rightarrow> nat \<Rightarrow> u8 list \<Rightarrow> int \<Rightarrow> fs \<Rightarrow> (int \<times> fs) option" where
  "inode_write_at wr p data offset s = do {
     i \<leftarrow> inodes s p;
     if deny_write_cnt i \<noteq> 0 then Some (0, s)
     else do {
       (sec, s) \<leftarrow> byte_to_sector (sector i) (to_off_t (offset + int (length data))) s;
       (ok, s) \<leftarrow>
         (if sec = - 1
          then do {
            (d, s) \<leftarrow> read_inode (sector i) s;
            (ok, d, s) \<leftarrow> inode_extend wr d (word_of_int (offset + int (length data))) s;
            Some (ok, give_memory s)
          }
          else Some (True, s));
       if ok then write_loop p data offset 0 s else Some (0, s)
     }
   }"

section \<open>Files\<close>

definition file_open :: "writer \<Rightarrow> nat option \<Rightarrow> fs \<Rightarrow> (nat option \<times> fs) option" where
  "file_open wr p s =
     (case p of
        Some i \<Rightarrow>
          if memory (bc s) = 0 then do { s \<leftarrow> inode_close wr p s; Some (None, s) }
          else do {
            s \<leftarrow> take_memory s;
            let q = next_obj s;
            Some (Some q, s\<lparr>next_obj := q + 1, files := (files s)(q \<mapsto> \<lparr>file_inode = i, pos = 0, deny_write = False\<rparr>)\<rparr>)
          }
      | None \<Rightarrow> Some (None, s))"

definition file_reopen :: "writer \<Rightarrow> nat \<Rightarrow> fs \<Rightarrow> (nat option \<times> fs) option" where
  "file_reopen wr f s = do {
     fl \<leftarrow> files s f;
     (p, s) \<leftarrow> inode_reopen (Some (file_inode fl)) s;
     file_open wr p s
   }"

definition file_deny_write :: "nat \<Rightarrow> fs \<Rightarrow> fs option" where
  "file_deny_write f s = do {
     fl \<leftarrow> files s f;
     if \<not> deny_write fl
     then inode_deny_write (file_inode fl) (s\<lparr>files := (files s)(f \<mapsto> fl\<lparr>deny_write := True\<rparr>)\<rparr>)
     else Some s
   }"

definition file_allow_write :: "nat \<Rightarrow> fs \<Rightarrow> fs option" where
  "file_allow_write f s = do {
     fl \<leftarrow> files s f;
     if deny_write fl
     then inode_allow_write (file_inode fl) (s\<lparr>files := (files s)(f \<mapsto> fl\<lparr>deny_write := False\<rparr>)\<rparr>)
     else Some s
   }"

definition file_close :: "writer \<Rightarrow> nat option \<Rightarrow> fs \<Rightarrow> fs option" where
  "file_close wr f s =
     (case f of None \<Rightarrow> Some s
      | Some f \<Rightarrow> do {
          s \<leftarrow> file_allow_write f s;
          fl \<leftarrow> files s f;
          s \<leftarrow> inode_close wr (Some (file_inode fl)) s;
          Some (give_memory (s\<lparr>files := (files s)(f := None)\<rparr>))
        })"

definition file_get_inode :: "nat \<Rightarrow> fs \<Rightarrow> nat option" where
  "file_get_inode f s = do { fl \<leftarrow> files s f; Some (file_inode fl) }"

definition file_read_at :: "nat \<Rightarrow> int \<Rightarrow> int \<Rightarrow> fs \<Rightarrow> (u8 list \<times> fs) option" where
  "file_read_at f size' file_ofs s = do {
     fl \<leftarrow> files s f;
     inode_read_at (file_inode fl) size' file_ofs s
   }"

definition file_read :: "nat \<Rightarrow> int \<Rightarrow> fs \<Rightarrow> (u8 list \<times> fs) option" where
  "file_read f size' s = do {
     fl \<leftarrow> files s f;
     (bs, s) \<leftarrow> inode_read_at (file_inode fl) size' (pos fl) s;
     Some (bs, s\<lparr>files := (files s)(f \<mapsto> fl\<lparr>pos := pos fl + int (length bs)\<rparr>)\<rparr>)
   }"

definition file_write_at :: "writer \<Rightarrow> nat \<Rightarrow> u8 list \<Rightarrow> int \<Rightarrow> fs \<Rightarrow> (int \<times> fs) option" where
  "file_write_at wr f data file_ofs s = do {
     fl \<leftarrow> files s f;
     inode_write_at wr (file_inode fl) data file_ofs s
   }"

definition file_write :: "writer \<Rightarrow> nat \<Rightarrow> u8 list \<Rightarrow> fs \<Rightarrow> (int \<times> fs) option" where
  "file_write wr f data s = do {
     fl \<leftarrow> files s f;
     (n, s) \<leftarrow> inode_write_at wr (file_inode fl) data (pos fl) s;
     Some (n, s\<lparr>files := (files s)(f \<mapsto> fl\<lparr>pos := pos fl + n\<rparr>)\<rparr>)
   }"

definition file_length :: "nat \<Rightarrow> fs \<Rightarrow> (int \<times> fs) option" where
  "file_length f s = do { fl \<leftarrow> files s f; inode_length (file_inode fl) s }"

definition file_seek :: "nat \<Rightarrow> int \<Rightarrow> fs \<Rightarrow> fs option" where
  "file_seek f new_pos s = do {
     ASSERT (0 \<le> new_pos);
     fl \<leftarrow> files s f;
     Some (s\<lparr>files := (files s)(f \<mapsto> fl\<lparr>pos := new_pos\<rparr>)\<rparr>)
   }"

definition file_tell :: "nat \<Rightarrow> fs \<Rightarrow> int option" where
  "file_tell f s = do { fl \<leftarrow> files s f; Some (pos fl) }"

section \<open>The free map file\<close>

definition bitmap_bytes :: "bitmap \<Rightarrow> u8 list" where
  "bitmap_bytes b = concat (map (\<lambda>w. map (\<lambda>i. ucast (drop_bit (8 * i) w)) [0, 1, 2, 3]) (bits b))"

fun bitmap_write :: "nat \<Rightarrow> writer" where
  "bitmap_write 0 s = None"
| "bitmap_write (Suc depth) s =
     (if bit_cnt (free_map s) = 0 then Some (True, s)
      else do {
        f \<leftarrow> free_map_file s;
        let size' = byte_cnt (bit_cnt (free_map s));
        (n, s) \<leftarrow> file_write_at (bitmap_write depth) f (take size' (bitmap_bytes (free_map s))) 0 s;
        Some (n = int size', s)
      })"

definition free_map_writer :: writer where
  "free_map_writer = bitmap_write 2"

definition free_map_create :: "fs \<Rightarrow> fs option" where
  "free_map_create s = do {
     (ok, s) \<leftarrow> inode_create free_map_writer FREE_MAP_SECTOR (int (bitmap_file_size (free_map s))) s;
     ASSERT ok;
     (p, s) \<leftarrow> inode_open FREE_MAP_SECTOR s;
     (f, s) \<leftarrow> file_open free_map_writer p s;
     ASSERT (f \<noteq> None);
     (ok, s) \<leftarrow> free_map_writer (s\<lparr>free_map_file := f\<rparr>);
     ASSERT ok;
     Some s
   }"

definition free_map_close :: "fs \<Rightarrow> fs option" where
  "free_map_close s = file_close free_map_writer (free_map_file s) s"

section \<open>32-bit numbers\<close>

lemma int_word:
  assumes "0 \<le> n" and "n < 2 ^ 31"
  shows "uint (word_of_int n :: u32) = n" "sint (word_of_int n :: u32) = n"
  using assms by (simp_all add: uint_word_of_int sint_sbintrunc' signed_take_bit_int_eq_self)

lemma length_of_unat:
  assumes "0 \<le> length_of d"
  shows "uint (get32 d 496) = length_of d"
proof -
  have "sint (get32 d 496) < 2 ^ (LENGTH(32) - 1)" by (rule sint_lt)
  then show ?thesis using assms by (simp add: length_of_def uint_sint take_bit_int_eq_self)
qed

lemma to_off_t_small: "0 \<le> x \<Longrightarrow> x < 2 ^ 31 \<Longrightarrow> to_off_t x = x"
  by (simp only: to_off_t_def int_word)

section \<open>Reading does not change the disk\<close>

text \<open>\<open>reads n s s'\<close>: only the cache differs, no sector changes its contents, and at most \<open>n\<close> units of
  memory are gone.\<close>

definition reads :: "nat \<Rightarrow> fs \<Rightarrow> fs \<Rightarrow> bool" where
  "reads n s s' \<longleftrightarrow> (\<exists>c. s' = s\<lparr>bc := c\<rparr> \<and> cache_wf c \<and> contents c = contents (bc s) \<and>
     dev_size (dev c) = dev_size (dev (bc s)) \<and> memory (bc s) \<le> memory c + n)"

lemma reads_iff:
  "reads n s s' \<longleftrightarrow> s' = s\<lparr>bc := bc s'\<rparr> \<and> cache_wf (bc s') \<and> contents (bc s') = contents (bc s) \<and>
     dev_size (dev (bc s')) = dev_size (dev (bc s)) \<and> memory (bc s) \<le> memory (bc s') + n"
  unfolding reads_def by (rule iffI) (elim exE conjE, simp, blast)

lemma reads_trans:
  assumes "reads m s s1" and "reads n s1 s2"
  shows "reads (m + n) s s2"
proof -
  obtain c where "s1 = s\<lparr>bc := c\<rparr>" using assms(1) by (auto simp: reads_def)
  moreover obtain c2 where "s2 = s1\<lparr>bc := c2\<rparr>" using assms(2) by (auto simp: reads_def)
  ultimately show ?thesis using assms unfolding reads_iff by simp
qed

lemma readsD:
  assumes "reads n s s'"
  shows "cache_wf (bc s')" "contents (bc s') = contents (bc s)" "dev_size (dev (bc s')) = dev_size (dev (bc s))"
    "memory (bc s) \<le> memory (bc s') + n" "inodes s' = inodes s" "files s' = files s" "free_map s' = free_map s"
    "open_inodes s' = open_inodes s" "free_map_file s' = free_map_file s"
  using assms by (auto simp: reads_def)

lemma cache_wf_memory [simp]: "cache_wf (c\<lparr>memory := m\<rparr>) = cache_wf c"
  by (simp add: cache_wf_def)

lemma give_reads:
  assumes "reads (Suc n) s s'"
  shows "reads n s (give_memory s')"
proof -
  obtain c where "s' = s\<lparr>bc := c\<rparr>" using assms by (auto simp: reads_def)
  then show ?thesis using assms unfolding reads_iff give_memory_def set_memory_def by simp
qed

lemma take_reads:
  assumes "cache_wf (bc s)" and "0 < memory (bc s)"
  obtains s' where "take_memory s = Some s'" "reads 1 s s'"
  using assms by (intro that [of "set_memory (memory (bc s) - 1) s"]) (simp_all add: take_memory_def set_memory_def reads_iff)

lemma cache_read_ok:
  assumes "cache_wf (bc s)" and "unat sec < dev_size (dev (bc s))" and "off + n \<le> 512" and "3 \<le> memory (bc s)"
  obtains s' where "cache_read sec n off s = Some (take n (drop off (contents (bc s) (unat sec))), s')" "reads 3 s s'"
proof -
  obtain c where c: "buffer_cache_read (unat sec) n off (bc s) = Some (take n (drop off (contents (bc s) (unat sec))), c)" "cache_wf c"
      "contents c = contents (bc s)" "dev_size (dev c) = dev_size (dev (bc s))" "memory (bc s) \<le> memory c + 3"
    by (rule buffer_cache_read_ok [OF assms])
  then show thesis by (intro that [of "s\<lparr>bc := c\<rparr>"]) (simp_all add: cache_read_def reads_iff)
qed

lemma cache_read_needs: "cache_read sec n off s = Some r \<Longrightarrow> 3 \<le> memory (bc s)"
  by (auto simp: cache_read_def bind_eq_Some_conv dest: buffer_cache_read_needs)

lemma read_inode_needs: "read_inode sec s = Some r \<Longrightarrow> 4 \<le> memory (bc s)"
  by (auto simp: read_inode_def take_memory_def set_memory_def ASSERT_def bind_eq_Some_conv dest!: cache_read_needs split: if_splits)

lemma byte_to_sector_needs: "byte_to_sector sec x s = Some r \<Longrightarrow> 4 \<le> memory (bc s)"
  by (auto simp: byte_to_sector_def bind_eq_Some_conv dest: read_inode_needs)

lemma inode_length_needs: "inode_length p s = Some r \<Longrightarrow> 4 \<le> memory (bc s)"
  by (auto simp: inode_length_def bind_eq_Some_conv dest: read_inode_needs)

lemma wf_length: "cache_wf c \<Longrightarrow> length (contents c t) = 512"
  by (auto simp: cache_wf_def intro: contents_length)

lemma read_inode_ok:
  assumes "cache_wf (bc s)" and "unat sec < dev_size (dev (bc s))" and "4 \<le> memory (bc s)"
  obtains s' where "read_inode sec s = Some (contents (bc s) (unat sec), s')" "reads 4 s s'"
proof -
  obtain s1 where s1: "take_memory s = Some s1" "reads 1 s s1" using take_reads [of s] assms by auto
  note D = readsD [OF s1(2)]
  obtain s2 where s2: "cache_read sec 512 0 s1 = Some (take 512 (drop 0 (contents (bc s1) (unat sec))), s2)" "reads 3 s1 s2"
    by (rule cache_read_ok [of s1 sec 0 512]) (use assms D in simp_all)
  show thesis
    by (rule that [of s2]) (use s1 s2 D wf_length [OF assms(1)] reads_trans [OF s1(2) s2(2)] in \<open>simp_all add: read_inode_def\<close>)
qed

lemma byte_to_sector_end:
  assumes "cache_wf (bc s)" and "unat sec < dev_size (dev (bc s))" and "4 \<le> memory (bc s)"
    and "length_of (contents (bc s) (unat sec)) \<le> x"
  obtains s' where "byte_to_sector sec x s = Some (- 1, s')" "reads 3 s s'"
proof -
  obtain s1 where s1: "read_inode sec s = Some (contents (bc s) (unat sec), s1)" "reads 4 s s1" by (rule read_inode_ok [OF assms(1-3)])
  have "reads (Suc 3) s s1" using s1(2) by simp
  then show thesis using that [OF _ give_reads] s1(1) assms(4) by (simp add: byte_to_sector_def)
qed

lemma byte_to_sector_direct:
  assumes "cache_wf (bc s)" and "unat sec < dev_size (dev (bc s))" and "4 \<le> memory (bc s)"
    and "0 \<le> x" "x < length_of (contents (bc s) (unat sec))" "x < 122 * 512"
  obtains s' where "byte_to_sector sec x s = Some (direct (contents (bc s) (unat sec)) (nat x div 512), s')" "reads 3 s s'"
proof -
  obtain s1 where s1: "read_inode sec s = Some (contents (bc s) (unat sec), s1)" "reads 4 s s1" by (rule read_inode_ok [OF assms(1-3)])
  have r: "reads (Suc 3) s s1" using s1(2) by simp
  have d: "x sdiv 512 = x div 512" using assms(4) by (auto simp: signed_divide_int_def sgn_if)
  have q: "x div 512 < 122" "0 \<le> x div 512" using assms(4,6) by linarith+
  then have i: "nat (x sdiv 512 mod 2 ^ 32) = nat x div 512" using assms(4) by (simp add: d nat_div_distrib)
  have "nat x div 512 < 122" using q assms(4) by (simp add: nat_div_distrib)
  then have "determine_level (nat x div 512) = DIRECT" by (simp add: determine_level_def DIRECT_SIZE_def)
  then show thesis
    using that [OF _ give_reads [OF r]] s1(1) assms(5) i by (simp add: byte_to_sector_def Let_def)
qed

lemma inode_length_ok:
  assumes "cache_wf (bc s)" and "inodes s p = Some i" and "unat (sector i) < dev_size (dev (bc s))" and "4 \<le> memory (bc s)"
  obtains s' where "inode_length p s = Some (length_of (contents (bc s) (unat (sector i))), s')" "reads 3 s s'"
proof -
  obtain s1 where s1: "read_inode (sector i) s = Some (contents (bc s) (unat (sector i)), s1)" "reads 4 s s1"
    by (rule read_inode_ok [OF assms(1,3,4)])
  have r: "reads (Suc 3) s s1" using s1(2) by simp
  show thesis using that [OF _ give_reads [OF r]] s1(1) assms(2) by (simp add: inode_length_def)
qed

section \<open>Files of direct sectors\<close>

definition disk_inode :: "fs \<Rightarrow> inode \<Rightarrow> inode_disk" where
  "disk_inode s i = contents (bc s) (unat (sector i))"

text \<open>An open inode whose data lie in its direct sectors.\<close>

definition direct_inode :: "fs \<Rightarrow> nat \<Rightarrow> inode \<Rightarrow> bool" where
  "direct_inode s p i \<longleftrightarrow> inodes s p = Some i \<and> cache_wf (bc s) \<and> unat (sector i) < dev_size (dev (bc s)) \<and>
     dev_size (dev (bc s)) < 2 ^ 32 \<and> 0 \<le> length_of (disk_inode s i) \<and> length_of (disk_inode s i) \<le> 122 * 512 \<and>
     (\<forall>k < 122. unat (direct (disk_inode s i) k) < dev_size (dev (bc s)))"

definition file_byte :: "fs \<Rightarrow> inode \<Rightarrow> nat \<Rightarrow> u8" where
  "file_byte s i k = contents (bc s) (unat (direct (disk_inode s i) (k div 512))) ! (k mod 512)"

lemma reads_direct:
  assumes "reads n s s'" and "direct_inode s p i"
  shows "direct_inode s' p i" "disk_inode s' i = disk_inode s i" "file_byte s' i = file_byte s i"
  using assms readsD [OF assms(1)] by (simp_all add: direct_inode_def disk_inode_def file_byte_def fun_eq_iff)

lemma chunk_pos:
  assumes "0 < size'" and "0 \<le> offset" and "offset + size' \<le> len"
  defines "c \<equiv> chunk size' offset len"
  shows "0 < c" "c \<le> size'" "offset mod 512 + c \<le> 512" "offset smod 512 = offset mod 512"
proof -
  show m: "offset smod 512 = offset mod 512"
    using assms(2) by (simp add: signed_modulo_int_def signed_divide_int_def sgn_if minus_mult_div_eq_mod minus_div_mult_eq_mod)
  have "0 \<le> offset mod 512" "offset mod 512 < 512" by simp_all
  then show "0 < c" "c \<le> size'" "offset mod 512 + c \<le> 512"
    using assms(1,3) unfolding c_def chunk_def Let_def m by auto
qed

lemma slice_bytes:
  assumes "length v = 512" and "o' mod 512 + n \<le> 512" and "v = contents (bc s) (unat (direct (disk_inode s i) (o' div 512)))"
  shows "take n (drop (o' mod 512) v) = map (file_byte s i) [o'..<o' + n]"
proof (rule nth_equalityI)
  show "length (take n (drop (o' mod 512) v)) = length (map (file_byte s i) [o'..<o' + n])" using assms by simp
  fix j assume "j < length (take n (drop (o' mod 512) v))"
  then have j: "j < n" by simp
  define q r where "q = o' div 512" and "r = o' mod 512 + j"
  have "o' + j = r + q * 512" "r < 512" using j assms(2) by (simp_all add: q_def r_def)
  then have "(o' + j) div 512 = q" "(o' + j) mod 512 = r" by simp_all
  then have "(o' + j) div 512 = o' div 512" "(o' + j) mod 512 = o' mod 512 + j" by (simp_all add: q_def r_def)
  then show "take n (drop (o' mod 512) v) ! j = map (file_byte s i) [o'..<o' + n] ! j"
    using j assms by (simp add: file_byte_def)
qed

text \<open>What a read of \<open>xs\<close> within \<open>n\<close> units of memory comes to: the bytes, or a failure for lack of memory.\<close>

definition read_result :: "nat \<Rightarrow> fs \<Rightarrow> u8 list \<Rightarrow> (u8 list \<times> fs) option \<Rightarrow> bool" where
  "read_result n s xs r \<longleftrightarrow> r = None \<and> memory (bc s) < n \<or> (\<exists>s'. r = Some (xs, s') \<and> reads n s s')"

lemma read_loop_step:
  assumes di: "direct_inode s p i" and off: "0 \<le> offset" and sz: "0 < size'" "offset + size' \<le> length_of (disk_inode s i)"
    and c_def: "c = chunk size' offset (length_of (disk_inode s i))"
  obtains (fail) "read_loop p size' offset out s = None" "memory (bc s) < 9"
  | (go) s' where "read_loop p size' offset out s =
        read_loop p (size' - c) (offset + c) (out @ map (file_byte s i) [nat offset..<nat offset + nat c]) s'" "reads 9 s s'"
proof -
  have wf: "cache_wf (bc s)" "inodes s p = Some i" "unat (sector i) < dev_size (dev (bc s))" "length_of (disk_inode s i) \<le> 122 * 512"
    and ptr: "\<And>k. k < 122 \<Longrightarrow> unat (direct (disk_inode s i) k) < dev_size (dev (bc s))"
    using di by (auto simp: direct_inode_def)
  let ?len = "length_of (disk_inode s i)" and ?sec = "direct (disk_inode s i) (nat offset div 512)"
  note c = chunk_pos [OF sz(1) off sz(2), folded c_def]
  have lt: "offset < ?len" "offset < 122 * 512" using sz wf(4) by linarith+
  have unfold: "read_loop p size' offset out s = do {
        (sec, s) \<leftarrow> byte_to_sector (sector i) offset s;
        (len, s) \<leftarrow> inode_length p s;
        let chunk_size = chunk size' offset len;
        if chunk_size \<le> 0 then Some (out, s)
        else do {
          (bs, s) \<leftarrow> cache_read sec (nat chunk_size) (nat (offset smod 512)) s;
          read_loop p (size' - chunk_size) (offset + chunk_size) (out @ bs) s
        } }"
    using sz(1) wf(2) by (subst read_loop.simps) simp
  show thesis
  proof (cases "4 \<le> memory (bc s)")
    case False
    then have "byte_to_sector (sector i) offset s = None" using byte_to_sector_needs by (cases "byte_to_sector (sector i) offset s") auto
    then show thesis using False unfold by (intro fail) simp_all
  next
    case True
    obtain s1 where s1: "byte_to_sector (sector i) offset s = Some (?sec, s1)" "reads 3 s s1"
      by (rule byte_to_sector_direct [OF wf(1,3) True off]) (use lt in \<open>simp_all add: disk_inode_def\<close>)
    note D1 = readsD [OF s1(2)] and E1 = reads_direct [OF s1(2) di]
    show thesis
    proof (cases "4 \<le> memory (bc s1)")
      case False
      then have "inode_length p s1 = None" using inode_length_needs by (cases "inode_length p s1") auto
      then show thesis using False unfold s1(1) D1(4) by (intro fail) simp_all
    next
      case True
      obtain s2 where s2: "inode_length p s1 = Some (?len, s2)" "reads 3 s1 s2"
        by (rule inode_length_ok [of s1 p i]) (use D1 wf True E1 in \<open>simp_all add: disk_inode_def\<close>)
      note D2 = readsD [OF s2(2)]
      have "nat offset < 122 * 512" using lt(2) by linarith
      then have idx: "nat offset div 512 < 122" by (simp add: less_mult_imp_div_less)
      have om: "nat (offset smod 512) = nat offset mod 512" using c(4) off by (simp add: nat_mod_distrib)
      have fit: "nat offset mod 512 + nat c \<le> 512" using c(1,3) off om c(4) by linarith
      show thesis
      proof (cases "3 \<le> memory (bc s2)")
        case False
        then have "cache_read ?sec (nat c) (nat offset mod 512) s2 = None"
          using cache_read_needs by (cases "cache_read ?sec (nat c) (nat offset mod 512) s2") auto
        then show thesis
          using False unfold s1(1) s2(1) D1(4) D2(4) c(1) by (intro fail) (simp_all add: om c_def Let_def)
      next
        case True
        obtain s3 where s3: "cache_read ?sec (nat c) (nat offset mod 512) s2 =
            Some (take (nat c) (drop (nat offset mod 512) (contents (bc s2) (unat ?sec))), s3)" "reads 3 s2 s3"
          by (rule cache_read_ok [of s2 ?sec "nat offset mod 512" "nat c"]) (use D1 D2 wf ptr [OF idx] fit True in simp_all)
        have bytes: "take (nat c) (drop (nat offset mod 512) (contents (bc s2) (unat ?sec))) = map (file_byte s i) [nat offset..<nat offset + nat c]"
          by (rule slice_bytes [OF _ fit]) (use D1 D2 wf_length [OF wf(1)] in simp_all)
        have "reads (3 + 3 + 3) s s3" by (rule reads_trans [OF reads_trans [OF s1(2) s2(2)] s3(2)])
        then show thesis
          using unfold s1(1) s2(1) s3(1) c(1) by (intro go [of s3]) (simp_all add: om bytes [unfolded c_def] c_def Let_def)
      qed
    qed
  qed
qed

lemma read_loop_result:
  assumes "direct_inode s p i" and "0 \<le> offset" "0 \<le> size'" "offset + size' \<le> length_of (disk_inode s i)"
  shows "read_result (9 * nat size') s (out @ map (file_byte s i) [nat offset..<nat (offset + size')]) (read_loop p size' offset out s)"
  using assms
proof (induction "nat size'" arbitrary: size' offset out s rule: less_induct)
  case (less size' offset out s)
  note di = less.prems(1) and off = less.prems(2)
  show ?case
  proof (cases "0 < size'")
    case False
    then have "size' = 0" using less.prems(3) by simp
    moreover have "cache_wf (bc s)" using di by (simp add: direct_inode_def)
    ultimately show ?thesis by (subst read_loop.simps) (simp add: reads_iff read_result_def)
  next
    case True
    define c where "c = chunk size' offset (length_of (disk_inode s i))"
    note c = chunk_pos(1,2) [OF True off less.prems(4), folded c_def]
    show ?thesis using di off True less.prems(4) c_def
    proof (cases rule: read_loop_step [where out = out])
      case fail
      then show ?thesis using True by (simp add: read_result_def)
    next
      case (go s')
      note E = reads_direct [OF go(2) di]
      let ?out = "out @ map (file_byte s i) [nat offset..<nat offset + nat c]"
      have "nat (size' - c) < nat size'" "0 \<le> offset + c" "0 \<le> size' - c" using c off by linarith+
      then have IH: "read_result (9 * nat (size' - c)) s' (?out @ map (file_byte s' i) [nat (offset + c)..<nat (offset + c + (size' - c))])
          (read_loop p (size' - c) (offset + c) ?out s')"
        by (intro less.hyps E(1)) (use less.prems(4) E(2) in simp_all)
      have up: "[nat offset..<nat offset + nat c] @ [nat (offset + c)..<nat (offset + size')] = [nat offset..<nat (offset + size')]"
        using c off upt_add_eq_append [of "nat offset" "nat offset + nat c" "nat (size' - c)"] by (simp add: nat_add_distrib nat_diff_distrib)
      have le: "9 + 9 * nat (size' - c) \<le> 9 * nat size'" using c by linarith
      have "reads (9 * nat size') s s2" if "reads (9 * nat (size' - c)) s' s2" for s2
        using reads_trans [OF go(2) that] le unfolding reads_iff by linarith
      then show ?thesis
        using IH readsD(4) [OF go(2)] le E(3) unfolding go(1) read_result_def by (auto simp: up [symmetric])
    qed
  qed
qed

lemma inode_read_at_result:
  assumes di: "direct_inode s p i" and off: "0 \<le> offset" "0 < size'" "offset + size' \<le> 2 ^ 31"
  shows "read_result (9 * nat size' + 4) s
    (if offset + size' \<le> length_of (disk_inode s i) then map (file_byte s i) [nat offset..<nat (offset + size')] else [])
    (inode_read_at p size' offset s)"
proof (cases "4 \<le> memory (bc s)")
  case False
  let ?b = "\<lambda>i. byte_to_sector (sector i) (to_off_t (offset + size' - 1)) s"
  have "?b i = None" using False byte_to_sector_needs by (cases "?b i") auto
  then show ?thesis using False di by (simp add: inode_read_at_def direct_inode_def read_result_def)
next
  case True
  have wf: "cache_wf (bc s)" "inodes s p = Some i" "unat (sector i) < dev_size (dev (bc s))" "length_of (disk_inode s i) \<le> 122 * 512"
      "dev_size (dev (bc s)) < 2 ^ 32"
    and ptr: "\<And>k. k < 122 \<Longrightarrow> unat (direct (disk_inode s i) k) < dev_size (dev (bc s))"
    using di by (auto simp: direct_inode_def)
  let ?x = "offset + size' - 1"
  have x: "to_off_t ?x = ?x" by (rule to_off_t_small) (use off in linarith)+
  show ?thesis
  proof (cases "offset + size' \<le> length_of (disk_inode s i)")
    case inside: True
    obtain s1 where s1: "byte_to_sector (sector i) ?x s = Some (direct (disk_inode s i) (nat ?x div 512), s1)" "reads 3 s s1"
      by (rule byte_to_sector_direct [OF wf(1,3) True, of ?x]) (use inside off wf(4) in \<open>simp_all add: disk_inode_def\<close>)
    have "nat ?x < 122 * 512" using inside off wf(4) by linarith
    then have "nat ?x div 512 < 122" by (simp add: less_mult_imp_div_less)
    from ptr [OF this] have "unat (direct (disk_inode s i) (nat ?x div 512)) < 2 ^ 32 - 1" using wf(5) by linarith
    moreover have "unat (- 1 :: u32) = 2 ^ 32 - 1" by (simp add: unsigned_minus_1_eq_mask mask_eq_exp_minus_1)
    ultimately have ne: "direct (disk_inode s i) (nat ?x div 512) \<noteq> - 1" by force
    note D = reads_direct [OF s1(2) di]
    have res: "inode_read_at p size' offset s = read_loop p size' offset [] s1"
      using s1(1) ne wf(2) by (simp add: inode_read_at_def x)
    have L: "read_result (9 * nat size') s1 ([] @ map (file_byte s1 i) [nat offset..<nat (offset + size')]) (read_loop p size' offset [] s1)"
      by (rule read_loop_result [OF D(1)]) (use D(2) inside off in simp_all)
    have "reads (9 * nat size' + 4) s s2" if "reads (9 * nat size') s1 s2" for s2
      using reads_trans [OF s1(2) that] unfolding reads_iff by linarith
    then show ?thesis using L readsD(4) [OF s1(2)] inside D(3) unfolding read_result_def res by auto
  next
    case outside: False
    obtain s1 where s1: "byte_to_sector (sector i) ?x s = Some (- 1, s1)" "reads 3 s s1"
      by (rule byte_to_sector_end [OF wf(1,3) True, of ?x]) (use outside in \<open>simp_all add: disk_inode_def\<close>)
    have "reads (9 * nat size' + 4) s s1" using s1(2) unfolding reads_iff by linarith
    then show ?thesis using s1 outside wf(2) by (simp add: inode_read_at_def x read_result_def)
  qed
qed

lemma inode_read_at_ok:
  assumes "direct_inode s p i" and "0 \<le> offset" and "0 < size'" and "offset + size' \<le> 2 ^ 31" and "9 * nat size' + 4 \<le> memory (bc s)"
  shows "\<exists>s'. inode_read_at p size' offset s =
      Some (if offset + size' \<le> length_of (disk_inode s i) then map (file_byte s i) [nat offset..<nat (offset + size')] else [], s') \<and>
    reads (9 * nat size' + 4) s s'"
  using inode_read_at_result [OF assms(1-4)] assms(5) by (auto simp: read_result_def)

section \<open>Writing the free map\<close>

text \<open>\<open>writes n S s s'\<close>: only the cache and the bits of the free map differ, only sectors in \<open>S\<close> change their
  contents, and at most \<open>n\<close> units of memory are gone.\<close>

definition writes :: "nat \<Rightarrow> nat set \<Rightarrow> fs \<Rightarrow> fs \<Rightarrow> bool" where
  "writes n S s s' \<longleftrightarrow> s' = s\<lparr>bc := bc s', free_map := free_map s'\<rparr> \<and> cache_wf (bc s') \<and>
     (\<forall>t. t \<notin> S \<longrightarrow> contents (bc s') t = contents (bc s) t) \<and> dev_size (dev (bc s')) = dev_size (dev (bc s)) \<and>
     memory (bc s) \<le> memory (bc s') + n \<and> (bitmap_wf (free_map s) \<longrightarrow> bitmap_wf (free_map s')) \<and>
     bit_cnt (free_map s') = bit_cnt (free_map s)"

lemma reads_writes: "reads n s s' \<Longrightarrow> writes n S s s'"
  by (cases s; cases s') (auto simp: reads_iff writes_def)

lemma writesD:
  assumes "writes n S s s'"
  shows "cache_wf (bc s')" "t \<notin> S \<Longrightarrow> contents (bc s') t = contents (bc s) t" "dev_size (dev (bc s')) = dev_size (dev (bc s))"
    "memory (bc s) \<le> memory (bc s') + n" "inodes s' = inodes s" "files s' = files s" "free_map_file s' = free_map_file s"
    "bitmap_wf (free_map s) \<Longrightarrow> bitmap_wf (free_map s')" "bit_cnt (free_map s') = bit_cnt (free_map s)"
proof -
  show "inodes s' = inodes s" "files s' = files s" "free_map_file s' = free_map_file s"
    using assms by (cases s; cases s'; simp add: writes_def)+
qed (use assms in \<open>simp_all add: writes_def\<close>)

lemma writes_trans:
  assumes "writes m S s s1" and "writes n S s1 s2"
  shows "writes (m + n) S s s2"
proof -
  have "s2 = s\<lparr>bc := bc s2, free_map := free_map s2\<rparr>"
    using assms by (cases s; cases s1; cases s2) (simp add: writes_def)
  then show ?thesis using assms unfolding writes_def by auto
qed

lemma writes_mono: "writes n S s s' \<Longrightarrow> n \<le> m \<Longrightarrow> S \<subseteq> T \<Longrightarrow> writes m T s s'"
  unfolding writes_def by (meson add_left_mono order_trans subsetD)

lemma give_writes:
  assumes "writes n S s s'"
  shows "writes n S s (give_memory s')"
  using assms by (cases s; cases s') (auto simp: writes_def give_memory_def set_memory_def)

lemma cache_write_ok:
  assumes "cache_wf (bc s)" and "unat sec < dev_size (dev (bc s))" and "off + length data \<le> 512" and "3 \<le> memory (bc s)"
  obtains s' where "cache_write sec data off s = Some s'" "writes 3 {unat sec} s s'"
proof -
  obtain c old where c: "buffer_cache_write (unat sec) data off (bc s) = Some c" "cache_wf c"
      "contents c = (contents (bc s))(unat sec := overlay old off data)" "dev_size (dev c) = dev_size (dev (bc s))"
      "memory (bc s) \<le> memory c + 3"
    by (rule buffer_cache_write_ok [OF assms])
  then show thesis by (intro that [of "s\<lparr>bc := c\<rparr>"]) (simp_all add: cache_write_def writes_def)
qed

text \<open>The sectors of the data of a file.\<close>

definition data_sectors :: "fs \<Rightarrow> inode \<Rightarrow> nat set" where
  "data_sectors s i = {unat (direct (disk_inode s i) k) | k. int (512 * k) < length_of (disk_inode s i)}"

lemma writes_direct:
  assumes "writes n S s s'" and "direct_inode s p i" and "unat (sector i) \<notin> S"
  shows "direct_inode s' p i" "disk_inode s' i = disk_inode s i" "data_sectors s' i = data_sectors s i"
proof -
  note D = writesD [OF assms(1)]
  show d: "disk_inode s' i = disk_inode s i" using D(2) [OF assms(3)] by (simp add: disk_inode_def)
  show "direct_inode s' p i" using assms(2) D(1,3,5) by (simp add: direct_inode_def d)
  show "data_sectors s' i = data_sectors s i" by (simp add: data_sectors_def d)
qed

lemma write_loop_ok:
  assumes "direct_inode s p i" and "0 \<le> offset" and "offset + int (length data) \<le> length_of (disk_inode s i)"
    and "unat (sector i) \<notin> data_sectors s i" and "9 * length data \<le> memory (bc s)"
  shows "\<exists>s'. write_loop p data offset n s = Some (n + int (length data), s') \<and> writes (9 * length data) (data_sectors s i) s s'"
  using assms
proof (induction "length data" arbitrary: data offset n s rule: less_induct)
  case (less data offset n s)
  note di = less.prems(1) and off = less.prems(2) and own = less.prems(4)
  have wf: "cache_wf (bc s)" "inodes s p = Some i" "unat (sector i) < dev_size (dev (bc s))" "length_of (disk_inode s i) \<le> 122 * 512"
    and ptr: "\<And>k. k < 122 \<Longrightarrow> unat (direct (disk_inode s i) k) < dev_size (dev (bc s))"
    using di by (auto simp: direct_inode_def)
  show ?case
  proof (cases "data = []")
    case True
    then show ?thesis
      using wf(1) by (subst write_loop.simps) (simp add: writes_def)
  next
    case False
    let ?len = "length_of (disk_inode s i)" and ?sec = "direct (disk_inode s i) (nat offset div 512)"
    define c where "c = chunk (int (length data)) offset ?len"
    have pos: "0 < int (length data)" using False by simp
    note c = chunk_pos [OF pos off less.prems(3), folded c_def]
    have m: "9 \<le> memory (bc s)" using less.prems(5) False by (cases data) auto
    have lt: "offset < ?len" "offset < 122 * 512" using pos less.prems(3) wf(4) by linarith+
    obtain s1 where s1: "byte_to_sector (sector i) offset s = Some (?sec, s1)" "reads 3 s s1"
      by (rule byte_to_sector_direct [OF wf(1,3) _ off]) (use lt m in \<open>simp_all add: disk_inode_def\<close>)
    note D1 = readsD [OF s1(2)] and E1 = reads_direct [OF s1(2) di]
    obtain s2 where s2: "inode_length p s1 = Some (?len, s2)" "reads 3 s1 s2"
      by (rule inode_length_ok [of s1 p i]) (use D1 wf m E1 in \<open>simp_all add: disk_inode_def\<close>)
    note D2 = readsD [OF s2(2)]
    have "nat offset < 122 * 512" using lt(2) by linarith
    then have idx: "nat offset div 512 < 122" by (simp add: less_mult_imp_div_less)
    have om: "nat (offset smod 512) = nat offset mod 512" using c(4) off by (simp add: nat_mod_distrib)
    have fit: "nat offset mod 512 + nat c \<le> 512" using c(1,3) off om c(4) by linarith
    have len: "length (take (nat c) data) = nat c" using c(1,2) by simp
    obtain s3 where s3: "cache_write ?sec (take (nat c) data) (nat offset mod 512) s2 = Some s3" "writes 3 {unat ?sec} s2 s3"
      by (rule cache_write_ok [of s2 ?sec "nat offset mod 512" "take (nat c) data"])
        (use D1 D2 wf ptr [OF idx] fit m len in simp_all)
    have "512 * (nat offset div 512) \<le> nat offset" by simp
    then have "int (512 * (nat offset div 512)) \<le> offset" using off by linarith
    then have sec: "unat ?sec \<in> data_sectors s i" using lt(1) unfolding data_sectors_def by (intro CollectI exI) auto
    then have w3: "writes 3 (data_sectors s i) s2 s3" by (intro writes_mono [OF s3(2)]) simp_all
    have w: "writes (3 + 3 + 3) (data_sectors s i) s s3"
      by (rule writes_trans [OF writes_trans [OF reads_writes [OF s1(2)] reads_writes [OF s2(2)]] w3])
    note E3 = writes_direct [OF w di own]
    have step: "write_loop p data offset n s = write_loop p (drop (nat c) data) (offset + c) (n + c) s3"
      using False wf(2) s1 s2 s3 c(1) by (subst write_loop.simps) (simp add: om c_def Let_def)
    have dl: "length (drop (nat c) data) < length data" "int (length (drop (nat c) data)) = int (length data) - c"
      using c(1,2) by auto
    have mem: "9 * length (drop (nat c) data) \<le> memory (bc s3)"
      using writesD(4) [OF w] less.prems(5) c(1,2) dl(2) by linarith
    obtain s4 where s4: "write_loop p (drop (nat c) data) (offset + c) (n + c) s3 = Some (n + c + int (length (drop (nat c) data)), s4)"
        "writes (9 * length (drop (nat c) data)) (data_sectors s3 i) s3 s4"
      using less.hyps [OF dl(1) E3(1), of "offset + c" "n + c"] E3(2,3) own off c(1) less.prems(3) dl(2) mem by auto
    have "writes (3 + 3 + 3 + 9 * length (drop (nat c) data)) (data_sectors s i) s s4"
      using writes_trans [OF w] s4(2) E3(3) by simp
    moreover have "3 + 3 + 3 + 9 * length (drop (nat c) data) \<le> 9 * length data" using c(1,2) dl(2) by linarith
    ultimately have "writes (9 * length data) (data_sectors s i) s s4" by (rule writes_mono) simp
    then show ?thesis using step s4(1) dl(2) by simp
  qed
qed

text \<open>The sectors of a size, for files of direct sectors.\<close>

lemma bytes_to_sectors_le: "0 \<le> n \<Longrightarrow> n \<le> 122 * 512 \<Longrightarrow> bytes_to_sectors n \<le> 122"
proof -
  assume n: "0 \<le> n" "n \<le> 122 * 512"
  then have "(n + 511) sdiv 512 = (n + 511) div 512" by (simp add: signed_divide_int_def sgn_if)
  moreover have "(n + 511) div 512 \<le> 122" "0 \<le> (n + 511) div 512" using n by linarith+
  ultimately show ?thesis by (simp add: bytes_to_sectors_def)
qed

lemma inode_extend_direct:
  assumes "0 \<le> length_of d" "length_of d \<le> n" "n \<le> 122 * 512"
  shows "inode_extend wr d (word_of_int n) s = do {
    (ok, d, s) \<leftarrow> extend_loop wr (bytes_to_sectors n - bytes_to_sectors (length_of d)) (bytes_to_sectors (length_of d)) d s;
    if ok then Some (True, put32 d 496 (word_of_int n), s) else Some (False, d, s) }"
proof -
  have n: "0 \<le> n" "n < 2 ^ 31" using assms by auto
  note u = int_word(1) [OF n] and si = int_word(2) [OF n]
  have "\<not> (word_of_int n :: u32) < get32 d 496" using u length_of_unat [OF assms(1)] assms(2) by (simp add: word_less_def)
  moreover have "unat (word_of_int n :: u32) \<le> FS_LIMIT - 512" using u assms(3) n(1) by (simp add: FS_LIMIT_def unat_eq_nat_uint)
  ultimately show ?thesis using si by (simp add: inode_extend_def Let_def)
qed

text \<open>A file system whose free map file, open as inode \<open>q\<close>, has its full size.\<close>

definition free_map_ready :: "fs \<Rightarrow> nat \<Rightarrow> inode \<Rightarrow> bool" where
  "free_map_ready s q j \<longleftrightarrow> bitmap_wf (free_map s) \<and>
     (\<exists>f fl. free_map_file s = Some f \<and> files s f = Some fl \<and> file_inode fl = q) \<and> direct_inode s q j \<and> deny_write_cnt j = 0 \<and>
     length_of (disk_inode s j) = int (bitmap_file_size (free_map s)) \<and> unat (sector j) \<notin> data_sectors s j"

lemma ready_writes:
  assumes "writes n (data_sectors s j) s s'" "free_map_ready s q j"
  shows "free_map_ready s' q j" "data_sectors s' j = data_sectors s j"
  using assms(2) writesD(6-9) [OF assms(1)] writes_direct [OF assms(1), of q j]
  by (auto simp: free_map_ready_def bitmap_file_size_def)

lemma map_bytes_length:
  assumes "bitmap_wf b"
  shows "length (take (byte_cnt (bit_cnt b)) (bitmap_bytes b)) = byte_cnt (bit_cnt b)"
proof -
  have "size_add (bit_cnt b) 31 div 32 \<le> (bit_cnt b + 31) div 32" by (simp add: size_add_def div_le_mono)
  also have "\<dots> \<le> (32 * length (bits b) + 31) div 32" using assms by (intro div_le_mono) (simp add: bitmap_wf_def)
  also have "\<dots> = length (bits b)" by simp
  finally have "elem_cnt (bit_cnt b) \<le> length (bits b)" by (simp add: elem_cnt_def ELEM_BITS_def)
  moreover have "length (bitmap_bytes b) = 4 * length (bits b)"
    by (simp add: bitmap_bytes_def length_concat comp_def sum_list_triv)
  ultimately show ?thesis by (simp add: byte_cnt_def)
qed

lemma free_map_writer_ok:
  assumes r: "free_map_ready s q j" and m: "9 * bitmap_file_size (free_map s) + 10 \<le> memory (bc s)"
  obtains s' where "free_map_writer s = Some (True, s')" "writes (9 * bitmap_file_size (free_map s) + 10) (data_sectors s j) s s'"
proof (cases "bit_cnt (free_map s) = 0")
  case True
  moreover have "cache_wf (bc s)" using r by (simp add: free_map_ready_def direct_inode_def)
  ultimately show thesis by (intro that [of s]) (simp_all add: free_map_writer_def numeral_2_eq_2 writes_def)
next
  case False
  define n where "n = bitmap_file_size (free_map s)"
  define data where "data = take n (bitmap_bytes (free_map s))"
  have di: "direct_inode s q j" and dn: "deny_write_cnt j = 0" and own: "unat (sector j) \<notin> data_sectors s j"
    and ln: "length_of (disk_inode s j) = int n" using r by (auto simp: free_map_ready_def n_def)
  obtain f fl where f: "free_map_file s = Some f" "files s f = Some fl" "file_inode fl = q" using r by (auto simp: free_map_ready_def)
  have len: "length data = n" using map_bytes_length [of "free_map s"] r by (simp add: data_def n_def bitmap_file_size_def free_map_ready_def)
  have wf: "cache_wf (bc s)" "inodes s q = Some j" "unat (sector j) < dev_size (dev (bc s))" and le: "int n \<le> 122 * 512"
    using di ln by (auto simp: direct_inode_def)
  let ?d = "contents (bc s) (unat (sector j))"
  have d: "length_of ?d = int n" using ln by (simp add: disk_inode_def)
  have x: "to_off_t (int n) = int n" by (rule to_off_t_small) (use le in simp_all)
  obtain s1 where s1: "byte_to_sector (sector j) (int n) s = Some (- 1, s1)" "reads 3 s s1"
    by (rule byte_to_sector_end [OF wf(1,3), of "int n"]) (use m d in simp_all)
  note D1 = readsD [OF s1(2)]
  obtain s2 where s2: "read_inode (sector j) s1 = Some (contents (bc s1) (unat (sector j)), s2)" "reads 4 s1 s2"
    by (rule read_inode_ok [of s1 "sector j"]) (use D1 wf m in simp_all)
  have r2: "reads (Suc 3) s1 s2" using s2(2) by simp
  have r3: "reads (3 + 3) s (give_memory s2)" by (rule reads_trans [OF s1(2) give_reads [OF r2]])
  have ext: "inode_extend wr ?d (word_of_int (int n)) s2 = Some (True, put32 ?d 496 (word_of_int (int n)), s2)" for wr
    using inode_extend_direct [of ?d "int n"] d le by simp
  note E3 = reads_direct [OF r3 di] and W3 = reads_writes [OF r3, of "data_sectors s j"]
  have same: "data_sectors (give_memory s2) j = data_sectors s j" using writes_direct(3) [OF W3 di own] .
  obtain s4 where s4: "write_loop q data 0 0 (give_memory s2) = Some (int n, s4)" "writes (9 * n) (data_sectors s j) (give_memory s2) s4"
    using write_loop_ok [OF E3(1), of 0 data 0] E3(2) ln len own m readsD(4) [OF r3] by (auto simp: same n_def)
  have "inode_write_at wr q data 0 s = Some (int n, s4)" for wr
    using wf(2) dn s1(1) s2(1) D1(2) ext s4(1) len by (simp add: inode_write_at_def x)
  then have "free_map_writer s = Some (True, s4)"
    using False f by (simp add: free_map_writer_def numeral_2_eq_2 file_write_at_def Let_def flip: bitmap_file_size_def n_def data_def)
  moreover have "writes (9 * n + 10) (data_sectors s j) s s4"
    by (rule writes_mono [OF writes_trans [OF W3 s4(2)]]) simp_all
  ultimately show thesis by (intro that [of s4]) (simp_all add: n_def)
qed

text \<open>Allocating one sector, whether there is a free one or not.\<close>

lemma free_map_allocate_ok:
  assumes r: "free_map_ready s q j" and m: "9 * bitmap_file_size (free_map s) + 10 \<le> memory (bc s)"
  obtains x s' where "free_map_allocate free_map_writer 1 s = Some (x, s')"
    "writes (9 * bitmap_file_size (free_map s) + 10) (data_sectors s j) s s'"
proof -
  have bw: "bitmap_wf (free_map s)" and cw: "cache_wf (bc s)" using r by (auto simp: free_map_ready_def direct_inode_def)
  have zero: "0 \<le> bit_cnt (free_map s)" by simp
  show thesis
    using bw zero zero_less_one
  proof (cases rule: bitmap_scan_cases [where v = False])
    case (found k)
    have "k + 1 \<le> bit_cnt (free_map s)" using found(4) by (simp add: fits_def)
    then obtain b where b: "bitmap_set_multiple (free_map s) k 1 True = Some b" "bitmap_wf b" "bit_cnt b = bit_cnt (free_map s)"
      using bitmap_set_multiple_abs [OF bw, of k 1 True] by blast
    let ?s = "s\<lparr>free_map := b\<rparr>"
    have w: "writes 0 (data_sectors s j) s ?s" using b(2,3) cw by (simp add: writes_def)
    note R = ready_writes [OF w r]
    obtain s' where s': "free_map_writer ?s = Some (True, s')"
        "writes (9 * bitmap_file_size (free_map ?s) + 10) (data_sectors ?s j) ?s s'"
      by (rule free_map_writer_ok [OF R(1)]) (use m b(3) in \<open>simp_all add: bitmap_file_size_def\<close>)
    obtain f where "free_map_file s = Some f" using r by (auto simp: free_map_ready_def)
    then have "free_map_allocate free_map_writer 1 s = Some (Some (of_nat k), s')"
      using found(1,2) b(1) s'(1) by (simp add: free_map_allocate_def bitmap_scan_and_flip_def Let_def)
    moreover have "writes (9 * bitmap_file_size (free_map s) + 10) (data_sectors s j) s s'"
      using writes_trans [OF w, of _ s'] s'(2) R(2) b(3) by (simp add: bitmap_file_size_def)
    ultimately show thesis by (rule that)
  next
    case none
    then have "free_map_allocate free_map_writer 1 s = Some (None, s)"
      by (simp add: free_map_allocate_def bitmap_scan_and_flip_def)
    then show thesis by (rule that) (use cw in \<open>simp add: writes_def\<close>)
  qed
qed

lemma extend_loop_ok:
  assumes "free_map_ready s q j" and "k + n \<le> 122" and "n * (9 * bitmap_file_size (free_map s) + 10) \<le> memory (bc s)"
  shows "\<exists>ok d' s'. extend_loop free_map_writer n k d s = Some (ok, d', s') \<and>
    writes (n * (9 * bitmap_file_size (free_map s) + 10)) (data_sectors s j) s s'"
  using assms
proof (induction n arbitrary: k d s)
  case 0
  then have "writes 0 (data_sectors s j) s s" by (simp add: writes_def free_map_ready_def direct_inode_def)
  then show ?case by (intro exI [of _ True]) simp
next
  case (Suc n)
  let ?u = "9 * bitmap_file_size (free_map s) + 10"
  obtain x s1 where s1: "free_map_allocate free_map_writer 1 s = Some (x, s1)" "writes ?u (data_sectors s j) s s1"
    by (rule free_map_allocate_ok [OF Suc.prems(1)]) (use Suc.prems(3) in simp_all)
  have "determine_level k = DIRECT" using Suc.prems(2) by (simp add: determine_level_def DIRECT_SIZE_def)
  then have one: "extend_one free_map_writer k d s =
      (case x of None \<Rightarrow> Some (False, d, s1) | Some p \<Rightarrow> Some (True, put32 d (4 * k) p, s1))"
    using s1(1) by (simp add: extend_one_def)
  show ?case
  proof (cases x)
    case None
    then show ?thesis using one writes_mono [OF s1(2), of "Suc n * ?u"] by (intro exI [of _ False]) simp
  next
    case (Some y)
    note R = ready_writes [OF s1(2) Suc.prems(1)]
    have u: "bitmap_file_size (free_map s1) = bitmap_file_size (free_map s)"
      using writesD(9) [OF s1(2)] by (simp add: bitmap_file_size_def)
    have "n * ?u \<le> memory (bc s1)" using writesD(4) [OF s1(2)] Suc.prems(3) by simp
    then obtain ok d' s' where "extend_loop free_map_writer n (k + 1) (put32 d (4 * k) y) s1 = Some (ok, d', s')"
        "writes (n * ?u) (data_sectors s j) s1 s'"
      using Suc.IH [OF R(1), of "k + 1" "put32 d (4 * k) y"] Suc.prems(2) R(2) u by auto
    then show ?thesis using one Some writes_trans [OF s1(2)] by auto
  qed
qed

section \<open>Properties\<close>

text \<open>C16. Reading from a file whose data lie in direct sectors is all or nothing: if the whole
  range lies in the file, exactly its bytes are returned; if it reaches beyond the end, none are,
  although the comment promises the bytes up to the end.  No sector changes.  The range must end at
  or below \<open>2 ^ 31\<close>, the first offset that does not fit \<open>off_t\<close>; the end of a range behind it is taken for
  a negative position, which passes the test for the end of the file.\<close>

theorem inode_read_at_all_or_nothing:
  assumes "direct_inode s p i" and "0 \<le> offset" and "0 < size'" and "offset + size' \<le> 2 ^ 31" and "9 * nat size' + 4 \<le> memory (bc s)"
  shows "\<exists>s'. inode_read_at p size' offset s =
      Some (if offset + size' \<le> length_of (disk_inode s i) then map (file_byte s i) [nat offset..<nat (offset + size')] else [], s') \<and>
    cache_wf (bc s') \<and> contents (bc s') = contents (bc s)"
  using inode_read_at_ok [OF assms] readsD(1,2) by blast

text \<open>A disk with an empty file in sector 2 apart from its length of 10 bytes, all in sector 0.\<close>

definition sample_file_disk :: block where
  "sample_file_disk = \<lparr>dev_type = BLOCK_FILESYS, dev_size = 16,
     sectors = (\<lambda>t. if t = 2 then put32 (replicate 512 0) 496 10 else replicate 512 7), read_cnt = 0, write_cnt = 0\<rparr>"

definition sample_fs :: "cache \<Rightarrow> fs" where
  "sample_fs c = \<lparr>bc = c, free_map = \<lparr>bit_cnt = 0, bits = []\<rparr>, free_map_file = None,
     inodes = [5 \<mapsto> \<lparr>sector = 2, open_cnt = 1, removed = False, deny_write_cnt = 0\<rparr>], open_inodes = [5],
     files = (\<lambda>_. None), next_obj = 6\<rparr>"

lemma put32_other: "off + 4 \<le> 496 \<Longrightarrow> get32 (put32 (replicate 512 0) 496 v) off = 0"
proof -
  assume off: "off + 4 \<le> 496"
  have "take 4 (drop off (put32 (replicate 512 0) 496 v)) = replicate 4 0"
    using off by (simp add: put32_def overlay_def min_def)
  moreover have "foldr (\<lambda>b acc. ucast (b :: u8) + push_bit 8 acc) (replicate 4 0) (0 :: u32) = 0" by code_simp
  ultimately show ?thesis by (simp only: get32_def)
qed

lemma sample_length: "length_of (put32 (replicate 512 0) 496 10) = 10"
proof -
  have v: "map (\<lambda>i. ucast (drop_bit (8 * i) (10 :: u32)) :: u8) [0, 1, 2, 3] = [10, 0, 0, 0]" by code_simp
  have "take 4 (drop 496 (put32 (replicate 512 0) 496 10)) = [10, 0, 0, 0]"
    unfolding put32_def v by (simp add: overlay_def)
  moreover have "foldr (\<lambda>b acc. ucast (b :: u8) + push_bit 8 acc) [10, 0, 0, 0] (0 :: u32) = 10" by code_simp
  ultimately have "get32 (put32 (replicate 512 0) 496 10) 496 = 10" by (simp only: get32_def)
  then show ?thesis by (simp add: length_of_def)
qed

lemma sample_fs_ok:
  obtains c i where "buffer_cache_init (replicate (64 * 512) 0) [0, 0] 100 sample_file_disk = Some c" "direct_inode (sample_fs c) 5 i"
    "length_of (disk_inode (sample_fs c) i) = 10" "memory (bc (sample_fs c)) = 100" "file_byte (sample_fs c) i 3 = 7"
    "deny_write_cnt i = 0" "\<not> is_dir (disk_inode (sample_fs c) i)"
proof -
  have len: "length (put32 (replicate 512 0) 496 10) = 512" by (simp add: put32_def)
  have nd: "put32 (replicate 512 0) 496 10 ! 500 = 0" by (simp add: put32_def nth_overlay)
  obtain c where c: "buffer_cache_init (replicate (64 * 512) 0) [0, 0] 100 sample_file_disk = Some c" "cache_wf c"
      "contents c = sectors sample_file_disk" "memory c = 100" "dev c = sample_file_disk"
    by (rule buffer_cache_init_ok [of "replicate (64 * 512) 0" "[0, 0]" sample_file_disk 100]) (simp_all add: sample_file_disk_def len)
  let ?i = "\<lparr>sector = 2, open_cnt = 1, removed = False, deny_write_cnt = 0\<rparr>"
  have d: "disk_inode (sample_fs c) ?i = put32 (replicate 512 0) 496 10"
    using c(3) by (simp add: disk_inode_def sample_fs_def sample_file_disk_def)
  have dir: "direct (put32 (replicate 512 0) 496 10) k = 0" if "k < 122" for k
    using that by (simp add: direct_def put32_other)
  show thesis
  proof (rule that [of c ?i])
    show "direct_inode (sample_fs c) 5 ?i"
      using c d dir by (simp add: direct_inode_def sample_length) (simp add: sample_fs_def sample_file_disk_def)
    show "file_byte (sample_fs c) ?i 3 = 7"
      using c d dir [of 0] by (simp add: file_byte_def) (simp add: sample_fs_def sample_file_disk_def)
    show "\<not> is_dir (disk_inode (sample_fs c) ?i)" by (simp only: d is_dir_def nd)
  qed (use c d sample_length in \<open>simp_all add: sample_fs_def\<close>)
qed

theorem inode_read_at_all_or_nothing_witness:
  "\<exists>c s1 s2. buffer_cache_init (replicate (64 * 512) 0) [0, 0] 100 sample_file_disk = Some c \<and>
     inode_read_at 5 1 3 (sample_fs c) = Some ([7], s1) \<and> inode_read_at 5 2 9 (sample_fs c) = Some ([], s2)"
proof -
  obtain c i where c: "buffer_cache_init (replicate (64 * 512) 0) [0, 0] 100 sample_file_disk = Some c" "direct_inode (sample_fs c) 5 i"
    "length_of (disk_inode (sample_fs c) i) = 10" "memory (bc (sample_fs c)) = 100" "file_byte (sample_fs c) i 3 = 7"
    by (rule sample_fs_ok)
  show ?thesis
    using inode_read_at_all_or_nothing [OF c(2), of 3 1] inode_read_at_all_or_nothing [OF c(2), of 9 2] c by auto
qed

text \<open>C22. A file does not grow: a write that starts at or behind the end of a file and ends within the
  direct sectors writes nothing and returns 0, whether it needs new sectors or not and whether there
  are free ones or not.  \<open>inode_write_at\<close> extends a copy of the on-disk inode, which it frees without
  writing it back, and the loop then finds no byte left in the file: the inode on disk is as before,
  and only sectors of the free map file change, which records the sectors that were allocated.\<close>

theorem inode_write_at_no_growth:
  assumes "direct_inode s p i" and "deny_write_cnt i = 0" and "data \<noteq> []" and "length_of (disk_inode s i) \<le> offset"
    and "offset + int (length data) \<le> 122 * 512" and "free_map_ready s q j" and "unat (sector i) \<notin> data_sectors s j"
    and "122 * (9 * bitmap_file_size (free_map s) + 10) + 20 \<le> memory (bc s)"
  shows "\<exists>s'. inode_write_at free_map_writer p data offset s = Some (0, s') \<and> disk_inode s' i = disk_inode s i \<and>
    (\<forall>t. t \<notin> data_sectors s j \<longrightarrow> contents (bc s') t = contents (bc s) t)"
proof -
  have wf: "cache_wf (bc s)" "inodes s p = Some i" "unat (sector i) < dev_size (dev (bc s))" "0 \<le> length_of (disk_inode s i)"
    using assms(1) by (auto simp: direct_inode_def)
  let ?n = "offset + int (length data)" and ?d = "disk_inode s i" and ?S = "data_sectors s j"
  let ?u = "9 * bitmap_file_size (free_map s) + 10"
  have n: "0 \<le> ?n" "length_of ?d \<le> ?n" "to_off_t ?n = ?n"
    using wf(4) assms(4,5) by (auto intro!: to_off_t_small)
  have d: "contents (bc s) (unat (sector i)) = ?d" by (simp add: disk_inode_def)
  obtain s1 where s1: "byte_to_sector (sector i) ?n s = Some (- 1, s1)" "reads 3 s s1"
    by (rule byte_to_sector_end [OF wf(1,3), of ?n]) (use assms(8) n d in simp_all)
  note D1 = readsD [OF s1(2)]
  obtain s2 where s2: "read_inode (sector i) s1 = Some (contents (bc s1) (unat (sector i)), s2)" "reads 4 s1 s2"
    by (rule read_inode_ok [of s1 "sector i"]) (use D1 wf assms(8) in simp_all)
  have w2: "writes (3 + 4) ?S s s2" by (rule reads_writes [OF reads_trans [OF s1(2) s2(2)]])
  note R2 = ready_writes [OF w2 assms(6)]
  have u: "bitmap_file_size (free_map s2) = bitmap_file_size (free_map s)" using writesD(9) [OF w2] by (simp add: bitmap_file_size_def)
  define cnt where "cnt = bytes_to_sectors ?n - bytes_to_sectors (length_of ?d)"
  have cnt: "bytes_to_sectors (length_of ?d) + cnt \<le> 122" "cnt \<le> 122"
    using bytes_to_sectors_le [OF n(1) assms(5)] bytes_to_sectors_le [OF wf(4)] assms(4,5) unfolding cnt_def by auto
  have le: "cnt * ?u \<le> 122 * ?u" by (rule mult_le_mono1 [OF cnt(2)])
  obtain ok d' s3 where s3: "extend_loop free_map_writer cnt (bytes_to_sectors (length_of ?d)) ?d s2 = Some (ok, d', s3)"
      "writes (cnt * ?u) ?S s2 s3"
    using extend_loop_ok [OF R2(1) cnt(1), of ?d] u R2(2) writesD(4) [OF w2] assms(8) le by auto
  obtain d2 where ext: "inode_extend free_map_writer ?d (word_of_int ?n) s2 = Some (ok, d2, s3)"
    using inode_extend_direct [OF wf(4) n(2) assms(5)] s3(1) by (cases ok) (auto simp: cnt_def)
  have w3: "writes (3 + 4 + cnt * ?u) ?S s (give_memory s3)" by (rule give_writes [OF writes_trans [OF w2 s3(2)]])
  note D3 = writesD [OF w3] and E3 = writes_direct [OF w3 assms(1,7)]
  have mem: "13 \<le> memory (bc (give_memory s3))" using D3(4) assms(8) le by linarith
  have run: "inode_write_at free_map_writer p data offset s =
      (if ok then write_loop p data offset 0 (give_memory s3) else Some (0, give_memory s3))"
    using wf(2) assms(2) s1(1) s2(1) D1(2) ext n(3) d by (simp add: inode_write_at_def)
  obtain s4 where s4: "byte_to_sector (sector i) offset (give_memory s3) = Some (- 1, s4)" "reads 3 (give_memory s3) s4"
    by (rule byte_to_sector_end [of "give_memory s3" "sector i" offset])
      (use D3 E3(2) wf assms(4) mem in \<open>simp_all add: disk_inode_def\<close>)
  note D4 = readsD [OF s4(2)] and E4 = reads_direct [OF s4(2) E3(1)]
  obtain s5 where s5: "inode_length p s4 = Some (length_of (contents (bc s4) (unat (sector i))), s5)" "reads 3 s4 s5"
    by (rule inode_length_ok [of s4 p i]) (use D3 D4 wf mem in simp_all)
  note E5 = reads_direct [OF s5(2) E4(1)]
  have l4: "length_of (contents (bc s4) (unat (sector i))) = length_of ?d" using E3(2) E4(2) by (simp add: disk_inode_def)
  have "chunk (int (length data)) offset (length_of ?d) \<le> 0" using assms(4) by (simp add: chunk_def Let_def)
  then have loop: "write_loop p data offset 0 (give_memory s3) = Some (0, s5)"
    using assms(3) s4(1) s5(1) D3(5) l4 wf(2) by (subst write_loop.simps) (simp add: Let_def)
  have "contents (bc s5) t = contents (bc s) t" "contents (bc (give_memory s3)) t = contents (bc s) t" if "t \<notin> ?S" for t
    using that D3(2) D4(2) readsD(2) [OF s5(2)] by simp_all
  then show ?thesis using run loop E3(2) E4(2) E5(2) by (cases ok) auto
qed

text \<open>A disk as before with a free map file of 4 bytes in sector 3, whose data are in sector 0.\<close>

definition sample_map_disk :: block where
  "sample_map_disk = sample_file_disk\<lparr>sectors := (sectors sample_file_disk)(3 := put32 (replicate 512 0) 496 4)\<rparr>"

definition sample_map_fs :: "cache \<Rightarrow> fs" where
  "sample_map_fs c = (sample_fs c)\<lparr>free_map := \<lparr>bit_cnt = 16, bits = [0]\<rparr>, free_map_file := Some 9,
     inodes := [5 \<mapsto> \<lparr>sector = 2, open_cnt = 1, removed = False, deny_write_cnt = 0\<rparr>,
                6 \<mapsto> \<lparr>sector = 3, open_cnt = 1, removed = False, deny_write_cnt = 0\<rparr>],
     files := [9 \<mapsto> \<lparr>file_inode = 6, pos = 0, deny_write = False\<rparr>]\<rparr>"

lemma sample_map_length: "length_of (put32 (replicate 512 0) 496 4) = 4"
proof -
  have v: "map (\<lambda>i. ucast (drop_bit (8 * i) (4 :: u32)) :: u8) [0, 1, 2, 3] = [4, 0, 0, 0]" by code_simp
  have "take 4 (drop 496 (put32 (replicate 512 0) 496 4)) = [4, 0, 0, 0]"
    unfolding put32_def v by (simp add: overlay_def)
  moreover have "foldr (\<lambda>b acc. ucast (b :: u8) + push_bit 8 acc) [4, 0, 0, 0] (0 :: u32) = 4" by code_simp
  ultimately have "get32 (put32 (replicate 512 0) 496 4) 496 = 4" by (simp only: get32_def)
  then show ?thesis by (simp add: length_of_def)
qed

lemma sample_map_ok:
  obtains c i j where "buffer_cache_init (replicate (64 * 512) 0) [0, 0] 10000 sample_map_disk = Some c"
    "direct_inode (sample_map_fs c) 5 i" "deny_write_cnt i = 0" "length_of (disk_inode (sample_map_fs c) i) = 10"
    "free_map_ready (sample_map_fs c) 6 j" "unat (sector i) \<notin> data_sectors (sample_map_fs c) j"
    "memory (bc (sample_map_fs c)) = 10000" "bitmap_file_size (free_map (sample_map_fs c)) = 4"
proof -
  have len: "length (put32 (replicate 512 0) 496 v) = 512" for v by (simp add: put32_def)
  obtain c where c: "buffer_cache_init (replicate (64 * 512) 0) [0, 0] 10000 sample_map_disk = Some c" "cache_wf c"
      "contents c = sectors sample_map_disk" "memory c = 10000" "dev c = sample_map_disk"
    by (rule buffer_cache_init_ok [of "replicate (64 * 512) 0" "[0, 0]" sample_map_disk 10000])
      (simp_all add: sample_map_disk_def sample_file_disk_def len)
  let ?s = "sample_map_fs c"
  define i j where "i = \<lparr>sector = 2, open_cnt = 1, removed = False, deny_write_cnt = 0\<rparr>"
    and "j = \<lparr>sector = 3, open_cnt = 1, removed = False, deny_write_cnt = 0\<rparr>"
  have bc: "bc ?s = c" by (simp add: sample_map_fs_def sample_fs_def)
  have di: "disk_inode ?s i = put32 (replicate 512 0) 496 10" and dj: "disk_inode ?s j = put32 (replicate 512 0) 496 4"
    using c(3) by (simp_all add: disk_inode_def bc i_def j_def sample_map_disk_def sample_file_disk_def)
  have dir: "direct (put32 (replicate 512 0) 496 v) k = 0" if "k < 122" for k v
    using that by (simp add: direct_def put32_other)
  have dev: "dev_size (dev c) = 16" using c(5) by (simp add: sample_map_disk_def sample_file_disk_def)
  have "{k. int (512 * k) < 4} = {0}" by auto
  then have ds: "data_sectors ?s j = {0}"
    using dir [of 0] by (auto simp: data_sectors_def dj sample_map_length setcompr_eq_image simp del: of_nat_mult)
  have dirs: "direct_inode ?s 5 i" "direct_inode ?s 6 j"
    using c(2) dir by (simp_all add: direct_inode_def di dj sample_length sample_map_length bc dev)
      (simp_all add: sample_map_fs_def i_def j_def)
  have size: "bitmap_file_size (free_map ?s) = 4"
    by (simp add: sample_map_fs_def bitmap_file_size_def byte_cnt_def elem_cnt_def size_add_def ELEM_BITS_def)
  have "free_map_ready ?s 6 j"
    unfolding free_map_ready_def size ds dj sample_map_length
    using dirs(2) by (simp add: sample_map_fs_def j_def bitmap_wf_def)
  then show thesis
    by (intro that [of c i j] c(1) dirs(1)) (use c(4) size ds di sample_length in \<open>simp_all add: i_def bc\<close>)
qed

theorem inode_write_at_no_growth_witness:
  "\<exists>c s'. buffer_cache_init (replicate (64 * 512) 0) [0, 0] 10000 sample_map_disk = Some c \<and>
     inode_write_at free_map_writer 5 (replicate 600 1) 10 (sample_map_fs c) = Some (0, s')"
proof -
  obtain c i j where c: "buffer_cache_init (replicate (64 * 512) 0) [0, 0] 10000 sample_map_disk = Some c"
    "direct_inode (sample_map_fs c) 5 i" "deny_write_cnt i = 0" "length_of (disk_inode (sample_map_fs c) i) = 10"
    "free_map_ready (sample_map_fs c) 6 j" "unat (sector i) \<notin> data_sectors (sample_map_fs c) j"
    "memory (bc (sample_map_fs c)) = 10000" "bitmap_file_size (free_map (sample_map_fs c)) = 4"
    by (rule sample_map_ok)
  show ?thesis
    using inode_write_at_no_growth [OF c(2,3) _ _ _ c(5,6), of "replicate 600 1" 10] c(1,4,7,8) by auto
qed

end
