(* ===== verification/Pintos_Directory.thy ===== *)
theory Pintos_Directory
  imports Pintos_Inode
begin

text \<open>
  Directories and paths (\<open>filesys/directory.c\<close>, \<open>filesys/filesys.c\<close>).  A directory entry is its 20 bytes;
  names are strings without their terminator.  An open directory is a value that is passed on, as
  no two pointers to one are used at a time.  \<open>junk\<close> is what a local variable holds before it is
  set.  A loop that reads entries is a partial function.
\<close>

unbundle bit_operations_syntax

section \<open>Directory entries\<close>

definition NAME_MAX :: nat where
  "NAME_MAX = 14"

record dir =
  dir_inode :: nat
  dir_pos :: int

type_synonym dir_entry = "u8 list"

definition ENTRY_SIZE :: int where
  "ENTRY_SIZE = 20"

definition inode_sector :: "dir_entry \<Rightarrow> u32" where
  "inode_sector e = get32 e 0"

definition entry_name :: "dir_entry \<Rightarrow> u8 list" where
  "entry_name e = takeWhile (\<lambda>b. b \<noteq> 0) (drop 4 e)"

definition in_use :: "dir_entry \<Rightarrow> bool" where
  "in_use e = (e ! 19 \<noteq> 0)"

definition read_entry :: "nat \<Rightarrow> int \<Rightarrow> dir_entry \<Rightarrow> fs \<Rightarrow> (bool \<times> dir_entry \<times> fs) option" where
  "read_entry p ofs e s = do {
     (bs, s) \<leftarrow> inode_read_at p ENTRY_SIZE ofs s;
     Some (int (length bs) = ENTRY_SIZE, overlay e 0 bs, s)
   }"

section \<open>Directories\<close>

definition dir_open :: "writer \<Rightarrow> nat option \<Rightarrow> fs \<Rightarrow> (dir option \<times> fs) option" where
  "dir_open wr p s =
     (case p of
        Some i \<Rightarrow>
          if memory (bc s) = 0 then do { s \<leftarrow> inode_close wr p s; Some (None, s) }
          else do { s \<leftarrow> take_memory s; Some (Some \<lparr>dir_inode = i, dir_pos = 0\<rparr>, s) }
      | None \<Rightarrow> Some (None, s))"

definition dir_open_root :: "writer \<Rightarrow> fs \<Rightarrow> (dir option \<times> fs) option" where
  "dir_open_root wr s = do {
     (p, s) \<leftarrow> inode_open ROOT_DIR_SECTOR s;
     dir_open wr p s
   }"

definition dir_reopen :: "writer \<Rightarrow> dir \<Rightarrow> fs \<Rightarrow> (dir option \<times> fs) option" where
  "dir_reopen wr d s = do {
     (p, s) \<leftarrow> inode_reopen (Some (dir_inode d)) s;
     dir_open wr p s
   }"

definition dir_close :: "writer \<Rightarrow> dir option \<Rightarrow> fs \<Rightarrow> fs option" where
  "dir_close wr d s =
     (case d of None \<Rightarrow> Some s
      | Some d \<Rightarrow> do { s \<leftarrow> inode_close wr (Some (dir_inode d)) s; Some (give_memory s) })"

partial_function (option) lookup_loop ::
  "nat \<Rightarrow> u8 list \<Rightarrow> int \<Rightarrow> dir_entry \<Rightarrow> fs \<Rightarrow> ((dir_entry \<times> int) option \<times> fs) option" where
  "lookup_loop p name ofs e s = do {
     (ok, e, s) \<leftarrow> read_entry p ofs e s;
     if ok
     then if in_use e \<and> name = entry_name e then Some (Some (e, ofs), s)
          else lookup_loop p name (ofs + ENTRY_SIZE) e s
     else Some (None, s)
   }"

definition lookup :: "dir_entry \<Rightarrow> dir \<Rightarrow> u8 list \<Rightarrow> fs \<Rightarrow> ((dir_entry \<times> int) option \<times> fs) option" where
  "lookup junk d name s = lookup_loop (dir_inode d) name 0 junk s"

definition dir_lookup :: "dir_entry \<Rightarrow> dir option \<Rightarrow> u8 list \<Rightarrow> fs \<Rightarrow> (nat option \<times> fs) option" where
  "dir_lookup junk d name s = do {
     d \<leftarrow> d;
     (r, s) \<leftarrow> lookup junk d name s;
     case r of Some (e, ofs) \<Rightarrow> inode_open (inode_sector e) s | None \<Rightarrow> Some (None, s)
   }"

partial_function (option) free_slot :: "nat \<Rightarrow> int \<Rightarrow> dir_entry \<Rightarrow> fs \<Rightarrow> (int \<times> dir_entry \<times> fs) option" where
  "free_slot p ofs e s = do {
     (ok, e, s) \<leftarrow> read_entry p ofs e s;
     if ok then if \<not> in_use e then Some (ofs, e, s) else free_slot p (ofs + ENTRY_SIZE) e s
     else Some (ofs, e, s)
   }"

definition dir_add :: "writer \<Rightarrow> dir_entry \<Rightarrow> dir option \<Rightarrow> u8 list \<Rightarrow> u32 \<Rightarrow> fs \<Rightarrow> (bool \<times> fs) option" where
  "dir_add wr junk d name sec s = do {
     d \<leftarrow> d;
     if name = [] \<or> NAME_MAX < length name then Some (False, s)
     else do {
       (r, s) \<leftarrow> lookup junk d name s;
       if r \<noteq> None then Some (False, s)
       else do {
         (ofs, e, s) \<leftarrow> free_slot (dir_inode d) 0 junk s;
         let e = put32 (overlay (e[19 := 1]) 4 (name @ [0])) 0 sec;
         (n, s) \<leftarrow> inode_write_at wr (dir_inode d) e ofs s;
         Some (n = ENTRY_SIZE, s)
       }
     }
   }"

definition dir_remove :: "writer \<Rightarrow> dir_entry \<Rightarrow> dir option \<Rightarrow> u8 list \<Rightarrow> fs \<Rightarrow> (bool \<times> fs) option" where
  "dir_remove wr junk d name s = do {
     d \<leftarrow> d;
     (r, s) \<leftarrow> lookup junk d name s;
     case r of
       None \<Rightarrow> Some (False, s)
     | Some (e, ofs) \<Rightarrow> do {
         (p, s) \<leftarrow> inode_open (inode_sector e) s;
         case p of
           None \<Rightarrow> Some (False, s)
         | Some q \<Rightarrow> do {
             (n, s) \<leftarrow> inode_write_at wr (dir_inode d) (e[19 := 0]) ofs s;
             (ok, s) \<leftarrow> (if n \<noteq> ENTRY_SIZE then Some (False, s)
                        else do { s \<leftarrow> inode_remove q s; Some (True, s) });
             s \<leftarrow> inode_close wr p s;
             Some (ok, s)
           }
       }
   }"

text \<open>One round of the loop of \<open>dir_readdir\<close>: its result, or the state of the next round.  \<open>strcmp\<close>
  returns 0 exactly for equal strings, so the test is a disjunction of inequalities.\<close>

type_synonym readdir_state = "dir \<times> dir_entry \<times> fs"

fun readdir_round :: "readdir_state \<Rightarrow> ((u8 list option \<times> dir \<times> fs) + readdir_state) option" where
  "readdir_round (d, e, s) = do {
     (ok, e, s) \<leftarrow> read_entry (dir_inode d) (dir_pos d) e s;
     if ok
     then if entry_name e \<noteq> [46] \<or> entry_name e \<noteq> [46, 46] then Some (Inr (d, e, s))
          else if in_use e then Some (Inl (Some (entry_name e), d\<lparr>dir_pos := 0\<rparr>, s))
          else Some (Inr (d\<lparr>dir_pos := dir_pos d + ENTRY_SIZE\<rparr>, e, s))
     else Some (Inl (None, d\<lparr>dir_pos := 0\<rparr>, s))
   }"

partial_function (option) readdir_loop :: "readdir_state \<Rightarrow> (u8 list option \<times> dir \<times> fs) option" where
  "readdir_loop st = do {
     r \<leftarrow> readdir_round st;
     case r of Inl x \<Rightarrow> Some x | Inr st \<Rightarrow> readdir_loop st
   }"

definition dir_readdir :: "dir \<Rightarrow> dir_entry \<Rightarrow> fs \<Rightarrow> (u8 list option \<times> dir \<times> fs) option" where
  "dir_readdir d junk s = readdir_loop (d, junk, s)"

definition dir_create :: "writer \<Rightarrow> dir_entry \<Rightarrow> u32 \<Rightarrow> nat \<Rightarrow> u32 \<Rightarrow> fs \<Rightarrow> (bool \<times> fs) option" where
  "dir_create wr junk sec entry_cnt parent s = do {
     (ok, s) \<leftarrow> inode_create wr sec (int entry_cnt * ENTRY_SIZE) s;
     if ok
     then do {
       (p, s) \<leftarrow> inode_open sec s;
       ASSERT (p \<noteq> None);
       (d, s) \<leftarrow> dir_open wr p s;
       ASSERT (d \<noteq> None);
       (a, s) \<leftarrow> dir_add wr junk d [46, 46] parent s;
       ASSERT a;
       (b, s) \<leftarrow> dir_add wr junk d [46] sec s;
       ASSERT b;
       s \<leftarrow> dir_close wr d s;
       Some (True, s)
     }
     else Some (False, s)
   }"

section \<open>Paths\<close>

datatype part = Part "u8 list" | End_of_path | Too_long

text \<open>The next part of a path and where to continue, as \<open>*srcp\<close>.\<close>

definition get_next_part :: "u8 list \<Rightarrow> part \<times> u8 list" where
  "get_next_part path =
     (let src = dropWhile (\<lambda>b. b = 47) path
      in if src = [] then (End_of_path, path)
         else let p = takeWhile (\<lambda>b. b \<noteq> 47) src
              in if NAME_MAX < length p then (Too_long, path)
                 else (Part p, dropWhile (\<lambda>b. b \<noteq> 47) src))"

lemma get_next_part_shorter: "get_next_part path = (Part p, rest) \<Longrightarrow> length rest < length path"
proof -
  assume a: "get_next_part path = (Part p, rest)"
  let ?src = "dropWhile (\<lambda>b. b = 47) path"
  have ne: "?src \<noteq> []" and r: "rest = dropWhile (\<lambda>b. b \<noteq> 47) ?src"
    using a by (auto simp: get_next_part_def Let_def split: if_splits)
  have "hd ?src \<noteq> 47" using hd_dropWhile [OF ne] by simp
  then have "length rest < length ?src"
    using ne r length_dropWhile_le [of _ "tl ?src"] by (cases ?src) (auto simp: less_Suc_eq_le)
  then show ?thesis using length_dropWhile_le [of "\<lambda>b. b = 47" path] by linarith
qed

text \<open>The loop of \<open>parse_path\<close>: the two inodes, the last part read and the rest of the path.\<close>

function path_loop ::
  "writer \<Rightarrow> dir_entry \<Rightarrow> nat option \<Rightarrow> nat option \<Rightarrow> u8 list \<Rightarrow> u8 list \<Rightarrow> fs \<Rightarrow>
     (nat option \<times> nat option \<times> u8 list \<times> u8 list \<times> fs) option" where
  "path_loop wr junk cur nxt name path s =
     (case get_next_part path of
        (Part p, rest) \<Rightarrow> do {
          (d, s) \<leftarrow> dir_open wr cur s;
          (nxt, s) \<leftarrow> dir_lookup junk d p s;
          case nxt of
            None \<Rightarrow> Some (cur, nxt, p, rest, s)
          | Some q \<Rightarrow> do {
              (isdir, s) \<leftarrow> inode_isdir q s;
              if \<not> isdir then Some (cur, nxt, p, rest, s)
              else do {
                s \<leftarrow> dir_close wr d s;
                path_loop wr junk nxt nxt p rest s
              }
            }
        }
      | _ \<Rightarrow> Some (cur, nxt, name, path, s))"
  by pat_completeness auto
termination
  by (relation "measure (\<lambda>(wr, junk, cur, nxt, name, path, s). length path)") (auto dest: get_next_part_shorter [OF sym])

definition parse_path :: "writer \<Rightarrow> dir_entry \<Rightarrow> u32 \<Rightarrow> u8 list \<Rightarrow> fs \<Rightarrow> ((dir \<times> u8 list) option \<times> fs) option" where
  "parse_path wr junk cwd path s = do {
     s \<leftarrow> take_memory s;
     if path = [] then Some (None, s)
     else do {
       (cur, s) \<leftarrow> inode_open (if hd path = 47 then ROOT_DIR_SECTOR else cwd) s;
       (cur, nxt, name, rest, s) \<leftarrow> path_loop wr junk cur cur [] path s;
       if fst (get_next_part rest) \<noteq> End_of_path then Some (None, s)
       else do {
         (name, s) \<leftarrow> (if cur = nxt then Some ([46], s)
                       else do { s \<leftarrow> inode_close wr nxt s; Some (name, s) });
         (d, s) \<leftarrow> dir_open wr cur s;
         Some (case d of None \<Rightarrow> None | Some d \<Rightarrow> Some (d, name), s)
       }
     }
   }"

section \<open>The file system\<close>

definition filesys_create :: "writer \<Rightarrow> dir_entry \<Rightarrow> u32 \<Rightarrow> u8 list \<Rightarrow> int \<Rightarrow> fs \<Rightarrow> (bool \<times> fs) option" where
  "filesys_create wr junk cwd name initial_size s = do {
     (r, s) \<leftarrow> parse_path wr junk cwd name s;
     case r of
       None \<Rightarrow> Some (False, s)
     | Some (d, basename) \<Rightarrow> do {
         (sec, s) \<leftarrow> free_map_allocate wr 1 s;
         (ok, s) \<leftarrow> (case sec of
            None \<Rightarrow> Some (False, s)
          | Some sec \<Rightarrow> do {
              (a, s) \<leftarrow> inode_create wr sec initial_size s;
              if a then dir_add wr junk (Some d) basename sec s else Some (False, s)
            });
         s \<leftarrow> (case sec of
            Some sec \<Rightarrow> if \<not> ok \<and> sec \<noteq> 0 then free_map_release wr sec 1 s else Some s
          | None \<Rightarrow> Some s);
         s \<leftarrow> dir_close wr (Some d) s;
         Some (ok, s)
       }
   }"

definition filesys_open :: "writer \<Rightarrow> dir_entry \<Rightarrow> u32 \<Rightarrow> u8 list \<Rightarrow> fs \<Rightarrow> (nat option \<times> fs) option" where
  "filesys_open wr junk cwd name s = do {
     (r, s) \<leftarrow> parse_path wr junk cwd name s;
     case r of
       None \<Rightarrow> Some (None, s)
     | Some (d, basename) \<Rightarrow> do {
         (p, s) \<leftarrow> dir_lookup junk (Some d) basename s;
         s \<leftarrow> dir_close wr (Some d) s;
         file_open wr p s
       }
   }"

text \<open>\<open>uninit\<close> is the value of the variable \<open>success\<close> when its own initialiser reads it.\<close>

definition filesys_remove ::
  "writer \<Rightarrow> dir_entry \<Rightarrow> (u32 \<Rightarrow> bool) \<Rightarrow> bool \<Rightarrow> u32 \<Rightarrow> u8 list \<Rightarrow> fs \<Rightarrow> (bool \<times> fs) option" where
  "filesys_remove wr junk cwd_in_use uninit cwd name s = do {
     (r, s) \<leftarrow> parse_path wr junk cwd name s;
     case r of
       None \<Rightarrow> Some (False, s)
     | Some (d, basename) \<Rightarrow> do {
         (p, s) \<leftarrow> dir_lookup junk (Some d) basename s;
         case p of
           None \<Rightarrow> do { s \<leftarrow> dir_close wr (Some d) s; Some (False, s) }
         | Some q \<Rightarrow> do {
             (isdir, s) \<leftarrow> inode_isdir q s;
             (stop, s) \<leftarrow>
               (if isdir
                then do {
                  (nd, s) \<leftarrow> dir_open wr p s;
                  n \<leftarrow> nd;
                  (tmp, n, s) \<leftarrow> dir_readdir n junk s;
                  dep \<leftarrow> (if tmp = None then inode_isdepend cwd_in_use q s else Some True);
                  s \<leftarrow> dir_close wr (Some n) s;
                  Some (dep, s)
                }
                else Some (False, s));
             if stop then do { s \<leftarrow> dir_close wr (Some d) s; Some (False, s) }
             else do {
               (ok, s) \<leftarrow> dir_remove wr junk (Some d) basename s;
               s \<leftarrow> dir_close wr (Some d) s;
               Some (ok \<and> uninit, s)
             }
           }
       }
   }"

definition do_format :: "dir_entry \<Rightarrow> fs \<Rightarrow> fs option" where
  "do_format junk s = do {
     s \<leftarrow> free_map_create s;
     (ok, s) \<leftarrow> dir_create free_map_writer junk ROOT_DIR_SECTOR 16 ROOT_DIR_SECTOR s;
     ASSERT ok;
     free_map_close s
   }"

definition bitmap_read :: "nat \<Rightarrow> fs \<Rightarrow> (bool \<times> fs) option" where
  "bitmap_read f s =
     (let b = free_map s
      in if bit_cnt b = 0 then Some (True, s)
         else do {
           let size' = byte_cnt (bit_cnt b);
           (bs, s) \<leftarrow> file_read_at f (int size') 0 s;
           let ws = map (\<lambda>i. get32 (overlay (bitmap_bytes b) 0 bs) (4 * i)) [0..<length (bits b)];
           let n = elem_cnt (bit_cnt b) - 1;
           Some (length bs = size', s\<lparr>free_map := b\<lparr>bits := ws[n := ws ! n AND last_mask b]\<rparr>\<rparr>)
         })"

definition free_map_open :: "fs \<Rightarrow> fs option" where
  "free_map_open s = do {
     (p, s) \<leftarrow> inode_open FREE_MAP_SECTOR s;
     (f, s) \<leftarrow> file_open free_map_writer p s;
     f' \<leftarrow> f;
     (ok, s) \<leftarrow> bitmap_read f' (s\<lparr>free_map_file := f\<rparr>);
     ASSERT ok;
     Some s
   }"

definition filesys_init :: "bool \<Rightarrow> dir_entry \<Rightarrow> u8 list \<Rightarrow> u32 list \<Rightarrow> u32 list \<Rightarrow> fs \<Rightarrow> fs option" where
  "filesys_init format junk buf refs map' s = do {
     let s = inode_init s;
     c \<leftarrow> buffer_cache_init buf refs (memory (bc s)) (dev (bc s));
     s \<leftarrow> free_map_init map' (s\<lparr>bc := c\<rparr>);
     s \<leftarrow> (if format then do_format junk s else Some s);
     free_map_open s
   }"

definition filesys_done :: "fs \<Rightarrow> fs option" where
  "filesys_done s = do {
     s \<leftarrow> free_map_close s;
     c \<leftarrow> buffer_cache_flush (bc s);
     Some (s\<lparr>bc := c\<rparr>)
   }"

section \<open>Properties\<close>

lemma read_entry_result:
  assumes "direct_inode s p i" and "0 \<le> ofs" and "ofs + ENTRY_SIZE \<le> length_of (disk_inode s i)" and "length e = 20"
  obtains (fail) "read_entry p ofs e s = None" "memory (bc s) < 184"
  | (entry) s' where "read_entry p ofs e s = Some (True, map (file_byte s i) [nat ofs..<nat (ofs + ENTRY_SIZE)], s')" "reads 184 s s'"
proof -
  let ?bs = "map (file_byte s i) [nat ofs..<nat (ofs + ENTRY_SIZE)]"
  have len: "length ?bs = 20" using assms(2) by (simp add: ENTRY_SIZE_def nat_add_distrib)
  have "length_of (disk_inode s i) \<le> 122 * 512" using assms(1) by (simp add: direct_inode_def)
  then have "read_result 184 s ?bs (inode_read_at p ENTRY_SIZE ofs s)"
    using inode_read_at_result [OF assms(1,2), of ENTRY_SIZE] assms(3) by (simp add: ENTRY_SIZE_def)
  moreover have "overlay e 0 ?bs = ?bs" by (rule overlay_whole) (simp only: len assms(4))
  ultimately show thesis
    using fail entry len unfolding read_result_def read_entry_def by (auto simp: ENTRY_SIZE_def)
qed

text \<open>A loop that stands before an entry: a round fails for lack of memory or ends where it began.\<close>

definition before_entry :: "inode \<Rightarrow> readdir_state \<Rightarrow> bool" where
  "before_entry i st \<longleftrightarrow> (case st of (d, e, s) \<Rightarrow> direct_inode s (dir_inode d) i \<and> 0 \<le> dir_pos d \<and>
     dir_pos d + ENTRY_SIZE \<le> length_of (disk_inode s i) \<and> length e = 20)"

lemma readdir_round_stays:
  assumes "before_entry i (d, e, s)"
  obtains (fail) "readdir_round (d, e, s) = None" "memory (bc s) < 184"
  | (again) e' s' where "readdir_round (d, e, s) = Some (Inr (d, e', s'))" "before_entry i (d, e', s')" "reads 184 s s'"
proof -
  have a: "direct_inode s (dir_inode d) i" "0 \<le> dir_pos d" "dir_pos d + ENTRY_SIZE \<le> length_of (disk_inode s i)" "length e = 20"
    using assms by (simp_all add: before_entry_def)
  show thesis using a
  proof (cases rule: read_entry_result)
    case fail
    then show thesis by (intro that(1)) simp_all
  next
    case (entry s')
    let ?e = "map (file_byte s i) [nat (dir_pos d)..<nat (dir_pos d + ENTRY_SIZE)]"
    have "entry_name ?e \<noteq> [46] \<or> entry_name ?e \<noteq> [46, 46]" by auto
    then have "readdir_round (d, e, s) = Some (Inr (d, ?e, s'))" using entry(1) by simp
    moreover have "length ?e = 20" using a(2) by (simp add: ENTRY_SIZE_def nat_add_distrib)
    then have "before_entry i (d, ?e, s')" using reads_direct [OF entry(2) a(1)] a(2,3) by (simp add: before_entry_def)
    ultimately show thesis using entry(2) by (rule that(2))
  qed
qed

lemma readdir_loop_stuck:
  assumes "before_entry i st"
  shows "readdir_loop st = None"
proof (rule ccontr)
  assume "readdir_loop st \<noteq> None"
  then obtain r where "readdir_loop st = Some r" by auto
  then have "\<not> before_entry i st"
  proof (rule readdir_loop.raw_induct [rotated, where P = "\<lambda>st r. \<not> before_entry i st"], goal_cases)
    case (1 loop st r)
    note IH = 1(1) and body = 1(2)
    obtain d e s where st: "st = (d, e, s)" by (cases st)
    show ?case
    proof
      assume "before_entry i st"
      then have "before_entry i (d, e, s)" by (simp add: st)
      then show False
      proof (cases rule: readdir_round_stays)
        case fail
        then show ?thesis using body by (simp add: st)
      next
        case (again e' s')
        then have "loop (d, e', s') = Some r" using body by (simp add: st)
        from IH [OF this] again(2) show ?thesis by simp
      qed
    qed
  qed
  with assms show False by simp
qed

text \<open>The loop after \<open>n\<close> rounds.\<close>

fun readdir_rounds :: "nat \<Rightarrow> readdir_state \<Rightarrow> ((u8 list option \<times> dir \<times> fs) + readdir_state) option" where
  "readdir_rounds 0 st = Some (Inr st)"
| "readdir_rounds (Suc n) st = do {
     r \<leftarrow> readdir_round st;
     case r of Inl x \<Rightarrow> Some (Inl x) | Inr st \<Rightarrow> readdir_rounds n st
   }"

text \<open>A disk with an inode of 40 bytes, all in sector 0, in sector 2.\<close>

definition sample_dir_disk :: block where
  "sample_dir_disk = sample_file_disk\<lparr>sectors := (\<lambda>t. if t = 2 then put32 (replicate 512 0) 496 40 else replicate 512 0)\<rparr>"

lemma sample_dir_length: "length_of (put32 (replicate 512 0) 496 40) = 40"
proof -
  have v: "map (\<lambda>i. ucast (drop_bit (8 * i) (40 :: u32)) :: u8) [0, 1, 2, 3] = [40, 0, 0, 0]" by code_simp
  have "take 4 (drop 496 (put32 (replicate 512 0) 496 40)) = [40, 0, 0, 0]"
    unfolding put32_def v by (simp add: overlay_def)
  moreover have "foldr (\<lambda>b acc. ucast (b :: u8) + push_bit 8 acc) [40, 0, 0, 0] (0 :: u32) = 40" by code_simp
  ultimately have "get32 (put32 (replicate 512 0) 496 40) 496 = 40" by (simp only: get32_def)
  then show ?thesis by (simp add: length_of_def)
qed

lemma sample_dir_ok:
  obtains c i where "buffer_cache_init (replicate (64 * 512) 0) [0, 0] 1000 sample_dir_disk = Some c" "direct_inode (sample_fs c) 5 i"
    "length_of (disk_inode (sample_fs c) i) = 40" "memory (bc (sample_fs c)) = 1000"
proof -
  have len: "length (put32 (replicate 512 0) 496 40) = 512" by (simp add: put32_def)
  obtain c where c: "buffer_cache_init (replicate (64 * 512) 0) [0, 0] 1000 sample_dir_disk = Some c" "cache_wf c"
      "contents c = sectors sample_dir_disk" "memory c = 1000" "dev c = sample_dir_disk"
    by (rule buffer_cache_init_ok [of "replicate (64 * 512) 0" "[0, 0]" sample_dir_disk 1000])
      (simp_all add: sample_dir_disk_def sample_file_disk_def len)
  let ?i = "\<lparr>sector = 2, open_cnt = 1, removed = False, deny_write_cnt = 0\<rparr>"
  have d: "disk_inode (sample_fs c) ?i = put32 (replicate 512 0) 496 40"
    using c(3) by (simp add: disk_inode_def sample_fs_def sample_dir_disk_def)
  have dir: "direct (put32 (replicate 512 0) 496 40) k = 0" if "k < 122" for k
    using that by (simp add: direct_def put32_other)
  show thesis
  proof (rule that [of c ?i])
    show "direct_inode (sample_fs c) 5 ?i"
      using c d dir by (simp add: direct_inode_def sample_dir_length) (simp add: sample_fs_def sample_dir_disk_def sample_file_disk_def)
  qed (use c d sample_dir_length in \<open>simp_all add: sample_fs_def\<close>)
qed

text \<open>C23. \<open>dir_readdir\<close> never returns while there is an entry at its position, whatever the entry and
  however much memory there is: \<^const>\<open>None\<close> is a loop that does not end or a failure, and no result is
  possible.  The test that should skip the entries \<open>.\<close> and \<open>..\<close> holds for every name, so every round ends
  at the position where it began.  The failure is not immediate: \<open>n\<close> rounds run with 184 units of memory
  each and leave position and disk as they were.  The loop ends in the fault of a failed allocation,
  since the reads of each round leave keys behind.\<close>

theorem dir_readdir_stuck:
  assumes "direct_inode s (dir_inode d) i" and "0 \<le> dir_pos d" and "dir_pos d + ENTRY_SIZE \<le> length_of (disk_inode s i)"
    and "length e = 20"
  shows "dir_readdir d e s = None \<and>
    (184 * n \<le> memory (bc s) \<longrightarrow> (\<exists>e' s'. readdir_rounds n (d, e, s) = Some (Inr (d, e', s')) \<and> contents (bc s') = contents (bc s)))"
proof -
  have start: "before_entry i (d, e, s)" using assms by (simp add: before_entry_def)
  then have "184 * n \<le> memory (bc s) \<Longrightarrow> \<exists>e' s'. readdir_rounds n (d, e, s) = Some (Inr (d, e', s')) \<and> contents (bc s') = contents (bc s)"
  proof (induction n arbitrary: e s)
    case (Suc n)
    show ?case using Suc.prems(2)
    proof (cases rule: readdir_round_stays)
      case fail
      then show ?thesis using Suc.prems(1) by simp
    next
      case (again e' s')
      have "184 * n \<le> memory (bc s')" using Suc.prems(1) readsD(4) [OF again(3)] by simp
      then show ?thesis using Suc.IH [OF _ again(2)] again(1) readsD(2) [OF again(3)] by simp
    qed
  qed simp
  then show ?thesis using readdir_loop_stuck [OF start] by (simp add: dir_readdir_def)
qed

theorem dir_readdir_stuck_witness:
  "\<exists>c e' s'. buffer_cache_init (replicate (64 * 512) 0) [0, 0] 1000 sample_dir_disk = Some c \<and>
     dir_readdir \<lparr>dir_inode = 5, dir_pos = 0\<rparr> (replicate 20 0) (sample_fs c) = None \<and>
     readdir_rounds 5 (\<lparr>dir_inode = 5, dir_pos = 0\<rparr>, replicate 20 0, sample_fs c) =
       Some (Inr (\<lparr>dir_inode = 5, dir_pos = 0\<rparr>, e', s'))"
proof -
  obtain c i where c: "buffer_cache_init (replicate (64 * 512) 0) [0, 0] 1000 sample_dir_disk = Some c" "direct_inode (sample_fs c) 5 i"
    "length_of (disk_inode (sample_fs c) i) = 40" "memory (bc (sample_fs c)) = 1000"
    by (rule sample_dir_ok)
  show ?thesis
    using dir_readdir_stuck [of "sample_fs c" "\<lparr>dir_inode = 5, dir_pos = 0\<rparr>" i "replicate 20 0" 5] c
    by (auto simp: ENTRY_SIZE_def)
qed

end
