(* ===== verification/Pintos_Syscall.thy ===== *)
theory Pintos_Syscall
  imports Pintos_Directory Pintos_Palloc
begin

text \<open>
  System calls (\<open>userprog/syscall.c\<close>): decoding of arguments in user memory and the handlers of the
  file system calls.  \<open>vmem\<close> is the memory that the page directory of the process maps; reading an
  unmapped byte through \<open>get_user\<close> gives -1, because the page fault handler continues behind the
  access with that value, and any other access to an unmapped byte is a kernel failure.  A handler
  returns the new value of \<open>eax\<close>, if it sets it, or the process leaves with an exit status.  What
  \<open>exec\<close> and \<open>wait\<close> do is in the process component, so they are arguments here, as is the next key
  of the keyboard.
\<close>

section \<open>Process state\<close>

record fnode =
  fd :: int
  file_ptr :: nat

record proc =
  sys :: fs
  vmem :: "u32 \<Rightarrow> u8 option"
  file_list :: "fnode list"
  next_fd :: int
  cwd :: u32
  console :: "u8 list"

datatype 'a act = Exits int | Halts | Goes 'a

text \<open>Continuing after an action that may end the process.\<close>

definition and_then :: "'a act \<Rightarrow> ('a \<Rightarrow> 'b act option) \<Rightarrow> 'b act option" where
  "and_then x k = (case x of Exits n \<Rightarrow> Some (Exits n) | Halts \<Rightarrow> Some Halts | Goes v \<Rightarrow> k v)"

definition error :: "'a act" where
  "error = Exits (- 1)"

type_synonym effect = "(u32 option \<times> proc) act option"

definition returns :: "u32 \<Rightarrow> proc \<Rightarrow> effect" where
  "returns eax p = Some (Goes (Some eax, p))"

definition of_bool32 :: "bool \<Rightarrow> u32" where
  "of_bool32 b = (if b then 1 else 0)"

section \<open>Arguments\<close>

definition get_user :: "(u32 \<Rightarrow> u8 option) \<Rightarrow> u32 \<Rightarrow> int" where
  "get_user vm uaddr = (case vm uaddr of None \<Rightarrow> - 1 | Some b \<Rightarrow> uint b)"

definition get_user_byte :: "(u32 \<Rightarrow> u8 option) \<Rightarrow> u32 \<Rightarrow> int act" where
  "get_user_byte vm uaddr =
     (if is_kernel_vaddr uaddr then error
      else let result = get_user vm uaddr in if result = - 1 then error else Goes result)"

fun pow16 :: "nat \<Rightarrow> u32" where
  "pow16 0 = 1"
| "pow16 (Suc n) = pow16 n * 16"

text \<open>The loop that \<open>get_user_ptr\<close> and \<open>get_user_int\<close> share, with \<open>n\<close> rounds left.\<close>

fun int_loop :: "nat \<Rightarrow> nat \<Rightarrow> u32 \<Rightarrow> (u32 \<Rightarrow> u8 option) \<Rightarrow> u32 \<Rightarrow> u32 act" where
  "int_loop 0 idx res vm uaddr = Goes res"
| "int_loop (Suc n) idx res vm uaddr =
     (case get_user_byte vm (uaddr + of_nat idx) of
        Goes b \<Rightarrow> int_loop n (idx + 1) (res + word_of_int b * pow16 (idx * 2)) vm uaddr
      | Exits k \<Rightarrow> Exits k
      | Halts \<Rightarrow> Halts)"

definition get_user_int :: "(u32 \<Rightarrow> u8 option) \<Rightarrow> u32 \<Rightarrow> u32 act" where
  "get_user_int vm uaddr = int_loop 4 0 0 vm uaddr"

definition get_user_ptr :: "(u32 \<Rightarrow> u8 option) \<Rightarrow> u32 \<Rightarrow> u32 act" where
  "get_user_ptr vm uaddr =
     (case int_loop 4 0 0 vm uaddr of
        Goes ptr \<Rightarrow>
          if ptr = 0 then error
          else (case get_user_byte vm ptr of Goes _ \<Rightarrow> Goes ptr | Exits k \<Rightarrow> Exits k | Halts \<Rightarrow> Halts)
      | Exits k \<Rightarrow> Exits k
      | Halts \<Rightarrow> Halts)"

text \<open>The kernel's own accesses: a string, \<open>n\<close> bytes, storing bytes.\<close>

partial_function (option) cstring :: "(u32 \<Rightarrow> u8 option) \<Rightarrow> u32 \<Rightarrow> u8 list option" where
  "cstring vm a = do {
     b \<leftarrow> vm a;
     if b = 0 then Some [] else do { bs \<leftarrow> cstring vm (a + 1); Some (b # bs) }
   }"

fun load_bytes :: "(u32 \<Rightarrow> u8 option) \<Rightarrow> u32 \<Rightarrow> nat \<Rightarrow> u8 list option" where
  "load_bytes vm a 0 = Some []"
| "load_bytes vm a (Suc n) = do { b \<leftarrow> vm a; bs \<leftarrow> load_bytes vm (a + 1) n; Some (b # bs) }"

fun store_bytes :: "(u32 \<Rightarrow> u8 option) \<Rightarrow> u32 \<Rightarrow> u8 list \<Rightarrow> (u32 \<Rightarrow> u8 option) option" where
  "store_bytes vm a [] = Some vm"
| "store_bytes vm a (b # bs) = do { old \<leftarrow> vm a; store_bytes (vm(a \<mapsto> b)) (a + 1) bs }"

definition get_fn_from_fd :: "int \<Rightarrow> proc \<Rightarrow> fnode option" where
  "get_fn_from_fd n p = find (\<lambda>fn. fd fn = n) (file_list p)"

section \<open>Handlers\<close>

text \<open>\<open>wr\<close> writes the free map, \<open>junk\<close> is an uninitialised directory entry.\<close>

definition sys_chdir :: "writer \<Rightarrow> dir_entry \<Rightarrow> u32 \<Rightarrow> proc \<Rightarrow> effect" where
  "sys_chdir wr junk args p =
     and_then (get_user_ptr (vmem p) (args + 4)) (\<lambda>ptr. do {
       path \<leftarrow> cstring (vmem p) ptr;
       (r, s) \<leftarrow> parse_path wr junk (cwd p) path (sys p);
       (d, name) \<leftarrow> r;
       (q, s) \<leftarrow> dir_lookup junk (Some d) name s;
       s \<leftarrow> dir_close wr (Some d) s;
       q \<leftarrow> q;
       (isdir, s) \<leftarrow> inode_isdir q s;
       n \<leftarrow> inode_get_inumber q s;
       returns (of_bool32 isdir) (p\<lparr>sys := s, cwd := n\<rparr>)
     })"

definition sys_mkdir :: "writer \<Rightarrow> dir_entry \<Rightarrow> u32 \<Rightarrow> proc \<Rightarrow> effect" where
  "sys_mkdir wr junk args p =
     and_then (get_user_ptr (vmem p) (args + 4)) (\<lambda>ptr. do {
       path \<leftarrow> cstring (vmem p) ptr;
       (r, s) \<leftarrow> parse_path wr junk (cwd p) path (sys p);
       (d, name) \<leftarrow> r;
       parent \<leftarrow> inode_get_inumber (dir_inode d) s;
       s \<leftarrow> dir_close wr (Some d) s;
       (sec, s) \<leftarrow> free_map_allocate wr 1 s;
       sec' \<leftarrow> sec;
       (ok, s) \<leftarrow> dir_create wr junk sec' 1 parent s;
       returns (of_bool32 ok) (p\<lparr>sys := s\<rparr>)
     })"

text \<open>The descriptor argument and its file.\<close>

definition with_file :: "u32 \<Rightarrow> proc \<Rightarrow> (nat \<Rightarrow> effect) \<Rightarrow> effect" where
  "with_file args p k =
     and_then (get_user_byte (vmem p) (args + 4)) (\<lambda>n.
       case get_fn_from_fd n p of None \<Rightarrow> Some error | Some fn \<Rightarrow> k (file_ptr fn))"

definition sys_readdir :: "writer \<Rightarrow> dir_entry \<Rightarrow> u32 \<Rightarrow> proc \<Rightarrow> effect" where
  "sys_readdir wr junk args p =
     and_then (get_user_byte (vmem p) (args + 4)) (\<lambda>n.
       and_then (get_user_ptr (vmem p) (args + 8)) (\<lambda>name.
         case get_fn_from_fd n p of
           None \<Rightarrow> Some error
         | Some fn \<Rightarrow> do {
             q \<leftarrow> file_get_inode (file_ptr fn) (sys p);
             (isdir, s) \<leftarrow> inode_isdir q (sys p);
             if \<not> isdir then Some error
             else do {
               (d, s) \<leftarrow> dir_open wr (Some q) s;
               d \<leftarrow> d;
               (r, d, s) \<leftarrow> dir_readdir d junk s;
               case r of
                 None \<Rightarrow> returns 0 (p\<lparr>sys := s\<rparr>)
               | Some str \<Rightarrow> do {
                   vm \<leftarrow> store_bytes (vmem p) name (take NAME_MAX str @ [0]);
                   returns 1 (p\<lparr>sys := s, vmem := vm\<rparr>)
                 }
             }
           }))"

definition sys_isdir :: "u32 \<Rightarrow> proc \<Rightarrow> effect" where
  "sys_isdir args p = with_file args p (\<lambda>fp. do {
     q \<leftarrow> file_get_inode fp (sys p);
     (isdir, s) \<leftarrow> inode_isdir q (sys p);
     returns (of_bool32 isdir) (p\<lparr>sys := s\<rparr>)
   })"

definition sys_inumber :: "u32 \<Rightarrow> proc \<Rightarrow> effect" where
  "sys_inumber args p = with_file args p (\<lambda>fp. do {
     q \<leftarrow> file_get_inode fp (sys p);
     n \<leftarrow> inode_get_inumber q (sys p);
     returns n p
   })"

definition sys_create :: "writer \<Rightarrow> dir_entry \<Rightarrow> u32 \<Rightarrow> proc \<Rightarrow> effect" where
  "sys_create wr junk args p =
     and_then (get_user_ptr (vmem p) (args + 4)) (\<lambda>ptr.
       and_then (get_user_byte (vmem p) (args + 8)) (\<lambda>initial_size. do {
         name \<leftarrow> cstring (vmem p) ptr;
         (ok, s) \<leftarrow> filesys_create wr junk (cwd p) name initial_size (sys p);
         returns (of_bool32 ok) (p\<lparr>sys := s\<rparr>)
       }))"

definition sys_remove :: "writer \<Rightarrow> dir_entry \<Rightarrow> (u32 \<Rightarrow> bool) \<Rightarrow> bool \<Rightarrow> u32 \<Rightarrow> proc \<Rightarrow> effect" where
  "sys_remove wr junk cwd_in_use uninit args p =
     and_then (get_user_ptr (vmem p) (args + 4)) (\<lambda>ptr. do {
       name \<leftarrow> cstring (vmem p) ptr;
       (ok, s) \<leftarrow> filesys_remove wr junk cwd_in_use uninit (cwd p) name (sys p);
       returns (of_bool32 ok) (p\<lparr>sys := s\<rparr>)
     })"

definition sys_open :: "writer \<Rightarrow> dir_entry \<Rightarrow> u32 \<Rightarrow> proc \<Rightarrow> effect" where
  "sys_open wr junk args p =
     and_then (get_user_ptr (vmem p) (args + 4)) (\<lambda>ptr. do {
       name \<leftarrow> cstring (vmem p) ptr;
       (f, s) \<leftarrow> filesys_open wr junk (cwd p) name (sys p);
       case f of
         None \<Rightarrow> returns (- 1) (p\<lparr>sys := s\<rparr>)
       | Some f \<Rightarrow> do {
           s \<leftarrow> take_memory s;
           s \<leftarrow> take_memory s;
           let n = next_fd p;
           returns (word_of_int n) (p\<lparr>sys := s, next_fd := n + 1, file_list := file_list p @ [\<lparr>fd = n, file_ptr = f\<rparr>]\<rparr>)
         }
     })"

definition sys_close :: "writer \<Rightarrow> u32 \<Rightarrow> proc \<Rightarrow> effect" where
  "sys_close wr args p =
     and_then (get_user_byte (vmem p) (args + 4)) (\<lambda>n.
       case get_fn_from_fd n p of
         None \<Rightarrow> Some (Goes (None, p))
       | Some fn \<Rightarrow> do {
           s \<leftarrow> file_close wr (Some (file_ptr fn)) (sys p);
           Some (Goes (None, p\<lparr>sys := give_memory (give_memory s), file_list := remove1 fn (file_list p)\<rparr>))
         })"

definition sys_filesize :: "u32 \<Rightarrow> proc \<Rightarrow> effect" where
  "sys_filesize args p = with_file args p (\<lambda>fp. do {
     (len, s) \<leftarrow> file_length fp (sys p);
     returns (word_of_int len) (p\<lparr>sys := s\<rparr>)
   })"

definition sys_read :: "u8 \<Rightarrow> u32 \<Rightarrow> proc \<Rightarrow> effect" where
  "sys_read key args p =
     and_then (get_user_byte (vmem p) (args + 4)) (\<lambda>n.
       and_then (get_user_ptr (vmem p) (args + 8)) (\<lambda>buffer.
         and_then (get_user_byte (vmem p) (args + 12)) (\<lambda>size'.
           if n = 0 then returns (ucast key) p
           else if n < 0 \<or> n = 1 then Some error
           else
             case get_fn_from_fd n p of
               None \<Rightarrow> Some error
             | Some fn \<Rightarrow> do {
                 q \<leftarrow> file_get_inode (file_ptr fn) (sys p);
                 (isdir, s) \<leftarrow> inode_isdir q (sys p);
                 if isdir then Some error
                 else do {
                   (bs, s) \<leftarrow> file_read (file_ptr fn) size' s;
                   vm \<leftarrow> store_bytes (vmem p) buffer bs;
                   returns (of_nat (length bs)) (p\<lparr>sys := s, vmem := vm\<rparr>)
                 }
               })))"

definition sys_write :: "writer \<Rightarrow> u32 \<Rightarrow> proc \<Rightarrow> effect" where
  "sys_write wr args p =
     and_then (get_user_byte (vmem p) (args + 4)) (\<lambda>n.
       and_then (get_user_ptr (vmem p) (args + 8)) (\<lambda>buffer.
         and_then (get_user_int (vmem p) (args + 12)) (\<lambda>size'.
           if n = 1 then do {
             bs \<leftarrow> load_bytes (vmem p) buffer (unat size');
             returns size' (p\<lparr>console := console p @ bs\<rparr>)
           }
           else if n \<le> 0 then Some error
           else
             case get_fn_from_fd n p of
               None \<Rightarrow> Some error
             | Some fn \<Rightarrow> do {
                 q \<leftarrow> file_get_inode (file_ptr fn) (sys p);
                 (isdir, s) \<leftarrow> inode_isdir q (sys p);
                 if isdir then Some error
                 else do {
                   bs \<leftarrow> load_bytes (vmem p) buffer (nat (sint size'));
                   (k, s) \<leftarrow> file_write wr (file_ptr fn) bs s;
                   returns (word_of_int k) (p\<lparr>sys := s\<rparr>)
                 }
               })))"

definition sys_seek :: "u32 \<Rightarrow> proc \<Rightarrow> effect" where
  "sys_seek args p =
     and_then (get_user_byte (vmem p) (args + 4)) (\<lambda>n.
       and_then (get_user_byte (vmem p) (args + 8)) (\<lambda>position.
         case get_fn_from_fd n p of
           None \<Rightarrow> Some error
         | Some fn \<Rightarrow> do {
             s \<leftarrow> file_seek (file_ptr fn) position (sys p);
             Some (Goes (None, p\<lparr>sys := s\<rparr>))
           }))"

definition sys_tell :: "u32 \<Rightarrow> proc \<Rightarrow> effect" where
  "sys_tell args p = with_file args p (\<lambda>fp. do {
     n \<leftarrow> file_tell fp (sys p);
     returns (word_of_int n) p
   })"

definition sys_exit :: "u32 \<Rightarrow> proc \<Rightarrow> effect" where
  "sys_exit args p = and_then (get_user_byte (vmem p) (args + 4)) (\<lambda>n. Some (Exits n))"

definition sys_practice :: "u32 \<Rightarrow> proc \<Rightarrow> effect" where
  "sys_practice args p = and_then (get_user_byte (vmem p) (args + 4)) (\<lambda>n. returns (word_of_int (n + 1)) p)"

text \<open>Checking that a string is in user memory, byte by byte.\<close>

partial_function (option) check_string :: "(u32 \<Rightarrow> u8 option) \<Rightarrow> u32 \<Rightarrow> unit act option" where
  "check_string vm a =
     (case get_user_byte vm a of
        Goes b \<Rightarrow> if b = 0 then Some (Goes ()) else check_string vm (a + 1)
      | Exits k \<Rightarrow> Some (Exits k)
      | Halts \<Rightarrow> Some Halts)"

definition sys_exec :: "writer \<Rightarrow> dir_entry \<Rightarrow> (u8 list \<Rightarrow> proc \<Rightarrow> (u32 \<times> proc) option) \<Rightarrow> u32 \<Rightarrow> proc \<Rightarrow> effect" where
  "sys_exec wr junk process_execute args p =
     and_then (get_user_ptr (vmem p) (args + 4)) (\<lambda>ptr. do {
       ok \<leftarrow> check_string (vmem p) ptr;
       and_then ok (\<lambda>_. do {
         filename \<leftarrow> cstring (vmem p) ptr;
         (f, s) \<leftarrow> filesys_open wr junk (cwd p) (takeWhile (\<lambda>b. b \<noteq> 32) filename) (sys p);
         if f = None then returns (- 1) (p\<lparr>sys := s\<rparr>)
         else do {
           s \<leftarrow> file_close wr f s;
           (eax, p) \<leftarrow> process_execute filename (p\<lparr>sys := s\<rparr>);
           returns eax p
         }
       })
     })"

definition sys_wait :: "(int \<Rightarrow> proc \<Rightarrow> (u32 \<times> proc) option) \<Rightarrow> u32 \<Rightarrow> proc \<Rightarrow> effect" where
  "sys_wait process_wait args p =
     and_then (get_user_byte (vmem p) (args + 4)) (\<lambda>pid. do {
       (eax, p) \<leftarrow> process_wait pid p;
       returns eax p
     })"

record kernel_env =
  writer :: writer
  stack_junk :: dir_entry
  thread_contain_cwd :: "u32 \<Rightarrow> bool"
  uninit_bool :: bool
  input_key :: u8
  process_execute :: "u8 list \<Rightarrow> proc \<Rightarrow> (u32 \<times> proc) option"
  process_wait :: "int \<Rightarrow> proc \<Rightarrow> (u32 \<times> proc) option"

definition syscall_handler :: "kernel_env \<Rightarrow> u32 \<Rightarrow> proc \<Rightarrow> effect" where
  "syscall_handler env args p =
     and_then (get_user_byte (vmem p) args) (\<lambda>cmd.
       if cmd = 0 then Some Halts
       else if cmd = 1 then sys_exit args p
       else if cmd = 2 then sys_exec (writer env) (stack_junk env) (process_execute env) args p
       else if cmd = 3 then sys_wait (process_wait env) args p
       else if cmd = 4 then sys_create (writer env) (stack_junk env) args p
       else if cmd = 5 then sys_remove (writer env) (stack_junk env) (thread_contain_cwd env) (uninit_bool env) args p
       else if cmd = 6 then sys_open (writer env) (stack_junk env) args p
       else if cmd = 7 then sys_filesize args p
       else if cmd = 8 then sys_read (input_key env) args p
       else if cmd = 9 then sys_write (writer env) args p
       else if cmd = 10 then sys_seek args p
       else if cmd = 11 then sys_tell args p
       else if cmd = 12 then sys_close (writer env) args p
       else if cmd = 13 then sys_practice args p
       else if cmd = 16 then sys_chdir (writer env) (stack_junk env) args p
       else if cmd = 17 then sys_mkdir (writer env) (stack_junk env) args p
       else if cmd = 18 then sys_readdir (writer env) (stack_junk env) args p
       else if cmd = 19 then sys_isdir args p
       else if cmd = 20 then sys_inumber args p
       else Some error)"

section \<open>Decoding\<close>

definition user_mapped :: "(u32 \<Rightarrow> u8 option) \<Rightarrow> u32 \<Rightarrow> bool" where
  "user_mapped vm a \<longleftrightarrow> is_user_vaddr a \<and> vm a \<noteq> None"

lemma get_user_byte_eq:
  "get_user_byte vm a = (if user_mapped vm a then Goes (uint (the (vm a))) else Exits (- 1))"
proof -
  have "uint b \<noteq> - 1" for b :: u8 using uint_ge_0 [of b] by linarith
  then show ?thesis
    by (auto simp: get_user_byte_def get_user_def user_mapped_def is_user_vaddr_def is_kernel_vaddr_def error_def split: option.splits)
qed

lemma pow16_eq: "pow16 0 = 1" "pow16 2 = 2 ^ 8" "pow16 4 = 2 ^ 16" "pow16 6 = 2 ^ 24"
  by (simp_all add: eval_nat_numeral)

lemma int_loop_eq:
  "int_loop 4 0 0 vm a =
     (if user_mapped vm a \<and> user_mapped vm (a + 1) \<and> user_mapped vm (a + 2) \<and> user_mapped vm (a + 3)
      then Goes (get32 [the (vm a), the (vm (a + 1)), the (vm (a + 2)), the (vm (a + 3))] 0)
      else Exits (- 1))"
proof -
  have "int_loop 4 0 0 vm a = int_loop (Suc (Suc (Suc (Suc 0)))) 0 0 vm a" by (simp add: numeral_eq_Suc)
  also have "\<dots> = (if user_mapped vm a \<and> user_mapped vm (a + 1) \<and> user_mapped vm (a + 2) \<and> user_mapped vm (a + 3)
      then Goes (ucast (the (vm a)) + ucast (the (vm (a + 1))) * 2 ^ 8 + ucast (the (vm (a + 2))) * 2 ^ 16 + ucast (the (vm (a + 3))) * 2 ^ 24)
      else Exits (- 1))"
    by (simp add: get_user_byte_eq pow16_eq(2,3,4) [simplified] del: pow16.simps(2))
  also have "ucast b0 + ucast b1 * 2 ^ 8 + ucast b2 * 2 ^ 16 + ucast b3 * 2 ^ 24 = get32 [b0, b1, b2, b3] 0" for b0 b1 b2 b3 :: u8
    by (simp add: get32_def push_bit_eq_mult algebra_simps)
  finally show ?thesis .
qed

lemma get_user_ptr_ok:
  assumes "get_user_ptr vm a = Goes ptr"
  shows "ptr \<noteq> 0 \<and> user_mapped vm ptr"
  using assms by (auto simp: get_user_ptr_def error_def get_user_byte_eq split: act.splits if_splits)

text \<open>C24. \<open>get_user_int\<close> returns the 32-bit integer stored at its address, lowest byte first, if all
  four bytes are mapped user memory, and otherwise the process leaves with status -1; a pointer
  that \<open>get_user_ptr\<close> returns is not null and its first byte is mapped user memory.\<close>

theorem user_arguments_checked:
  "get_user_int vm a =
     (if user_mapped vm a \<and> user_mapped vm (a + 1) \<and> user_mapped vm (a + 2) \<and> user_mapped vm (a + 3)
      then Goes (get32 [the (vm a), the (vm (a + 1)), the (vm (a + 2)), the (vm (a + 3))] 0)
      else Exits (- 1)) \<and>
   (get_user_ptr vm a = Goes ptr \<longrightarrow> ptr \<noteq> 0 \<and> user_mapped vm ptr)"
  using int_loop_eq get_user_ptr_ok by (auto simp: get_user_int_def)

theorem user_arguments_checked_witness:
  "get_user_ptr (\<lambda>x. Some (if x = 100 then 200 else 0)) 100 = Goes 200 \<and> user_mapped (\<lambda>x. Some (if x = 100 then 200 else 0)) 200 \<and>
   get_user_int (\<lambda>x. None) 0 = Exits (- 1)"
proof -
  have p: "get_user_ptr (\<lambda>x. Some (if x = 100 then 200 else 0)) 100 = Goes 200" by code_simp
  show ?thesis
    using p user_arguments_checked [of "\<lambda>x. Some (if x = 100 then 200 else 0)" 100 200] user_arguments_checked [of "\<lambda>x. None" 0 0]
    by (simp add: user_mapped_def)
qed

section \<open>Reading into kernel memory\<close>

lemma inode_isdir_ok:
  assumes "direct_inode s p i" and "4 \<le> memory (bc s)"
  obtains s' where "inode_isdir p s = Some (is_dir (disk_inode s i), s')" "reads 3 s s'"
proof -
  have wf: "cache_wf (bc s)" "unat (sector i) < dev_size (dev (bc s))" "inodes s p = Some i" using assms(1) by (auto simp: direct_inode_def)
  obtain s1 where s1: "read_inode (sector i) s = Some (contents (bc s) (unat (sector i)), s1)" "reads 4 s s1"
    by (rule read_inode_ok [OF wf(1,2) assms(2)])
  have r: "reads (Suc 3) s s1" using s1(2) by simp
  show thesis using that [OF _ give_reads [OF r]] s1(1) wf(3) by (simp add: inode_isdir_def disk_inode_def)
qed

text \<open>C25. The read system call checks only the first byte of the buffer: with a buffer at the last
  byte of user memory, a read of two bytes stores the second one in kernel memory.\<close>

theorem sys_read_overwrites_kernel:
  assumes "get_user_byte (vmem p) (args + 4) = Goes n" and "2 \<le> n"
    and "get_user_ptr (vmem p) (args + 8) = Goes (PHYS_BASE - 1)" and "get_user_byte (vmem p) (args + 12) = Goes 2"
    and "get_fn_from_fd n p = Some fn" and "files (sys p) (file_ptr fn) = Some fl" and "direct_inode (sys p) (file_inode fl) i"
    and "\<not> is_dir (disk_inode (sys p) i)" and "0 \<le> pos fl" and "pos fl + 2 \<le> length_of (disk_inode (sys p) i)"
    and "40 \<le> memory (bc (sys p))" and "vmem p PHYS_BASE \<noteq> None"
  shows "\<exists>p'. sys_read key args p = Some (Goes (Some 2, p')) \<and>
    vmem p' PHYS_BASE = Some (file_byte (sys p) i (nat (pos fl) + 1))"
proof -
  obtain s1 where s1: "inode_isdir (file_inode fl) (sys p) = Some (is_dir (disk_inode (sys p) i), s1)" "reads 3 (sys p) s1"
    by (rule inode_isdir_ok [OF assms(7)]) (use assms(11) in simp)
  note D = reads_direct [OF s1(2) assms(7)] and R = readsD [OF s1(2)]
  have two: "[nat (pos fl)..<nat (pos fl + 2)] = [nat (pos fl), nat (pos fl) + 1]"
    using assms(9) by (simp add: nat_add_distrib numeral_2_eq_2)
  have small: "pos fl + 2 \<le> 2 ^ 31" using assms(7,10) by (simp add: direct_inode_def)
  obtain s2 where s2: "inode_read_at (file_inode fl) 2 (pos fl) s1 = Some (map (file_byte s1 i) [nat (pos fl)..<nat (pos fl + 2)], s2)"
      "reads (9 * nat 2 + 4) s1 s2"
    using inode_read_at_ok [OF D(1) assms(9), of 2] D R(4) assms(10,11) small by auto
  have len: "length [nat (pos fl), nat (pos fl) + 1] = 2" by simp
  obtain s3 where rd: "file_read (file_ptr fn) 2 s1 = Some ([file_byte (sys p) i (nat (pos fl)), file_byte (sys p) i (nat (pos fl) + 1)], s3)"
    using s2(1) assms(6) R(6) D(3) unfolding two by (simp add: file_read_def)
  have m: "vmem p (PHYS_BASE - 1) \<noteq> None" using get_user_ptr_ok [OF assms(3)] by (simp add: user_mapped_def)
  obtain b0 b1 where b: "vmem p (PHYS_BASE - 1) = Some b0" "vmem p PHYS_BASE = Some b1" using m assms(12) by auto
  have ne: "PHYS_BASE - 1 \<noteq> PHYS_BASE" by simp
  let ?a = "file_byte (sys p) i (nat (pos fl))" and ?b = "file_byte (sys p) i (nat (pos fl) + 1)"
  have "store_bytes (vmem p) (PHYS_BASE - 1) [?a, ?b] = Some ((vmem p)(PHYS_BASE - 1 \<mapsto> ?a, PHYS_BASE \<mapsto> ?b))"
    using b ne by simp
  then show ?thesis
    using assms(1,2,3,4,5,6,8) s1(1) rd by (simp add: sys_read_def and_then_def file_get_inode_def returns_def)
qed

text \<open>The arguments of \<open>read (5, PHYS_BASE - 1, 2)\<close> at address 256.\<close>

definition sample_vmem :: "u32 \<Rightarrow> u8 option" where
  "sample_vmem x = Some (if x = 260 then 5 else if x = 264 \<or> x = 265 \<or> x = 266 then 255 else if x = 267 then 191
     else if x = 268 then 2 else 0)"

definition sample_proc :: "cache \<Rightarrow> proc" where
  "sample_proc c = \<lparr>sys = (sample_fs c)\<lparr>files := [9 \<mapsto> \<lparr>file_inode = 5, pos = 3, deny_write = False\<rparr>]\<rparr>, vmem = sample_vmem,
     file_list = [\<lparr>fd = 5, file_ptr = 9\<rparr>], next_fd = 6, cwd = 1, console = []\<rparr>"

theorem sys_read_overwrites_kernel_witness:
  "\<exists>c p'. buffer_cache_init (replicate (64 * 512) 0) [0, 0] 100 sample_file_disk = Some c \<and>
     sys_read 0 256 (sample_proc c) = Some (Goes (Some 2, p')) \<and> vmem p' PHYS_BASE \<noteq> None"
proof -
  obtain c i where c: "buffer_cache_init (replicate (64 * 512) 0) [0, 0] 100 sample_file_disk = Some c" "direct_inode (sample_fs c) 5 i"
    "length_of (disk_inode (sample_fs c) i) = 10" "memory (bc (sample_fs c)) = 100" "file_byte (sample_fs c) i 3 = 7"
    "deny_write_cnt i = 0" "\<not> is_dir (disk_inode (sample_fs c) i)"
    by (rule sample_fs_ok)
  have same: "direct_inode (s\<lparr>files := x\<rparr>) p j = direct_inode s p j" "disk_inode (s\<lparr>files := x\<rparr>) j = disk_inode s j" for s x p j
    by (simp_all add: direct_inode_def disk_inode_def)
  have args: "get_user_byte sample_vmem (256 + 4) = Goes 5" "get_user_ptr sample_vmem (256 + 8) = Goes (PHYS_BASE - 1)"
      "get_user_byte sample_vmem (256 + 12) = Goes 2"
    by code_simp+
  show ?thesis
    using sys_read_overwrites_kernel [of "sample_proc c" 256 5 "\<lparr>fd = 5, file_ptr = 9\<rparr>" "\<lparr>file_inode = 5, pos = 3, deny_write = False\<rparr>" i 0]
      c args by (auto simp: sample_proc_def same get_fn_from_fd_def sample_vmem_def)
qed

end
