(* ===== verification/Pintos_Stdio.thy ===== *)
theory Pintos_Stdio
  imports Pintos_Prelude "HOL-Library.Sublist"
begin

text \<open>
  Formatted output (\<open>lib/stdio.c\<close>), the character classes of \<open>lib/ctype.h\<close> and \<open>atoi\<close> of
  \<open>lib/stdlib.c\<close>.  A terminated string is the list of its characters.  The functions that write
  through an \<open>output\<close> callback return the sequence of characters they pass to it, because nothing they
  do depends on the callback; \<open>vsnprintf\<close> runs its callback over that sequence.  \<^const>\<open>None\<close> is
  undefined behaviour: an argument that is missing or of another type than the conversion asks for, a
  signed overflow, an access outside an array.
\<close>

section \<open>Character classes\<close>

definition code :: "char \<Rightarrow> int" where
  "code c = int (of_char c)"

definition isdigit :: "char \<Rightarrow> bool" where
  "isdigit c \<longleftrightarrow> 48 \<le> code c \<and> code c \<le> 57"

definition isspace :: "char \<Rightarrow> bool" where
  "isspace c \<longleftrightarrow> c = CHR '' '' \<or> c = CHR 0x0C \<or> c = CHR 0x0A \<or> c = CHR 0x0D \<or> c = CHR 0x09 \<or> c = CHR 0x0B"

definition isprint :: "char \<Rightarrow> bool" where
  "isprint c \<longleftrightarrow> 32 \<le> code c \<and> code c < 127"

text \<open>The value of an \<open>int\<close> expression; a signed overflow has none.\<close>

definition int_ok :: "int \<Rightarrow> int option" where
  "int_ok n = (if - (2 ^ 31) \<le> n \<and> n < 2 ^ 31 then Some n else None)"

section \<open>Conversions\<close>

datatype flag = MINUS | PLUS | SPACE | POUND | ZERO | GROUP

datatype conv_type = CHAR' | SHORT | INT' | INTMAX | LONG | LONGLONG | PTRDIFFT | SIZET

record printf_conversion =
  flags :: "flag set"
  width :: int
  precision :: int
  conv_type :: conv_type

record integer_base =
  ib_base :: nat
  ib_digits :: string
  ib_x :: "char option"
  ib_group :: nat

definition base_d :: integer_base where
  "base_d = \<lparr>ib_base = 10, ib_digits = ''0123456789'', ib_x = None, ib_group = 3\<rparr>"

definition base_o :: integer_base where
  "base_o = \<lparr>ib_base = 8, ib_digits = ''01234567'', ib_x = None, ib_group = 3\<rparr>"

definition base_x :: integer_base where
  "base_x = \<lparr>ib_base = 16, ib_digits = ''0123456789abcdef'', ib_x = Some CHR ''x'', ib_group = 4\<rparr>"

definition base_X :: integer_base where
  "base_X = \<lparr>ib_base = 16, ib_digits = ''0123456789ABCDEF'', ib_x = Some CHR ''X'', ib_group = 4\<rparr>"

text \<open>The variable arguments: \<open>int\<close>, \<open>long\<close>, \<open>size_t\<close>, \<open>ptrdiff_t\<close> and pointers take 32 bits on
  the i386, \<open>intmax_t\<close> and \<open>long long\<close> 64; a \<open>char *\<close> that is printed is a string or null.\<close>

datatype arg = Arg_int u32 | Arg_long u64 | Arg_str "string option"

fun va_int :: "arg list \<Rightarrow> (u32 \<times> arg list) option" where
  "va_int (Arg_int w # args) = Some (w, args)"
| "va_int _ = None"

fun va_long :: "arg list \<Rightarrow> (u64 \<times> arg list) option" where
  "va_long (Arg_long w # args) = Some (w, args)"
| "va_long _ = None"

fun va_str :: "arg list \<Rightarrow> (string option \<times> arg list) option" where
  "va_str (Arg_str s # args) = Some (s, args)"
| "va_str _ = None"

subsection \<open>Parsing a conversion specification\<close>

fun parse_flags :: "flag set \<Rightarrow> string \<Rightarrow> flag set \<times> string" where
  "parse_flags fl [] = (fl, [])"
| "parse_flags fl (ch # fmt) =
     (if ch = CHR ''-'' then parse_flags (insert MINUS fl) fmt
      else if ch = CHR ''+'' then parse_flags (insert PLUS fl) fmt
      else if ch = CHR '' '' then parse_flags (insert SPACE fl) fmt
      else if ch = CHR ''#'' then parse_flags (insert POUND fl) fmt
      else if ch = CHR ''0'' then parse_flags (insert ZERO fl) fmt
      else if ch = CHR 0x27 then parse_flags (insert GROUP fl) fmt
      else (fl, ch # fmt))"

fun parse_number :: "int \<Rightarrow> string \<Rightarrow> (int \<times> string) option" where
  "parse_number n [] = Some (n, [])"
| "parse_number n (ch # fmt) =
     (if isdigit ch then do { m \<leftarrow> int_ok (n * 10 + code ch); parse_number (m - 48) fmt }
      else Some (n, ch # fmt))"

text \<open>A \<open>*\<close> takes the number from the arguments.\<close>

definition parse_star :: "string \<Rightarrow> arg list \<Rightarrow> (int \<times> string \<times> arg list) option" where
  "parse_star fmt args =
     (if fmt \<noteq> [] \<and> hd fmt = CHR ''*''
      then do { (w, args) \<leftarrow> va_int args; Some (sint w, tl fmt, args) }
      else do { (n, fmt) \<leftarrow> parse_number 0 fmt; Some (n, fmt, args) })"

definition parse_precision :: "string \<Rightarrow> arg list \<Rightarrow> (int \<times> string \<times> arg list) option" where
  "parse_precision fmt args =
     (if fmt \<noteq> [] \<and> hd fmt = CHR ''.'' then do {
        (p, fmt, args) \<leftarrow> parse_star (tl fmt) args;
        Some (if p < 0 then - 1 else p, fmt, args)
      } else Some (- 1, fmt, args))"

fun parse_type :: "string \<Rightarrow> conv_type \<times> string" where
  "parse_type [] = (INT', [])"
| "parse_type (ch # fmt) =
     (if ch = CHR ''h'' then if fmt \<noteq> [] \<and> hd fmt = CHR ''h'' then (CHAR', tl fmt) else (SHORT, fmt)
      else if ch = CHR ''j'' then (INTMAX, fmt)
      else if ch = CHR ''l'' then if fmt \<noteq> [] \<and> hd fmt = CHR ''l'' then (LONGLONG, tl fmt) else (LONG, fmt)
      else if ch = CHR ''t'' then (PTRDIFFT, fmt)
      else if ch = CHR ''z'' then (SIZET, fmt)
      else (INT', ch # fmt))"

definition parse_conversion ::
  "string \<Rightarrow> arg list \<Rightarrow> (printf_conversion \<times> string \<times> arg list) option" where
  "parse_conversion fmt args = do {
     let (fl, fmt) = parse_flags {} fmt;
     let fl = (if MINUS \<in> fl then fl - {ZERO} else fl);
     let fl = (if PLUS \<in> fl then fl - {SPACE} else fl);
     (w, fmt, args) \<leftarrow> parse_star fmt args;
     (w, fl) \<leftarrow> if w < 0 then do { w \<leftarrow> int_ok (- w); Some (w, insert MINUS fl) } else Some (w, fl);
     (p, fmt, args) \<leftarrow> parse_precision fmt args;
     let fl = (if 0 \<le> p then fl - {ZERO} else fl);
     let (t, fmt) = parse_type fmt;
     Some (\<lparr>flags = fl, width = w, precision = p, conv_type = t\<rparr>, fmt, args)
   }"

subsection \<open>Formatting\<close>

definition output_dup :: "char \<Rightarrow> nat \<Rightarrow> string" where
  "output_dup ch cnt = replicate cnt ch"

text \<open>\<open>*cp++ = ch\<close> in the buffer of 64 characters; the list holds the characters below \<open>cp\<close>.\<close>

definition put :: "string \<Rightarrow> char \<Rightarrow> string option" where
  "put buf ch = (if length buf < 64 then Some (buf @ [ch]) else None)"

partial_function (option) accumulate ::
  "integer_base \<Rightarrow> flag set \<Rightarrow> nat \<Rightarrow> nat \<Rightarrow> string \<Rightarrow> string option" where
  "accumulate b fl v digit_cnt buf =
     (if v = 0 then Some buf
      else do {
        buf \<leftarrow> if GROUP \<in> fl \<and> 0 < digit_cnt \<and> digit_cnt mod ib_group b = 0 then put buf CHR '',''
              else Some buf;
        ch \<leftarrow> nth_opt (ib_digits b) (v mod ib_base b);
        buf \<leftarrow> put buf ch;
        accumulate b fl (v div ib_base b) (digit_cnt + 1) buf
      })"

function append_zeros :: "int \<Rightarrow> string \<Rightarrow> string" where
  "append_zeros p buf =
     (if int (length buf) < p \<and> length buf < 64 - 1 then append_zeros p (buf @ ''0'') else buf)"
  by auto
termination by (relation "measure (\<lambda>(p, buf). 64 - length buf)") auto

declare append_zeros.simps [simp del]

definition option_char :: "char option \<Rightarrow> string" where
  "option_char c = (case c of None \<Rightarrow> [] | Some ch \<Rightarrow> [ch])"

definition sign_char :: "bool \<Rightarrow> bool \<Rightarrow> flag set \<Rightarrow> char option" where
  "sign_char is_signed negative fl =
     (if \<not> is_signed then None
      else if PLUS \<in> fl then Some (if negative then CHR ''-'' else CHR ''+'')
      else if SPACE \<in> fl then Some (if negative then CHR ''-'' else CHR '' '')
      else if negative then Some CHR ''-'' else None)"

definition format_integer ::
  "nat \<Rightarrow> bool \<Rightarrow> bool \<Rightarrow> integer_base \<Rightarrow> printf_conversion \<Rightarrow> string option" where
  "format_integer v is_signed negative b c = do {
     let sign = sign_char is_signed negative (flags c);
     let x = (if POUND \<in> flags c \<and> v \<noteq> 0 then ib_x b else None);
     buf \<leftarrow> accumulate b (flags c) v 0 [];
     let buf = append_zeros (if precision c < 0 then 1 else precision c) buf;
     buf \<leftarrow> if POUND \<in> flags c \<and> ib_base b = 8 \<and> (buf = [] \<or> last buf \<noteq> CHR ''0'')
           then put buf CHR ''0'' else Some buf;
     let pad_cnt = nat (width c - int (length buf) - (if x \<noteq> None then 2 else 0)
                        - (if sign \<noteq> None then 1 else 0));
     Some ((if MINUS \<notin> flags c \<and> ZERO \<notin> flags c then output_dup CHR '' '' pad_cnt else [])
           @ option_char sign
           @ (case x of None \<Rightarrow> [] | Some ch \<Rightarrow> [CHR ''0'', ch])
           @ (if ZERO \<in> flags c then output_dup CHR ''0'' pad_cnt else [])
           @ rev buf
           @ (if MINUS \<in> flags c then output_dup CHR '' '' pad_cnt else []))
   }"

definition format_string :: "string \<Rightarrow> printf_conversion \<Rightarrow> string" where
  "format_string s c =
     (let pad = output_dup CHR '' '' (nat (width c - int (length s)))
      in if MINUS \<in> flags c then s @ pad else pad @ s)"

definition signed_arg :: "conv_type \<Rightarrow> arg list \<Rightarrow> (int \<times> arg list) option" where
  "signed_arg t args =
     (case t of
        CHAR' \<Rightarrow> do { (w, args) \<leftarrow> va_int args; Some (sint (ucast w :: u8), args) }
      | SHORT \<Rightarrow> do { (w, args) \<leftarrow> va_int args; Some (sint (ucast w :: u16), args) }
      | INT' \<Rightarrow> do { (w, args) \<leftarrow> va_int args; Some (sint w, args) }
      | INTMAX \<Rightarrow> do { (w, args) \<leftarrow> va_long args; Some (sint w, args) }
      | LONG \<Rightarrow> do { (w, args) \<leftarrow> va_int args; Some (sint w, args) }
      | LONGLONG \<Rightarrow> do { (w, args) \<leftarrow> va_long args; Some (sint w, args) }
      | PTRDIFFT \<Rightarrow> do { (w, args) \<leftarrow> va_int args; Some (sint w, args) }
      | SIZET \<Rightarrow> do {
          (w, args) \<leftarrow> va_int args;
          let v = uint w;
          Some (if (2 ^ 32 - 1) div 2 < v then v - (2 ^ 32 - 1) - 1 else v, args)
        })"

definition unsigned_arg :: "conv_type \<Rightarrow> arg list \<Rightarrow> (nat \<times> arg list) option" where
  "unsigned_arg t args =
     (case t of
        CHAR' \<Rightarrow> do { (w, args) \<leftarrow> va_int args; Some (unat (ucast w :: u8), args) }
      | SHORT \<Rightarrow> do { (w, args) \<leftarrow> va_int args; Some (unat (ucast w :: u16), args) }
      | INT' \<Rightarrow> do { (w, args) \<leftarrow> va_int args; Some (unat w, args) }
      | INTMAX \<Rightarrow> do { (w, args) \<leftarrow> va_long args; Some (unat w, args) }
      | LONG \<Rightarrow> do { (w, args) \<leftarrow> va_int args; Some (unat w, args) }
      | LONGLONG \<Rightarrow> do { (w, args) \<leftarrow> va_long args; Some (unat w, args) }
      | PTRDIFFT \<Rightarrow> do { (w, args) \<leftarrow> va_int args; Some (unat w, args) }
      | SIZET \<Rightarrow> do { (w, args) \<leftarrow> va_int args; Some (unat w, args) })"

text \<open>The cases of the switch in \<open>__vprintf\<close>.  The negation of the least \<open>intmax_t\<close> overflows.\<close>

definition convert_signed :: "printf_conversion \<Rightarrow> arg list \<Rightarrow> (string \<times> arg list) option" where
  "convert_signed c args = do {
     (v, args) \<leftarrow> signed_arg (conv_type c) args;
     ASSERT (v \<noteq> - (2 ^ 63));
     text' \<leftarrow> format_integer (nat \<bar>v\<bar>) True (v < 0) base_d c;
     Some (text', args)
   }"

definition convert_unsigned :: "char \<Rightarrow> printf_conversion \<Rightarrow> arg list \<Rightarrow> (string \<times> arg list) option" where
  "convert_unsigned k c args = do {
     (v, args) \<leftarrow> unsigned_arg (conv_type c) args;
     let b = (if k = CHR ''o'' then base_o else if k = CHR ''u'' then base_d
              else if k = CHR ''x'' then base_x else base_X);
     text' \<leftarrow> format_integer v False False b c;
     Some (text', args)
   }"

definition convert_char :: "printf_conversion \<Rightarrow> arg list \<Rightarrow> (string \<times> arg list) option" where
  "convert_char c args = do {
     (w, args) \<leftarrow> va_int args;
     Some (format_string [char_of (unat (ucast w :: u8))] c, args)
   }"

definition convert_string :: "printf_conversion \<Rightarrow> arg list \<Rightarrow> (string \<times> arg list) option" where
  "convert_string c args = do {
     (s, args) \<leftarrow> va_str args;
     let s = (case s of None \<Rightarrow> ''(null)'' | Some s \<Rightarrow> s);
     Some (format_string (if precision c = - 1 then s else take (nat (precision c)) s) c, args)
   }"

definition convert_pointer :: "printf_conversion \<Rightarrow> arg list \<Rightarrow> (string \<times> arg list) option" where
  "convert_pointer c args = do {
     (w, args) \<leftarrow> va_int args;
     text' \<leftarrow> format_integer (unat w) False False base_x (c\<lparr>flags := {POUND}\<rparr>);
     Some (text', args)
   }"

definition char_arg :: "char \<Rightarrow> arg" where
  "char_arg k = Arg_int (word_of_int (sint (of_char k :: u8)))"

definition no_kernel :: string where
  "no_kernel = ''<<no %%%c in kernel>>''"

definition no_conversion :: string where
  "no_conversion = ''<<no %%%c conversion>>''"

section \<open>Parsing consumes the format\<close>

lemma parse_flags_suffix: "suffix (snd (parse_flags fl fmt)) fmt"
  by (induction fl fmt rule: parse_flags.induct) (auto intro: suffix_ConsI)

lemma parse_number_suffix: "parse_number n fmt = Some (m, fmt') \<Longrightarrow> suffix fmt' fmt"
  by (induction n fmt rule: parse_number.induct)
    (auto intro: suffix_ConsI split: if_splits bind_splits)

lemma suffix_tl: "suffix (tl xs) xs"
  by (cases xs) (auto intro: suffix_ConsI)

lemma parse_star_suffix: "parse_star fmt args = Some (n, fmt', args') \<Longrightarrow> suffix fmt' fmt"
  by (auto simp: parse_star_def suffix_tl dest: parse_number_suffix split: if_splits bind_splits prod.splits)

lemma parse_precision_suffix: "parse_precision fmt args = Some (n, fmt', args') \<Longrightarrow> suffix fmt' fmt"
  by (auto simp: parse_precision_def intro: suffix_order.trans [OF parse_star_suffix suffix_tl]
      split: if_splits bind_splits)

lemma parse_type_suffix: "suffix (snd (parse_type fmt)) fmt"
  by (induction fmt rule: parse_type.induct)
    (auto intro!: suffix_ConsI suffix_tl)

lemma parse_conversion_suffix:
  assumes "parse_conversion fmt args = Some (c, fmt', args')"
  shows "suffix fmt' fmt"
proof -
  obtain fl f1 where 1: "parse_flags {} fmt = (fl, f1)" by fastforce
  obtain w f2 a2 p f3 a3 where 2: "parse_star f1 args = Some (w, f2, a2)"
    "parse_precision f2 a2 = Some (p, f3, a3)" "snd (parse_type f3) = fmt'"
    using assms by (auto simp: parse_conversion_def 1 Let_def split: bind_splits prod.splits if_splits)
  have "suffix f1 fmt" using parse_flags_suffix [of "{}" fmt] by (simp add: 1)
  moreover have "suffix f2 f1" by (rule parse_star_suffix [OF 2(1)])
  moreover have "suffix f3 f2" by (rule parse_precision_suffix [OF 2(2)])
  moreover have "suffix fmt' f3" using parse_type_suffix [of f3] 2(3) by simp
  ultimately show ?thesis by (meson suffix_order.trans)
qed

section \<open>The interpreter of formats\<close>

text \<open>\<open>__vprintf\<close>.  The message for an unknown conversion is itself printed by \<open>__printf\<close>.  Where the
  format ends inside a conversion, \<open>format++\<close> steps over its terminator and the loop reads beyond it.\<close>

function vprintf_internal :: "string \<Rightarrow> arg list \<Rightarrow> string option" where
  "vprintf_internal [] args = Some []"
| "vprintf_internal (ch # fmt) args =
     (if ch \<noteq> CHR ''%'' then do { out \<leftarrow> vprintf_internal fmt args; Some (ch # out) }
      else if fmt \<noteq> [] \<and> hd fmt = CHR ''%''
      then do { out \<leftarrow> vprintf_internal (tl fmt) args; Some (CHR ''%'' # out) }
      else do {
        (c, fmt, args) \<leftarrow> parse_conversion fmt args;
        case fmt of
          [] \<Rightarrow> None
        | k # fmt \<Rightarrow> do {
            (text', args) \<leftarrow>
              if k \<in> set ''di'' then convert_signed c args
              else if k \<in> set ''ouxX'' then convert_unsigned k c args
              else if k = CHR ''c'' then convert_char c args
              else if k = CHR ''s'' then convert_string c args
              else if k = CHR ''p'' then convert_pointer c args
              else if k \<in> set ''feEgGn''
              then do { t \<leftarrow> vprintf_internal no_kernel [char_arg k]; Some (t, args) }
              else do { t \<leftarrow> vprintf_internal no_conversion [char_arg k]; Some (t, args) };
            out \<leftarrow> vprintf_internal fmt args;
            Some (text' @ out)
          }
      })"
  by pat_completeness auto

text \<open>The messages have no unknown conversion.\<close>

definition message_part :: "string \<Rightarrow> bool" where
  "message_part fmt \<longleftrightarrow> suffix fmt no_kernel \<or> suffix fmt no_conversion"

lemma message_part_suffix: "message_part fmt \<Longrightarrow> suffix fmt' fmt \<Longrightarrow> message_part fmt'"
  unfolding message_part_def by (elim disjE) (simp_all add: suffix_order.trans [of fmt' fmt])

lemma message_part_percent:
  "message_part (CHR ''%'' # fmt) \<Longrightarrow> fmt \<noteq> [] \<longrightarrow> hd fmt \<noteq> CHR ''%'' \<Longrightarrow>
     fmt = ''c in kernel>>'' \<or> fmt = ''c conversion>>''"
proof -
  assume *: "message_part (CHR ''%'' # fmt)" "fmt \<noteq> [] \<longrightarrow> hd fmt \<noteq> CHR ''%''"
  have "suffix (CHR ''%'' # fmt) no_kernel \<longleftrightarrow>
      fmt = ''%%c in kernel>>'' \<or> fmt = ''%c in kernel>>'' \<or> fmt = ''c in kernel>>''"
    by (simp add: suffix_Cons no_kernel_def)
  moreover have "suffix (CHR ''%'' # fmt) no_conversion \<longleftrightarrow>
      fmt = ''%%c conversion>>'' \<or> fmt = ''%c conversion>>'' \<or> fmt = ''c conversion>>''"
    by (simp add: suffix_Cons no_conversion_def)
  ultimately have "fmt = ''%%c in kernel>>'' \<or> fmt = ''%c in kernel>>'' \<or> fmt = ''c in kernel>>'' \<or>
      fmt = ''%%c conversion>>'' \<or> fmt = ''%c conversion>>'' \<or> fmt = ''c conversion>>''"
    using *(1) by (simp add: message_part_def)
  then show ?thesis using *(2) by (elim disjE) simp_all
qed

lemma message_part_conversion:
  assumes "message_part (CHR ''%'' # fmt)" "fmt \<noteq> [] \<longrightarrow> hd fmt \<noteq> CHR ''%''"
    "parse_conversion fmt args = Some (c, k # fmt', args')"
  shows "k = CHR ''c''"
proof -
  have "fmt = ''c in kernel>>'' \<or> fmt = ''c conversion>>''"
    by (rule message_part_percent [OF assms(1,2)])
  then have "parse_conversion fmt args = Some (\<lparr>flags = {}, width = 0, precision = - 1, conv_type = INT'\<rparr>, fmt, args)"
    by (elim disjE) (simp_all add: parse_conversion_def parse_star_def parse_precision_def isdigit_def code_def)
  with assms(3) have "fmt = k # fmt'" by simp
  with \<open>fmt = ''c in kernel>>'' \<or> fmt = ''c conversion>>''\<close> show ?thesis by (elim disjE) simp_all
qed

lemma unknown_conversion:
  "\<not> ch \<noteq> CHR ''%'' \<Longrightarrow> \<not> (fmt \<noteq> [] \<and> hd fmt = CHR ''%'') \<Longrightarrow>
     parse_conversion fmt args = Some y \<Longrightarrow> (c, z) = y \<Longrightarrow> (f', args') = z \<Longrightarrow> f' = k # fmt' \<Longrightarrow>
     k \<noteq> CHR ''c'' \<Longrightarrow> \<not> message_part (ch # fmt)"
  using message_part_conversion [of fmt args c k fmt' args'] by auto

lemma parse_conversion_rest:
  "\<not> ch \<noteq> CHR ''%'' \<Longrightarrow> parse_conversion fmt args = Some y \<Longrightarrow> (c, z) = y \<Longrightarrow> (f', args') = z \<Longrightarrow> f' = k # fmt' \<Longrightarrow>
     suffix fmt' (ch # fmt) \<and> length fmt' < length (ch # fmt)"
  using parse_conversion_suffix [of fmt args c "k # fmt'" args']
  by (auto intro: suffix_ConsI dest: suffix_ConsD suffix_length_le)

lemma message_part_messages [simp]: "message_part no_kernel" "message_part no_conversion"
  by (simp_all add: message_part_def)

termination vprintf_internal
proof (relation "inv_image ({(False, True)} <*lex*> less_than) (\<lambda>(fmt, args). (\<not> message_part fmt, length fmt))",
    goal_cases)
  case 1
  show ?case by (intro wf_inv_image wf_lex_prod wf_less_than) (auto simp: wf_def)
next
  case (2 ch fmt args)
  then show ?case
    using message_part_suffix [of "ch # fmt" fmt] by (auto intro: suffix_ConsI)
next
  case (3 ch fmt args)
  then show ?case
    using message_part_suffix [of "ch # fmt" "tl fmt"] by (auto intro: suffix_ConsI suffix_tl)
next
  case (4 ch fmt args)
  have "\<not> message_part (ch # fmt)"
    by (rule unknown_conversion [OF 4(1-6,9)])
  then show ?case by simp
next
  case (5 ch fmt args)
  have "\<not> message_part (ch # fmt)"
    by (rule unknown_conversion [OF 5(1-6,9)])
  then show ?case by simp
next
  case (6 ch fmt args)
  show ?case
    using parse_conversion_rest [OF 6(1,3-6)] message_part_suffix [of "ch # fmt"] by auto
qed

section \<open>Output to a buffer and to the console\<close>

record vsnprintf_aux =
  aux_p :: nat
  aux_length :: int
  aux_max_length :: int

text \<open>The helper writes into the caller's array \<open>buffer\<close>; \<open>aux_p\<close> is an index of it.\<close>

definition vsnprintf_helper :: "char \<Rightarrow> vsnprintf_aux \<times> string \<Rightarrow> (vsnprintf_aux \<times> string) option" where
  "vsnprintf_helper ch s = (case s of (aux, buffer) \<Rightarrow> do {
     n \<leftarrow> int_ok (aux_length aux + 1);
     let old = aux_length aux;
     let aux = aux\<lparr>aux_length := n\<rparr>;
     if old < aux_max_length aux then do {
       buffer \<leftarrow> update_opt buffer (aux_p aux) ch;
       Some (aux\<lparr>aux_p := aux_p aux + 1\<rparr>, buffer)
     } else Some (aux, buffer)
   })"

fun output_all :: "(char \<Rightarrow> 'a \<Rightarrow> 'a option) \<Rightarrow> string \<Rightarrow> 'a \<Rightarrow> 'a option" where
  "output_all f [] s = Some s"
| "output_all f (ch # text') s = do { s \<leftarrow> f ch s; output_all f text' s }"

definition vsnprintf :: "string \<Rightarrow> u32 \<Rightarrow> string \<Rightarrow> arg list \<Rightarrow> (int \<times> string) option" where
  "vsnprintf buffer buf_size fmt args = do {
     let aux = \<lparr>aux_p = 0, aux_length = 0, aux_max_length = (if 0 < buf_size then sint (buf_size - 1) else 0)\<rparr>;
     text' \<leftarrow> vprintf_internal fmt args;
     (aux, buffer) \<leftarrow> output_all vsnprintf_helper text' (aux, buffer);
     buffer \<leftarrow> if 0 < buf_size then update_opt buffer (aux_p aux) CHR 0x00 else Some buffer;
     Some (aux_length aux, buffer)
   }"

definition snprintf :: "string \<Rightarrow> u32 \<Rightarrow> string \<Rightarrow> arg list \<Rightarrow> (int \<times> string) option" where
  "snprintf buffer buf_size fmt args = vsnprintf buffer buf_size fmt args"

text \<open>The text that \<open>printf\<close> sends to the console.\<close>

definition printf :: "string \<Rightarrow> arg list \<Rightarrow> string option" where
  "printf fmt args = vprintf_internal fmt args"

text \<open>The loops of \<open>hex_dump\<close>: \<open>n\<close> times a constant, and the bytes at the columns from \<open>i\<close> on.\<close>

fun printf_repeat :: "nat \<Rightarrow> string \<Rightarrow> string option" where
  "printf_repeat 0 fmt = Some []"
| "printf_repeat (Suc n) fmt = do { t \<leftarrow> printf fmt []; u \<leftarrow> printf_repeat n fmt; Some (t @ u) }"

fun hex_bytes :: "nat \<Rightarrow> u8 list \<Rightarrow> string option" where
  "hex_bytes i [] = Some []"
| "hex_bytes i (b # bs) = do {
     t \<leftarrow> printf ''%02hhx%c'' [Arg_int (ucast b), char_arg (if i = 16 div 2 - 1 then CHR ''-'' else CHR '' '')];
     u \<leftarrow> hex_bytes (i + 1) bs;
     Some (t @ u)
   }"

fun ascii_bytes :: "u8 list \<Rightarrow> string option" where
  "ascii_bytes [] = Some []"
| "ascii_bytes (b # bs) = do {
     t \<leftarrow> printf ''%c'' [if isprint (char_of (unat b)) then Arg_int (ucast b) else char_arg CHR ''.''];
     u \<leftarrow> ascii_bytes bs;
     Some (t @ u)
   }"

definition hex_line :: "nat \<Rightarrow> nat \<Rightarrow> u8 list \<Rightarrow> bool \<Rightarrow> string option" where
  "hex_line ofs start bs ascii = do {
     let blank = 16 - (start + length bs);
     t1 \<leftarrow> printf ''%08jx  '' [Arg_long (of_nat (ROUND_DOWN ofs 16))];
     t2 \<leftarrow> printf_repeat start ''   '';
     t3 \<leftarrow> hex_bytes start bs;
     t4 \<leftarrow> if \<not> ascii then Some [] else do {
       u1 \<leftarrow> printf_repeat blank ''   '';
       u2 \<leftarrow> printf ''|'' [];
       u3 \<leftarrow> printf_repeat start '' '';
       u4 \<leftarrow> ascii_bytes bs;
       u5 \<leftarrow> printf_repeat blank '' '';
       u6 \<leftarrow> printf ''|'' [];
       Some (u1 @ u2 @ u3 @ u4 @ u5 @ u6)
     };
     t5 \<leftarrow> printf [CHR 0x0A] [];
     Some (t1 @ t2 @ t3 @ t4 @ t5)
   }"

text \<open>\<open>hex_dump\<close> of the bytes \<open>buf\<close>, whose number is its \<open>size\<close> argument.\<close>

function hex_dump :: "nat \<Rightarrow> u8 list \<Rightarrow> bool \<Rightarrow> string option" where
  "hex_dump ofs buf ascii =
     (if buf = [] then Some []
      else let start = ofs mod 16;
               end' = (if length buf < 16 - start then start + length buf else 16);
               n = end' - start
           in do {
             line \<leftarrow> hex_line ofs start (take n buf) ascii;
             rest \<leftarrow> hex_dump (size_add ofs n) (drop n buf) ascii;
             Some (line @ rest)
           })"
  by auto
termination by (relation "measure (\<lambda>(ofs, buf, ascii). length buf)") (auto split: if_splits)

declare hex_dump.simps [simp del]

text \<open>\<open>fp\<close> walks over the names of the factors; \<open>NULL\<close> ends them.\<close>

fun scale_size :: "nat \<Rightarrow> string list \<Rightarrow> (nat \<times> string) option" where
  "scale_size n [] = None"
| "scale_size n [f] = Some (n, f)"
| "scale_size n (f # g # fs) = (if 1024 \<le> n then scale_size (n div 1024) (g # fs) else Some (n, f))"

definition print_human_readable_size :: "u64 \<Rightarrow> string option" where
  "print_human_readable_size size' =
     (if size' = 1 then printf ''1 byte'' []
      else do {
        (n, f) \<leftarrow> scale_size (unat size') [''bytes'', ''kB'', ''MB'', ''GB'', ''TB''];
        printf ''%llu %s'' [Arg_long (of_nat n), Arg_str (Some f)]
      })"

section \<open>Numbers from strings\<close>

fun atoi_digits :: "int \<Rightarrow> string \<Rightarrow> int option" where
  "atoi_digits v [] = Some v"
| "atoi_digits v (ch # s) =
     (if isdigit ch then do { n \<leftarrow> int_ok (v * 10); n \<leftarrow> int_ok (n - (code ch - 48)); atoi_digits n s }
      else Some v)"

definition atoi :: "string \<Rightarrow> int option" where
  "atoi s = do {
     let s = dropWhile isspace s;
     let negative = (s \<noteq> [] \<and> hd s = CHR ''-'');
     let s = (if s \<noteq> [] \<and> hd s \<in> {CHR ''+'', CHR ''-''} then tl s else s);
     v \<leftarrow> atoi_digits 0 s;
     if negative then Some v else int_ok (- v)
   }"

end
