(* ===== verification/Pintos_Printf.thy ===== *)
theory Pintos_Printf
  imports Pintos_Stdio
begin

text \<open>
  What \<open>Pintos_Stdio\<close> prints: integers in the four bases read back as the value printed and never
  overrun the buffer of \<open>format_integer\<close>, \<open>atoi\<close> inverts \<open>%d\<close>, and \<open>vsnprintf\<close> stores a terminated
  prefix of the text inside the caller's buffer.
\<close>

section \<open>Reading a number back\<close>

text \<open>The reference reading of a printed number, most significant digit first.\<close>

definition digit_index :: "integer_base \<Rightarrow> char \<Rightarrow> nat" where
  "digit_index b ch = length (takeWhile (\<lambda>d. d \<noteq> ch) (ib_digits b))"

definition read_number :: "integer_base \<Rightarrow> string \<Rightarrow> nat" where
  "read_number b s = foldl (\<lambda>n ch. n * ib_base b + digit_index b ch) 0 (filter (\<lambda>ch. ch \<noteq> CHR '','') s)"

definition low_number :: "integer_base \<Rightarrow> string \<Rightarrow> nat" where
  "low_number b s = foldr (\<lambda>ch n. n * ib_base b + digit_index b ch) (filter (\<lambda>ch. ch \<noteq> CHR '','') s) 0"

lemma read_number_rev: "read_number b (rev s) = low_number b s"
  by (simp add: read_number_def low_number_def foldr_conv_foldl rev_filter)

lemma low_number_simps [simp]:
  "low_number b [] = 0"
  "low_number b (CHR '','' # s) = low_number b s"
  "ch \<noteq> CHR '','' \<Longrightarrow> low_number b (ch # s) = low_number b s * ib_base b + digit_index b ch"
  by (simp_all add: low_number_def)

lemma digit_index_nth: "distinct (ib_digits b) \<Longrightarrow> i < length (ib_digits b) \<Longrightarrow> digit_index b (ib_digits b ! i) = i"
proof -
  assume *: "distinct (ib_digits b)" "i < length (ib_digits b)"
  have "takeWhile (\<lambda>d. d \<noteq> ib_digits b ! i) (ib_digits b) = take i (ib_digits b)"
    using * by (intro takeWhile_eq_take_P_nth) (auto simp: nth_eq_iff_index_eq)
  then show ?thesis using * by (simp add: digit_index_def)
qed

locale number_base =
  fixes b :: integer_base
  assumes base_ge: "8 \<le> ib_base b"
    and digits_length: "length (ib_digits b) = ib_base b"
    and digits_distinct: "distinct (ib_digits b)"
    and digits_comma: "CHR '','' \<notin> set (ib_digits b)"
    and digits_zero: "ib_digits b ! 0 = CHR ''0''"
begin

lemma digit_in: "v mod ib_base b < length (ib_digits b)"
  using base_ge by (simp add: digits_length)

lemma digit_not_comma: "ib_digits b ! (v mod ib_base b) \<noteq> CHR '',''"
  using nth_mem [OF digit_in] digits_comma by metis

lemma div_less: "v < 8 ^ Suc k \<Longrightarrow> v div ib_base b < 8 ^ k"
proof -
  assume "v < 8 ^ Suc k"
  then have "v < 8 ^ k * 8" by simp
  also have "\<dots> \<le> 8 ^ k * ib_base b" using base_ge by simp
  finally show ?thesis using base_ge by (simp add: div_less_iff_less_mult)
qed

lemma low_number_digit:
  "low_number b (ib_digits b ! (v mod ib_base b) # ds) = low_number b ds * ib_base b + v mod ib_base b"
  using digit_in [of v] by (simp add: digit_not_comma digit_index_nth digits_distinct)

lemma accumulate_ok:
  "v < 8 ^ k \<Longrightarrow> length buf + 2 * k \<le> 64 \<Longrightarrow>
    \<exists>ds. accumulate b fl v cnt buf = Some (buf @ ds) \<and> length ds \<le> 2 * k \<and>
         (GROUP \<notin> fl \<longrightarrow> length ds \<le> k) \<and> low_number b ds = v \<and>
         set ds \<subseteq> insert (CHR '','') (set (ib_digits b)) \<and> (GROUP \<notin> fl \<longrightarrow> CHR '','' \<notin> set ds)"
proof (induction k arbitrary: v cnt buf)
  case 0
  then show ?case by (subst accumulate.simps) simp
next
  case (Suc k)
  show ?case
  proof (cases "v = 0")
    case True
    then show ?thesis by (subst accumulate.simps) simp
  next
    case False
    define sep where "sep = (if GROUP \<in> fl \<and> 0 < cnt \<and> cnt mod ib_group b = 0 then '','' else [])"
    define d where "d = ib_digits b ! (v mod ib_base b)"
    have len: "length (buf @ sep @ [d]) + 2 * k \<le> 64" using Suc.prems(2) by (simp add: sep_def)
    have step: "accumulate b fl v cnt buf = accumulate b fl (v div ib_base b) (cnt + 1) (buf @ sep @ [d])"
      using False Suc.prems digit_in [of v]
      by (subst accumulate.simps) (simp add: put_def sep_def d_def)
    obtain ds where ds: "accumulate b fl (v div ib_base b) (cnt + 1) (buf @ sep @ [d]) = Some ((buf @ sep @ [d]) @ ds)"
      "length ds \<le> 2 * k" "GROUP \<notin> fl \<longrightarrow> length ds \<le> k" "low_number b ds = v div ib_base b"
      "set ds \<subseteq> insert (CHR '','') (set (ib_digits b))" "GROUP \<notin> fl \<longrightarrow> CHR '','' \<notin> set ds"
      using Suc.IH [OF div_less [OF Suc.prems(1)] len, where cnt = "cnt + 1"] by (elim exE conjE) (rule that)
    have "low_number b (d # ds) = v"
      using ds(4) low_number_digit [of v ds] by (simp add: d_def)
    then have "low_number b (sep @ d # ds) = v" by (simp add: sep_def)
    moreover have "d \<in> set (ib_digits b)" "d \<noteq> CHR '',''"
      using nth_mem [OF digit_in [of v]] digit_not_comma [of v] by (simp_all add: d_def)
    ultimately show ?thesis
      using step ds by (intro exI [of _ "sep @ d # ds"]) (auto simp: sep_def)
  qed
qed

lemma low_number_zeros: "low_number b (ds @ replicate n (CHR ''0'')) = low_number b ds"
proof -
  have "digit_index b (CHR ''0'') = 0"
    using digit_index_nth [OF digits_distinct, of 0] base_ge by (simp add: digits_length digits_zero)
  then have "foldr (\<lambda>ch n. n * ib_base b + digit_index b ch) (replicate n (CHR ''0'')) 0 = 0"
    by (induction n) simp_all
  then show ?thesis by (simp add: low_number_def)
qed

end

lemma append_zeros_eq:
  "append_zeros p buf = buf @ replicate (nat (min p 63) - length buf) (CHR ''0'')"
proof (induction p buf rule: append_zeros.induct)
  case (1 p buf)
  show ?case
  proof (cases "int (length buf) < p \<and> length buf < 63")
    case True
    then have n: "nat (min p 63) - length buf = Suc (nat (min p 63) - length (buf @ ''0''))" by auto
    have "append_zeros p buf = append_zeros p (buf @ ''0'')"
      using True by (subst append_zeros.simps) simp
    also have "\<dots> = (buf @ ''0'') @ replicate (nat (min p 63) - length (buf @ ''0'')) (CHR ''0'')"
      by (rule 1) (use True in simp)
    also have "\<dots> = buf @ replicate (nat (min p 63) - length buf) (CHR ''0'')"
      unfolding n by simp
    finally show ?thesis .
  next
    case False
    then show ?thesis by (subst append_zeros.simps) auto
  qed
qed

context number_base
begin

lemma format_integer_ok:
  assumes "v < 2 ^ 64"
  obtains left zeros ds right text' where "format_integer v sg ng b c = Some text'"
    "text' = left @ option_char (sign_char sg ng (flags c))
       @ (case if POUND \<in> flags c \<and> v \<noteq> 0 then ib_x b else None of None \<Rightarrow> [] | Some ch \<Rightarrow> [CHR ''0'', ch])
       @ zeros @ ds @ right"
    "set left \<subseteq> {CHR '' ''}" "set zeros \<subseteq> {CHR ''0''}" "set right \<subseteq> {CHR '' ''}"
    "read_number b ds = v" "set ds \<subseteq> insert (CHR '','') (set (ib_digits b))"
    "GROUP \<notin> flags c \<longrightarrow> CHR '','' \<notin> set ds" "width c \<le> int (length text')"
proof -
  have "v < 8 ^ 22" by (rule less_trans [OF assms]) simp
  then obtain ds where ds: "accumulate b (flags c) v 0 [] = Some ds" "length ds \<le> 44" "low_number b ds = v"
      "set ds \<subseteq> insert (CHR '','') (set (ib_digits b))" "GROUP \<notin> flags c \<longrightarrow> CHR '','' \<notin> set ds"
    using accumulate_ok [of v 22 "[]" "flags c" 0] by auto
  define z where "z = nat (min (if precision c < 0 then 1 else precision c) 63) - length ds"
  define o' where "o' = (if POUND \<in> flags c \<and> ib_base b = 8 \<and> (ds @ replicate z (CHR ''0'') = [] \<or>
      last (ds @ replicate z (CHR ''0'')) \<noteq> CHR ''0'') then (1::nat) else 0)"
  define buf where "buf = ds @ replicate (z + o') (CHR ''0'')"
  define x where "x = (if POUND \<in> flags c \<and> v \<noteq> 0 then ib_x b else None)"
  define sign where "sign = sign_char sg ng (flags c)"
  define pad where "pad = nat (width c - int (length buf) - (if x \<noteq> None then 2 else 0) - (if sign \<noteq> None then 1 else 0))"
  have "length ds + z < 64" using ds(2) by (simp add: z_def)
  then have buf: "(if POUND \<in> flags c \<and> ib_base b = 8 \<and> (ds @ replicate z (CHR ''0'') = [] \<or>
      last (ds @ replicate z (CHR ''0'')) \<noteq> CHR ''0'')
           then put (ds @ replicate z (CHR ''0'')) CHR ''0'' else Some (ds @ replicate z (CHR ''0''))) = Some buf"
    by (simp add: o'_def buf_def put_def replicate_append_same)
  define left where "left = (if MINUS \<notin> flags c \<and> ZERO \<notin> flags c then output_dup CHR '' '' pad else [])"
  define right where "right = (if MINUS \<in> flags c then output_dup CHR '' '' pad else [])"
  define zeros where "zeros = (if ZERO \<in> flags c then output_dup CHR ''0'' pad else [])"
  define text' where "text' = left @ option_char sign @ (case x of None \<Rightarrow> [] | Some ch \<Rightarrow> [CHR ''0'', ch])
    @ zeros @ rev buf @ right"
  have res: "format_integer v sg ng b c = Some text'"
    unfolding format_integer_def Let_def ds(1) Option.bind.bind_lunit append_zeros_eq
      z_def [symmetric] buf x_def [symmetric] sign_def [symmetric] pad_def [symmetric]
    by (simp add: text'_def left_def zeros_def right_def)
  have zero_digit: "CHR ''0'' \<in> set (ib_digits b)"
    using nth_mem [of 0 "ib_digits b"] base_ge by (simp add: digits_length digits_zero)
  show thesis
  proof (rule that [OF res])
    show "text' = left @ option_char (sign_char sg ng (flags c))
       @ (case if POUND \<in> flags c \<and> v \<noteq> 0 then ib_x b else None of None \<Rightarrow> [] | Some ch \<Rightarrow> [CHR ''0'', ch])
       @ zeros @ rev buf @ right"
      by (simp add: text'_def sign_def x_def)
    show "read_number b (rev buf) = v"
      by (simp only: read_number_rev buf_def low_number_zeros ds(3))
    show "set (rev buf) \<subseteq> insert (CHR '','') (set (ib_digits b))"
      using ds(4) zero_digit by (auto simp: buf_def)
    show "GROUP \<notin> flags c \<longrightarrow> CHR '','' \<notin> set (rev buf)"
      using ds(5) by (auto simp: buf_def)
    show "width c \<le> int (length text')"
      by (auto simp: text'_def left_def right_def zeros_def output_dup_def option_char_def pad_def
          split: option.splits)
  qed (auto simp: left_def right_def zeros_def output_dup_def)
qed

end

interpretation decimal: number_base base_d
  by unfold_locales (simp_all add: base_d_def)

interpretation octal: number_base base_o
  by unfold_locales (simp_all add: base_o_def)

interpretation hex_lower: number_base base_x
  by unfold_locales (simp_all add: base_x_def)

interpretation hex_upper: number_base base_X
  by unfold_locales (simp_all add: base_X_def)


section \<open>\<open>atoi\<close> reads what \<open>%d\<close> prints\<close>

definition decimal_value :: "int \<Rightarrow> string \<Rightarrow> int" where
  "decimal_value n s = foldl (\<lambda>n ch. n * 10 + (code ch - 48)) n s"

lemma decimal_value_ge: "0 \<le> n \<Longrightarrow> list_all isdigit s \<Longrightarrow> n \<le> decimal_value n s"
proof (induction s arbitrary: n)
  case (Cons ch s)
  then have "n \<le> n * 10 + (code ch - 48)" by (simp add: isdigit_def)
  also have "\<dots> \<le> decimal_value (n * 10 + (code ch - 48)) s"
    using Cons.prems by (intro Cons.IH) (simp_all add: isdigit_def)
  finally show ?case by (simp add: decimal_value_def)
qed (simp add: decimal_value_def)

lemma atoi_digits_run:
  "0 \<le> n \<Longrightarrow> list_all isdigit s \<Longrightarrow> rest = [] \<or> \<not> isdigit (hd rest) \<Longrightarrow> decimal_value n s \<le> 2 ^ 31 \<Longrightarrow>
     atoi_digits (- n) (s @ rest) = Some (- decimal_value n s)"
proof (induction s arbitrary: n)
  case Nil
  then show ?case by (cases rest) (simp_all add: decimal_value_def)
next
  case (Cons ch s)
  define m where "m = n * 10 + (code ch - 48)"
  have d: "isdigit ch" "0 \<le> code ch - 48" using Cons.prems(2) by (simp_all add: isdigit_def)
  have m: "decimal_value n (ch # s) = decimal_value m s" by (simp add: decimal_value_def m_def)
  have "0 \<le> m" using d(2) Cons.prems(1) by (simp add: m_def)
  moreover have "m \<le> 2 ^ 31"
    using decimal_value_ge [of m s] Cons.prems m \<open>0 \<le> m\<close> by simp
  ultimately have ok: "int_ok (- n * 10) = Some (- n * 10)" "int_ok (- n * 10 - (code ch - 48)) = Some (- m)"
    using d(2) Cons.prems(1) by (simp_all add: int_ok_def m_def)
  have "atoi_digits (- m) (s @ rest) = Some (- decimal_value m s)"
    using Cons.prems m by (intro Cons.IH) (simp_all add: \<open>0 \<le> m\<close>)
  then show ?case
    using d ok m by simp
qed

lemma decimal_digit:
  "ch \<in> set (ib_digits base_d) \<Longrightarrow> isdigit ch \<and> int (digit_index base_d ch) = code ch - 48"
proof -
  assume "ch \<in> set (ib_digits base_d)"
  then have "ch = CHR ''0'' \<or> ch = CHR ''1'' \<or> ch = CHR ''2'' \<or> ch = CHR ''3'' \<or> ch = CHR ''4'' \<or>
      ch = CHR ''5'' \<or> ch = CHR ''6'' \<or> ch = CHR ''7'' \<or> ch = CHR ''8'' \<or> ch = CHR ''9''"
    by (simp add: base_d_def)
  then show ?thesis
    by (elim disjE) (simp_all add: base_d_def isdigit_def code_def digit_index_def)
qed

lemma decimal_value_read:
  "set s \<subseteq> set (ib_digits base_d) \<Longrightarrow>
     decimal_value (int n) s = int (foldl (\<lambda>n ch. n * 10 + digit_index base_d ch) n s)"
proof (induction s arbitrary: n)
  case (Cons ch s)
  have *: "int n * 10 + (code ch - 48) = int (n * 10 + digit_index base_d ch)"
    using decimal_digit [of ch] Cons.prems by simp
  have "decimal_value (int n) (ch # s) = decimal_value (int n * 10 + (code ch - 48)) s"
    by (simp add: decimal_value_def)
  also have "\<dots> = int (foldl (\<lambda>n ch. n * 10 + digit_index base_d ch) n (ch # s))"
    unfolding * using Cons.prems by (subst Cons.IH) simp_all
  finally show ?case .
qed (simp add: decimal_value_def)

lemma decimal_value_zeros: "set zs \<subseteq> {CHR ''0''} \<Longrightarrow> decimal_value 0 (zs @ s) = decimal_value 0 s"
  by (induction zs) (auto simp: decimal_value_def code_def)

lemma digits_read:
  assumes "set zs \<subseteq> {CHR ''0''}" "set ds \<subseteq> insert (CHR '','') (set (ib_digits base_d))"
    "CHR '','' \<notin> set ds"
  shows "decimal_value 0 (zs @ ds) = int (read_number base_d ds)" "list_all isdigit (zs @ ds)"
proof -
  have ds: "set ds \<subseteq> set (ib_digits base_d)" using assms(2,3) by auto
  have "filter (\<lambda>ch. ch \<noteq> CHR '','') ds = ds" using assms(3) by (auto simp: filter_id_conv)
  then show "decimal_value 0 (zs @ ds) = int (read_number base_d ds)"
    using decimal_value_read [OF ds, of 0] decimal_value_zeros [OF assms(1)]
    by (simp add: read_number_def base_d_def)
  have "isdigit ch" if "ch \<in> set (zs @ ds)" for ch
  proof (cases "ch \<in> set ds")
    case True
    then show ?thesis using ds decimal_digit [of ch] by auto
  next
    case False
    then have "ch = CHR ''0''" using that assms(1) by auto
    then show ?thesis by (simp add: isdigit_def code_def)
  qed
  then show "list_all isdigit (zs @ ds)" by (simp add: list_all_iff)
qed

lemma spaces_dropped: "set left \<subseteq> {CHR '' ''} \<Longrightarrow> dropWhile isspace (left @ s) = dropWhile isspace s"
  by (induction left) (auto simp: isspace_def)

lemma digits_not_space: "list_all isdigit s \<Longrightarrow> s \<noteq> [] \<Longrightarrow> \<not> isspace (hd s) \<and> hd s \<noteq> CHR ''-'' \<and> hd s \<noteq> CHR ''+''"
  by (cases s) (auto simp: isdigit_def isspace_def code_def)

lemma blank_not_digit: "set right \<subseteq> {CHR '' ''} \<Longrightarrow> right = [] \<or> \<not> isdigit (hd right)"
  by (cases right) (auto simp: isdigit_def code_def)

lemma sign_char_cases:
  "sign_char True ng fl \<in> (if ng then {Some CHR ''-''} else {None, Some CHR ''+'', Some CHR '' ''})"
  by (simp add: sign_char_def)

text \<open>The empty digit string of \<open>%.0d\<close> for 0 leaves only blanks, which \<open>atoi\<close> reads as 0.\<close>

lemma atoi_unsigned_part:
  assumes "list_all isdigit s" "set right \<subseteq> {CHR '' ''}" "decimal_value 0 s < 2 ^ 31"
  shows "atoi (s @ right) = Some (decimal_value 0 s)"
proof (cases "s = []")
  case True
  have d: "dropWhile isspace right = []"
    using spaces_dropped [OF assms(2), of "[]"] by simp
  show ?thesis using True by (simp add: atoi_def decimal_value_def int_ok_def d)
next
  case False
  then obtain ch s' where s: "s = ch # s'" by (cases s) auto
  have ns: "\<not> isspace ch \<and> ch \<noteq> CHR ''-'' \<and> ch \<noteq> CHR ''+''" using digits_not_space [OF assms(1)] s by simp
  have run: "atoi_digits 0 (s @ right) = Some (- decimal_value 0 s)"
    using atoi_digits_run [of 0 s right] assms blank_not_digit [OF assms(2)] by simp
  have "0 \<le> decimal_value 0 s" using decimal_value_ge [of 0 s] assms(1) by simp
  then show ?thesis
    using run ns assms(3) by (simp add: atoi_def s int_ok_def)
qed

lemma atoi_signed_part:
  assumes "list_all isdigit s" "set right \<subseteq> {CHR '' ''}" "decimal_value 0 s \<le> 2 ^ 31"
  shows "atoi (CHR ''-'' # s @ right) = Some (- decimal_value 0 s)"
    and "decimal_value 0 s < 2 ^ 31 \<Longrightarrow> atoi (CHR ''+'' # s @ right) = Some (decimal_value 0 s)"
proof -
  have run: "atoi_digits 0 (s @ right) = Some (- decimal_value 0 s)"
    using atoi_digits_run [of 0 s right] assms blank_not_digit [OF assms(2)] by simp
  then show "atoi (CHR ''-'' # s @ right) = Some (- decimal_value 0 s)"
    by (simp add: atoi_def isspace_def)
  have "0 \<le> decimal_value 0 s" using decimal_value_ge [of 0 s] assms(1) by simp
  then show "decimal_value 0 s < 2 ^ 31 \<Longrightarrow> atoi (CHR ''+'' # s @ right) = Some (decimal_value 0 s)"
    using run by (simp add: atoi_def isspace_def int_ok_def)
qed

lemma atoi_blank: "atoi (CHR '' '' # s) = atoi s"
  by (simp add: atoi_def isspace_def)

lemma atoi_left: "set left \<subseteq> {CHR '' ''} \<Longrightarrow> atoi (left @ s) = atoi s"
  using spaces_dropped [of left s] by (simp add: atoi_def)

lemma atoi_format_integer:
  assumes "- (2 ^ 31) \<le> v" "v < 2 ^ 31" "GROUP \<notin> flags c"
  shows "\<exists>text'. format_integer (nat \<bar>v\<bar>) True (v < 0) base_d c = Some text' \<and> atoi text' = Some v"
proof -
  have "\<bar>v\<bar> \<le> 2 ^ 31" using assms(1,2) by auto
  then have v64: "nat \<bar>v\<bar> < 2 ^ 64" by simp
  obtain left zeros ds right text' where f: "format_integer (nat \<bar>v\<bar>) True (v < 0) base_d c = Some text'"
    and t: "text' = left @ option_char (sign_char True (v < 0) (flags c))
       @ (case if POUND \<in> flags c \<and> nat \<bar>v\<bar> \<noteq> 0 then ib_x base_d else None of None \<Rightarrow> [] | Some ch \<Rightarrow> [CHR ''0'', ch])
       @ zeros @ ds @ right"
    and l: "set left \<subseteq> {CHR '' ''}" and z: "set zeros \<subseteq> {CHR ''0''}" and r: "set right \<subseteq> {CHR '' ''}"
    and ds: "read_number base_d ds = nat \<bar>v\<bar>" "set ds \<subseteq> insert (CHR '','') (set (ib_digits base_d))"
      "GROUP \<notin> flags c \<longrightarrow> CHR '','' \<notin> set ds"
    by (rule decimal.format_integer_ok [OF v64])
  define s where "s = zeros @ ds"
  have x: "(case if POUND \<in> flags c \<and> nat \<bar>v\<bar> \<noteq> 0 then ib_x base_d else None of None \<Rightarrow> [] | Some ch \<Rightarrow> [CHR ''0'', ch]) = []"
    by (simp add: base_d_def)
  have s: "decimal_value 0 s = \<bar>v\<bar>" "list_all isdigit s"
    using digits_read [OF z ds(2)] ds(1,3) assms(3) by (simp_all add: s_def)
  have "atoi text' = atoi (option_char (sign_char True (v < 0) (flags c)) @ s @ right)"
    unfolding t x using atoi_left [OF l] by (simp add: s_def)
  also have "\<dots> = Some v"
  proof (cases "v < 0")
    case True
    then have "sign_char True (v < 0) (flags c) = Some CHR ''-''" by (simp add: sign_char_def)
    then show ?thesis
      using atoi_signed_part(1) [OF s(2) r] s(1) True assms(1) by (simp add: option_char_def)
  next
    case False
    then have "sign_char True (v < 0) (flags c) \<in> {None, Some CHR ''+'', Some CHR '' ''}"
      using sign_char_cases [of False "flags c"] by simp
    then show ?thesis
      using atoi_signed_part(2) [OF s(2) r] atoi_unsigned_part [OF s(2) r] s(1) False assms(2)
      by (auto simp: option_char_def atoi_blank)
  qed
  finally show ?thesis using f by blast
qed

section \<open>\<open>vsnprintf\<close> stays inside its buffer\<close>

definition overwrite :: "nat \<Rightarrow> string \<Rightarrow> string \<Rightarrow> string" where
  "overwrite p xs buffer = take p buffer @ xs @ drop (p + length xs) buffer"

lemma overwrite_Nil [simp]: "overwrite p [] buffer = buffer"
  by (simp add: overwrite_def)

lemma overwrite_Cons:
  "p < length buffer \<Longrightarrow> overwrite (Suc p) xs (buffer[p := ch]) = overwrite p (ch # xs) buffer"
  by (simp add: overwrite_def take_Suc_conv_app_nth)

lemma length_overwrite [simp]: "p + length xs \<le> length buffer \<Longrightarrow> length (overwrite p xs buffer) = length buffer"
  by (simp add: overwrite_def)

lemma overwrite_snoc:
  assumes "p + length xs < length buffer"
  shows "(overwrite p xs buffer)[p + length xs := ch] = overwrite p (xs @ [ch]) buffer"
  using assms Cons_nth_drop_Suc [OF assms, symmetric] by (simp add: overwrite_def list_update_append)

lemma vsnprintf_helper_eq:
  assumes "0 \<le> l" "l + 1 < 2 ^ 31"
  shows "l < m \<Longrightarrow> p < length buffer \<Longrightarrow>
      vsnprintf_helper ch (\<lparr>aux_p = p, aux_length = l, aux_max_length = m\<rparr>, buffer) =
        Some (\<lparr>aux_p = Suc p, aux_length = l + 1, aux_max_length = m\<rparr>, buffer[p := ch])"
    and "\<not> l < m \<Longrightarrow>
      vsnprintf_helper ch (\<lparr>aux_p = p, aux_length = l, aux_max_length = m\<rparr>, buffer) =
        Some (\<lparr>aux_p = p, aux_length = l + 1, aux_max_length = m\<rparr>, buffer)"
  using assms by (simp_all add: vsnprintf_helper_def int_ok_def)

lemma output_all_helper:
  "0 \<le> l \<Longrightarrow> l + int (length text') < 2 ^ 31 \<Longrightarrow> 0 \<le> m \<Longrightarrow> m \<le> int (length buffer) \<Longrightarrow> int p = min l m \<Longrightarrow>
   output_all vsnprintf_helper text' (\<lparr>aux_p = p, aux_length = l, aux_max_length = m\<rparr>, buffer) =
     Some (\<lparr>aux_p = p + length (take (nat m - p) text'), aux_length = l + int (length text'), aux_max_length = m\<rparr>,
           overwrite p (take (nat m - p) text') buffer)"
proof (induction text' arbitrary: l p buffer)
  case (Cons ch text')
  have l: "0 \<le> l" "l + 1 < 2 ^ 31" using Cons.prems by simp_all
  show ?case
  proof (cases "l < m")
    case True
    then have p: "int p = l" "p < length buffer" "nat m - p = Suc (nat m - Suc p)" using Cons.prems by auto
    have "output_all vsnprintf_helper text' (\<lparr>aux_p = Suc p, aux_length = l + 1, aux_max_length = m\<rparr>, buffer[p := ch]) =
      Some (\<lparr>aux_p = Suc p + length (take (nat m - Suc p) text'), aux_length = l + 1 + int (length text'), aux_max_length = m\<rparr>,
           overwrite (Suc p) (take (nat m - Suc p) text') (buffer[p := ch]))"
      using Cons.prems True p by (intro Cons.IH) auto
    then show ?thesis
      using True p by (simp add: vsnprintf_helper_eq(1) [OF l] overwrite_Cons)
  next
    case False
    then have p: "int p = m" "nat m - p = 0" using Cons.prems by auto
    have "output_all vsnprintf_helper text' (\<lparr>aux_p = p, aux_length = l + 1, aux_max_length = m\<rparr>, buffer) =
      Some (\<lparr>aux_p = p + length (take (nat m - p) text'), aux_length = l + 1 + int (length text'), aux_max_length = m\<rparr>,
           overwrite p (take (nat m - p) text') buffer)"
      using Cons.prems False by (intro Cons.IH) auto
    then show ?thesis
      using False p(2) by (simp add: vsnprintf_helper_eq(2) [OF l])
  qed
qed simp

lemma sint_buf_size:
  fixes n :: u32
  assumes "0 < n" "unat n \<le> 2 ^ 31"
  shows "sint (n - 1) = int (unat n - 1)"
proof -
  have u: "unat (n - 1) = unat n - 1" using assms(1) by (simp add: unat_minus_one word_neq_0_conv)
  have "uint (n - 1) = int (unat n - 1)" by (simp only: uint_nat u)
  moreover have "k - 1 < 2 ^ 31" if "k \<le> 2 ^ 31" for k :: nat using that by simp
  from this [OF assms(2)] have "int (unat n - 1) < int (2 ^ 31)" by (simp only: of_nat_less_iff)
  ultimately show ?thesis by (simp add: sint_uint signed_take_bit_int_eq_self)
qed

lemma vsnprintf_stores:
  assumes "vprintf_internal fmt args = Some text'" "length text' < 2 ^ 31"
    "0 < n" "unat n \<le> 2 ^ 31" "unat n \<le> length buffer"
  shows "vsnprintf buffer n fmt args =
    Some (int (length text'), overwrite 0 (take (unat n - 1) text' @ [CHR 0x00]) buffer)"
proof -
  have n: "sint (n - 1) = int (unat n - 1)" by (rule sint_buf_size [OF assms(3,4)])
  have pos: "0 < unat n" using assms(3) by (simp add: word_less_nat_alt)
  have "output_all vsnprintf_helper text' (\<lparr>aux_p = 0, aux_length = 0, aux_max_length = int (unat n - 1)\<rparr>, buffer) =
     Some (\<lparr>aux_p = length (take (unat n - 1) text'), aux_length = int (length text'), aux_max_length = int (unat n - 1)\<rparr>,
           overwrite 0 (take (unat n - 1) text') buffer)"
    using output_all_helper [of 0 text' "int (unat n - 1)" buffer 0] assms by simp
  moreover have "(overwrite 0 (take (unat n - 1) text') buffer)[length (take (unat n - 1) text') := CHR 0x00]
      = overwrite 0 (take (unat n - 1) text' @ [CHR 0x00]) buffer"
    using overwrite_snoc [of 0 "take (unat n - 1) text'" buffer "CHR 0x00"] pos assms(5) by simp
  moreover have "length (take (unat n - 1) text') < length (overwrite 0 (take (unat n - 1) text') buffer)"
    using pos assms(5) by (simp add: overwrite_def)
  ultimately show ?thesis
    using assms(1,3) n by (simp add: vsnprintf_def)
qed


section \<open>Properties\<close>

text \<open>C26. Integer conversions print the value: for every 64-bit value, each of the four bases and every
  combination of flags, width and precision, \<open>format_integer\<close> returns without overrunning its buffer
  of 64 characters, and what it prints is blanks, the sign, \<open>0x\<close> if asked for, zeros, digits that read
  back as the value in that base, and blanks, at least as wide as the field.\<close>

theorem format_integer_correct:
  assumes "v < 2 ^ 64" "b \<in> {base_d, base_o, base_x, base_X}"
  shows "\<exists>left zeros ds right text'. format_integer v is_signed negative b c = Some text' \<and>
    text' = left @ option_char (sign_char is_signed negative (flags c))
       @ (case if POUND \<in> flags c \<and> v \<noteq> 0 then ib_x b else None of None \<Rightarrow> [] | Some ch \<Rightarrow> [CHR ''0'', ch])
       @ zeros @ ds @ right \<and>
    set left \<subseteq> {CHR '' ''} \<and> set zeros \<subseteq> {CHR ''0''} \<and> set right \<subseteq> {CHR '' ''} \<and>
    read_number b ds = v \<and> set ds \<subseteq> insert (CHR '','') (set (ib_digits b)) \<and> width c \<le> int (length text')"
proof -
  have "number_base b"
    using assms(2) decimal.number_base_axioms octal.number_base_axioms
      hex_lower.number_base_axioms hex_upper.number_base_axioms by auto
  from number_base.format_integer_ok [OF this assms(1), of is_signed negative c] show ?thesis
    by metis
qed

theorem format_integer_correct_witness:
  "\<exists>left zeros ds right text'.
     format_integer 255 False False base_x \<lparr>flags = {POUND}, width = 8, precision = - 1, conv_type = INT'\<rparr> = Some text' \<and>
     text' = left @ [CHR ''0'', CHR ''x''] @ zeros @ ds @ right \<and> read_number base_x ds = 255"
  using format_integer_correct [of 255 base_x False False
      "\<lparr>flags = {POUND}, width = 8, precision = - 1, conv_type = INT'\<rparr>"]
  by (simp add: option_char_def sign_char_def base_x_def) blast

text \<open>C27. \<open>atoi\<close> reads back what \<open>%d\<close> prints: with any flags but grouping, any width and any precision,
  the text printed for an \<open>int\<close> argument is defined and \<open>atoi\<close> of it is that \<open>int\<close>, the least one
  included.\<close>

theorem atoi_printf:
  assumes "conv_type c = INT'" "GROUP \<notin> flags c"
  shows "\<exists>text'. convert_signed c (Arg_int w # args) = Some (text', args) \<and> atoi text' = Some (sint w)"
proof -
  have "- (2 ^ 31) \<le> sint w" "sint w < 2 ^ 31"
    using sint_ge [of w] sint_lt [of w] by simp_all
  then show ?thesis
    using atoi_format_integer [of "sint w" c] assms by (auto simp: convert_signed_def signed_arg_def)
qed

theorem atoi_printf_witness:
  "\<exists>text'. convert_signed \<lparr>flags = {PLUS, ZERO}, width = 6, precision = - 1, conv_type = INT'\<rparr> [Arg_int (- 42)] =
     Some (text', []) \<and> atoi text' = Some (sint (- 42 :: u32))"
  using atoi_printf [of "\<lparr>flags = {PLUS, ZERO}, width = 6, precision = - 1, conv_type = INT'\<rparr>" "- 42" "[]"] by simp

text \<open>C28. \<open>vsnprintf\<close> never writes outside the buffer: for a formatted text shorter than 2 GB and a
  buffer of at least \<open>buf_size\<close> characters, it stores the first \<open>buf_size - 1\<close> characters of the text
  and a terminator, leaves the rest of the buffer as it was, and returns the length of the whole text.\<close>

theorem vsnprintf_correct:
  assumes "vprintf_internal fmt args = Some text'" "length text' < 2 ^ 31"
    "0 < buf_size" "unat buf_size \<le> 2 ^ 31" "unat buf_size \<le> length buffer"
  shows "vsnprintf buffer buf_size fmt args =
    Some (int (length text'),
      take (unat buf_size - 1) text' @ CHR 0x00 # drop (Suc (min (length text') (unat buf_size - 1))) buffer)"
  using vsnprintf_stores [OF assms] by (simp add: overwrite_def)

theorem vsnprintf_correct_witness:
  "vsnprintf ''abcdefgh'' 5 ''hello!'' [] = Some (6, ''hell'' @ CHR 0x00 # ''fgh'')"
  using vsnprintf_correct [of "''hello!''" "[]" "''hello!''" 5 "''abcdefgh''"] by simp

end
