(* ===== verification/Pintos_Ustar.thy ===== *)
theory Pintos_Ustar
  imports Pintos_Printf
begin

text \<open>
  Headers of ustar archives (\<open>lib/ustar.c\<close>), written by \<open>ustar_make_header\<close> when files are copied out
  of the file system and read by \<open>ustar_parse_header\<close> when they are copied in.  The packed struct is a
  record of its character arrays, and \<open>header_bytes\<close> is the same memory as an array of 512 characters.
\<close>

section \<open>Model\<close>

datatype ustar_type = USTAR_REGULAR | USTAR_DIRECTORY | USTAR_EOF

definition USTAR_HEADER_SIZE :: nat where
  "USTAR_HEADER_SIZE = 512"

record ustar_header =
  h_name :: string
  h_mode :: string
  h_uid :: string
  h_gid :: string
  h_size :: string
  h_mtime :: string
  h_chksum :: string
  h_typeflag :: char
  h_linkname :: string
  h_magic :: string
  h_version :: string
  h_uname :: string
  h_gname :: string
  h_devmajor :: string
  h_devminor :: string
  h_prefix :: string
  h_padding :: string

definition before_chksum :: "ustar_header \<Rightarrow> string" where
  "before_chksum h = h_name h @ h_mode h @ h_uid h @ h_gid h @ h_size h @ h_mtime h"

definition after_chksum :: "ustar_header \<Rightarrow> string" where
  "after_chksum h = h_typeflag h # h_linkname h @ h_magic h @ h_version h @ h_uname h @ h_gname h
     @ h_devmajor h @ h_devminor h @ h_prefix h @ h_padding h"

definition header_bytes :: "ustar_header \<Rightarrow> string" where
  "header_bytes h = before_chksum h @ h_chksum h @ after_chksum h"

definition zeros :: "nat \<Rightarrow> string" where
  "zeros n = replicate n (CHR 0x00)"

text \<open>\<open>memset (h, 0, sizeof *h)\<close>\<close>

definition zero_header :: ustar_header where
  "zero_header = \<lparr>h_name = zeros 100, h_mode = zeros 8, h_uid = zeros 8, h_gid = zeros 8, h_size = zeros 12,
     h_mtime = zeros 12, h_chksum = zeros 8, h_typeflag = CHR 0x00, h_linkname = zeros 100, h_magic = zeros 6,
     h_version = zeros 2, h_uname = zeros 32, h_gname = zeros 32, h_devmajor = zeros 8, h_devminor = zeros 8,
     h_prefix = zeros 155, h_padding = zeros 12\<rparr>"

text \<open>\<open>strlcpy (dst, src, sizeof dst)\<close> for a character array \<open>dst\<close>.\<close>

definition strlcpy_array :: "string \<Rightarrow> string \<Rightarrow> string" where
  "strlcpy_array dst src = overwrite 0 (take (length dst - 1) src @ [CHR 0x00]) dst"

definition snprintf_array :: "string \<Rightarrow> string \<Rightarrow> arg list \<Rightarrow> string option" where
  "snprintf_array dst fmt args = do { (n, dst) \<leftarrow> snprintf dst (of_nat (length dst)) fmt args; Some dst }"

definition chksum_start :: nat where
  "chksum_start = 148"

definition chksum_end :: nat where
  "chksum_end = chksum_start + 8"

definition calculate_chksum :: "ustar_header \<Rightarrow> u32" where
  "calculate_chksum h = fold (\<lambda>i chksum.
     let in_chksum_field = (chksum_start \<le> i \<and> i < chksum_end)
     in chksum + (if in_chksum_field then 32 else of_char (header_bytes h ! i))) [0..<USTAR_HEADER_SIZE] 0"

definition starts :: "string \<Rightarrow> string \<Rightarrow> bool" where
  "starts p s \<longleftrightarrow> take (length p) s = p"

function strip_loop :: "string \<Rightarrow> string" where
  "strip_loop file_name =
     (if starts ''/'' file_name \<or> starts ''./'' file_name \<or> starts ''../'' file_name
      then strip_loop (tl (dropWhile (\<lambda>ch. ch \<noteq> CHR ''/'') file_name))
      else file_name)"
  by auto
termination
proof (relation "measure length", goal_cases)
  case (2 file_name)
  then have "file_name \<noteq> []" by (auto simp: starts_def)
  have "length (tl (dropWhile (\<lambda>ch. ch \<noteq> CHR ''/'') file_name)) \<le> length file_name - 1"
    using length_dropWhile_le [of "\<lambda>ch. ch \<noteq> CHR ''/''" file_name] by simp
  also have "\<dots> < length file_name" using \<open>file_name \<noteq> []\<close> by simp
  finally show ?case by simp
qed simp

declare strip_loop.simps [simp del]

definition strip_antisocial_prefixes :: "string \<Rightarrow> string" where
  "strip_antisocial_prefixes file_name =
     (let file_name = strip_loop file_name
      in if file_name = [] \<or> file_name = ''..'' then ''.'' else file_name)"

definition type_char :: "ustar_type \<Rightarrow> char" where
  "type_char t = (case t of USTAR_REGULAR \<Rightarrow> CHR ''0'' | USTAR_DIRECTORY \<Rightarrow> CHR ''5'' | USTAR_EOF \<Rightarrow> CHR 0xFF)"

text \<open>The outcome of \<open>ustar_make_header\<close>: the header written, or the message of a name too long.\<close>

definition ustar_make_header :: "string \<Rightarrow> ustar_type \<Rightarrow> int \<Rightarrow> (string + ustar_header) option" where
  "ustar_make_header file_name type' size' = do {
     ASSERT (type' = USTAR_REGULAR \<or> type' = USTAR_DIRECTORY);
     let file_name = strip_antisocial_prefixes file_name;
     if 99 < length file_name then do {
       msg \<leftarrow> printf (''%s: file name too long'' @ [CHR 0x0A]) [Arg_str (Some file_name)];
       Some (Inl msg)
     } else do {
       let h = zero_header;
       let h = h\<lparr>h_name := strlcpy_array (h_name h) file_name\<rparr>;
       mode \<leftarrow> snprintf_array (h_mode h) ''%07o'' [Arg_int (if type' = USTAR_REGULAR then 420 else 493)];
       let h = h\<lparr>h_mode := mode\<rparr>;
       let h = h\<lparr>h_uid := strlcpy_array (h_uid h) ''0000000''\<rparr>;
       let h = h\<lparr>h_gid := strlcpy_array (h_gid h) ''0000000''\<rparr>;
       sz \<leftarrow> snprintf_array (h_size h) ''%011o'' [Arg_int (word_of_int size')];
       let h = h\<lparr>h_size := sz\<rparr>;
       mtime \<leftarrow> snprintf_array (h_mtime h) ''%011o'' [Arg_int 1136102400];
       let h = h\<lparr>h_mtime := mtime\<rparr>;
       let h = h\<lparr>h_typeflag := type_char type'\<rparr>;
       let h = h\<lparr>h_magic := strlcpy_array (h_magic h) ''ustar''\<rparr>;
       let h = h\<lparr>h_version := ''00''\<rparr>;
       let h = h\<lparr>h_gname := strlcpy_array (h_gname h) ''root''\<rparr>;
       let h = h\<lparr>h_uname := strlcpy_array (h_uname h) ''root''\<rparr>;
       chksum \<leftarrow> snprintf_array (h_chksum h) ''%07o'' [Arg_int (calculate_chksum h)];
       Some (Inr (h\<lparr>h_chksum := chksum\<rparr>))
     }
   }"

text \<open>The loop of \<open>parse_octal_field\<close>: \<^const>\<open>None\<close> is the result \<open>false\<close>.\<close>

fun octal_loop :: "nat \<Rightarrow> u32 \<Rightarrow> string \<Rightarrow> u32 option" where
  "octal_loop ofs v [] = None"
| "octal_loop ofs v (c # s) =
     (if 48 \<le> code c \<and> code c \<le> 55
      then if 0xFFFFFFFF div 8 < v then None else octal_loop (ofs + 1) (word_of_int (code c - 48) + v * 8) s
      else if c = CHR '' '' \<or> c = CHR 0x00 then if 0 < ofs then Some v else None
      else None)"

definition parse_octal_field :: "string \<Rightarrow> u32 option" where
  "parse_octal_field s = octal_loop 0 0 s"

definition is_all_zeros :: "string \<Rightarrow> bool" where
  "is_all_zeros block \<longleftrightarrow> list_all (\<lambda>c. c = CHR 0x00) block"

text \<open>A character array read as a string.\<close>

definition c_string :: "string \<Rightarrow> string" where
  "c_string s = takeWhile (\<lambda>c. c \<noteq> CHR 0x00) s"

definition ustar_parse_header :: "ustar_header \<Rightarrow> string + (string option \<times> ustar_type \<times> int)" where
  "ustar_parse_header h =
     (if is_all_zeros (header_bytes h) then Inr (None, USTAR_EOF, 0)
      else if take 6 (h_magic h) \<noteq> ''ustar'' @ [CHR 0x00] then Inl ''not a ustar archive''
      else if h_version h ! 0 \<noteq> CHR ''0'' \<or> h_version h ! 1 \<noteq> CHR ''0'' then Inl ''invalid ustar version''
      else case parse_octal_field (h_chksum h) of None \<Rightarrow> Inl ''corrupt chksum field'' | Some chksum \<Rightarrow>
        if chksum \<noteq> calculate_chksum h then Inl ''checksum mismatch''
        else if h_name h ! 99 \<noteq> CHR 0x00 \<or> h_prefix h ! 0 \<noteq> CHR 0x00 then Inl ''file name too long''
        else if h_typeflag h \<noteq> type_char USTAR_REGULAR \<and> h_typeflag h \<noteq> type_char USTAR_DIRECTORY
        then Inl ''unimplemented file type''
        else let name = strip_antisocial_prefixes (c_string (h_name h))
             in if h_typeflag h = type_char USTAR_REGULAR
                then case parse_octal_field (h_size h) of None \<Rightarrow> Inl ''corrupt file size field'' | Some size_ul \<Rightarrow>
                  if 0x7FFFFFFF < size_ul then Inl ''file too large''
                  else Inr (Some name, USTAR_REGULAR, uint size_ul)
                else Inr (Some name, USTAR_DIRECTORY, 0))"

section \<open>Names\<close>

lemma strip_loop_social: "\<not> starts ''/'' (strip_loop s) \<and> \<not> starts ''./'' (strip_loop s) \<and> \<not> starts ''../'' (strip_loop s)"
  by (induction s rule: strip_loop.induct) (subst (1 2 3) strip_loop.simps, simp)

lemma strip_loop_id: "\<not> starts ''/'' s \<Longrightarrow> \<not> starts ''./'' s \<Longrightarrow> \<not> starts ''../'' s \<Longrightarrow> strip_loop s = s"
  by (subst strip_loop.simps) simp

text \<open>A stripped name does not lead out of the directory by its beginning, and stripping is final.\<close>

lemma strip_social:
  assumes "t = strip_antisocial_prefixes s"
  shows "\<not> starts ''/'' t \<and> \<not> starts ''./'' t \<and> \<not> starts ''../'' t \<and> t \<noteq> [] \<and> t \<noteq> ''..''"
  using assms strip_loop_social [of s] by (simp add: strip_antisocial_prefixes_def Let_def starts_def)

lemma strip_idem: "strip_antisocial_prefixes (strip_antisocial_prefixes s) = strip_antisocial_prefixes s"
proof -
  let ?t = "strip_antisocial_prefixes s"
  have t: "\<not> starts ''/'' ?t \<and> \<not> starts ''./'' ?t \<and> \<not> starts ''../'' ?t \<and> ?t \<noteq> [] \<and> ?t \<noteq> ''..''"
    by (rule strip_social [OF refl])
  then have "strip_loop ?t = ?t" by (intro strip_loop_id) simp_all
  then show ?thesis using t by (subst strip_antisocial_prefixes_def) simp
qed

lemma strip_loop_set: "set (strip_loop s) \<subseteq> set s"
proof (induction s rule: strip_loop.induct)
  case (1 s)
  have "set (tl (dropWhile (\<lambda>ch. ch \<noteq> CHR ''/'') s)) \<subseteq> set s"
    by (meson set_dropWhileD in_set_tlD subsetI)
  then show ?case using 1 by (subst strip_loop.simps) auto
qed

lemma strip_set: "CHR 0x00 \<notin> set s \<Longrightarrow> CHR 0x00 \<notin> set (strip_antisocial_prefixes s)"
  using strip_loop_set [of s] by (auto simp: strip_antisocial_prefixes_def Let_def)


section \<open>Octal fields\<close>

text \<open>A field of \<open>w\<close> octal digits with value \<open>v\<close>.\<close>

definition octal_text :: "nat \<Rightarrow> nat \<Rightarrow> string \<Rightarrow> bool" where
  "octal_text w v t \<longleftrightarrow> length t = w \<and> set t \<subseteq> set (ib_digits base_o) \<and> read_number base_o t = v"

lemma zero_octal: "CHR ''0'' \<in> set (ib_digits base_o)"
  by (simp add: base_o_def)

lemma format_octal:
  assumes "v < 8 ^ w" "0 < w" "w \<le> 32"
  shows "\<exists>t. format_integer v False False base_o \<lparr>flags = {ZERO}, width = int w, precision = - 1, conv_type = INT'\<rparr>
    = Some t \<and> octal_text w v t"
proof -
  obtain ds where ds: "accumulate base_o {ZERO} v 0 [] = Some ([] @ ds)" "length ds \<le> 2 * w"
      "GROUP \<notin> {ZERO} \<longrightarrow> length ds \<le> w" "low_number base_o ds = v"
      "set ds \<subseteq> insert (CHR '','') (set (ib_digits base_o))" "GROUP \<notin> {ZERO} \<longrightarrow> CHR '','' \<notin> set ds"
    using octal.accumulate_ok [OF assms(1), of "[]" "{ZERO}" 0] assms(3) by auto
  define t where "t = rev (ds @ replicate (w - length ds) (CHR ''0''))"
  have n: "1 - length ds + (w - (length ds + (1 - length ds))) = w - length ds"
    using ds(3) assms(2) by simp
  have "format_integer v False False base_o \<lparr>flags = {ZERO}, width = int w, precision = - 1, conv_type = INT'\<rparr>
    = Some (replicate (w - (length ds + (1 - length ds))) (CHR ''0'') @ replicate (1 - length ds) (CHR ''0'') @ rev ds)"
    using ds(1) by (simp add: format_integer_def append_zeros_eq sign_char_def option_char_def output_dup_def)
  also have "replicate (w - (length ds + (1 - length ds))) (CHR ''0'') @ replicate (1 - length ds) (CHR ''0'') @ rev ds = t"
    unfolding t_def n [symmetric] by (simp add: add.commute flip: replicate_add)
  finally have "format_integer v False False base_o \<lparr>flags = {ZERO}, width = int w, precision = - 1, conv_type = INT'\<rparr> = Some t" .
  moreover have "read_number base_o t = v"
    unfolding t_def read_number_rev octal.low_number_zeros by (rule ds(4))
  moreover have "length t = w" using ds(3) by (simp add: t_def)
  moreover have "set t \<subseteq> set (ib_digits base_o)" using ds(5,6) zero_octal by (auto simp: t_def)
  ultimately show ?thesis by (auto simp: octal_text_def)
qed

lemma parse_octal_formats:
  "parse_conversion ''07o'' args = Some (\<lparr>flags = {ZERO}, width = int 7, precision = - 1, conv_type = INT'\<rparr>, ''o'', args)"
  "parse_conversion ''011o'' args = Some (\<lparr>flags = {ZERO}, width = int 11, precision = - 1, conv_type = INT'\<rparr>, ''o'', args)"
  by (simp_all add: parse_conversion_def parse_star_def parse_precision_def isdigit_def code_def int_ok_def)

lemma printf_octal:
  assumes "fmt = ''%07o'' \<and> w = 7 \<or> fmt = ''%011o'' \<and> w = 11" "unat v < 8 ^ w"
  shows "\<exists>t. vprintf_internal fmt [Arg_int v] = Some t \<and> octal_text w (unat v) t"
proof -
  have "0 < w" "w \<le> 32" using assms(1) by auto
  from format_octal [OF assms(2) this] obtain t where
    t: "format_integer (unat v) False False base_o \<lparr>flags = {ZERO}, width = int w, precision = - 1, conv_type = INT'\<rparr> = Some t"
      "octal_text w (unat v) t" by blast
  have "vprintf_internal fmt [Arg_int v] = Some t"
    using assms(1) t(1)
    by (elim disjE) (simp_all add: parse_octal_formats convert_unsigned_def unsigned_arg_def del: of_nat_numeral)
  with t(2) show ?thesis by blast
qed

lemma snprintf_octal:
  assumes "fmt = ''%07o'' \<and> w = 7 \<or> fmt = ''%011o'' \<and> w = 11" "unat v < 8 ^ w" "length dst = Suc w"
  shows "\<exists>t. snprintf_array dst fmt [Arg_int v] = Some (t @ [CHR 0x00]) \<and> octal_text w (unat v) t"
proof -
  obtain t where t: "vprintf_internal fmt [Arg_int v] = Some t" "octal_text w (unat v) t"
    using printf_octal [OF assms(1,2)] by blast
  then have "length t = w" by (simp add: octal_text_def)
  have n: "unat (of_nat (Suc w) :: u32) = Suc w" using assms(1) by auto
  have "(0 :: u32) < of_nat (Suc w)" using assms(1) by auto
  moreover have "w < 2 ^ 31" using assms(1) by auto
  ultimately have "vsnprintf dst (of_nat (Suc w)) fmt [Arg_int v] =
      Some (int (length t), overwrite 0 (take (Suc w - 1) t @ [CHR 0x00]) dst)"
    using vsnprintf_stores [OF t(1), of "of_nat (Suc w)" dst, unfolded n] \<open>length t = w\<close> assms(3) by simp
  then have "snprintf_array dst fmt [Arg_int v] = Some (t @ [CHR 0x00])"
    using \<open>length t = w\<close> assms(3) by (simp add: snprintf_array_def snprintf_def overwrite_def)
  with t(2) show ?thesis by blast
qed

lemma octal_digit:
  "ch \<in> set (ib_digits base_o) \<Longrightarrow>
     48 \<le> code ch \<and> code ch \<le> 55 \<and> code ch - 48 = int (digit_index base_o ch) \<and> ch \<noteq> CHR '',''"
proof -
  assume "ch \<in> set (ib_digits base_o)"
  then have "ch = CHR ''0'' \<or> ch = CHR ''1'' \<or> ch = CHR ''2'' \<or> ch = CHR ''3'' \<or> ch = CHR ''4'' \<or>
      ch = CHR ''5'' \<or> ch = CHR ''6'' \<or> ch = CHR ''7''"
    by (simp add: base_o_def)
  then show ?thesis
    by (elim disjE) (simp_all add: base_o_def code_def digit_index_def)
qed

definition octal_value :: "nat \<Rightarrow> string \<Rightarrow> nat" where
  "octal_value n s = foldl (\<lambda>n ch. n * 8 + digit_index base_o ch) n s"

lemma octal_value_ge: "n \<le> octal_value n s"
proof (induction s arbitrary: n)
  case (Cons ch s)
  have "n \<le> n * 8 + digit_index base_o ch" by simp
  also have "\<dots> \<le> octal_value n (ch # s)"
    using Cons.IH [of "n * 8 + digit_index base_o ch"] by (simp add: octal_value_def)
  finally show ?case .
qed (simp add: octal_value_def)

lemma octal_loop_run:
  "octal_value n s < 2 ^ 32 \<Longrightarrow> set s \<subseteq> set (ib_digits base_o) \<Longrightarrow> 0 < ofs + length s \<Longrightarrow>
     octal_loop ofs (of_nat n) (s @ CHR 0x00 # rest) = Some (of_nat (octal_value n s))"
proof (induction s arbitrary: n ofs)
  case Nil
  then show ?case by (simp add: octal_value_def code_def)
next
  case (Cons ch s)
  let ?m = "n * 8 + digit_index base_o ch"
  have d: "48 \<le> code ch" "code ch \<le> 55" "code ch - 48 = int (digit_index base_o ch)"
    using octal_digit [of ch] Cons.prems(2) by auto
  have v: "octal_value n (ch # s) = octal_value ?m s" by (simp add: octal_value_def)
  have "?m < 2 ^ 32" using octal_value_ge [of ?m s] Cons.prems(1) by (simp add: v)
  then have n: "n \<le> 536870911" by simp
  then have "unat (of_nat n :: u32) = n" by (simp add: unat_of_nat)
  then have le: "\<not> (0xFFFFFFFF :: u32) div 8 < of_nat n" using n by (simp add: word_less_nat_alt)
  have w: "word_of_int (code ch - 48) + of_nat n * 8 = (of_nat ?m :: u32)"
    unfolding d(3) by simp
  have "octal_loop (ofs + 1) (of_nat ?m) (s @ CHR 0x00 # rest) = Some (of_nat (octal_value ?m s))"
    using Cons.prems v by (intro Cons.IH) simp_all
  then show ?case using d(1,2) le w v by (simp add: add.commute)
qed

lemma parse_octal_text:
  assumes "octal_text w v t" "0 < w" "v < 2 ^ 32"
  shows "parse_octal_field (t @ [CHR 0x00]) = Some (of_nat v)"
proof -
  have t: "length t = w" "set t \<subseteq> set (ib_digits base_o)" "read_number base_o t = v"
    using assms(1) by (simp_all add: octal_text_def)
  have "filter (\<lambda>ch. ch \<noteq> CHR '','') t = t"
    using t(2) octal_digit by (auto simp: filter_id_conv)
  then have "octal_value 0 t = v"
    using t(3) by (simp add: read_number_def octal_value_def base_o_def)
  then show ?thesis
    using octal_loop_run [of 0 t 0 "[]"] t assms(2,3) by (simp add: parse_octal_field_def)
qed

section \<open>Checksums\<close>

lemma fold_add_bound:
  fixes g :: "nat \<Rightarrow> u32"
  assumes "\<And>i. unat (g i) \<le> 255"
  shows "unat (fold (\<lambda>i c. c + g i) is c) \<le> unat c + 255 * length is"
proof (induction "is" arbitrary: c)
  case (Cons i "is")
  have "unat (c + g i) \<le> unat c + unat (g i)" by (simp add: unat_word_ariths)
  then have "unat (c + g i) \<le> unat c + 255" using assms [of i] by linarith
  then show ?case using Cons [of "c + g i"] by simp
qed simp

lemma calculate_chksum_bound: "unat (calculate_chksum h) < 8 ^ 7"
proof -
  define g :: "nat \<Rightarrow> u32" where
    "g i = (if chksum_start \<le> i \<and> i < chksum_end then 32 else of_char (header_bytes h ! i))" for i
  have "unat (of_char ch :: u32) \<le> 255" for ch
  proof -
    have c: "(of_char ch :: u32) = of_nat (of_char ch)" by (cases ch) (simp add: of_char_def)
    have "unat (of_char ch :: u32) \<le> (of_char ch :: nat)"
      unfolding c by (simp add: unat_of_nat del: of_nat_of_char)
    also have "\<dots> < 256" by simp
    finally show ?thesis by simp
  qed
  then have "unat (g i) \<le> 255" for i by (simp add: g_def)
  then have "unat (fold (\<lambda>i c. c + g i) [0..<512] 0) \<le> unat (0 :: u32) + 255 * length [0..<512]"
    by (rule fold_add_bound)
  moreover have "calculate_chksum h = fold (\<lambda>i c. c + g i) [0..<512] 0"
    by (simp add: calculate_chksum_def Let_def g_def USTAR_HEADER_SIZE_def)
  ultimately show ?thesis by simp
qed

lemma calculate_chksum_field:
  assumes "length (before_chksum h) = 148" "length (h_chksum h) = 8" "length x = 8"
  shows "calculate_chksum (h\<lparr>h_chksum := x\<rparr>) = calculate_chksum h"
proof -
  have "header_bytes (h\<lparr>h_chksum := x\<rparr>) ! i = header_bytes h ! i" if "\<not> (chksum_start \<le> i \<and> i < chksum_end)" for i
    using that assms
    by (auto simp: header_bytes_def chksum_start_def chksum_end_def before_chksum_def after_chksum_def nth_append)
  then show ?thesis
    unfolding calculate_chksum_def Let_def by (intro fold_cong) auto
qed


section \<open>Writing and reading a header\<close>

lemma c_string_strlcpy:
  assumes "CHR 0x00 \<notin> set name" "length name < n"
  shows "c_string (strlcpy_array (zeros n) name) = name"
proof -
  have "c_string (name @ CHR 0x00 # rest) = name" for rest
    using assms(1) by (auto simp: c_string_def takeWhile_append)
  moreover have "strlcpy_array (zeros n) name = name @ CHR 0x00 # drop (Suc (length name)) (zeros n)"
    using assms(2) by (simp add: strlcpy_array_def overwrite_def zeros_def)
  ultimately show ?thesis by simp
qed

lemma length_strlcpy_array [simp]: "0 < length dst \<Longrightarrow> length (strlcpy_array dst src) = length dst"
  by (cases dst) (auto simp: strlcpy_array_def overwrite_def min_def)

lemma strlcpy_array_last:
  assumes "length name < n"
  shows "strlcpy_array (zeros n) name ! (n - 1) = CHR 0x00"
  using assms by (auto simp: strlcpy_array_def overwrite_def zeros_def nth_append nth_Cons')

definition filled_header :: "string \<Rightarrow> string \<Rightarrow> string \<Rightarrow> string \<Rightarrow> char \<Rightarrow> ustar_header" where
  "filled_header name mode sz mtime t = zero_header\<lparr>h_name := strlcpy_array (zeros 100) name, h_mode := mode,
     h_uid := strlcpy_array (zeros 8) ''0000000'', h_gid := strlcpy_array (zeros 8) ''0000000'',
     h_size := sz, h_mtime := mtime, h_typeflag := t, h_magic := strlcpy_array (zeros 6) ''ustar'',
     h_version := ''00'', h_gname := strlcpy_array (zeros 32) ''root'', h_uname := strlcpy_array (zeros 32) ''root''\<rparr>"

lemma ustar_make_header_fills:
  assumes type: "type' = USTAR_REGULAR \<or> type' = USTAR_DIRECTORY"
    and name: "length (strip_antisocial_prefixes file_name) \<le> 99" and size: "0 \<le> size'" "size' < 2 ^ 31"
  shows "\<exists>mode sz mtime chksum h. h = filled_header (strip_antisocial_prefixes file_name) mode (sz @ [CHR 0x00]) mtime (type_char type') \<and>
     length mode = 8 \<and> length mtime = 12 \<and> octal_text 11 (nat size') sz \<and>
     octal_text 7 (unat (calculate_chksum h)) chksum \<and>
     ustar_make_header file_name type' size' = Some (Inr (h\<lparr>h_chksum := chksum @ [CHR 0x00]\<rparr>))"
proof -
  define m :: u32 where "m = (if type' = USTAR_REGULAR then 420 else 493)"
  have m: "unat m < 8 ^ 7" by (simp add: m_def)
  have u: "unat (word_of_int size' :: u32) = nat size'"
    using size by (simp add: unsigned_of_int take_bit_int_eq_self)
  have s: "nat size' < 8 ^ 11" using size by (simp add: nat_less_iff)
  obtain mode where mode: "snprintf_array (zeros 8) ''%07o'' [Arg_int m] = Some (mode @ [CHR 0x00])" "octal_text 7 (unat m) mode"
    using snprintf_octal [of "''%07o''" 7 m "zeros 8"] m by (auto simp: zeros_def)
  obtain sz where sz: "snprintf_array (zeros 12) ''%011o'' [Arg_int (word_of_int size')] = Some (sz @ [CHR 0x00])"
      "octal_text 11 (nat size') sz"
    using snprintf_octal [of "''%011o''" 11 "word_of_int size'" "zeros 12"] s by (auto simp: u zeros_def)
  obtain mtime where mtime: "snprintf_array (zeros 12) ''%011o'' [Arg_int 1136102400] = Some (mtime @ [CHR 0x00])"
      "octal_text 11 (unat (1136102400 :: u32)) mtime"
    using snprintf_octal [of "''%011o''" 11 1136102400 "zeros 12"] by (auto simp: zeros_def)
  define h where "h = filled_header (strip_antisocial_prefixes file_name) (mode @ [CHR 0x00]) (sz @ [CHR 0x00])
    (mtime @ [CHR 0x00]) (type_char type')"
  obtain chksum where chksum: "snprintf_array (zeros 8) ''%07o'' [Arg_int (calculate_chksum h)] = Some (chksum @ [CHR 0x00])"
      "octal_text 7 (unat (calculate_chksum h)) chksum"
    using snprintf_octal [of "''%07o''" 7 "calculate_chksum h" "zeros 8"] calculate_chksum_bound [of h]
    by (auto simp: zeros_def)
  have "ustar_make_header file_name type' size' = Some (Inr (h\<lparr>h_chksum := chksum @ [CHR 0x00]\<rparr>))"
    using type name mode(1) sz(1) mtime(1) chksum(1)
    by (simp add: ustar_make_header_def Let_def zero_header_def m_def h_def filled_header_def)
  then show ?thesis
    using mode(2) sz(2) mtime(2) chksum(2)
    by (intro exI [of _ "mode @ [CHR 0x00]"] exI [of _ sz] exI [of _ "mtime @ [CHR 0x00]"] exI [of _ chksum] exI [of _ h])
      (simp add: h_def octal_text_def)
qed

lemma filled_header_lengths:
  assumes "length mode = 8" "length sz = 12" "length mtime = 12" "length name < 100"
  shows "length (before_chksum (filled_header name mode sz mtime t)) = 148"
    "length (h_chksum (filled_header name mode sz mtime t)) = 8"
    "length (after_chksum (filled_header name mode sz mtime t)) = 356"
  using assms by (simp_all add: before_chksum_def after_chksum_def filled_header_def zero_header_def zeros_def)

text \<open>C29. Archives round trip: for a file or directory name without null characters that fits, and a
  size that is not negative, \<open>ustar_make_header\<close> writes a header of 512 bytes from which
  \<open>ustar_parse_header\<close> reads back the name without its dangerous prefixes, the type, and the size of
  the file; the checksum it wrote is the one it verifies.\<close>

theorem ustar_roundtrip:
  assumes "type' = USTAR_REGULAR \<or> type' = USTAR_DIRECTORY" "CHR 0x00 \<notin> set file_name"
    "length (strip_antisocial_prefixes file_name) \<le> 99" "0 \<le> size'" "size' < 2 ^ 31"
  shows "\<exists>h. ustar_make_header file_name type' size' = Some (Inr h) \<and> length (header_bytes h) = USTAR_HEADER_SIZE \<and>
    ustar_parse_header h = Inr (Some (strip_antisocial_prefixes file_name), type', if type' = USTAR_REGULAR then size' else 0)"
proof -
  let ?name = "strip_antisocial_prefixes file_name"
  obtain mode sz mtime chksum h where h: "h = filled_header ?name mode (sz @ [CHR 0x00]) mtime (type_char type')"
    "length mode = 8" "length mtime = 12" "octal_text 11 (nat size') sz"
    "octal_text 7 (unat (calculate_chksum h)) chksum"
    "ustar_make_header file_name type' size' = Some (Inr (h\<lparr>h_chksum := chksum @ [CHR 0x00]\<rparr>))"
    using ustar_make_header_fills [OF assms(1,3,4,5)] by (elim exE conjE) (rule that)
  let ?h = "h\<lparr>h_chksum := chksum @ [CHR 0x00]\<rparr>"
  have len: "length sz = 11" "length chksum = 7" using h(4,5) by (simp_all add: octal_text_def)
  have lens: "length (before_chksum h) = 148" "length (h_chksum h) = 8" "length (after_chksum h) = 356"
    unfolding h(1) by (rule filled_header_lengths; use len h(2,3) assms(3) in simp)+
  have bytes: "length (header_bytes ?h) = USTAR_HEADER_SIZE"
    using lens len(2) by (simp add: header_bytes_def before_chksum_def after_chksum_def USTAR_HEADER_SIZE_def)
  have sum: "calculate_chksum ?h = calculate_chksum h"
    by (rule calculate_chksum_field [OF lens(1,2)]) (simp add: len(2))
  have pc: "parse_octal_field (h_chksum ?h) = Some (calculate_chksum h)"
    using parse_octal_text [OF h(5)] calculate_chksum_bound [of h] by simp
  have ps: "parse_octal_field (h_size ?h) = Some (word_of_int size')"
    using parse_octal_text [OF h(4)] assms(4,5) by (simp add: h(1) filled_header_def)
  have not_zero: "\<not> is_all_zeros (header_bytes ?h)"
    using assms(1) by (auto simp: is_all_zeros_def header_bytes_def after_chksum_def h(1) filled_header_def type_char_def)
  have magic: "take 6 (h_magic ?h) = ''ustar'' @ [CHR 0x00]"
    by (simp add: h(1) filled_header_def strlcpy_array_def overwrite_def zeros_def)
  have name: "c_string (h_name ?h) = ?name" "h_name ?h ! 99 = CHR 0x00"
    using c_string_strlcpy [of ?name 100] strlcpy_array_last [of ?name 100] strip_set [OF assms(2)] assms(3)
    by (simp_all add: h(1) filled_header_def)
  have rest: "h_version ?h = ''00''" "h_prefix h ! 0 = CHR 0x00" "h_typeflag ?h = type_char type'"
    by (simp_all add: h(1) filled_header_def zero_header_def zeros_def)
  have size: "\<not> 0x7FFFFFFF < (word_of_int size' :: u32)" "uint (word_of_int size' :: u32) = size'"
    using assms(4,5) by (simp_all add: word_less_alt unsigned_of_int take_bit_int_eq_self)
  have "ustar_parse_header ?h = Inr (Some ?name, type', if type' = USTAR_REGULAR then size' else 0)"
    unfolding ustar_parse_header_def if_not_P [OF not_zero] magic pc sum name rest(3) Let_def strip_idem ps
    using assms(1) size by (elim disjE) (simp_all add: rest(1,2) type_char_def)
  with h(6) bytes show ?thesis by blast
qed

theorem ustar_roundtrip_witness:
  "\<exists>h. ustar_make_header ''/../a'' USTAR_REGULAR 1000 = Some (Inr h) \<and> length (header_bytes h) = USTAR_HEADER_SIZE \<and>
    ustar_parse_header h = Inr (Some ''a'', USTAR_REGULAR, 1000)"
proof -
  have "strip_antisocial_prefixes ''/../a'' = ''a''"
    by (simp add: strip_antisocial_prefixes_def strip_loop.simps starts_def)
  then show ?thesis
    using ustar_roundtrip [of USTAR_REGULAR "''/../a''" 1000] by simp
qed

end
