(* ===== verification/Pintos_Exec.thy ===== *)
theory Pintos_Exec
  imports Pintos_String Pintos_Palloc
begin

text \<open>
  Starting a user process: \<open>start_process\<close> of \<open>userprog/process.c\<close>, which splits the command line and
  builds the initial stack.  The memory is the address space of the thread as the kernel sees it, with
  the command line in a kernel page and the user stack below \<open>PHYS_BASE\<close>.  What it calls is an
  argument: \<open>load\<close> gets the file name and the initial \<open>eip\<close> and \<open>esp\<close> of the frame and returns
  whether it succeeded, both registers and the memory; \<open>palloc_free_page\<close> returns the memory.
\<close>

section \<open>Model\<close>

datatype started = Exited | Started u32 u32

type_synonym loading = "nat \<Rightarrow> u32 \<Rightarrow> u32 \<Rightarrow> mem \<Rightarrow> (bool \<times> u32 \<times> u32 \<times> mem) option"

fun store_bytes :: "nat \<Rightarrow> u8 list \<Rightarrow> mem \<Rightarrow> mem option" where
  "store_bytes p [] m = Some m"
| "store_bytes p (b # bs) m = do { m \<leftarrow> store p b m; store_bytes (p + 1) bs m }"

definition word_bytes :: "u32 \<Rightarrow> u8 list" where
  "word_bytes w = [ucast w, ucast (drop_bit 8 w), ucast (drop_bit 16 w), ucast (drop_bit 24 w)]"

definition words_bytes :: "u32 list \<Rightarrow> u8 list" where
  "words_bytes ws = concat (map word_bytes ws)"

text \<open>The loop over the tokens; \<open>argv\<close> has room for 128 pointers.\<close>

partial_function (option) collect_args ::
  "nat \<Rightarrow> u32 \<Rightarrow> nat option \<Rightarrow> nat \<Rightarrow> u32 list \<Rightarrow> mem \<Rightarrow> (u32 list \<times> mem) option" where
  "collect_args delim offset token save argv m =
     (case token of
        None \<Rightarrow> Some (argv, m)
      | Some t \<Rightarrow> do {
          ASSERT (length argv < 128);
          (token, save, m) \<leftarrow> strtok_r None delim (Some save) m;
          collect_args delim offset token save (argv @ [of_nat t - offset]) m
        })"

text \<open>The part after \<open>load\<close>: the copy of the command line, the padding, \<open>argv\<close>, its address, \<open>argc\<close>
  and a return address.  The copy is made before the result of \<open>load\<close> is looked at.\<close>

definition build_stack :: "(nat \<Rightarrow> mem \<Rightarrow> mem option) \<Rightarrow> nat \<Rightarrow> nat \<Rightarrow> u32 list \<Rightarrow> bool \<Rightarrow> u32 \<Rightarrow> u32 \<Rightarrow> mem \<Rightarrow> (started \<times> mem) option" where
  "build_stack palloc_free file_name fn_sz argv success eip esp m = do {
     let argc = length argv;
     let esp = esp - of_nat fn_sz;
     (_, m) \<leftarrow> memcpy (unat esp) file_name fn_sz m;
     m \<leftarrow> palloc_free file_name m;
     if \<not> success then Some (Exited, m)
     else do {
       let ep_sz = 16 - (fn_sz + (argc + 3) * 4) mod 16;
       let esp = esp - of_nat ep_sz;
       (_, m) \<leftarrow> memset (unat esp) 0 ep_sz m;
       let esp = esp - of_nat ((argc + 1) * 4);
       m \<leftarrow> store_bytes (unat esp) (words_bytes (argv @ [0])) m;
       let esp = esp - 4;
       m \<leftarrow> store_bytes (unat esp) (word_bytes (esp + 4)) m;
       let esp = esp - 4;
       m \<leftarrow> store_bytes (unat esp) (word_bytes (of_nat argc)) m;
       let esp = esp - 4;
       (_, m) \<leftarrow> memset (unat esp) 0 4 m;
       Some (Started eip esp, m)
     }
   }"

text \<open>\<open>delim\<close> is the address of the string literal \<open>" "\<close>.\<close>

definition start_process :: "loading \<Rightarrow> (nat \<Rightarrow> mem \<Rightarrow> mem option) \<Rightarrow> nat \<Rightarrow> nat \<Rightarrow> mem \<Rightarrow> (started \<times> mem) option" where
  "start_process load palloc_free delim file_name m = do {
     len \<leftarrow> strlen file_name m;
     let fn_sz = len + 1;
     let offset = of_nat file_name - PHYS_BASE + of_nat fn_sz;
     (token, save, m) \<leftarrow> strtok_r (Some file_name) delim None m;
     (argv, m) \<leftarrow> collect_args delim offset token save [] m;
     ASSERT (length argv < 128);
     (success, eip, esp, m) \<leftarrow> load file_name 0 0 m;
     build_stack palloc_free file_name fn_sz argv success eip esp m
   }"

section \<open>The initial stack\<close>

definition bytes_at :: "mem \<Rightarrow> nat \<Rightarrow> u8 list \<Rightarrow> bool" where
  "bytes_at m p bs \<longleftrightarrow> (\<forall>i < length bs. m (p + i) = Some (bs ! i))"

definition put_bytes :: "nat \<Rightarrow> u8 list \<Rightarrow> mem \<Rightarrow> mem" where
  "put_bytes p bs m = (\<lambda>x. if p \<le> x \<and> x < p + length bs then Some (bs ! (x - p)) else m x)"

lemma put_bytes_Cons: "put_bytes (Suc p) bs (m(p \<mapsto> b)) = put_bytes p (b # bs) m"
  by (auto simp: put_bytes_def fun_eq_iff nth_Cons')

lemma put_bytes_Nil [simp]: "put_bytes p [] m = m"
  by (auto simp: put_bytes_def fun_eq_iff)

lemma mapped_put_bytes: "mapped m q n \<Longrightarrow> mapped (put_bytes p bs m) q n"
  by (simp add: mapped_def put_bytes_def)

lemma store_bytes_put: "mapped m p (length bs) \<Longrightarrow> store_bytes p bs m = Some (put_bytes p bs m)"
proof (induction bs arbitrary: p m)
  case (Cons b bs)
  then have "m p \<noteq> None" "mapped (m(p \<mapsto> b)) (p + 1) (length bs)"
    by (simp_all add: mapped_Suc mapped_upd)
  from this(1) Cons.IH [OF this(2)] show ?case
    by (simp add: store_def put_bytes_Cons del: fun_upd_apply)
qed simp

lemma memset_put: "mapped m p n \<Longrightarrow> memset p v n m = Some (p, put_bytes p (replicate n v) m)"
proof -
  have "memset_loop p v n m = store_bytes p (replicate n v) m" for p m
    by (induction n arbitrary: p m) (simp_all cong: Option.bind_cong)
  then show "mapped m p n \<Longrightarrow> ?thesis" by (simp add: memset_def store_bytes_put)
qed

lemma memcpy_put:
  assumes "mapped m dst n" "bytes_at m src bs" "length bs = n" "dst + n \<le> src"
  shows "memcpy dst src n m = Some (dst, put_bytes dst bs m)"
proof -
  have "mapped m src n" using assms(2,3) by (auto simp: mapped_def bytes_at_def)
  then have "copy_up n dst src m = Some (copied dst src n m)"
    using assms(1,4) by (intro copy_up_copied) auto
  moreover have "copied dst src n m = put_bytes dst bs m"
  proof
    fix x
    have "m (src + (x - dst)) = Some (bs ! (x - dst))" if "dst \<le> x" "x < dst + n"
      using that assms(2,3) unfolding bytes_at_def by (metis add_less_imp_less_left le_add_diff_inverse)
    then show "copied dst src n m x = put_bytes dst bs m x"
      using assms(3) by (simp add: copied_def put_bytes_def)
  qed
  ultimately show ?thesis by (simp add: memcpy_def)
qed

text \<open>Storing directly below a block makes one block of both.\<close>

lemma bytes_at_put:
  "bytes_at m (p + length bs) ys \<Longrightarrow> bytes_at (put_bytes p bs m) p (bs @ ys)"
  unfolding bytes_at_def
proof (intro allI impI)
  fix i
  assume *: "\<forall>i < length ys. m (p + length bs + i) = Some (ys ! i)" "i < length (bs @ ys)"
  show "put_bytes p bs m (p + i) = Some ((bs @ ys) ! i)"
  proof (cases "i < length bs")
    case True
    then show ?thesis by (simp add: put_bytes_def nth_append)
  next
    case False
    with *(2) obtain j where j: "i = length bs + j" "j < length ys" by (metis add_diff_inverse_nat length_append nat_add_left_cancel_less)
    with *(1) show ?thesis by (simp add: put_bytes_def add.assoc)
  qed
qed

lemma length_words_bytes [simp]: "length (word_bytes w) = 4" "length (words_bytes ws) = 4 * length ws"
  by (simp_all add: word_bytes_def words_bytes_def length_concat comp_def sum_list_triv)

definition below :: "nat \<Rightarrow> u32" where
  "below k = PHYS_BASE - of_nat k"

lemma below_simps:
  "below a - of_nat b = below (a + b)" "below a - 4 = below (a + 4)" "PHYS_BASE - of_nat b = below b"
  by (simp_all add: below_def)

lemma unat_below: "k \<le> PGSIZE \<Longrightarrow> unat (below k) = unat PHYS_BASE - k"
proof -
  assume k: "k \<le> PGSIZE"
  then have u: "unat (of_nat k :: u32) = k" by (simp add: PGSIZE_def unat_of_nat)
  then have "of_nat k \<le> PHYS_BASE" using k by (simp add: word_le_nat_alt PHYS_BASE_def PGSIZE_def)
  then show ?thesis by (simp add: below_def unat_sub u)
qed

text \<open>The words and bytes from the stack pointer up to \<open>PHYS_BASE\<close>.\<close>

definition padding :: "nat \<Rightarrow> nat \<Rightarrow> nat" where
  "padding fn_sz argc = 16 - (fn_sz + (argc + 3) * 4) mod 16"

definition frame_size :: "nat \<Rightarrow> nat \<Rightarrow> nat" where
  "frame_size fn_sz argc = fn_sz + padding fn_sz argc + (argc + 4) * 4"

definition frame_bytes :: "u32 \<Rightarrow> u32 list \<Rightarrow> u8 list \<Rightarrow> u8 list" where
  "frame_bytes esp argv cmd = words_bytes ([0, of_nat (length argv), esp + 12] @ argv @ [0])
     @ replicate (padding (length cmd) (length argv)) 0 @ cmd"

lemma mapped_below:
  assumes "mapped m (unat (below PGSIZE)) PGSIZE" "k \<le> PGSIZE" "n \<le> k"
  shows "mapped m (unat (below k)) n"
proof -
  have "m (unat (below PGSIZE) + ((PGSIZE - k) + i)) \<noteq> None" if "i < n" for i
    using assms(1) [unfolded mapped_def, rule_format, of "PGSIZE - k + i"] assms(2,3) that by simp
  moreover have "unat (below k) = unat (below PGSIZE) + (PGSIZE - k)"
    using assms(2) by (simp add: unat_below PHYS_BASE_def PGSIZE_def)
  ultimately show ?thesis by (simp add: mapped_def add.assoc)
qed

lemma below_add: "k + n \<le> PGSIZE \<Longrightarrow> unat (below (k + n)) + n = unat (below k)"
  by (simp add: unat_below PHYS_BASE_def PGSIZE_def)

text \<open>One step of building the stack: a block stored below what is there.\<close>

lemma push_block:
  assumes "mapped m (unat (below PGSIZE)) PGSIZE" "bytes_at m (unat (below k)) ys" "k + length bs \<le> PGSIZE"
  shows "mapped m (unat (below (k + length bs))) (length bs)"
    and "bytes_at (put_bytes (unat (below (k + length bs))) bs m) (unat (below (k + length bs))) (bs @ ys)"
    and "mapped (put_bytes (unat (below (k + length bs))) bs m) (unat (below PGSIZE)) PGSIZE"
  using mapped_below [OF assms(1,3)] bytes_at_put [of m "unat (below (k + length bs))" bs ys]
    below_add [OF assms(3)] assms(1,2) mapped_put_bytes by auto

lemma build_stack_frame:
  assumes "mapped m (unat (below PGSIZE)) PGSIZE" "bytes_at m file_name cmd" "unat PHYS_BASE \<le> file_name"
    and free: "\<forall>m. \<exists>m'. palloc_free file_name m = Some m' \<and> (\<forall>x < unat PHYS_BASE. m' x = m x)"
    and size: "frame_size (length cmd) (length argv) \<le> PGSIZE"
  shows "\<exists>esp m'. build_stack palloc_free file_name (length cmd) argv True eip PHYS_BASE m = Some (Started eip esp, m') \<and>
     esp = below (frame_size (length cmd) (length argv)) \<and> bytes_at m' (unat esp) (frame_bytes esp argv cmd)"
proof -
  let ?n = "length cmd" and ?pad = "padding (length cmd) (length argv)"
  let ?top = "unat (below PGSIZE)"
  note sz = size [unfolded frame_size_def]
  have cmd: "mapped m (unat (below ?n)) ?n" by (rule mapped_below [OF assms(1)]) (use sz in simp_all)
  have "unat (below ?n) + ?n \<le> file_name"
    using assms(3) sz by (simp add: unat_below PHYS_BASE_def PGSIZE_def)
  from memcpy_put [OF cmd assms(2) refl this]
  have 1: "memcpy (unat (below ?n)) file_name ?n m = Some (unat (below ?n), put_bytes (unat (below ?n)) cmd m)" .
  let ?m1 = "put_bytes (unat (below ?n)) cmd m"
  obtain m1 where m1: "palloc_free file_name ?m1 = Some m1" "\<forall>x < unat PHYS_BASE. m1 x = ?m1 x"
    using free by blast
  have m1_map: "mapped m1 ?top PGSIZE"
  proof -
    have "mapped ?m1 ?top PGSIZE" by (rule mapped_put_bytes [OF assms(1)])
    moreover have "?top + i < unat PHYS_BASE" if "i < PGSIZE" for i
      using that by (simp add: unat_below PHYS_BASE_def PGSIZE_def)
    ultimately show ?thesis using m1(2) by (simp add: mapped_def)
  qed
  have m1_cmd: "bytes_at m1 (unat (below ?n)) cmd"
  proof -
    have "bytes_at ?m1 (unat (below ?n)) (cmd @ [])" by (rule bytes_at_put) (simp add: bytes_at_def)
    moreover have "unat (below ?n) + i < unat PHYS_BASE" if "i < ?n" for i
      using that sz by (simp add: unat_below PHYS_BASE_def PGSIZE_def)
    ultimately show ?thesis using m1(2) by (simp add: bytes_at_def)
  qed
  define k2 where "k2 = ?n + length (replicate ?pad (0 :: u8))"
  define k3 where "k3 = k2 + length (words_bytes (argv @ [0]))"
  define k4 where "k4 = k3 + length (word_bytes (below k3))"
  define k5 where "k5 = k4 + length (word_bytes (of_nat (length argv)))"
  define k6 where "k6 = k5 + length (replicate 4 (0 :: u8))"
  have k6: "k6 = frame_size ?n (length argv)"
    by (simp add: k6_def k5_def k4_def k3_def k2_def frame_size_def)
  then have le: "k6 \<le> PGSIZE" using size by simp
  have le5: "k5 \<le> PGSIZE" and le4: "k4 \<le> PGSIZE" and le3: "k3 \<le> PGSIZE" and le2: "k2 \<le> PGSIZE"
    using le by (simp_all add: k6_def k5_def k4_def k3_def)
  note s2 = push_block [OF m1_map m1_cmd, of "replicate ?pad 0", folded k2_def, OF le2]
  note s3 = push_block [OF s2(3,2), of "words_bytes (argv @ [0])", folded k3_def, OF le3]
  note s4 = push_block [OF s3(3,2), of "word_bytes (below k3)", folded k4_def, OF le4]
  note s5 = push_block [OF s4(3,2), of "word_bytes (of_nat (length argv))", folded k5_def, OF le5]
  note s6 = push_block [OF s5(3,2), of "replicate 4 0", folded k6_def, OF le]
  have esp: "below k2 - of_nat ((length argv + 1) * 4) = below k3" "below k3 - 4 = below k4" "below k4 - 4 = below k5"
      "below k5 - 4 = below k6" "below ?n - of_nat ?pad = below k2" "below k4 + 4 = below k3" "below k6 + 12 = below k3"
    by (simp_all add: below_def k2_def k3_def k4_def k5_def k6_def algebra_simps)
  have run: "build_stack palloc_free file_name ?n argv True eip PHYS_BASE m = Some (Started eip (below k6),
      put_bytes (unat (below k6)) (replicate 4 0) (put_bytes (unat (below k5)) (word_bytes (of_nat (length argv)))
        (put_bytes (unat (below k4)) (word_bytes (below k3)) (put_bytes (unat (below k3)) (words_bytes (argv @ [0]))
          (put_bytes (unat (below k2)) (replicate ?pad 0) m1)))))"
    using memset_put [OF s2(1)] store_bytes_put [OF s3(1)] store_bytes_put [OF s4(1)] store_bytes_put [OF s5(1)]
      memset_put [OF s6(1)]
    unfolding build_stack_def Let_def below_simps(3) 1 padding_def [symmetric] esp(1-5)
    by (simp add: m1(1) esp)
  have "frame_bytes (below k6) argv cmd = replicate 4 0 @ word_bytes (of_nat (length argv)) @ word_bytes (below k3)
      @ words_bytes (argv @ [0]) @ replicate ?pad 0 @ cmd"
    by (simp add: frame_bytes_def words_bytes_def esp(7) word_bytes_def numeral_eq_Suc)
  with run s6(2) show ?thesis by (simp add: k6)
qed


lemma frame_aligned: "frame_size n argc \<le> PGSIZE \<Longrightarrow> unat (below (frame_size n argc)) mod 16 = 12"
proof -
  assume le: "frame_size n argc \<le> PGSIZE"
  have "(n + (argc + 3) * 4 + padding n argc) mod 16 = 0"
    unfolding padding_def by presburger
  then obtain q where q: "n + (argc + 3) * 4 + padding n argc = 16 * q" by auto
  then have f: "frame_size n argc = 16 * q + 4" by (simp add: frame_size_def)
  have "unat (below (frame_size n argc)) = 3221225472 - (16 * q + 4)"
    using unat_below [OF le] by (simp add: f PHYS_BASE_def)
  also have "\<dots> = 16 * (201326591 - q) + 12" using le by (simp add: f PGSIZE_def)
  finally show ?thesis by simp
qed

text \<open>C30. The initial stack of a process: if loading succeeds with the stack page mapped below
  \<open>PHYS_BASE\<close>, and the command line with its argument vector fits the page, then the process starts at
  the entry point with a stack whose bytes from the stack pointer up to \<open>PHYS_BASE\<close> are a null return
  address, \<open>argc\<close>, the address of \<open>argv\<close>, \<open>argv\<close> with its null pointer, zero padding, and the command
  line; the stack pointer above the return address is a multiple of 16.\<close>

theorem start_process_stack:
  assumes "strlen file_name m = Some len"
    and "strtok_r (Some file_name) delim None m = Some (token, save, m1)"
    and "collect_args delim (of_nat file_name - PHYS_BASE + of_nat (len + 1)) token save [] m1 = Some (argv, m2)"
    and "length argv < 128"
    and "load file_name 0 0 m2 = Some (True, eip, PHYS_BASE, m3)"
    and "mapped m3 (unat PHYS_BASE - PGSIZE) PGSIZE" and "bytes_at m3 file_name cmd" and "length cmd = len + 1"
    and "unat PHYS_BASE \<le> file_name"
    and "\<forall>m. \<exists>m'. palloc_free file_name m = Some m' \<and> (\<forall>x < unat PHYS_BASE. m' x = m x)"
    and "frame_size (len + 1) (length argv) \<le> PGSIZE"
  shows "\<exists>esp m'. start_process load palloc_free delim file_name m = Some (Started eip esp, m') \<and>
    unat esp = unat PHYS_BASE - frame_size (len + 1) (length argv) \<and> (unat esp + 4) mod 16 = 0 \<and>
    bytes_at m' (unat esp) (words_bytes ([0, of_nat (length argv), esp + 12] @ argv @ [0])
      @ replicate (padding (len + 1) (length argv)) 0 @ cmd)"
proof -
  have map: "mapped m3 (unat (below PGSIZE)) PGSIZE" using assms(6) by (simp add: unat_below)
  obtain esp m' where b: "build_stack palloc_free file_name (length cmd) argv True eip PHYS_BASE m3 = Some (Started eip esp, m')"
    "esp = below (frame_size (length cmd) (length argv))" "bytes_at m' (unat esp) (frame_bytes esp argv cmd)"
    using build_stack_frame [OF map assms(7,9), where palloc_free = palloc_free and argv = argv and eip = eip,
        OF assms(10)] assms(8,11) by auto
  have "unat esp mod 16 = 12" using frame_aligned assms(8,11) b(2) by simp
  then have "(unat esp + 4) mod 16 = 0" by presburger
  moreover have "start_process load palloc_free delim file_name m = Some (Started eip esp, m')"
    using assms(1-5,8) b(1) by (simp add: start_process_def)
  moreover have "unat esp = unat PHYS_BASE - frame_size (len + 1) (length argv)"
    using b(2) unat_below [OF assms(11)] assms(8) by simp
  ultimately show ?thesis
    using b(3) assms(8) by (auto simp: frame_bytes_def)
qed

definition sample_space :: mem where
  "sample_space = (\<lambda>x. if 3221221376 \<le> x \<and> x < 3221225472 then Some 0
     else if x = 20 then Some 32 else if x = 21 then Some 0
     else if x = 3222274048 then Some 97 else if x = 3222274049 then Some 0 else None)"

lemma sample_space_args:
  "strlen 3222274048 sample_space = Some 1"
  "strtok_r (Some 3222274048) 20 None sample_space = Some (Some 3222274048, 3222274049, sample_space)"
  "collect_args 20 off (Some 3222274048) 3222274049 [] sample_space = Some ([3222274048 - off], sample_space)"
  by (simp_all add: strlen_def strlen_loop.simps strtok_r_def skip_delimiters.simps skip_token.simps strchr.simps
      collect_args.simps sample_space_def)

theorem start_process_stack_witness:
  "\<exists>esp m'. start_process (\<lambda>f eip esp m. Some (True, 0x8048000, PHYS_BASE, m)) (\<lambda>p m. Some m) 20 3222274048 sample_space
     = Some (Started 0x8048000 esp, m') \<and> (unat esp + 4) mod 16 = 0"
proof -
  have "mapped sample_space (unat PHYS_BASE - PGSIZE) PGSIZE" "bytes_at sample_space 3222274048 [97, 0]"
    by (auto simp: mapped_def bytes_at_def sample_space_def PHYS_BASE_def PGSIZE_def less_Suc_eq)
  moreover have "unat PHYS_BASE \<le> 3222274048" "frame_size 2 1 \<le> PGSIZE"
    by (simp_all add: PHYS_BASE_def frame_size_def padding_def PGSIZE_def)
  ultimately show ?thesis
    using start_process_stack [OF sample_space_args(1,2,3), where palloc_free = "\<lambda>p m. Some m" and cmd = "[97, 0]"
        and load = "\<lambda>f eip esp m. Some (True, 0x8048000, PHYS_BASE, m)"]
    by (auto simp: numeral_2_eq_2)
qed

text \<open>C31. A failed \<open>load\<close> does not end the process in an orderly way: \<open>start_process\<close> copies the command
  line to \<open>esp\<close> before it looks at the result of \<open>load\<close>, and a \<open>load\<close> that failed before it set up the
  stack leaves \<open>esp\<close> at 0, so the copy goes to the end of the address space; where nothing is mapped
  there, the kernel faults.\<close>

theorem start_process_load_failure:
  assumes "strlen file_name m = Some len" "len + 1 < 2 ^ 32"
    and "strtok_r (Some file_name) delim None m = Some (token, save, m1)"
    and "collect_args delim (of_nat file_name - PHYS_BASE + of_nat (len + 1)) token save [] m1 = Some (argv, m2)"
    and "load file_name 0 0 m2 = Some (False, eip, 0, m3)" and "m3 (2 ^ 32 - (len + 1)) = None"
  shows "start_process load palloc_free delim file_name m = None"
proof -
  have u: "unat (0 - of_nat (len + 1) :: u32) = 2 ^ 32 - (len + 1)"
  proof -
    have "(of_nat (2 ^ 32 - (len + 1)) :: u32) = of_nat (2 ^ 32) - of_nat (len + 1)"
      using assms(2) by (intro of_nat_diff) simp
    moreover have "(of_nat (2 ^ 32) :: u32) = 0" by simp
    ultimately have "(0 - of_nat (len + 1) :: u32) = of_nat (2 ^ 32 - (len + 1))" by (simp only:)
    moreover have "2 ^ 32 - (len + 1) < (2 ^ 32 :: nat)" by simp
    ultimately show ?thesis by (simp only: unat_of_nat) simp
  qed
  have "memcpy (2 ^ 32 - (len + 1)) file_name (len + 1) m3 = None"
    using assms(6) by (cases "m3 file_name") (simp_all add: memcpy_def store_def)
  then have "build_stack palloc_free file_name (len + 1) argv False eip 0 m3 = None"
    unfolding build_stack_def Let_def u by (simp only: Option.bind.bind_lzero)
  then show ?thesis
    using assms(1,3-5) by (simp add: start_process_def ASSERT_bind)
qed

theorem start_process_load_failure_witness:
  "start_process (\<lambda>f eip esp m. Some (False, eip, esp, m)) (\<lambda>p m. Some m) 20 3222274048 sample_space = None"
  using start_process_load_failure [OF sample_space_args(1) _ sample_space_args(2,3),
      where load = "\<lambda>f eip esp m. Some (False, eip, esp, m)" and palloc_free = "\<lambda>p m. Some m"]
  by (simp add: sample_space_def)

end
