(* ===== verification/Pintos_Load.thy ===== *)
theory Pintos_Load
  imports Pintos_Pagedir Pintos_Directory
begin

text \<open>
  Loading an ELF executable: \<open>load\<close>, \<open>validate_segment\<close>, \<open>load_segment\<close>, \<open>setup_stack\<close> and
  \<open>install_page\<close> of \<open>userprog/process.c\<close>, on the pages and page tables of \<open>Pintos_Pagedir\<close> and the
  files of \<open>Pintos_Inode\<close>.  A label \<open>done\<close> reached with \<open>success\<close> false is the result \<^term>\<open>False\<close>.
  The task state segment that \<open>process_activate\<close> also updates is not part of the state.
\<close>

unbundle bit_operations_syntax

section \<open>Headers\<close>

record loader =
  lvm :: vm
  lfs :: fs
  pagedir :: u32

definition le16 :: "u8 list \<Rightarrow> nat \<Rightarrow> u16" where
  "le16 bs off = ucast (bs ! off) + push_bit 8 (ucast (bs ! (off + 1)))"

record Elf32_Ehdr =
  e_ident :: "u8 list"
  e_type :: u16
  e_machine :: u16
  e_version :: u32
  e_entry :: u32
  e_phoff :: u32
  e_phentsize :: u16
  e_phnum :: u16

record Elf32_Phdr =
  p_type :: u32
  p_offset :: u32
  p_vaddr :: u32
  p_filesz :: u32
  p_memsz :: u32
  p_flags :: u32

text \<open>The fields that the loader uses, at their offsets in the 52 and 32 bytes of the structs.\<close>

definition ehdr_of :: "u8 list \<Rightarrow> Elf32_Ehdr" where
  "ehdr_of bs = \<lparr>e_ident = take 16 bs, e_type = le16 bs 16, e_machine = le16 bs 18, e_version = get32 bs 20,
     e_entry = get32 bs 24, e_phoff = get32 bs 28, e_phentsize = le16 bs 42, e_phnum = le16 bs 44\<rparr>"

definition phdr_of :: "u8 list \<Rightarrow> Elf32_Phdr" where
  "phdr_of bs = \<lparr>p_type = get32 bs 0, p_offset = get32 bs 4, p_vaddr = get32 bs 8, p_filesz = get32 bs 16,
     p_memsz = get32 bs 20, p_flags = get32 bs 24\<rparr>"

definition PT_LOAD :: u32 where "PT_LOAD = 1"
definition PT_DYNAMIC :: u32 where "PT_DYNAMIC = 2"
definition PT_INTERP :: u32 where "PT_INTERP = 3"
definition PT_SHLIB :: u32 where "PT_SHLIB = 5"
definition PF_W :: u32 where "PF_W = 2"

section \<open>Segments\<close>

text \<open>The conditions of \<open>validate_segment\<close> on a program header, given the length of the file.\<close>

definition segment_valid :: "Elf32_Phdr \<Rightarrow> u32 \<Rightarrow> bool" where
  "segment_valid ph len =
     (if p_offset ph AND PGMASK \<noteq> p_vaddr ph AND PGMASK then False
      else if len < p_offset ph then False
      else if p_memsz ph < p_filesz ph then False
      else if p_memsz ph = 0 then False
      else if \<not> is_user_vaddr (p_vaddr ph) then False
      else if \<not> is_user_vaddr (p_vaddr ph + p_memsz ph) then False
      else if p_vaddr ph + p_memsz ph < p_vaddr ph then False
      else if p_vaddr ph < of_nat PGSIZE then False
      else True)"

definition validate_segment :: "Elf32_Phdr \<Rightarrow> nat \<Rightarrow> loader \<Rightarrow> (bool \<times> loader) option" where
  "validate_segment ph f s =
     (if p_offset ph AND PGMASK \<noteq> p_vaddr ph AND PGMASK then Some (False, s)
      else do { (len, fs) \<leftarrow> file_length f (lfs s); Some (segment_valid ph (word_of_int len), s\<lparr>lfs := fs\<rparr>) })"

definition install_page :: "u32 \<Rightarrow> u32 \<Rightarrow> bool \<Rightarrow> loader \<Rightarrow> (bool \<times> loader) option" where
  "install_page upage kpage writable s = do {
     old \<leftarrow> pagedir_get_page (pagedir s) upage (lvm s);
     if old \<noteq> 0 then Some (False, s)
     else do {
       (ok, v) \<leftarrow> pagedir_set_page (pagedir s) upage kpage writable (lvm s);
       Some (ok, s\<lparr>lvm := v\<rparr>)
     }
   }"

text \<open>The bytes that \<open>file_read\<close> stores at an address of the kernel.\<close>

definition put_ram :: "u32 \<Rightarrow> u8 list \<Rightarrow> vm \<Rightarrow> vm" where
  "put_ram a bs v = v\<lparr>pages := (pages v)\<lparr>ram :=
     (\<lambda>x. if unat (x - a) < length bs then bs ! unat (x - a) else ram (pages v) x)\<rparr>\<rparr>"

definition zero_ram :: "u32 \<Rightarrow> nat \<Rightarrow> vm \<Rightarrow> vm" where
  "zero_ram a n v = v\<lparr>pages := (pages v)\<lparr>ram := fill a n 0 (ram (pages v))\<rparr>\<rparr>"

definition release_page :: "u32 \<Rightarrow> loader \<Rightarrow> (bool \<times> loader) option" where
  "release_page kpage s = do { v \<leftarrow> free_page kpage (lvm s); Some (False, s\<lparr>lvm := v\<rparr>) }"

partial_function (option) load_pages ::
  "nat \<Rightarrow> u32 \<Rightarrow> u32 \<Rightarrow> u32 \<Rightarrow> bool \<Rightarrow> loader \<Rightarrow> (bool \<times> loader) option" where
  "load_pages f upage read_bytes zero_bytes writable s =
     (if read_bytes = 0 \<and> zero_bytes = 0 then Some (True, s)
      else do {
        let page_read_bytes = (if read_bytes < of_nat PGSIZE then read_bytes else of_nat PGSIZE);
        let page_zero_bytes = of_nat PGSIZE - page_read_bytes;
        (kpage, v) \<leftarrow> get_page PAL_USER (lvm s);
        let s = s\<lparr>lvm := v\<rparr>;
        if kpage = 0 then Some (False, s)
        else do {
          (bs, fs) \<leftarrow> file_read f (uint page_read_bytes) (lfs s);
          let s = s\<lparr>lfs := fs, lvm := put_ram kpage bs (lvm s)\<rparr>;
          if int (length bs) \<noteq> uint page_read_bytes then release_page kpage s
          else do {
            let s = s\<lparr>lvm := zero_ram (kpage + page_read_bytes) (unat page_zero_bytes) (lvm s)\<rparr>;
            (ok, s) \<leftarrow> install_page upage kpage writable s;
            if \<not> ok then release_page kpage s
            else load_pages f (upage + of_nat PGSIZE) (read_bytes - page_read_bytes) (zero_bytes - page_zero_bytes)
                   writable s
          }
        }
      })"

definition load_segment :: "nat \<Rightarrow> u32 \<Rightarrow> u32 \<Rightarrow> u32 \<Rightarrow> u32 \<Rightarrow> bool \<Rightarrow> loader \<Rightarrow> (bool \<times> loader) option" where
  "load_segment f ofs upage read_bytes zero_bytes writable s = do {
     ASSERT ((read_bytes + zero_bytes) mod of_nat PGSIZE = 0);
     ASSERT (pg_ofs upage = 0);
     ASSERT (sint ofs mod int PGSIZE = 0);
     fs \<leftarrow> file_seek f (sint ofs) (lfs s);
     load_pages f upage read_bytes zero_bytes writable (s\<lparr>lfs := fs\<rparr>)
   }"

text \<open>The page numbers and byte counts that \<open>load\<close> computes from a header.\<close>

definition file_page :: "Elf32_Phdr \<Rightarrow> u32" where
  "file_page ph = p_offset ph AND NOT PGMASK"

definition mem_page :: "Elf32_Phdr \<Rightarrow> u32" where
  "mem_page ph = p_vaddr ph AND NOT PGMASK"

definition round_up_page :: "u32 \<Rightarrow> u32" where
  "round_up_page x = (x + of_nat PGSIZE - 1) div of_nat PGSIZE * of_nat PGSIZE"

definition segment_bytes :: "Elf32_Phdr \<Rightarrow> u32 \<times> u32" where
  "segment_bytes ph =
     (let page_offset = p_vaddr ph AND PGMASK
      in if 0 < p_filesz ph
         then let read_bytes = page_offset + p_filesz ph
              in (read_bytes, round_up_page (page_offset + p_memsz ph) - read_bytes)
         else (0, round_up_page (page_offset + p_memsz ph)))"

section \<open>Executables\<close>

fun load_headers :: "nat \<Rightarrow> nat \<Rightarrow> int \<Rightarrow> loader \<Rightarrow> (bool \<times> loader) option" where
  "load_headers 0 f file_ofs s = Some (True, s)"
| "load_headers (Suc n) f file_ofs s =
     (if file_ofs < 0 then Some (False, s)
      else do {
        (len, fs) \<leftarrow> file_length f (lfs s);
        let s = s\<lparr>lfs := fs\<rparr>;
        if len < file_ofs then Some (False, s)
        else do {
          fs \<leftarrow> file_seek f file_ofs (lfs s);
          (bs, fs) \<leftarrow> file_read f 32 fs;
          let s = s\<lparr>lfs := fs\<rparr>;
          if length bs \<noteq> 32 then Some (False, s)
          else do {
            let ph = phdr_of bs;
            if p_type ph = PT_DYNAMIC \<or> p_type ph = PT_INTERP \<or> p_type ph = PT_SHLIB then Some (False, s)
            else if p_type ph = PT_LOAD then do {
              (ok, s) \<leftarrow> validate_segment ph f s;
              if \<not> ok then Some (False, s)
              else do {
                let (read_bytes, zero_bytes) = segment_bytes ph;
                (ok, s) \<leftarrow> load_segment f (file_page ph) (mem_page ph) read_bytes zero_bytes (p_flags ph AND PF_W \<noteq> 0) s;
                if ok then load_headers n f (file_ofs + 32) s else Some (False, s)
              }
            }
            else load_headers n f (file_ofs + 32) s
          }
        }
      })"

definition setup_stack :: "u32 \<Rightarrow> loader \<Rightarrow> (bool \<times> u32 \<times> loader) option" where
  "setup_stack esp s = do {
     (kpage, v) \<leftarrow> get_page (PAL_USER OR PAL_ZERO) (lvm s);
     let s = s\<lparr>lvm := v\<rparr>;
     if kpage = 0 then Some (False, esp, s)
     else do {
       (ok, s) \<leftarrow> install_page (PHYS_BASE - of_nat PGSIZE) kpage True s;
       if ok then Some (True, PHYS_BASE, s)
       else do { (_, s) \<leftarrow> release_page kpage s; Some (False, esp, s) }
     }
   }"

definition ELF_MAGIC :: "u8 list" where
  "ELF_MAGIC = [0x7f, 0x45, 0x4c, 0x46, 1, 1, 1]"

definition header_ok :: "u8 list \<Rightarrow> bool" where
  "header_ok bs \<longleftrightarrow> length bs = 52 \<and> take 7 (e_ident (ehdr_of bs)) = ELF_MAGIC \<and> e_type (ehdr_of bs) = 2 \<and>
     e_machine (ehdr_of bs) = 3 \<and> e_version (ehdr_of bs) = 1 \<and> e_phentsize (ehdr_of bs) = 32 \<and>
     e_phnum (ehdr_of bs) \<le> 1024"

text \<open>The part of \<open>load\<close> between opening the file and the label \<open>done\<close>.\<close>

definition load_file :: "nat \<Rightarrow> u32 \<Rightarrow> u32 \<Rightarrow> loader \<Rightarrow> (bool \<times> u32 \<times> u32 \<times> loader) option" where
  "load_file f eip esp s = do {
     (bs, fs) \<leftarrow> file_read f 52 (lfs s);
     let s = s\<lparr>lfs := fs\<rparr>;
     if \<not> header_ok bs then Some (False, eip, esp, s)
     else do {
       let eh = ehdr_of bs;
       (ok, s) \<leftarrow> load_headers (unat (e_phnum eh)) f (sint (e_phoff eh)) s;
       if \<not> ok then Some (False, eip, esp, s)
       else do {
         (ok, esp, s) \<leftarrow> setup_stack esp s;
         if \<not> ok then Some (False, eip, esp, s) else Some (True, e_entry eh, esp, s)
       }
     }
   }"

definition load :: "writer \<Rightarrow> dir_entry \<Rightarrow> u32 \<Rightarrow> u8 list \<Rightarrow> u32 \<Rightarrow> u32 \<Rightarrow> loader \<Rightarrow> (bool \<times> u32 \<times> u32 \<times> loader) option" where
  "load wr junk cwd file_name eip esp s = do {
     (pd, v) \<leftarrow> pagedir_create (lvm s);
     let s = s\<lparr>lvm := v, pagedir := pd\<rparr>;
     if pd = 0 then Some (False, eip, esp, s)
     else do {
       v \<leftarrow> pagedir_activate pd (lvm s);
       (p, fs) \<leftarrow> filesys_open wr junk cwd file_name (lfs s);
       let s = s\<lparr>lvm := v, lfs := fs\<rparr>;
       case p of
         None \<Rightarrow> Some (False, eip, esp, s)
       | Some f \<Rightarrow> do {
           (ok, eip, esp, s) \<leftarrow> load_file f eip esp s;
           fs \<leftarrow> file_close wr (Some f) (lfs s);
           Some (ok, eip, esp, s\<lparr>lfs := fs\<rparr>)
         }
     }
   }"


section \<open>What a valid segment guarantees\<close>

lemma no_wrap:
  fixes v m :: u32
  assumes "\<not> v + m < v"
  shows "unat (v + m) = unat v + unat m"
proof (cases "unat v + unat m < 2 ^ 32")
  case True
  then show ?thesis using unat_add_lem [of v m] by simp
next
  case False
  have "unat v < 2 ^ LENGTH(32)" "unat m < 2 ^ LENGTH(32)" by (rule unsigned_less)+
  with False have "(unat v + unat m) mod 4294967296 = unat v + unat m - 4294967296"
    by (subst le_mod_geq) simp_all
  then have "unat (v + m) = unat v + unat m - 4294967296" by (simp add: unat_word_ariths)
  with False \<open>unat m < 2 ^ LENGTH(32)\<close> have "v + m < v" by (simp add: word_less_nat_alt)
  with assms show ?thesis by simp
qed

lemma segment_validD:
  assumes "segment_valid ph len"
  shows "unat (p_vaddr ph) mod 4096 = unat (p_offset ph) mod 4096" "unat (p_filesz ph) \<le> unat (p_memsz ph)"
    "0 < unat (p_memsz ph)" "4096 \<le> unat (p_vaddr ph)"
    "unat (p_vaddr ph) + unat (p_memsz ph) < 3221225472"
proof -
  have v: "pg_ofs (p_offset ph) = pg_ofs (p_vaddr ph)" "\<not> p_memsz ph < p_filesz ph" "p_memsz ph \<noteq> 0"
      "is_user_vaddr (p_vaddr ph + p_memsz ph)" "\<not> p_vaddr ph + p_memsz ph < p_vaddr ph"
      "\<not> p_vaddr ph < of_nat PGSIZE"
    using assms by (simp_all add: segment_valid_def pg_ofs_def split: if_splits)
  show "unat (p_vaddr ph) mod 4096 = unat (p_offset ph) mod 4096"
    using v(1) by (metis unat_pg_ofs)
  show "unat (p_filesz ph) \<le> unat (p_memsz ph)" "0 < unat (p_memsz ph)" "4096 \<le> unat (p_vaddr ph)"
    using v(2,3,6) by (simp_all add: word_less_nat_alt unat_gt_0 PGSIZE_def)
  show "unat (p_vaddr ph) + unat (p_memsz ph) < 3221225472"
    using v(4) no_wrap [OF v(5)] by (simp add: is_user_vaddr_def PHYS_BASE_def word_less_nat_alt)
qed

lemma unat_round_up_page:
  assumes "unat x + 4095 < 2 ^ 32"
  shows "unat (round_up_page x) = (unat x + 4095) div 4096 * 4096"
proof -
  have p: "of_nat PGSIZE = (4096 :: u32)" by (simp add: PGSIZE_def)
  have e: "x + 4096 - 1 = x + 4095" by simp
  have a: "unat (x + 4095) = unat x + 4095"
    using unat_add_lem [of x 4095] assms by simp
  have "unat ((x + 4095) div 4096) = (unat x + 4095) div 4096" by (simp add: unat_div_distrib a)
  moreover have "(unat x + 4095) div 4096 * 4096 < 2 ^ 32"
    using assms by (metis div_times_less_eq_dividend le_less_trans)
  ultimately show ?thesis
    unfolding round_up_page_def p e using unat_mult_lem [of "(x + 4095) div 4096" 4096] by simp
qed

lemma unat_diff_le:
  fixes a b :: u32
  assumes "unat b \<le> unat a"
  shows "unat (a - b) = unat a - unat b"
  using assms by (simp add: unat_sub word_le_nat_alt)

text \<open>The sizes that \<open>load\<close> computes, as numbers.\<close>

lemma segment_bytes_unat:
  assumes "segment_valid ph len" "segment_bytes ph = (r, z)"
  defines "o' \<equiv> unat (p_vaddr ph) mod 4096" and "M \<equiv> unat (p_memsz ph)" and "F \<equiv> unat (p_filesz ph)"
  shows "unat r + unat z = (o' + M + 4095) div 4096 * 4096" "unat r = (if F = 0 then 0 else o' + F)"
proof -
  note v = segment_validD [OF assms(1)]
  have o': "unat (pg_ofs (p_vaddr ph)) = o'" "o' < 4096" by (simp_all add: o'_def unat_pg_ofs)
  have lt: "o' + M < 3221225472" "F \<le> M" using v(2,5) mod_less_eq_dividend [of "unat (p_vaddr ph)" 4096]
    by (auto simp: o'_def M_def F_def)
  have oM: "unat (pg_ofs (p_vaddr ph) + p_memsz ph) = o' + M"
    using unat_add_lem [of "pg_ofs (p_vaddr ph)" "p_memsz ph"] o' lt by (simp add: M_def)
  have oF: "unat (pg_ofs (p_vaddr ph) + p_filesz ph) = o' + F"
    using unat_add_lem [of "pg_ofs (p_vaddr ph)" "p_filesz ph"] o' lt by (simp add: F_def)
  have R: "unat (round_up_page (pg_ofs (p_vaddr ph) + p_memsz ph)) = (o' + M + 4095) div 4096 * 4096"
    using unat_round_up_page [of "pg_ofs (p_vaddr ph) + p_memsz ph"] lt(1) by (simp add: oM)
  have ge: "o' + M \<le> (o' + M + 4095) div 4096 * 4096"
    using ROUND_UP_ge [of 4096 "o' + M"] by (simp add: ROUND_UP_def)
  show "unat r = (if F = 0 then 0 else o' + F)"
    using assms(2) oF by (auto simp: segment_bytes_def Let_def F_def word_less_nat_alt pg_ofs_def split: if_splits)
  show "unat r + unat z = (o' + M + 4095) div 4096 * 4096"
  proof (cases "p_filesz ph = 0")
    case True
    then show ?thesis using assms(2) R by (auto simp: segment_bytes_def Let_def pg_ofs_def)
  next
    case False
    then have rz: "r = pg_ofs (p_vaddr ph) + p_filesz ph" "z = round_up_page (pg_ofs (p_vaddr ph) + p_memsz ph) - r"
      using assms(2) by (auto simp: segment_bytes_def Let_def pg_ofs_def word_neq_0_conv)
    have "unat z = (o' + M + 4095) div 4096 * 4096 - (o' + F)"
      unfolding rz(2) by (subst unat_diff_le) (use rz(1) R oF ge lt in simp_all)
    then show ?thesis using rz(1) oF ge lt by simp
  qed
qed

lemma round_up_shift:
  fixes v M :: nat
  assumes "v + M < 3221225472"
  shows "v div 4096 * 4096 + (v mod 4096 + M + 4095) div 4096 * 4096 \<le> 3221225472"
proof -
  have "v div 4096 + (v mod 4096 + M + 4095) div 4096 = (v + M + 4095) div 4096"
  proof -
    have "v + M + 4095 = v div 4096 * 4096 + (v mod 4096 + M + 4095)" by simp
    then show ?thesis by (metis div_mult_self3 zero_neq_numeral)
  qed
  moreover have "(v + M + 4095) div 4096 < 786433" using assms by (simp add: div_less_iff_less_mult)
  ultimately show ?thesis by (simp flip: add_mult_distrib)
qed

text \<open>C32. A segment that \<open>validate_segment\<close> accepts can be loaded safely: the numbers that \<open>load\<close> derives
  from its header satisfy the assertions of \<open>load_segment\<close>, the pages to be mapped begin above page 0,
  do not wrap around and end at or below \<open>PHYS_BASE\<close>, they cover the whole segment, and the bytes read
  from the file end exactly where the file part of the segment does.\<close>

theorem segment_valid_safe:
  assumes "segment_valid ph len" "segment_bytes ph = (r, z)"
  shows "(r + z) mod of_nat PGSIZE = 0 \<and> pg_ofs (mem_page ph) = 0 \<and> sint (file_page ph) mod int PGSIZE = 0 \<and>
    PGSIZE \<le> unat (mem_page ph) \<and> unat (mem_page ph) + (unat r + unat z) \<le> unat PHYS_BASE \<and>
    unat (mem_page ph) \<le> unat (p_vaddr ph) \<and>
    unat (p_vaddr ph) + unat (p_memsz ph) \<le> unat (mem_page ph) + (unat r + unat z) \<and>
    (p_filesz ph \<noteq> 0 \<longrightarrow> unat (mem_page ph) + unat r = unat (p_vaddr ph) + unat (p_filesz ph))"
proof -
  let ?v = "unat (p_vaddr ph)" and ?M = "unat (p_memsz ph)"
  note v = segment_validD [OF assms(1)] and rz = segment_bytes_unat [OF assms]
  have mp: "unat (mem_page ph) = ?v div 4096 * 4096"
    using unat_pg_round_down [of "p_vaddr ph"] by (simp add: mem_page_def pg_round_down_def)
  have fp: "unat (file_page ph) = unat (p_offset ph) div 4096 * 4096"
    using unat_pg_round_down [of "p_offset ph"] by (simp add: file_page_def pg_round_down_def)
  have top: "unat (mem_page ph) + (unat r + unat z) \<le> unat PHYS_BASE"
    using round_up_shift [OF v(5)] by (simp add: mp rz(1) PHYS_BASE_def)
  have "unat (r + z) = unat r + unat z"
    using unat_add_lem [of r z] top by (simp add: PHYS_BASE_def)
  then have "unat ((r + z) mod 4096) = 0" by (simp add: unat_mod_distrib rz(1))
  then have 1: "(r + z) mod of_nat PGSIZE = 0" by (simp add: PGSIZE_def unat_eq_zero)
  have 2: "pg_ofs (mem_page ph) = 0" by (simp add: pg_ofs_0_iff mp)
  have 3: "sint (file_page ph) mod int PGSIZE = 0"
  proof -
    have "pg_ofs (file_page ph) = 0" by (simp add: pg_ofs_0_iff fp)
    then have "take_bit 12 (file_page ph) = 0" by (simp add: pg_ofs_take_bit)
    then have "uint (take_bit 12 (file_page ph)) = 0" by simp
    then have "take_bit 12 (uint (file_page ph)) = 0" by (simp add: unsigned_take_bit_eq)
    moreover have "take_bit 12 (sint (file_page ph)) = take_bit 12 (uint (file_page ph))"
      by (simp add: sint_uint take_bit_signed_take_bit)
    ultimately show ?thesis by (simp add: take_bit_eq_mod PGSIZE_def)
  qed
  have 4: "PGSIZE \<le> unat (mem_page ph)" using v(4) by (simp add: mp PGSIZE_def)
  have split: "?v div 4096 * 4096 + ?v mod 4096 = ?v" by simp
  have 5: "?v + ?M \<le> unat (mem_page ph) + (unat r + unat z)"
  proof -
    have "?v mod 4096 + ?M \<le> (?v mod 4096 + ?M + 4095) div 4096 * 4096"
      using ROUND_UP_ge [of 4096 "?v mod 4096 + ?M"] by (simp add: ROUND_UP_def)
    then show ?thesis unfolding mp rz(1) using split by linarith
  qed
  have 6: "p_filesz ph \<noteq> 0 \<longrightarrow> unat (mem_page ph) + unat r = ?v + unat (p_filesz ph)"
  proof
    assume "p_filesz ph \<noteq> 0"
    then have "unat r = ?v mod 4096 + unat (p_filesz ph)" using rz(2) by (simp add: unat_eq_zero)
    then show "unat (mem_page ph) + unat r = ?v + unat (p_filesz ph)" unfolding mp using split by linarith
  qed
  show ?thesis using 1 2 3 4 top 5 6 by (simp add: mp)
qed

definition sample_phdr :: Elf32_Phdr where
  "sample_phdr = \<lparr>p_type = 1, p_offset = 0x54, p_vaddr = 0x8048054, p_filesz = 0x1500, p_memsz = 0x3000, p_flags = 5\<rparr>"

theorem segment_valid_safe_witness:
  "segment_valid sample_phdr 0x2000 \<and> segment_bytes sample_phdr = (0x1554, 0x2AAC) \<and>
   unat (mem_page sample_phdr) + (unat (0x1554 :: u32) + unat (0x2AAC :: u32)) \<le> unat PHYS_BASE"
proof -
  have v: "segment_valid sample_phdr 0x2000" "segment_bytes sample_phdr = (0x1554, 0x2AAC)" by code_simp+
  then show ?thesis using segment_valid_safe [OF v] by blast
qed

end
