(* ===== verification/Pintos_Devices.thy ===== *)
theory Pintos_Devices
  imports Pintos_Inode Pintos_Intq
begin

text \<open>
  Device code above the port accesses: partition tables (\<open>devices/partition.c\<close>), the real time clock
  (\<open>devices/rtc.c\<close>), the keyboard (\<open>devices/kbd.c\<close>) and the input buffer (\<open>devices/input.c\<close>).  What a
  port delivers is an argument: the bytes of the keyboard's data register and the values of the CMOS
  registers.  Messages are left out, and so is the interrupt enable register of the serial port that
  \<open>serial_notify\<close> writes.
\<close>

unbundle bit_operations_syntax

section \<open>Partition tables\<close>

record block_device =
  bd_size :: u32
  bd_sectors :: "u32 \<Rightarrow> u8 list"

record partition =
  part_number :: int
  part_type :: block_type
  part_start :: u32
  part_size :: u32

record partition_table_entry =
  e_ptype :: u8
  e_offset :: u32
  e_size :: u32

definition table_entry :: "u8 list \<Rightarrow> nat \<Rightarrow> partition_table_entry" where
  "table_entry pt i = (let b = 446 + 16 * i in \<lparr>e_ptype = pt ! (b + 4), e_offset = get32 pt (b + 8), e_size = get32 pt (b + 12)\<rparr>)"

definition signature_ok :: "u8 list \<Rightarrow> bool" where
  "signature_ok pt \<longleftrightarrow> pt ! 510 = 0x55 \<and> pt ! 511 = 0xaa"

definition entry_empty :: "partition_table_entry \<Rightarrow> bool" where
  "entry_empty e \<longleftrightarrow> e_size e = 0 \<or> e_ptype e = 0"

definition entry_extended :: "partition_table_entry \<Rightarrow> bool" where
  "entry_extended e \<longleftrightarrow> e_ptype e \<in> {0x05, 0x0f, 0x85, 0xc5}"

text \<open>\<open>mem\<close> is the number of allocations that still succeed; the kernel panics when one fails.\<close>

definition alloc :: "nat \<Rightarrow> nat option" where
  "alloc mem = (if mem = 0 then None else Some (mem - 1))"

text \<open>Registering allocates the \<open>struct partition\<close> and, in \<open>block_register\<close>, the \<open>struct block\<close>.\<close>

definition found_partition ::
  "block_device \<Rightarrow> u8 \<Rightarrow> u32 \<Rightarrow> u32 \<Rightarrow> int \<Rightarrow> partition list \<Rightarrow> nat \<Rightarrow> (partition list \<times> nat) option" where
  "found_partition block ptype start size' nr parts mem =
     (if bd_size block \<le> start then Some (parts, mem)
      else if start + size' < start \<or> bd_size block < start + size' then Some (parts, mem)
      else do {
        let t = (if ptype = 0x20 then BLOCK_KERNEL else if ptype = 0x21 then BLOCK_FILESYS
                 else if ptype = 0x22 then BLOCK_SCRATCH else if ptype = 0x23 then BLOCK_SWAP else BLOCK_FOREIGN);
        mem \<leftarrow> alloc mem;
        mem \<leftarrow> alloc mem;
        Some (parts @ [\<lparr>part_number = nr, part_type = t, part_start = start, part_size = size'\<rparr>], mem)
      })"

text \<open>The loop of \<open>read_partition_table\<close> from entry \<open>i\<close> on, with the recursive call written out: the
  check of the sector, the allocation of the table, the check of the signature, the loop, and the
  release of the table.  The table is read from sector 0 whatever \<open>sector\<close> is.\<close>

partial_function (option) scan_entries ::
  "block_device \<Rightarrow> u32 \<Rightarrow> u32 \<Rightarrow> nat \<Rightarrow> int \<Rightarrow> partition list \<Rightarrow> nat \<Rightarrow> (int \<times> partition list \<times> nat) option" where
  "scan_entries block sec primary i nr parts mem =
     (if 4 \<le> i then Some (nr, parts, mem)
      else let e = table_entry (bd_sectors block 0) i in
        if entry_empty e then scan_entries block sec primary (i + 1) nr parts mem
        else if entry_extended e then do {
          let (sec', primary') =
            (if sec = 0 then (e_offset e, e_offset e) else (e_offset e + primary, primary));
          (nr, parts, mem) \<leftarrow>
            (if bd_size block \<le> sec' then Some (nr, parts, mem)
             else do {
               mem \<leftarrow> alloc mem;
               (nr, parts, mem) \<leftarrow> if signature_ok (bd_sectors block 0) then scan_entries block sec' primary' 0 nr parts mem
                                  else Some (nr, parts, mem);
               Some (nr, parts, mem + 1)
             });
          scan_entries block sec primary (i + 1) nr parts mem
        }
        else do {
          (parts, mem) \<leftarrow> found_partition block (e_ptype e) (e_offset e + sec) (e_size e) (nr + 1) parts mem;
          scan_entries block sec primary (i + 1) (nr + 1) parts mem
        })"

definition read_partition_table ::
  "block_device \<Rightarrow> u32 \<Rightarrow> u32 \<Rightarrow> int \<Rightarrow> partition list \<Rightarrow> nat \<Rightarrow> (int \<times> partition list \<times> nat) option" where
  "read_partition_table block sec primary nr parts mem =
     (if bd_size block \<le> sec then Some (nr, parts, mem)
      else do {
        mem \<leftarrow> alloc mem;
        (nr, parts, mem) \<leftarrow> if signature_ok (bd_sectors block 0) then scan_entries block sec primary 0 nr parts mem
                           else Some (nr, parts, mem);
        Some (nr, parts, mem + 1)
      })"

definition partition_scan :: "block_device \<Rightarrow> nat \<Rightarrow> (int \<times> partition list \<times> nat) option" where
  "partition_scan block mem = read_partition_table block 0 0 0 [] mem"

text \<open>The sector of the device that \<open>partition_read\<close> and \<open>partition_write\<close> access.\<close>

definition partition_sector :: "partition \<Rightarrow> u32 \<Rightarrow> u32" where
  "partition_sector p sec = part_start p + sec"

section \<open>The real time clock\<close>

definition bcd_to_bin :: "u8 \<Rightarrow> int" where
  "bcd_to_bin x = uint (x AND 0x0f) + uint (drop_bit 4 x) * 10"

text \<open>\<open>cmos n reg\<close> is what the \<open>n\<close>-th call of \<open>cmos_read\<close> gets from the register.\<close>

partial_function (option) rtc_components :: "(nat \<Rightarrow> nat \<Rightarrow> u8) \<Rightarrow> nat \<Rightarrow> (int \<times> int \<times> int \<times> int \<times> int \<times> int) option" where
  "rtc_components cmos n = do {
     let sec = bcd_to_bin (cmos n 0);
     let min' = bcd_to_bin (cmos (n + 1) 2);
     let hour = bcd_to_bin (cmos (n + 2) 4);
     let mday = bcd_to_bin (cmos (n + 3) 7);
     let mon = bcd_to_bin (cmos (n + 4) 8);
     let year = bcd_to_bin (cmos (n + 5) 9);
     if sec \<noteq> bcd_to_bin (cmos (n + 6) 0) then rtc_components cmos (n + 7)
     else Some (sec, min', hour, mday, mon, year)
   }"

definition days_per_month :: "int list" where
  "days_per_month = [31, 28, 31, 30, 31, 30, 31, 31, 30, 31, 30, 31]"

definition month_days :: "nat \<Rightarrow> int option" where
  "month_days mon = (if mon \<le> 12 then Some (sum_list (take mon days_per_month)) else None)"

definition rtc_get_time :: "(nat \<Rightarrow> nat \<Rightarrow> u8) \<Rightarrow> u32 option" where
  "rtc_get_time cmos = do {
     (sec, min', hour, mday, mon, year) \<leftarrow> rtc_components cmos 0;
     let year = (if year < 70 then year + 100 else year) - 70;
     let leap = (if year = 0 then 0 else (year - 1) div 4);
     let time = (year * 365 + leap) * 24 * 60 * 60;
     days \<leftarrow> month_days (nat mon);
     let time = time + days * 24 * 60 * 60;
     let time = (if 2 < mon \<and> year mod 4 = 0 then time + 24 * 60 * 60 else time);
     let time = time + (mday - 1) * 24 * 60 * 60 + hour * 60 * 60 + min' * 60 + sec;
     Some (word_of_int time)
   }"

section \<open>The keyboard\<close>

type_synonym keymap = "(u32 \<times> u8 list) list"

definition invariant_keymap :: keymap where
  "invariant_keymap = [(0x01, [0x1b]), (0x0e, [8]), (0x0f, map of_char (CHR 0x09 # ''QWERTYUIOP'')), (0x1c, [13]),
     (0x1e, map of_char ''ASDFGHJKL''), (0x2c, map of_char ''ZXCVBNM''), (0x37, map of_char ''*''),
     (0x39, map of_char '' ''), (0x53, [0x7f])]"

definition unshifted_keymap :: keymap where
  "unshifted_keymap = [(0x02, map of_char ''1234567890-=''), (0x1a, map of_char ''[]''),
     (0x27, map of_char [CHR '';'', CHR 0x27, CHR 0x60]), (0x2b, [0x5c]), (0x33, map of_char '',./'')]"

definition shifted_keymap :: keymap where
  "shifted_keymap = [(0x02, map of_char ''!@#$%^&*()_+''), (0x1a, map of_char ''{}''),
     (0x27, map of_char [CHR '':'', CHR 0x22, CHR ''~'']), (0x2b, map of_char ''|''), (0x33, map of_char ''<>?'')]"

fun map_key :: "keymap \<Rightarrow> u32 \<Rightarrow> u8 option" where
  "map_key [] scancode = None"
| "map_key ((first, chars) # k) scancode =
     (if first \<le> scancode \<and> scancode < first + of_nat (length chars)
      then Some (chars ! unat (scancode - first)) else map_key k scancode)"

record kbd =
  left_shift :: bool
  right_shift :: bool
  left_alt :: bool
  right_alt :: bool
  left_ctrl :: bool
  right_ctrl :: bool
  caps_lock :: bool
  key_cnt :: u64
  buffer :: intq

datatype key_effect = Reboot | Handled kbd "thread_id option"

definition input_full :: "cpu \<Rightarrow> intq \<Rightarrow> bool option" where
  "input_full c q = do { ASSERT (intr_off c); intq_full c q }"

definition input_putc :: "cpu \<Rightarrow> intq \<Rightarrow> u8 \<Rightarrow> outcome option" where
  "input_putc c q key = do {
     ASSERT (intr_off c);
     full \<leftarrow> intq_full c q;
     ASSERT (\<not> full);
     intq_putc c q key
   }"

definition input_init :: "intq \<Rightarrow> intq" where
  "input_init q = intq_init q"

text \<open>\<open>input_getc\<close> turns interrupts off around the read.\<close>

definition input_getc :: "cpu \<Rightarrow> intq \<Rightarrow> outcome option" where
  "input_getc c q = intq_getc (c\<lparr>intr_off := True\<rparr>) q"

definition tolower :: "u8 \<Rightarrow> u8" where
  "tolower c = (if 65 \<le> c \<and> c \<le> 90 then c - 65 + 97 else c)"

definition read_scancode :: "u8 \<Rightarrow> u8 \<Rightarrow> u32" where
  "read_scancode b b' = (if b = 0xe0 then push_bit 8 (ucast b) OR ucast b' else ucast b)"

definition key_char :: "bool \<Rightarrow> u32 \<Rightarrow> u8 option" where
  "key_char shift code' =
     (case map_key invariant_keymap code' of Some c \<Rightarrow> Some c
      | None \<Rightarrow> map_key (if shift then shifted_keymap else unshifted_keymap) code')"

definition set_shift_key :: "u32 \<Rightarrow> bool \<Rightarrow> kbd \<Rightarrow> kbd" where
  "set_shift_key code' down k =
     (if code' = 0x2a then k\<lparr>left_shift := down\<rparr>
      else if code' = 0x36 then k\<lparr>right_shift := down\<rparr>
      else if code' = 0x38 then k\<lparr>left_alt := down\<rparr>
      else if code' = 0xe038 then k\<lparr>right_alt := down\<rparr>
      else if code' = 0x1d then k\<lparr>left_ctrl := down\<rparr>
      else if code' = 0xe01d then k\<lparr>right_ctrl := down\<rparr>
      else k)"

text \<open>The handler: \<open>b\<close> and \<open>b'\<close> are the first and, after a prefix, the second byte it reads from the
  data register.\<close>

definition keyboard_interrupt :: "cpu \<Rightarrow> u8 \<Rightarrow> u8 \<Rightarrow> kbd \<Rightarrow> key_effect option" where
  "keyboard_interrupt cp b b' k = do {
     let shift = (left_shift k \<or> right_shift k);
     let alt = (left_alt k \<or> right_alt k);
     let ctrl = (left_ctrl k \<or> right_ctrl k);
     let code' = read_scancode b b';
     let release = (code' AND 0x80 \<noteq> 0);
     let code' = code' AND NOT 0x80;
     if code' = 0x3a then Some (Handled (if release then k else k\<lparr>caps_lock := \<not> caps_lock k\<rparr>) None)
     else case key_char shift code' of
       Some c \<Rightarrow>
         if release then Some (Handled k None)
         else if c = 0x7f \<and> ctrl \<and> alt then Some Reboot
         else do {
           let c = (if ctrl \<and> 0x40 \<le> c \<and> c < 0x60 then c - 0x40
                    else if shift = caps_lock k then tolower c else c);
           let c = (if alt then c + 0x80 else c);
           full \<leftarrow> input_full cp (buffer k);
           if full then Some (Handled k None)
           else do {
             r \<leftarrow> input_putc cp (buffer k) c;
             case r of
               Done _ q t \<Rightarrow> Some (Handled (k\<lparr>key_cnt := key_cnt k + 1, buffer := q\<rparr>) t)
             | _ \<Rightarrow> None
           }
         }
     | None \<Rightarrow> Some (Handled (set_shift_key code' (\<not> release) k) None)
   }"


section \<open>Partitions lie inside their device\<close>

definition inside :: "block_device \<Rightarrow> partition \<Rightarrow> bool" where
  "inside block p \<longleftrightarrow> unat (part_start p) + unat (part_size p) \<le> unat (bd_size block)"

lemma add_no_wrap:
  fixes a b :: u32
  assumes "\<not> a + b < a"
  shows "unat (a + b) = unat a + unat b"
proof -
  have "a \<le> a + b" using assms by simp
  then show ?thesis by (simp add: unat_plus_simple)
qed

lemma found_partition_inside:
  assumes "list_all (inside block) parts" "found_partition block ptype start size' nr parts mem = Some (parts', mem')"
  shows "list_all (inside block) parts'"
proof -
  have "inside block \<lparr>part_number = nr, part_type = t, part_start = start, part_size = size'\<rparr>"
    if "\<not> start + size' < start" "\<not> bd_size block < start + size'" for t
    using that add_no_wrap [OF that(1)] by (simp add: inside_def word_less_nat_alt)
  with assms show ?thesis by (auto simp: found_partition_def Let_def bind_eq_Some_conv split: if_splits)
qed

lemma scan_entries_inside:
  assumes "scan_entries block sec primary i nr parts mem = Some r" "list_all (inside block) parts"
  shows "list_all (inside block) (fst (snd r))"
proof -
  have "list_all (inside block) parts \<longrightarrow> list_all (inside block) (fst (snd r))"
  proof (rule scan_entries.raw_induct [OF _ assms(1), where P = "\<lambda>block sec primary i nr parts mem r.
        list_all (inside block) parts \<longrightarrow> list_all (inside block) (fst (snd r))"], goal_cases)
    case (1 scan block sec primary i nr parts mem r)
    note IH = 1(1) and body = 1(2)
    define e where "e = table_entry (bd_sectors block 0) i"
    show ?case
    proof (intro impI)
      assume parts: "list_all (inside block) parts"
      consider "4 \<le> i" | "\<not> 4 \<le> i" "entry_empty e" | "\<not> 4 \<le> i" "\<not> entry_empty e" "entry_extended e"
        | "\<not> 4 \<le> i" "\<not> entry_empty e" "\<not> entry_extended e" by blast
      then show "list_all (inside block) (fst (snd r))"
      proof cases
        case 1
        then show ?thesis using body parts by auto
      next
        case 2
        then show ?thesis using body parts IH by (auto simp: Let_def simp flip: e_def)
      next
        case 3
        define s' where "s' = (if sec = 0 then (e_offset e, e_offset e) else (e_offset e + primary, primary))"
        obtain nr1 p1 m1 where p1: "p1 = parts \<or> (\<exists>m m2. scan block (fst s') (snd s') 0 nr parts m = Some (nr1, p1, m2))"
            "scan block sec primary (i + 1) nr1 p1 m1 = Some r"
          using body 3 by (auto simp: Let_def s'_def bind_eq_Some_conv simp flip: e_def split: if_splits) blast+
        have "list_all (inside block) p1"
          using p1(1)
        proof
          assume "\<exists>m m2. scan block (fst s') (snd s') 0 nr parts m = Some (nr1, p1, m2)"
          then obtain m m2 where "scan block (fst s') (snd s') 0 nr parts m = Some (nr1, p1, m2)" by blast
          from IH [OF this] parts show ?thesis by simp
        qed (use parts in simp)
        then show ?thesis using IH [OF p1(2)] by simp
      next
        case 4
        then obtain p1 m1 where p1: "found_partition block (e_ptype e) (e_offset e + sec) (e_size e) (nr + 1) parts mem = Some (p1, m1)"
            "scan block sec primary (i + 1) (nr + 1) p1 m1 = Some r"
          using body by (auto simp: Let_def bind_eq_Some_conv simp flip: e_def)
        from IH [OF p1(2)] found_partition_inside [OF parts p1(1)] show ?thesis by simp
      qed
    qed
  qed
  with assms(2) show ?thesis by simp
qed

text \<open>C33. Every partition that a scan registers lies inside its device: if \<open>partition_scan\<close> returns, the
  sectors of each partition end at or before the end of the device, and an access to any sector of the
  partition goes to a sector of the device within the range, without wrap-around.\<close>

theorem partition_scan_inside:
  assumes "partition_scan block mem = Some (nr, parts, mem')" "p \<in> set parts" "sec < part_size p"
  shows "unat (part_start p) + unat (part_size p) \<le> unat (bd_size block) \<and>
    unat (partition_sector p sec) = unat (part_start p) + unat sec \<and> partition_sector p sec < bd_size block"
proof -
  have "list_all (inside block) parts"
    using assms(1) scan_entries_inside [where parts = "[]"]
    by (fastforce simp: partition_scan_def read_partition_table_def bind_eq_Some_conv split: if_splits)
  then have p: "unat (part_start p) + unat (part_size p) \<le> unat (bd_size block)"
    using assms(2) by (simp add: list_all_iff inside_def)
  have s: "unat sec < unat (part_size p)" using assms(3) by (simp add: word_less_nat_alt)
  have "unat (bd_size block) < 2 ^ LENGTH(32)" by (rule unsigned_less)
  with p s have "unat (part_start p + sec) = unat (part_start p) + unat sec"
    using unat_add_lem [of "part_start p" sec] by simp
  with p s show ?thesis by (simp add: partition_sector_def word_less_nat_alt)
qed

definition sample_table :: "u8 \<Rightarrow> u8 \<Rightarrow> u8 list" where
  "sample_table t o' = replicate 446 0 @ [0, 0, 0, 0, t, 0, 0, 0, o', 0, 0, 0, 8, 0, 0, 0] @ replicate 48 0 @ [0x55, 0xaa]"

definition sample_device :: "u8 \<Rightarrow> u8 \<Rightarrow> block_device" where
  "sample_device t o' = \<lparr>bd_size = 100, bd_sectors = (\<lambda>s. sample_table t o')\<rparr>"

lemma sample_table_entries:
  "table_entry (sample_table t o') 0 = \<lparr>e_ptype = t, e_offset = ucast o', e_size = 8\<rparr>"
  "entry_empty (table_entry (sample_table t o') (Suc 0))" "entry_empty (table_entry (sample_table t o') 2)"
  "entry_empty (table_entry (sample_table t o') 3)" "signature_ok (sample_table t o')"
  by (simp_all add: table_entry_def sample_table_def get32_def signature_ok_def entry_empty_def nth_append Let_def)

lemma sample_scan:
  "partition_scan (sample_device 0x21 10) 3 =
     Some (1, [\<lparr>part_number = 1, part_type = BLOCK_FILESYS, part_start = 10, part_size = 8\<rparr>], 1)"
proof -
  have rest: "scan_entries (sample_device 0x21 10) 0 0 (Suc 0) nr parts mem = Some (nr, parts, mem)" for nr parts mem
    by (subst scan_entries.simps, simp add: sample_device_def sample_table_entries numeral_2_eq_2 [symmetric],
        subst scan_entries.simps, simp add: sample_table_entries,
        subst scan_entries.simps, simp add: sample_table_entries, subst scan_entries.simps, simp)
  show ?thesis
    unfolding partition_scan_def read_partition_table_def
    by (subst scan_entries.simps)
      (use rest in \<open>simp add: sample_device_def sample_table_entries entry_empty_def entry_extended_def found_partition_def alloc_def\<close>)
qed

theorem partition_scan_inside_witness:
  "partition_sector \<lparr>part_number = 1, part_type = BLOCK_FILESYS, part_start = 10, part_size = 8\<rparr> 7 < bd_size (sample_device 0x21 10)"
  using partition_scan_inside [OF sample_scan, of "\<lparr>part_number = 1, part_type = BLOCK_FILESYS, part_start = 10, part_size = 8\<rparr>" 7]
  by simp

section \<open>Extended partitions\<close>

lemma nested_scan_diverges:
  assumes "scan_entries block sec primary i nr parts mem = Some r"
    and e: "\<not> entry_empty (table_entry (bd_sectors block 0) k)" "entry_extended (table_entry (bd_sectors block 0) k)"
    and before: "\<forall>j < k. entry_empty (table_entry (bd_sectors block 0) j) \<or> \<not> entry_extended (table_entry (bd_sectors block 0) j)"
    and off: "off = e_offset (table_entry (bd_sectors block 0) k)" "off + off \<noteq> 0" "off + off < bd_size block"
    and sig: "signature_ok (bd_sectors block 0)" and k: "k < 4"
    and args: "sec \<noteq> 0" "primary = off" "i \<le> k"
  shows False
proof -
  have "\<not> (block' = block \<and> sec \<noteq> 0 \<and> primary = off \<and> i \<le> k)"
    if "scan_entries block' sec primary i nr parts mem = Some r" for block' sec primary i nr parts mem r
  proof (rule scan_entries.raw_induct [OF _ that, where P = "\<lambda>block' sec primary i nr parts mem r.
        \<not> (block' = block \<and> sec \<noteq> 0 \<and> primary = off \<and> i \<le> k)"], goal_cases)
    case (1 scan block' sec primary i nr parts mem r)
    note IH = 1(1) and body = 1(2)
    show ?case
    proof (rule notI, elim conjE)
      assume a: "block' = block" "sec \<noteq> 0" "primary = off" "i \<le> k"
      show False
      proof (cases "i = k")
        case True
        have "\<not> bd_size block \<le> off + off" using off(3) by simp
        then obtain m r1 where "scan block (off + off) off 0 nr parts m = Some r1"
          using body a e sig k True by (auto simp: Let_def off(1) [symmetric] bind_eq_Some_conv)
        from IH [OF this] off(2) show False by simp
      next
        case False
        then have "i < k" using a by simp
        then obtain nr1 p1 m1 where "scan block sec off (i + 1) nr1 p1 m1 = Some r"
          using body a before k by (fastforce simp: Let_def bind_eq_Some_conv split: if_splits)
        from IH [OF this] a \<open>i < k\<close> show False by simp
      qed
    qed
  qed
  from this [OF assms(1)] args show False by simp
qed

text \<open>C34. A disk whose first extended partition begins before the middle of the device is never scanned
  to the end: \<open>read_partition_table\<close> reads sector 0 whatever \<open>sector\<close> it is called for, so for the table
  of the extended partition it finds the master boot record again and descends, allocating a table at
  each level, until memory is used up and the kernel panics.  No amount of memory is enough.  (Behind
  the middle, the second level is past the end of the device, where the descent stops.)\<close>

theorem partition_scan_extended_diverges:
  assumes "signature_ok (bd_sectors block 0)" "k < 4"
    and "\<not> entry_empty (table_entry (bd_sectors block 0) k)" "entry_extended (table_entry (bd_sectors block 0) k)"
    and "\<forall>j < k. entry_empty (table_entry (bd_sectors block 0) j) \<or> \<not> entry_extended (table_entry (bd_sectors block 0) j)"
    and "off = e_offset (table_entry (bd_sectors block 0) k)" "0 < off" "off < bd_size block"
    and "0 < off + off" "off + off < bd_size block"
  shows "partition_scan block mem = None"
proof -
  have top: "scan_entries block 0 0 i nr parts mem = None" if "i \<le> k" for i nr parts mem
    using that
  proof (induction "k - i" arbitrary: i nr parts mem)
    case 0
    then have "i = k" by simp
    have "scan_entries block off off 0 nr parts m = None" for m
    proof (rule ccontr)
      assume "scan_entries block off off 0 nr parts m \<noteq> None"
      then obtain r where "scan_entries block off off 0 nr parts m = Some r" by auto
      then show False
        by (rule nested_scan_diverges [where k = k and off = off]) (use assms in auto)
    qed
    moreover have "\<not> bd_size block \<le> off" using assms(8) by simp
    ultimately show ?case
      using assms(1-4) \<open>i = k\<close> by (subst scan_entries.simps) (simp add: Let_def alloc_def assms(6) [symmetric])
  next
    case (Suc d)
    then have "i < k" "d = k - (i + 1)" "i + 1 \<le> k" by simp_all
    then have "scan_entries block 0 0 (i + 1) nr parts mem = None" for nr parts mem by (intro Suc.hyps(1)) simp_all
    then show ?case
      using assms(2,5) \<open>i < k\<close> by (subst scan_entries.simps) (auto simp: Let_def split: bind_splits)
  qed
  have "\<not> bd_size block \<le> 0" using assms(8) by (metis less_le_trans not_le word_zero_le)
  then show ?thesis
    using top [of 0 0 "[]"] assms(1) by (simp add: partition_scan_def read_partition_table_def alloc_def)
qed

theorem partition_scan_extended_diverges_witness: "partition_scan (sample_device 0x05 10) 1000 = None"
  by (rule partition_scan_extended_diverges [of _ 0 10])
    (simp_all add: sample_device_def sample_table_entries entry_empty_def entry_extended_def)

text \<open>An extended partition behind the middle of the device does not keep the scan from returning.\<close>

lemma scan_behind_middle: "partition_scan (sample_device 0x05 60) 2 = Some (0, [], 2)"
proof -
  have rest: "scan_entries (sample_device 0x05 60) sec pr (Suc 0) nr parts mem = Some (nr, parts, mem)" for sec pr nr parts mem
    by (subst scan_entries.simps, simp add: sample_device_def sample_table_entries numeral_2_eq_2 [symmetric],
        subst scan_entries.simps, simp add: sample_table_entries,
        subst scan_entries.simps, simp add: sample_table_entries, subst scan_entries.simps, simp)
  have inner: "scan_entries (sample_device 0x05 60) 60 60 0 nr parts mem = Some (nr, parts, mem)" for nr parts mem
    by (subst scan_entries.simps)
      (use rest in \<open>simp add: sample_device_def sample_table_entries entry_empty_def entry_extended_def\<close>)
  show ?thesis
    unfolding partition_scan_def read_partition_table_def
    by (subst scan_entries.simps)
      (use rest inner in \<open>simp add: sample_device_def sample_table_entries entry_empty_def entry_extended_def alloc_def\<close>)
qed

section \<open>Typing a letter\<close>

text \<open>The clock reads one month too many: at the epoch it is 31 days ahead.\<close>

lemma rtc_epoch:
  "rtc_get_time (\<lambda>n reg. if reg = 7 \<or> reg = 8 then 1 else if reg = 9 then 0x70 else 0) = Some 2678400"
  by (simp add: rtc_get_time_def rtc_components.simps bcd_to_bin_def month_days_def days_per_month_def)

lemma low_byte_bits:
  fixes b :: u8
  assumes "b < 0x80"
  shows "ucast b AND (0x80 :: u32) = 0 \<and> ucast b AND NOT (0x80 :: u32) = ucast b"
proof -
  have "unat b div 128 = 0" using assms by (simp add: word_less_nat_alt)
  then have "unat (b div 128) = 0" by (simp add: unat_div_distrib)
  then have "b div 128 = 0" by (simp only: unat_eq_zero)
  then have "\<not> bit b 7" by (simp add: bit_iff_odd)
  have m: "bit (0x80 :: u32) n \<Longrightarrow> n = 7" for n using bit_exp_iff [of 7 n, where ?'a = u32] by simp
  have "ucast b AND m = 0 \<and> ucast b AND NOT m = ucast b" if "\<And>n. bit m n \<Longrightarrow> n = 7" for m :: u32
    using that \<open>\<not> bit b 7\<close> by (intro conjI bit_word_eqI) (auto simp: bit_and_iff bit_not_iff bit_ucast_iff)
  from this [OF m] show ?thesis .
qed

lemma unat_ucast_byte: "unat (ucast (b :: u8) :: u32) = unat b"
proof -
  have "unat b < 2 ^ LENGTH(8)" by (rule unsigned_less)
  then show ?thesis by (simp add: unsigned_ucast_eq take_bit_nat_eq_self_iff)
qed

text \<open>Typing a letter: with neither Ctrl nor Alt down and room in the input buffer, pressing the key
  of a letter appends that letter to the buffer, in upper case exactly if one of Shift and Caps Lock is
  on, counts the key, leaves the modifiers alone and wakes the thread that waits for input.\<close>

theorem keyboard_types_letter:
  assumes "map_key invariant_keymap (ucast b) = Some c" "65 \<le> c" "c \<le> 90" "b < 0x80" "b \<noteq> 0x3a"
    and "\<not> left_ctrl k" "\<not> right_ctrl k" "\<not> left_alt k" "\<not> right_alt k"
    and "intq_wf (buffer k)" "intr_off cp" "length (intq_bytes (buffer k)) < 63"
  shows "\<exists>q. keyboard_interrupt cp b b' k =
      Some (Handled (k\<lparr>key_cnt := key_cnt k + 1, buffer := q\<rparr>) (not_empty (buffer k))) \<and>
    intq_wf q \<and> intq_bytes q = intq_bytes (buffer k) @
      [if (left_shift k \<or> right_shift k) \<noteq> caps_lock k then c else c + 32]"
proof -
  have code': "read_scancode b b' = ucast b" using assms(4) by (auto simp: read_scancode_def)
  have hi: "ucast b AND (0x80 :: u32) = 0" "ucast b AND NOT (0x80 :: u32) = ucast b"
    using low_byte_bits [OF assms(4)] by auto
  have ne: "(ucast b :: u32) \<noteq> 0x3a"
  proof
    assume "(ucast b :: u32) = 0x3a"
    then have "unat b = unat (0x3a :: u8)" using unat_ucast_byte [of b] by simp
    then have "b = 0x3a" by (rule unsigned_word_eqI)
    with assms(5) show False by simp
  qed
  let ?c = "if (left_shift k \<or> right_shift k) = caps_lock k then tolower c else c"
  obtain q where q: "intq_putc cp (buffer k) ?c = Some (Done None q (not_empty (buffer k)))" "intq_wf q"
      "intq_bytes q = intq_bytes (buffer k) @ [?c]"
    by (rule intq_putc_ok [OF assms(10,11,12)])
  have "next_pos (head (buffer k)) \<noteq> tail (buffer k)" using intq_full_iff [OF assms(10)] assms(12) by simp
  then have full: "intq_full cp (buffer k) = Some False" using assms(11) by (simp add: intq_full_def)
  have low: "tolower c = c + 32" using assms(2,3) by (simp add: tolower_def)
  have "c \<noteq> 0x7f" using assms(3) by auto
  have "keyboard_interrupt cp b b' k =
      Some (Handled (k\<lparr>key_cnt := key_cnt k + 1, buffer := q\<rparr>) (not_empty (buffer k)))"
    using assms(1,6-9,11) q(1) full hi ne \<open>c \<noteq> 0x7f\<close>
    by (simp add: keyboard_interrupt_def code' key_char_def input_full_def input_putc_def Let_def cong: if_cong)
  then show ?thesis using q(2,3) low by (auto split: if_splits)
qed


definition sample_kbd :: kbd where
  "sample_kbd = \<lparr>left_shift = True, right_shift = False, left_alt = False, right_alt = False, left_ctrl = False,
     right_ctrl = False, caps_lock = False, key_cnt = 0,
     buffer = \<lparr>locked = False, not_full = None, not_empty = None, buf = replicate 64 0, head = 0, tail = 0\<rparr>\<rparr>"

theorem keyboard_types_letter_witness:
  "\<exists>q. keyboard_interrupt \<lparr>intr_off = True, in_intr = True, running = 1\<rparr> 0x1e 0 sample_kbd =
      Some (Handled (sample_kbd\<lparr>key_cnt := 1, buffer := q\<rparr>) None) \<and> intq_bytes q = [65]"
proof -
  have m: "map_key invariant_keymap (ucast (0x1e :: u8)) = Some 65" by (simp add: invariant_keymap_def)
  have w: "intq_wf (buffer sample_kbd)" "intq_bytes (buffer sample_kbd) = []"
    by (simp_all add: sample_kbd_def intq_wf_def intq_bytes_def intq_len_def)
  have l: "length (intq_bytes (buffer sample_kbd)) < 63" unfolding w(2) by simp
  have f: "\<not> left_ctrl sample_kbd" "\<not> right_ctrl sample_kbd" "\<not> left_alt sample_kbd" "\<not> right_alt sample_kbd"
      "left_shift sample_kbd" "\<not> caps_lock sample_kbd" "key_cnt sample_kbd = 0" "not_empty (buffer sample_kbd) = None"
    by (simp_all add: sample_kbd_def)
  show ?thesis
    using keyboard_types_letter [OF m _ _ _ _ f(1-4) w(1) _ l, of "\<lparr>intr_off = True, in_intr = True, running = 1\<rparr>" 0]
    by (auto simp: f w(2))
qed

end
