(* ===== verification/Pintos_Descriptors.thy ===== *)
theory Pintos_Descriptors
  imports Pintos_Kernel
begin

text \<open>
  The descriptor tables of the processor: interrupt gates and the registration of handlers
  (\<open>threads/interrupt.c\<close>), segment descriptors (\<open>userprog/gdt.c\<close>), the registration of exceptions and
  the page fault handler (\<open>userprog/exception.c\<close>).  \<open>stubs\<close> is the table \<open>intr_stubs\<close> of the assembly
  entry points, an argument; a handler is its address and 0 is the null pointer.  The decoding
  functions state the layout that the processor documents for the descriptors.
\<close>

unbundle bit_operations_syntax

section \<open>Interrupt gates\<close>

definition SEL_KCSEG :: u32 where
  "SEL_KCSEG = 0x08"

definition make_gate :: "u32 \<Rightarrow> u32 \<Rightarrow> u32 \<Rightarrow> u64 option" where
  "make_gate function' dpl type' = do {
     ASSERT (function' \<noteq> 0);
     ASSERT (dpl \<le> 3);
     ASSERT (type' \<le> 15);
     let e0 = (function' AND 0xffff) OR push_bit 16 SEL_KCSEG;
     let e1 = (function' AND 0xffff0000) OR push_bit 15 1 OR push_bit 13 dpl OR push_bit 12 0 OR push_bit 8 type';
     Some (ucast e0 OR push_bit 32 (ucast e1))
   }"

definition make_intr_gate :: "u32 \<Rightarrow> u32 \<Rightarrow> u64 option" where
  "make_intr_gate function' dpl = make_gate function' dpl 14"

definition make_trap_gate :: "u32 \<Rightarrow> u32 \<Rightarrow> u64 option" where
  "make_trap_gate function' dpl = make_gate function' dpl 15"

definition make_idtr_operand :: "u16 \<Rightarrow> u32 \<Rightarrow> u64" where
  "make_idtr_operand limit base = ucast limit OR push_bit 16 (ucast base)"

section \<open>Registration of handlers\<close>

record intr_tables =
  idt :: "u8 \<Rightarrow> u64"
  intr_handlers :: "u8 \<Rightarrow> u32"
  intr_names :: "u8 \<Rightarrow> string"

fun set_gates :: "u8 list \<Rightarrow> (u8 \<Rightarrow> u32) \<Rightarrow> (u8 \<Rightarrow> u64) \<Rightarrow> (u8 \<Rightarrow> u64) option" where
  "set_gates [] stubs gates = Some gates"
| "set_gates (v # vs) stubs gates = do { g \<leftarrow> make_intr_gate (stubs v) 0; set_gates vs stubs (gates(v := g)) }"

definition exception_names :: "(u8 \<times> string) list" where
  "exception_names = [(0, ''#DE Divide Error''), (1, ''#DB Debug Exception''), (2, ''NMI Interrupt''),
     (3, ''#BP Breakpoint Exception''), (4, ''#OF Overflow Exception''), (5, ''#BR BOUND Range Exceeded Exception''),
     (6, ''#UD Invalid Opcode Exception''), (7, ''#NM Device Not Available Exception''), (8, ''#DF Double Fault Exception''),
     (9, ''Coprocessor Segment Overrun''), (10, ''#TS Invalid TSS Exception''), (11, ''#NP Segment Not Present''),
     (12, ''#SS Stack Fault Exception''), (13, ''#GP General Protection Exception''), (14, ''#PF Page-Fault Exception''),
     (16, ''#MF x87 FPU Floating-Point Error''), (17, ''#AC Alignment Check Exception''),
     (18, ''#MC Machine-Check Exception''), (19, ''#XF SIMD Floating-Point Exception'')]"

text \<open>\<open>intr_init\<close> without the programming of the interrupt controller and the load of the register.\<close>

definition intr_init :: "(u8 \<Rightarrow> u32) \<Rightarrow> intr_tables \<Rightarrow> intr_tables option" where
  "intr_init stubs t = do {
     gates \<leftarrow> set_gates (map of_nat [0..<256]) stubs (idt t);
     Some (t\<lparr>idt := gates, intr_names := (\<lambda>v. case map_of exception_names v of None \<Rightarrow> ''unknown'' | Some n \<Rightarrow> n)\<rparr>)
   }"

definition register_handler ::
  "(u8 \<Rightarrow> u32) \<Rightarrow> u8 \<Rightarrow> u32 \<Rightarrow> intr_level \<Rightarrow> u32 \<Rightarrow> string \<Rightarrow> intr_tables \<Rightarrow> intr_tables option" where
  "register_handler stubs vec_no dpl lvl handler nm t = do {
     ASSERT (intr_handlers t vec_no = 0);
     g \<leftarrow> if lvl = INTR_ON then make_trap_gate (stubs vec_no) dpl else make_intr_gate (stubs vec_no) dpl;
     Some (t\<lparr>idt := (idt t)(vec_no := g), intr_handlers := (intr_handlers t)(vec_no := handler),
             intr_names := (intr_names t)(vec_no := nm)\<rparr>)
   }"

definition intr_register_ext :: "(u8 \<Rightarrow> u32) \<Rightarrow> u8 \<Rightarrow> u32 \<Rightarrow> string \<Rightarrow> intr_tables \<Rightarrow> intr_tables option" where
  "intr_register_ext stubs vec_no handler nm t = do {
     ASSERT (0x20 \<le> vec_no \<and> vec_no \<le> 0x2f);
     register_handler stubs vec_no 0 INTR_OFF handler nm t
   }"

definition intr_register_int ::
  "(u8 \<Rightarrow> u32) \<Rightarrow> u8 \<Rightarrow> u32 \<Rightarrow> intr_level \<Rightarrow> u32 \<Rightarrow> string \<Rightarrow> intr_tables \<Rightarrow> intr_tables option" where
  "intr_register_int stubs vec_no dpl lvl handler nm t = do {
     ASSERT (vec_no < 0x20 \<or> 0x2f < vec_no);
     register_handler stubs vec_no dpl lvl handler nm t
   }"

text \<open>\<open>kill'\<close> and \<open>pf\<close> are the addresses of \<open>kill\<close> and \<open>page_fault\<close>.\<close>

definition exception_init :: "(u8 \<Rightarrow> u32) \<Rightarrow> u32 \<Rightarrow> u32 \<Rightarrow> intr_tables \<Rightarrow> intr_tables option" where
  "exception_init stubs kill' pf t = do {
     t \<leftarrow> intr_register_int stubs 3 3 INTR_ON kill' ''#BP Breakpoint Exception'' t;
     t \<leftarrow> intr_register_int stubs 4 3 INTR_ON kill' ''#OF Overflow Exception'' t;
     t \<leftarrow> intr_register_int stubs 5 3 INTR_ON kill' ''#BR BOUND Range Exceeded Exception'' t;
     t \<leftarrow> intr_register_int stubs 0 0 INTR_ON kill' ''#DE Divide Error'' t;
     t \<leftarrow> intr_register_int stubs 1 0 INTR_ON kill' ''#DB Debug Exception'' t;
     t \<leftarrow> intr_register_int stubs 6 0 INTR_ON kill' ''#UD Invalid Opcode Exception'' t;
     t \<leftarrow> intr_register_int stubs 7 0 INTR_ON kill' ''#NM Device Not Available Exception'' t;
     t \<leftarrow> intr_register_int stubs 11 0 INTR_ON kill' ''#NP Segment Not Present'' t;
     t \<leftarrow> intr_register_int stubs 12 0 INTR_ON kill' ''#SS Stack Fault Exception'' t;
     t \<leftarrow> intr_register_int stubs 13 0 INTR_ON kill' ''#GP General Protection Exception'' t;
     t \<leftarrow> intr_register_int stubs 16 0 INTR_ON kill' ''#MF x87 FPU Floating-Point Error'' t;
     t \<leftarrow> intr_register_int stubs 19 0 INTR_ON kill' ''#XF SIMD Floating-Point Exception'' t;
     intr_register_int stubs 14 0 INTR_OFF pf ''#PF Page-Fault Exception'' t
   }"

definition syscall_init :: "(u8 \<Rightarrow> u32) \<Rightarrow> u32 \<Rightarrow> intr_tables \<Rightarrow> intr_tables option" where
  "syscall_init stubs handler t = intr_register_int stubs 0x30 3 INTR_ON handler ''syscall'' t"

section \<open>Exceptions\<close>

record intr_frame =
  f_eip :: u32
  f_eax :: u32
  f_cs :: u16
  f_error_code :: u32

definition SEL_UCSEG :: u16 where
  "SEL_UCSEG = 0x1B"

text \<open>\<open>kill\<close> without its messages: it ends the thread, \<open>thread_exit\<close>, except that an exception in kernel
  code stops the kernel.\<close>

datatype exception_end = Thread_exit

definition kill :: "intr_frame \<Rightarrow> exception_end option" where
  "kill f =
     (if f_cs f = SEL_UCSEG then Some Thread_exit
      else if f_cs f = ucast SEL_KCSEG then None
      else Some Thread_exit)"

text \<open>\<open>page_fault\<close> on the kernel, the counter of page faults, a signed 64-bit integer that must not
  overflow, and the frame of the interrupted code.  The local variables \<open>not_present\<close>, \<open>write\<close> and \<open>user\<close>
  are computed and not used, so the handler treats a fault of a user program like one of \<open>get_user\<close>: the
  interrupted code goes on at the address in its \<open>eax\<close>, with -1 as the result.\<close>

definition page_fault :: "intr_frame \<Rightarrow> int \<Rightarrow> kernel \<Rightarrow> (intr_frame \<times> int \<times> kernel) option" where
  "page_fault f page_fault_cnt k = do {
     k \<leftarrow> intr_enable k;
     ASSERT (page_fault_cnt + 1 < 2 ^ 63);
     Some (f\<lparr>f_eip := f_eax f, f_eax := 0xffffffff\<rparr>, page_fault_cnt + 1, k)
   }"

section \<open>Segment descriptors\<close>

datatype seg_class = CLS_SYSTEM | CLS_CODE_DATA

datatype seg_granularity = GRAN_BYTE | GRAN_PAGE

definition make_seg_desc :: "u32 \<Rightarrow> u32 \<Rightarrow> seg_class \<Rightarrow> u32 \<Rightarrow> u32 \<Rightarrow> seg_granularity \<Rightarrow> u64 option" where
  "make_seg_desc base limit class' type' dpl granularity = do {
     ASSERT (limit \<le> 0xfffff);
     ASSERT (type' \<le> 15);
     ASSERT (dpl \<le> 3);
     let e0 = (limit AND 0xffff) OR push_bit 16 base;
     let e1 = (drop_bit 16 base AND 0xff) OR push_bit 8 type' OR push_bit 12 (of_bool (class' = CLS_CODE_DATA))
        OR push_bit 13 dpl OR push_bit 15 1 OR (limit AND 0xf0000) OR push_bit 22 1
        OR push_bit 23 (of_bool (granularity = GRAN_PAGE)) OR (base AND 0xff000000);
     Some (ucast e0 OR push_bit 32 (ucast e1))
   }"

definition make_code_desc :: "u32 \<Rightarrow> u64 option" where
  "make_code_desc dpl = make_seg_desc 0 0xfffff CLS_CODE_DATA 10 dpl GRAN_PAGE"

definition make_data_desc :: "u32 \<Rightarrow> u64 option" where
  "make_data_desc dpl = make_seg_desc 0 0xfffff CLS_CODE_DATA 2 dpl GRAN_PAGE"

definition make_tss_desc :: "u32 \<Rightarrow> u64 option" where
  "make_tss_desc laddr = make_seg_desc laddr 0x67 CLS_SYSTEM 9 0 GRAN_BYTE"

definition make_gdtr_operand :: "u16 \<Rightarrow> u32 \<Rightarrow> u64" where
  "make_gdtr_operand limit' base = ucast limit' OR push_bit 16 (ucast base)"

section \<open>The task state segment\<close>

text \<open>The fields that the kernel sets, at the address of the page.\<close>

record tss =
  tss_addr :: u32
  ss0 :: u16
  tss_esp0 :: u32
  tss_bitmap :: u16

definition SEL_KDSEG :: u16 where
  "SEL_KDSEG = 0x10"

definition tss_update :: "u32 \<Rightarrow> tss option \<Rightarrow> tss option" where
  "tss_update thread_current tss = do { t \<leftarrow> tss; Some (t\<lparr>tss_esp0 := thread_current + of_nat PGSIZE\<rparr>) }"

text \<open>\<open>page\<close> is the result of the page allocator, which panics for \<open>PAL_ASSERT\<close> when there is no page.\<close>

definition tss_init :: "u32 option \<Rightarrow> u32 \<Rightarrow> tss option" where
  "tss_init page thread_current = do {
     a \<leftarrow> page;
     tss_update thread_current (Some \<lparr>tss_addr = a, ss0 = SEL_KDSEG, tss_esp0 = 0, tss_bitmap = 0xdfff\<rparr>)
   }"

definition tss_get :: "tss option \<Rightarrow> u32 option" where
  "tss_get tss = do { t \<leftarrow> tss; Some (tss_addr t) }"

text \<open>The table that \<open>gdt_init\<close> builds, in the order of the selectors.\<close>

definition gdt_init :: "tss option \<Rightarrow> u64 list option" where
  "gdt_init tss = do {
     kc \<leftarrow> make_code_desc 0;
     kd \<leftarrow> make_data_desc 0;
     uc \<leftarrow> make_code_desc 3;
     ud \<leftarrow> make_data_desc 3;
     laddr \<leftarrow> tss_get tss;
     ts \<leftarrow> make_tss_desc laddr;
     Some [0, kc, kd, uc, ud, ts]
   }"

section \<open>What the processor reads\<close>

definition gate_offset :: "u64 \<Rightarrow> u32" where
  "gate_offset g = take_bit 16 (ucast g) OR push_bit 16 (ucast (drop_bit 48 g))"

definition gate_selector :: "u64 \<Rightarrow> u32" where
  "gate_selector g = take_bit 16 (ucast (drop_bit 16 g))"

definition desc_type :: "u64 \<Rightarrow> u32" where
  "desc_type g = take_bit 4 (ucast (drop_bit 40 g))"

definition desc_dpl :: "u64 \<Rightarrow> u32" where
  "desc_dpl g = take_bit 2 (ucast (drop_bit 45 g))"

definition desc_present :: "u64 \<Rightarrow> bool" where
  "desc_present g \<longleftrightarrow> bit g 47"

definition seg_base :: "u64 \<Rightarrow> u32" where
  "seg_base g = take_bit 24 (ucast (drop_bit 16 g)) OR push_bit 24 (ucast (drop_bit 56 g))"

definition seg_limit :: "u64 \<Rightarrow> u32" where
  "seg_limit g = take_bit 16 (ucast g) OR push_bit 16 (take_bit 4 (ucast (drop_bit 48 g)))"

lemma small_bits:
  fixes x :: u32
  assumes "unat x < 2 ^ k" "bit x n"
  shows "n < k"
proof (rule ccontr)
  assume "\<not> n < k"
  then have "2 ^ k \<le> (2 :: nat) ^ n" by (intro power_increasing) simp_all
  with assms(1) have "unat x div 2 ^ n = 0" by (intro div_less) (rule less_le_trans)
  moreover have "bit (unat x) n" using assms(2) by (simp add: bit_unsigned_iff bit_imp_le_length)
  ultimately show False by (simp add: bit_iff_odd)
qed

lemma masks:
  "(0xffff :: u32) = mask 16" "(0xffff0000 :: u32) = push_bit 16 (mask 16)" "(0xff :: u32) = mask 8"
  "(0xf0000 :: u32) = push_bit 16 (mask 4)" "(0xff000000 :: u32) = push_bit 24 (mask 8)"
  by (simp_all add: mask_eq_exp_minus_1 push_bit_eq_mult)

lemma bit_eight: "bit (8 :: u32) n \<longleftrightarrow> n = 3"
  using bit_exp_iff [of 3 n, where ?'a = u32] by (auto simp: bit_imp_le_length)

lemma le_small:
  fixes x :: u32
  shows "x \<le> 3 \<Longrightarrow> bit x n \<Longrightarrow> n < 2" "x \<le> 15 \<Longrightarrow> bit x n \<Longrightarrow> n < 4" "x \<le> 0xfffff \<Longrightarrow> bit x n \<Longrightarrow> n < 20"
  using small_bits [of x 2 n] small_bits [of x 4 n] small_bits [of x 20 n] by (simp_all add: word_le_nat_alt)

text \<open>The bits of a gate.\<close>

definition gate :: "u32 \<Rightarrow> u32 \<Rightarrow> u32 \<Rightarrow> u64" where
  "gate f dpl type' = the (make_gate f dpl type')"

lemma make_gate_Some: "make_gate f dpl type' = Some g \<longleftrightarrow> f \<noteq> 0 \<and> dpl \<le> 3 \<and> type' \<le> 15 \<and> g = gate f dpl type'"
  by (auto simp: gate_def make_gate_def ASSERT_def Let_def split: if_splits)

lemma bit_pair:
  "bit (ucast (e0 :: u32) OR push_bit 32 (ucast (e1 :: u32)) :: u64) n \<longleftrightarrow> (if n < 32 then bit e0 n else bit e1 (n - 32))"
  by (cases "n < 32") (auto simp: bit_simps dest: bit_imp_le_length)

lemmas word_bits = bit_or_iff bit_and_iff bit_push_bit_iff bit_drop_bit_eq comp_def bit_mask_iff possible_bit_word bit_1_iff bit_eight
  push_bit_of_0 or.right_neutral

lemma word_bound: "bit (x :: u32) n \<Longrightarrow> n < 32"
  by (auto dest: bit_imp_le_length)

lemma gate_low: "bit ((f AND 0xffff) OR push_bit 16 SEL_KCSEG :: u32) n \<longleftrightarrow> n < 16 \<and> bit f n \<or> n = 19"
  unfolding masks SEL_KCSEG_def word_bits by (auto simp: word_bound)

lemma gate_high:
  assumes "dpl \<le> 3" "type' \<le> 15"
  shows "bit ((f AND 0xffff0000) OR push_bit 15 1 OR push_bit 13 dpl OR push_bit 12 0 OR push_bit 8 type' :: u32) m \<longleftrightarrow>
    16 \<le> m \<and> bit f m \<or> m = 15 \<or> 13 \<le> m \<and> m < 15 \<and> bit dpl (m - 13) \<or> 8 \<le> m \<and> m < 12 \<and> bit type' (m - 8)"
  using le_small(1) [OF assms(1), of "m - 13"] le_small(2) [OF assms(2), of "m - 8"] word_bound [of f m]
  unfolding masks word_bits by (auto simp: len_bit0)

lemma bit_gate:
  assumes "f \<noteq> 0" "dpl \<le> 3" "type' \<le> 15"
  shows "bit (gate f dpl type') n \<longleftrightarrow>
    n < 16 \<and> bit f n \<or> n = 19 \<or> 40 \<le> n \<and> n < 44 \<and> bit type' (n - 40) \<or> 45 \<le> n \<and> n < 47 \<and> bit dpl (n - 45) \<or>
    n = 47 \<or> 48 \<le> n \<and> bit f (n - 32)"
proof -
  have "gate f dpl type' = ucast ((f AND 0xffff) OR push_bit 16 SEL_KCSEG) OR
      push_bit 32 (ucast ((f AND 0xffff0000) OR push_bit 15 1 OR push_bit 13 dpl OR push_bit 12 0 OR push_bit 8 type'))"
    using assms by (simp only: gate_def make_gate_def ASSERT_def Let_def simp_thms if_True not_False_eq_True bind.bind_lunit option.sel)
  note b = this bit_pair gate_low gate_high [OF assms(2,3)]
  show ?thesis
  proof (cases "n < 32")
    case True
    then show ?thesis by (simp only: b if_True) auto
  next
    case False
    then obtain m where n: "n = m + 32" by (metis add.commute le_Suc_ex not_less)
    have "\<not> m + 32 < 32" by simp
    moreover have "m + 32 - 40 = m - 8" "m + 32 - 45 = m - 13" by simp_all
    ultimately show ?thesis unfolding n by (simp only: b if_False add_diff_cancel_right') auto
  qed
qed

lemma gate_reads:
  assumes "f \<noteq> 0" "dpl \<le> 3" "type' \<le> 15"
  shows "gate_offset (gate f dpl type') = f" "gate_selector (gate f dpl type') = SEL_KCSEG"
    "desc_type (gate f dpl type') = type'" "desc_dpl (gate f dpl type') = dpl" "desc_present (gate f dpl type')"
proof -
  note b = bit_gate [OF assms] and s = le_small(1) [OF assms(2)] le_small(2) [OF assms(3)]
  show "gate_offset (gate f dpl type') = f"
  proof (rule bit_word_eqI)
    show "bit (gate_offset (gate f dpl type')) n = bit f n" if "n < LENGTH(32)" for n
      using that by (cases "n < 16") (auto simp: gate_offset_def bit_simps b)
  qed
  show "gate_selector (gate f dpl type') = SEL_KCSEG"
  proof (rule bit_word_eqI)
    show "bit (gate_selector (gate f dpl type')) n = bit SEL_KCSEG n" if "n < LENGTH(32)" for n
      using that unfolding SEL_KCSEG_def bit_eight by (auto simp: gate_selector_def bit_simps b)
  qed
  show "desc_type (gate f dpl type') = type'"
    by (rule bit_word_eqI) (auto simp: desc_type_def bit_simps b dest: s)
  show "desc_dpl (gate f dpl type') = dpl"
    by (rule bit_word_eqI) (auto simp: desc_dpl_def bit_simps b dest: s)
  show "desc_present (gate f dpl type')" by (simp add: desc_present_def b)
qed

section \<open>Registration keeps the gates right\<close>

lemma make_typed_gate:
  "make_intr_gate f dpl = Some g \<longleftrightarrow> f \<noteq> 0 \<and> dpl \<le> 3 \<and> g = gate f dpl 14"
  "make_trap_gate f dpl = Some g \<longleftrightarrow> f \<noteq> 0 \<and> dpl \<le> 3 \<and> g = gate f dpl 15"
  by (simp_all add: make_intr_gate_def make_trap_gate_def make_gate_Some)

lemma set_gates_Some:
  "set_gates vs stubs gates = Some gates' \<Longrightarrow>
   if v \<in> set vs then make_intr_gate (stubs v) 0 = Some (gates' v) else gates' v = gates v"
proof (induction vs arbitrary: gates)
  case (Cons u vs)
  then obtain g where g: "make_intr_gate (stubs u) 0 = Some g" "set_gates vs stubs (gates(u := g)) = Some gates'"
    by (auto simp: bind_eq_Some_conv)
  from Cons.IH [OF g(2)] g(1) show ?case by (auto split: if_splits)
qed simp

lemma set_gates_total: "(\<And>v. stubs v \<noteq> 0) \<Longrightarrow> \<exists>gates'. set_gates vs stubs gates = Some gates'"
proof (induction vs arbitrary: gates)
  case (Cons u vs)
  from Cons.prems have "make_intr_gate (stubs u) 0 = Some (gate (stubs u) 0 14)" by (simp add: make_typed_gate)
  with Cons show ?case by simp
qed simp

lemma all_vectors: "(v :: u8) \<in> set (map of_nat [0..<256])"
proof -
  have "unat v < 256" using unsigned_less [of v, where ?'a = nat] by simp
  then show ?thesis by (auto intro!: image_eqI [of _ _ "unat v"])
qed

lemma intr_init_gates:
  assumes "intr_init stubs t = Some t'"
  shows "stubs v \<noteq> 0" "idt t' v = gate (stubs v) 0 14" "intr_handlers t' = intr_handlers t"
proof -
  obtain gates where g: "set_gates (map of_nat [0..<256]) stubs (idt t) = Some gates" and t': "idt t' = gates" "intr_handlers t' = intr_handlers t"
    using assms unfolding intr_init_def by (auto simp del: upt_rec_numeral simp: bind_eq_Some_conv)
  have "make_intr_gate (stubs v) 0 = Some (gates v)"
    using set_gates_Some [OF g, of v] all_vectors [of v] by (simp only: if_True)
  then show "stubs v \<noteq> 0" "idt t' v = gate (stubs v) 0 14" "intr_handlers t' = intr_handlers t"
    using t' by (simp_all add: make_typed_gate)
qed

lemma register_handler_Some:
  "register_handler stubs v dpl lvl h nm t = Some t' \<longleftrightarrow>
   intr_handlers t v = 0 \<and> stubs v \<noteq> 0 \<and> dpl \<le> 3 \<and>
   t' = t\<lparr>idt := (idt t)(v := gate (stubs v) dpl (if lvl = INTR_ON then 15 else 14)),
          intr_handlers := (intr_handlers t)(v := h), intr_names := (intr_names t)(v := nm)\<rparr>"
  by (auto simp: register_handler_def ASSERT_def bind_eq_Some_conv make_typed_gate split: if_splits)

text \<open>The tables after \<open>intr_init\<close> and any registrations.\<close>

inductive intr_reach :: "(u8 \<Rightarrow> u32) \<Rightarrow> intr_tables \<Rightarrow> bool" for stubs where
  init: "intr_handlers t = (\<lambda>v. 0) \<Longrightarrow> intr_init stubs t = Some t' \<Longrightarrow> intr_reach stubs t'"
| ext: "intr_reach stubs t \<Longrightarrow> intr_register_ext stubs v h nm t = Some t' \<Longrightarrow> intr_reach stubs t'"
| int: "intr_reach stubs t \<Longrightarrow> intr_register_int stubs v dpl lvl h nm t = Some t' \<Longrightarrow> intr_reach stubs t'"

definition external :: "u8 \<Rightarrow> bool" where
  "external v \<longleftrightarrow> 0x20 \<le> v \<and> v \<le> 0x2f"

definition gates_ok :: "(u8 \<Rightarrow> u32) \<Rightarrow> intr_tables \<Rightarrow> bool" where
  "gates_ok stubs t \<longleftrightarrow> (\<forall>v. stubs v \<noteq> 0 \<and> (\<exists>dpl type'. dpl \<le> 3 \<and> (type' = 14 \<or> type' = 15) \<and>
     idt t v = gate (stubs v) dpl type' \<and> (external v \<longrightarrow> dpl = 0 \<and> type' = 14)))"

lemma gates_ok_register:
  assumes "gates_ok stubs t" "register_handler stubs v dpl lvl h nm t = Some t'"
    and "external v \<Longrightarrow> dpl = 0 \<and> lvl = INTR_OFF"
  shows "gates_ok stubs t'"
  using assms unfolding gates_ok_def register_handler_Some by (cases lvl) auto

lemma intr_reach_ok: "intr_reach stubs t \<Longrightarrow> gates_ok stubs t"
proof (induction rule: intr_reach.induct)
  case (init t t')
  have "(0 :: u32) \<le> 3" by simp
  then show ?case unfolding gates_ok_def using intr_init_gates [OF init(2)] by blast
next
  case (ext t v h nm t')
  then show ?case
    by (auto simp: intr_register_ext_def ASSERT_def split: if_splits intro: gates_ok_register)
next
  case (int t v dpl lvl h nm t')
  then have "\<not> external v" "register_handler stubs v dpl lvl h nm t = Some t'"
    by (auto simp: intr_register_int_def ASSERT_def external_def not_le split: if_splits)
  with int.IH show ?case by (auto intro: gates_ok_register)
qed

lemma gates_ok_reads:
  assumes "gates_ok stubs t"
  shows "gate_offset (idt t v) = stubs v" "gate_selector (idt t v) = SEL_KCSEG" "desc_present (idt t v)"
    "external v \<Longrightarrow> desc_dpl (idt t v) = 0 \<and> desc_type (idt t v) = 14"
proof -
  obtain dpl type' where g: "stubs v \<noteq> 0" "dpl \<le> 3" "type' = 14 \<or> type' = 15" "idt t v = gate (stubs v) dpl type'"
    "external v \<longrightarrow> dpl = 0 \<and> type' = 14"
    using assms unfolding gates_ok_def by blast
  have "type' \<le> 15" using g(3) by auto
  note r = gate_reads [OF g(1,2) this]
  show "gate_offset (idt t v) = stubs v" "gate_selector (idt t v) = SEL_KCSEG" "desc_present (idt t v)"
    using r by (simp_all add: g(4))
  show "external v \<Longrightarrow> desc_dpl (idt t v) = 0 \<and> desc_type (idt t v) = 14" using r(3,4) g(4,5) by simp
qed

section \<open>Segments\<close>

lemma seg_low: "bit ((limit' AND 0xffff) OR push_bit 16 base :: u32) n \<longleftrightarrow>
    n < 16 \<and> bit limit' n \<or> 16 \<le> n \<and> n < 32 \<and> bit base (n - 16)"
  unfolding masks word_bits by (auto simp: word_bound)

lemma bit_flag: "bit (of_bool b :: u32) n \<longleftrightarrow> b \<and> n = 0"
  by (cases b) (simp_all add: bit_1_iff)

lemma seg_high:
  assumes "limit' \<le> 0xfffff" "type' \<le> 15" "dpl \<le> 3"
  shows "bit ((drop_bit 16 base AND 0xff) OR push_bit 8 type' OR push_bit 12 (of_bool c)
        OR push_bit 13 dpl OR push_bit 15 1 OR (limit' AND 0xf0000) OR push_bit 22 1
        OR push_bit 23 (of_bool g) OR (base AND 0xff000000) :: u32) m \<longleftrightarrow>
    m < 8 \<and> bit base (m + 16) \<or> 8 \<le> m \<and> m < 12 \<and> bit type' (m - 8) \<or> m = 12 \<and> c \<or> 13 \<le> m \<and> m < 15 \<and> bit dpl (m - 13) \<or>
    m = 15 \<or> 16 \<le> m \<and> m < 20 \<and> bit limit' m \<or> m = 22 \<or> m = 23 \<and> g \<or> 24 \<le> m \<and> bit base m"
proof -
  have "bit (drop_bit 16 base AND 0xff) m \<longleftrightarrow> m < 8 \<and> bit base (m + 16)"
    unfolding masks word_bits by (auto simp: add.commute)
  moreover have "bit (push_bit 8 type') m \<longleftrightarrow> 8 \<le> m \<and> m < 12 \<and> bit type' (m - 8)"
    unfolding word_bits using le_small(2) [OF assms(2), of "m - 8"] by auto
  moreover have "bit (push_bit 12 (of_bool c :: u32)) m \<longleftrightarrow> m = 12 \<and> c" unfolding word_bits bit_flag by auto
  moreover have "bit (push_bit 13 dpl) m \<longleftrightarrow> 13 \<le> m \<and> m < 15 \<and> bit dpl (m - 13)"
    unfolding word_bits using le_small(1) [OF assms(3), of "m - 13"] by auto
  moreover have "bit (push_bit 15 (1 :: u32)) m \<longleftrightarrow> m = 15" "bit (push_bit 22 (1 :: u32)) m \<longleftrightarrow> m = 22"
    unfolding word_bits by auto
  moreover have "bit (limit' AND 0xf0000) m \<longleftrightarrow> 16 \<le> m \<and> m < 20 \<and> bit limit' m" unfolding masks word_bits by auto
  moreover have "bit (push_bit 23 (of_bool g :: u32)) m \<longleftrightarrow> m = 23 \<and> g" unfolding word_bits bit_flag by auto
  moreover have "bit (base AND 0xff000000) m \<longleftrightarrow> 24 \<le> m \<and> bit base m"
    unfolding masks word_bits using word_bound [of base m] by auto
  ultimately show ?thesis by (simp only: bit_or_iff disj_assoc)
qed

lemma bit_seg_desc:
  assumes "make_seg_desc base limit' class' type' dpl granularity = Some d"
  shows "bit d n \<longleftrightarrow>
    n < 16 \<and> bit limit' n \<or> 16 \<le> n \<and> n < 40 \<and> bit base (n - 16) \<or> 40 \<le> n \<and> n < 44 \<and> bit type' (n - 40) \<or>
    n = 44 \<and> class' = CLS_CODE_DATA \<or> 45 \<le> n \<and> n < 47 \<and> bit dpl (n - 45) \<or> n = 47 \<or>
    48 \<le> n \<and> n < 52 \<and> bit limit' (n - 32) \<or> n = 54 \<or> n = 55 \<and> granularity = GRAN_PAGE \<or> 56 \<le> n \<and> bit base (n - 32)"
proof -
  have a: "limit' \<le> 0xfffff" "type' \<le> 15" "dpl \<le> 3"
    using assms by (auto simp: make_seg_desc_def ASSERT_def split: if_splits)
  have "d = ucast ((limit' AND 0xffff) OR push_bit 16 base) OR push_bit 32 (ucast ((drop_bit 16 base AND 0xff) OR
      push_bit 8 type' OR push_bit 12 (of_bool (class' = CLS_CODE_DATA)) OR push_bit 13 dpl OR push_bit 15 1 OR
      (limit' AND 0xf0000) OR push_bit 22 1 OR push_bit 23 (of_bool (granularity = GRAN_PAGE)) OR (base AND 0xff000000)))"
    using assms a by (simp add: make_seg_desc_def ASSERT_def Let_def)
  note b = this bit_pair seg_low seg_high [OF a]
  show ?thesis
  proof (cases "n < 32")
    case True
    then show ?thesis by (simp only: b if_True) auto
  next
    case False
    then obtain m where n: "n = m + 32" by (metis add.commute le_Suc_ex not_less)
    have "\<not> m + 32 < 32" by simp
    moreover have "m + 32 - 40 = m - 8" "m + 32 - 45 = m - 13" "m + 32 - 16 = m + 16" by simp_all
    ultimately show ?thesis unfolding n by (simp only: b if_False add_diff_cancel_right') auto
  qed
qed

text \<open>The processor reads a segment descriptor back as the arguments it was made of.\<close>

lemma make_seg_desc_reads:
  assumes "make_seg_desc base limit' class' type' dpl granularity = Some d"
  shows "seg_base d = base" "seg_limit d = limit'" "desc_type d = type'" "desc_dpl d = dpl" "desc_present d"
proof -
  have a: "limit' \<le> 0xfffff" "type' \<le> 15" "dpl \<le> 3"
    using assms by (auto simp: make_seg_desc_def ASSERT_def split: if_splits)
  note b = bit_seg_desc [OF assms] and s = le_small(1) [OF a(3)] le_small(2) [OF a(2)] le_small(3) [OF a(1)]
  show "seg_base d = base"
  proof (rule bit_word_eqI)
    show "bit (seg_base d) n = bit base n" if "n < LENGTH(32)" for n
      using that by (cases "n < 24") (auto simp: seg_base_def bit_simps b)
  qed
  show "seg_limit d = limit'"
  proof (rule bit_word_eqI)
    show "bit (seg_limit d) n = bit limit' n" if "n < LENGTH(32)" for n
      using that s(3) [of n] by (cases "n < 16") (auto simp: seg_limit_def bit_simps b)
  qed
  show "desc_type d = type'" by (rule bit_word_eqI) (auto simp: desc_type_def bit_simps b dest: s)
  show "desc_dpl d = dpl" by (rule bit_word_eqI) (auto simp: desc_dpl_def bit_simps b dest: s)
  show "desc_present d" by (simp add: desc_present_def b)
qed

text \<open>\<open>gdt_init\<close> succeeds once there is a task state segment; only the two user segments may be used by
  user programs, and the code and data segments cover the address space.\<close>

lemma gdt_init_segments:
  "\<exists>d. gdt_init (Some t) = Some d \<and> length d = 6 \<and> d ! 0 = 0 \<and> map desc_dpl (tl d) = [0, 0, 3, 3, 0] \<and>
    map seg_base (tl d) = [0, 0, 0, 0, tss_addr t] \<and> map seg_limit (tl d) = [0xfffff, 0xfffff, 0xfffff, 0xfffff, 0x67]"
proof -
  have "\<exists>d. make_seg_desc base limit' c ty dpl gr = Some d" if "limit' \<le> 0xfffff" "ty \<le> 15" "dpl \<le> 3" for base limit' c ty dpl gr
    using that by (simp add: make_seg_desc_def ASSERT_def)
  note ex = this
  obtain kc kd uc ud ts where
    d: "make_code_desc 0 = Some kc" "make_data_desc 0 = Some kd" "make_code_desc 3 = Some uc" "make_data_desc 3 = Some ud"
      "make_tss_desc (tss_addr t) = Some ts"
    using ex [of "0xfffff" "10" "0" "0" CLS_CODE_DATA GRAN_PAGE] ex [of "0xfffff" "2" "0" "0" CLS_CODE_DATA GRAN_PAGE]
      ex [of "0xfffff" "10" "3" "0" CLS_CODE_DATA GRAN_PAGE] ex [of "0xfffff" "2" "3" "0" CLS_CODE_DATA GRAN_PAGE]
      ex [of "0x67" "9" "0" "tss_addr t" CLS_SYSTEM GRAN_BYTE]
    by (auto simp: make_code_desc_def make_data_desc_def make_tss_desc_def)
  then show ?thesis
    using d [unfolded make_code_desc_def make_data_desc_def make_tss_desc_def, THEN make_seg_desc_reads(1)]
      d [unfolded make_code_desc_def make_data_desc_def make_tss_desc_def, THEN make_seg_desc_reads(2)]
      d [unfolded make_code_desc_def make_data_desc_def make_tss_desc_def, THEN make_seg_desc_reads(4)]
    by (simp add: gdt_init_def tss_get_def)
qed

section \<open>Properties\<close>

text \<open>C38. Interrupt gates stay right: after \<open>intr_init\<close> and any sequence of registrations every one of the
  256 gates is present and enters its own stub in the kernel code segment, and the gates of external
  interrupts cannot be invoked by a user program and disable interrupts.\<close>

theorem intr_gates_invariant:
  assumes "intr_reach stubs t"
  shows "gate_offset (idt t v) = stubs v \<and> gate_selector (idt t v) = SEL_KCSEG \<and> desc_present (idt t v) \<and>
    (0x20 \<le> v \<and> v \<le> 0x2f \<longrightarrow> desc_dpl (idt t v) = 0 \<and> desc_type (idt t v) = 14)"
  using gates_ok_reads [OF intr_reach_ok [OF assms], of v] by (simp add: external_def)

lemma init_reaches:
  assumes "\<And>v. stubs v \<noteq> 0" "intr_handlers t = (\<lambda>v. 0)"
  shows "\<exists>t'. intr_init stubs t = Some t'"
  using set_gates_total [of stubs "map of_nat [0..<256]" "idt t"] assms(1) unfolding intr_init_def by (auto simp del: upt_rec_numeral)

definition sample_tables :: intr_tables where
  "sample_tables = \<lparr>idt = (\<lambda>v. 0), intr_handlers = (\<lambda>v. 0), intr_names = (\<lambda>v. [])\<rparr>"

theorem intr_gates_invariant_witness:
  "\<exists>t. intr_reach (\<lambda>v. 0xc0020000) t \<and> gate_offset (idt t 0x21) = 0xc0020000 \<and> desc_dpl (idt t 0x21) = 0"
proof -
  obtain t where t: "intr_init (\<lambda>v. 0xc0020000) sample_tables = Some t"
    using init_reaches [of "\<lambda>v. 0xc0020000" sample_tables] by (auto simp: sample_tables_def)
  have r: "intr_reach (\<lambda>v. 0xc0020000) t" by (rule intr_reach.init [OF _ t]) (simp add: sample_tables_def)
  from intr_gates_invariant [OF this, of "0x21"] r show ?thesis by (intro exI [of _ t]) simp
qed

text \<open>C39. What a user program may invoke: starting the interrupt system, then \<open>exception_init\<close> and
  \<open>syscall_init\<close>, succeeds, and afterwards exactly the vectors 3, 4, 5 and 0x30 have a gate of privilege
  level 3; the handlers of these and of the other exceptions run with interrupts on, apart from the
  page fault handler.\<close>

theorem user_gates:
  assumes "\<forall>v. stubs v \<noteq> 0" "intr_handlers t0 = (\<lambda>v. 0)"
  shows "\<exists>t1 t2 t3. intr_init stubs t0 = Some t1 \<and> exception_init stubs kill' pf t1 = Some t2 \<and>
    syscall_init stubs sh t2 = Some t3 \<and>
    (\<forall>v. desc_dpl (idt t3 v) = (if v \<in> {3, 4, 5, 0x30} then 3 else 0)) \<and>
    (\<forall>v. desc_type (idt t3 v) = (if v \<in> {0, 1, 3, 4, 5, 6, 7, 11, 12, 13, 16, 19, 0x30} then 15 else 14))"
proof -
  obtain t1 where t1: "intr_init stubs t0 = Some t1" using init_reaches assms by blast
  have nz: "stubs v \<noteq> 0" for v using assms(1) by simp
  have i: "idt t1 v = gate (stubs v) 0 14" "intr_handlers t1 = (\<lambda>v. 0)" for v
    using intr_init_gates [OF t1] assms(2) by simp_all
  have r: "register_handler stubs v dpl lvl h nm t =
      Some (t\<lparr>idt := (idt t)(v := gate (stubs v) dpl (if lvl = INTR_ON then 15 else 14)),
          intr_handlers := (intr_handlers t)(v := h), intr_names := (intr_names t)(v := nm)\<rparr>)"
    if "intr_handlers t v = 0" "dpl \<le> 3" for v dpl lvl h nm t
    using that nz by (simp add: register_handler_Some)
  obtain t2 where t2: "exception_init stubs kill' pf t1 = Some t2"
    and h2: "intr_handlers t2 0x30 = 0"
    and g2: "idt t2 = (idt t1)(3 := gate (stubs 3) 3 15, 4 := gate (stubs 4) 3 15, 5 := gate (stubs 5) 3 15,
      0 := gate (stubs 0) 0 15, 1 := gate (stubs 1) 0 15, 6 := gate (stubs 6) 0 15, 7 := gate (stubs 7) 0 15,
      11 := gate (stubs 11) 0 15, 12 := gate (stubs 12) 0 15, 13 := gate (stubs 13) 0 15, 16 := gate (stubs 16) 0 15,
      19 := gate (stubs 19) 0 15, 14 := gate (stubs 14) 0 14)"
    by (simp add: exception_init_def intr_register_int_def ASSERT_def r i)
  obtain t3 where t3: "syscall_init stubs sh t2 = Some t3"
    and g3: "idt t3 = (idt t2)(0x30 := gate (stubs 0x30) 3 15)"
    using h2 by (simp add: syscall_init_def intr_register_int_def ASSERT_def r)
  note d = gate_reads(3,4) [OF nz]
  have "desc_dpl (idt t3 v) = (if v \<in> {3, 4, 5, 0x30} then 3 else 0)" for v
    by (simp add: g3 g2 i d)
  moreover have "desc_type (idt t3 v) = (if v \<in> {0, 1, 3, 4, 5, 6, 7, 11, 12, 13, 16, 19, 0x30} then 15 else 14)" for v
    by (simp add: g3 g2 i d)
  ultimately show ?thesis using t1 t2 t3 by blast
qed

theorem user_gates_witness:
  "\<exists>t1 t2 t3. intr_init (\<lambda>v. 0xc0020000) sample_tables = Some t1 \<and> exception_init (\<lambda>v. 0xc0020000) 1 2 t1 = Some t2 \<and>
    syscall_init (\<lambda>v. 0xc0020000) 3 t2 = Some t3 \<and> desc_dpl (idt t3 0x30) = 3 \<and> desc_dpl (idt t3 14) = 0"
proof -
  have "\<forall>v :: u8. (0xc0020000 :: u32) \<noteq> 0" "intr_handlers sample_tables = (\<lambda>v. 0)" by (simp_all add: sample_tables_def)
  from user_gates [OF this, of 1 2 3] obtain t1 t2 t3 where
    t: "intr_init (\<lambda>v. 0xc0020000) sample_tables = Some t1" "exception_init (\<lambda>v. 0xc0020000) 1 2 t1 = Some t2"
      "syscall_init (\<lambda>v. 0xc0020000) 3 t2 = Some t3"
    and d: "\<forall>v. desc_dpl (idt t3 v) = (if v \<in> {3, 4, 5, 0x30} then 3 else 0)"
    by (elim exE conjE) (rule that)
  have "desc_dpl (idt t3 0x30) = 3" "desc_dpl (idt t3 14) = 0" using d by simp_all
  with t show ?thesis by blast
qed

end
