(* ===== verification/Hw_Tokenizer.thy ===== *)
theory Hw_Tokenizer
  imports Pintos_Stdio
begin

text \<open>
  The command line tokenizer of the shell of homework 3 (\<open>personal/hw3/tokenizer.c\<close>) and the work queue
  of the server of homework 4 (\<open>personal/hw4/wq.c\<close>).  \<^const>\<open>None\<close> is \<open>abort\<close>.  The queue is cut where
  a thread waits for the condition variable; its doubly linked list is the sequence of its items.
\<close>

section \<open>Tokens\<close>

datatype mode = MODE_NORMAL | MODE_SQUOTE | MODE_DQUOTE

text \<open>\<open>token[n++] = c\<close> in the array of 4096 characters, with the check at the end of the iteration.\<close>

definition push_char :: "string \<Rightarrow> char \<Rightarrow> string option" where
  "push_char token c = (if 4096 \<le> length (token @ [c]) + 1 then None else Some (token @ [c]))"

definition push_word :: "string \<Rightarrow> string list \<Rightarrow> string list" where
  "push_word token tokens = (if 0 < length token then tokens @ [token] else tokens)"

fun tokenize_loop :: "mode \<Rightarrow> string \<Rightarrow> string list \<Rightarrow> string \<Rightarrow> string list option" where
  "tokenize_loop mode token tokens [] = Some (push_word token tokens)"
| "tokenize_loop mode token tokens (c # line) =
     (if mode = MODE_NORMAL \<and> c = CHR 0x27 then tokenize_loop MODE_SQUOTE token tokens line
      else if mode = MODE_NORMAL \<and> c = CHR 0x22 then tokenize_loop MODE_DQUOTE token tokens line
      else if mode = MODE_SQUOTE \<and> c = CHR 0x27 then tokenize_loop MODE_NORMAL token tokens line
      else if mode = MODE_DQUOTE \<and> c = CHR 0x22 then tokenize_loop MODE_NORMAL token tokens line
      else if c = CHR 0x5C then
        (case line of [] \<Rightarrow> tokenize_loop mode token tokens line
         | d # line' \<Rightarrow> do { token \<leftarrow> push_char token d; tokenize_loop mode token tokens line' })
      else if mode = MODE_NORMAL \<and> isspace c then tokenize_loop mode [] (push_word token tokens) line
      else do { token \<leftarrow> push_char token c; tokenize_loop mode token tokens line })"

definition tokenize :: "string option \<Rightarrow> string list option option" where
  "tokenize line = (case line of None \<Rightarrow> Some None
     | Some line \<Rightarrow> do { ts \<leftarrow> tokenize_loop MODE_NORMAL [] [] line; Some (Some ts) })"

definition tokens_get_length :: "string list option \<Rightarrow> nat" where
  "tokens_get_length tokens = (case tokens of None \<Rightarrow> 0 | Some ts \<Rightarrow> length ts)"

definition tokens_get_token :: "string list option \<Rightarrow> nat \<Rightarrow> string option" where
  "tokens_get_token tokens n = (case tokens of None \<Rightarrow> None | Some ts \<Rightarrow> if length ts \<le> n then None else Some (ts ! n))"

section \<open>Quoting\<close>

text \<open>Every character of a word behind a backslash, and the words with a blank behind each.\<close>

definition escape :: "string \<Rightarrow> string" where
  "escape w = concat (map (\<lambda>c. [CHR 0x5C, c]) w)"

definition command_line :: "string list \<Rightarrow> string" where
  "command_line ws = concat (map (\<lambda>w. escape w @ '' '') ws)"

lemma tokenize_escape:
  "length token + length w < 4095 \<Longrightarrow>
     tokenize_loop mode token tokens (escape w @ rest) = tokenize_loop mode (token @ w) tokens rest"
proof (induction w arbitrary: token)
  case (Cons c w)
  then have "push_char token c = Some (token @ [c])" by (simp add: push_char_def)
  then show ?case using Cons by (simp add: escape_def)
qed (simp add: escape_def)

lemma tokenize_command_line:
  "\<forall>w \<in> set ws. w \<noteq> [] \<and> length w < 4095 \<Longrightarrow>
     tokenize_loop MODE_NORMAL [] tokens (command_line ws) = Some (tokens @ ws)"
proof (induction ws arbitrary: tokens)
  case (Cons w ws)
  have "tokenize_loop MODE_NORMAL [] tokens (escape w @ '' '' @ command_line ws) =
      tokenize_loop MODE_NORMAL w tokens ('' '' @ command_line ws)"
    using tokenize_escape [of "[]" w MODE_NORMAL tokens] Cons.prems by simp
  also have "\<dots> = tokenize_loop MODE_NORMAL [] (tokens @ [w]) (command_line ws)"
    using Cons.prems by (simp add: isspace_def push_word_def)
  finally show ?case using Cons by (simp add: command_line_def)
qed (simp add: command_line_def push_word_def)

text \<open>C35. Quoting is faithful: a command line in which every character of every word is escaped with a
  backslash, whatever the characters are, is split into exactly these words, which the accessors then
  return by number; words must not be empty and must fit the token buffer.\<close>

theorem tokenize_roundtrip:
  assumes "\<forall>w \<in> set ws. w \<noteq> [] \<and> length w < 4095"
  shows "\<exists>ts. tokenize (Some (command_line ws)) = Some ts \<and> tokens_get_length ts = length ws \<and>
    (\<forall>n. tokens_get_token ts n = (if n < length ws then Some (ws ! n) else None))"
  using tokenize_command_line [OF assms, of "[]"]
  by (auto simp: tokenize_def tokens_get_length_def tokens_get_token_def)

theorem tokenize_roundtrip_witness:
  "\<exists>ts. tokenize (Some (command_line [''a b'', [CHR 0x22]])) = Some ts \<and> tokens_get_token ts 0 = Some ''a b''"
  using tokenize_roundtrip [of "[''a b'', [CHR 0x22]]"] by auto

section \<open>The work queue\<close>

record wq =
  wq_size :: int
  wq_items :: "int list"

datatype popped = Popped int | Waiting

definition wq_init :: wq where
  "wq_init = \<lparr>wq_size = 0, wq_items = []\<rparr>"

text \<open>\<open>wq_pop\<close> up to its wait; with \<open>size\<close> not 0 and no item it dereferences a null pointer.\<close>

definition wq_pop :: "wq \<Rightarrow> (popped \<times> wq) option" where
  "wq_pop q =
     (if wq_size q = 0 then Some (Waiting, q)
      else case wq_items q of
        [] \<Rightarrow> None
      | fd # rest \<Rightarrow> Some (Popped fd, q\<lparr>wq_size := wq_size q - 1, wq_items := rest\<rparr>))"

definition wq_push :: "int \<Rightarrow> wq \<Rightarrow> wq" where
  "wq_push fd q = q\<lparr>wq_size := wq_size q + 1, wq_items := wq_items q @ [fd]\<rparr>"

definition wq_ok :: "wq \<Rightarrow> bool" where
  "wq_ok q \<longleftrightarrow> wq_size q = int (length (wq_items q))"

lemma wq_ops_ok: "wq_ok wq_init" "wq_ok q \<Longrightarrow> wq_ok (wq_push fd q)" "wq_ok q \<Longrightarrow> wq_pop q = Some (r, q') \<Longrightarrow> wq_ok q'"
  by (auto simp: wq_ok_def wq_init_def wq_push_def wq_pop_def split: if_splits list.splits)

lemma wq_pop_fifo:
  assumes "wq_ok q"
  shows "wq_pop q = (if wq_items q = [] then Some (Waiting, q)
    else Some (Popped (hd (wq_items q)), q\<lparr>wq_size := wq_size q - 1, wq_items := tl (wq_items q)\<rparr>))"
  using assms by (cases "wq_items q") (auto simp: wq_ok_def wq_pop_def)

end
