(* ===== verification/Hw_Mm_Alloc.thy ===== *)
theory Hw_Mm_Alloc
  imports Pintos_Prelude
begin

text \<open>
  The allocator of homework 5 (\<open>personal/hw5/mm_alloc.c\<close>).  The heap is the map of the block headers by
  address and the bytes of the heap; the break separates memory that exists from memory that does not,
  and \<open>limit\<close> is the highest break that the operating system grants.  The program ignores the result of
  \<open>sbrk\<close>, so a block above the break is a fault, \<^const>\<open>None\<close>.
  Sizes are unbounded: requests so large that their sum with the header wraps are not covered.
\<close>

section \<open>Model\<close>

record mm_block =
  bsize :: nat
  bfree :: bool
  bprev :: "nat option"
  bnext :: "nat option"

record mm =
  base_block :: "nat option"
  blocks :: "nat \<Rightarrow> mm_block option"
  bytes :: "nat \<Rightarrow> u8"
  brk :: nat
  limit :: nat

text \<open>\<open>sizeof (struct block)\<close> on a 64-bit machine.\<close>

definition HEADER :: nat where
  "HEADER = 32"

definition sbrk :: "nat \<Rightarrow> mm \<Rightarrow> mm" where
  "sbrk n s = (if brk s + n \<le> limit s then s\<lparr>brk := brk s + n\<rparr> else s)"

definition put_block :: "nat \<Rightarrow> mm_block \<Rightarrow> mm \<Rightarrow> mm option" where
  "put_block a b s = do { ASSERT (a + HEADER \<le> brk s); Some (s\<lparr>blocks := (blocks s)(a \<mapsto> b)\<rparr>) }"

text \<open>Clearing the content also clears the headers that lie in it.\<close>

definition zero_block :: "nat \<Rightarrow> mm \<Rightarrow> mm option" where
  "zero_block a s = do {
     b \<leftarrow> blocks s a;
     let region = (\<lambda>x. a + HEADER \<le> x \<and> x < a + HEADER + bsize b);
     ASSERT (a + HEADER + bsize b \<le> brk s);
     Some (s\<lparr>bytes := (\<lambda>x. if region x then 0 else bytes s x),
             blocks := (\<lambda>x. if region x \<and> blocks s x \<noteq> None
                            then Some \<lparr>bsize = 0, bfree = False, bprev = None, bnext = None\<rparr> else blocks s x)\<rparr>)
   }"

definition insert_block :: "nat \<Rightarrow> nat \<Rightarrow> mm \<Rightarrow> mm option" where
  "insert_block prev_block ins s = do {
     p \<leftarrow> blocks s prev_block;
     s \<leftarrow> put_block prev_block (p\<lparr>bnext := Some ins\<rparr>) s;
     i \<leftarrow> blocks s ins;
     put_block ins (i\<lparr>bprev := Some prev_block, bnext := bnext p\<rparr>) s
   }"

definition merge_block :: "nat \<Rightarrow> nat \<Rightarrow> mm \<Rightarrow> mm option" where
  "merge_block down up s = do {
     d \<leftarrow> blocks s down;
     u \<leftarrow> blocks s up;
     s \<leftarrow> put_block down (d\<lparr>bsize := up - down + bsize u, bfree := True, bnext := bnext u\<rparr>) s;
     zero_block down s
   }"

text \<open>The loop over the blocks: the block found, if any, and \<open>pre_block\<close> behind the last one.\<close>

partial_function (option) find_block :: "nat \<Rightarrow> nat option \<Rightarrow> nat \<Rightarrow> mm \<Rightarrow> (nat option \<times> nat option) option" where
  "find_block size' pre cur s = do {
     b \<leftarrow> blocks s cur;
     if bfree b \<and> size' \<le> bsize b then Some (Some cur, pre)
     else if bnext b = None then Some (None, Some cur)
     else find_block size' (Some cur) (the (bnext b)) s
   }"

definition new_block :: "nat \<Rightarrow> nat option \<Rightarrow> mm \<Rightarrow> (nat \<times> mm) option" where
  "new_block size' pre s = do {
     let a = brk s;
     s \<leftarrow> put_block a \<lparr>bsize = size', bfree = False, bprev = pre, bnext = None\<rparr> (sbrk (HEADER + size') s);
     s \<leftarrow> zero_block a s;
     Some (a, s)
   }"

definition use_block :: "nat \<Rightarrow> nat \<Rightarrow> mm \<Rightarrow> mm option" where
  "use_block size' cur s = do {
     b \<leftarrow> blocks s cur;
     if HEADER \<le> bsize b - size' then do {
       let add = cur + HEADER + size';
       old \<leftarrow> Some (case blocks s add of None \<Rightarrow> \<lparr>bsize = 0, bfree = False, bprev = None, bnext = None\<rparr> | Some o' \<Rightarrow> o');
       s \<leftarrow> put_block add (old\<lparr>bsize := bsize b - size' - HEADER, bfree := True\<rparr>) s;
       s \<leftarrow> zero_block add s;
       s \<leftarrow> put_block cur (b\<lparr>bsize := size', bfree := False\<rparr>) s;
       s \<leftarrow> zero_block cur s;
       insert_block cur add s
     } else do {
       s \<leftarrow> put_block cur (b\<lparr>bsize := size', bfree := False\<rparr>) s;
       zero_block cur s
     }
   }"

definition mm_malloc :: "nat \<Rightarrow> mm \<Rightarrow> (nat option \<times> mm) option" where
  "mm_malloc size' s =
     (if size' = 0 then Some (None, s)
      else case base_block s of
        None \<Rightarrow> do { (a, s) \<leftarrow> new_block size' None s; Some (Some (a + HEADER), s\<lparr>base_block := Some a\<rparr>) }
      | Some b \<Rightarrow> do {
          hd' \<leftarrow> blocks s b;
          (found, pre) \<leftarrow> find_block size' (bprev hd') b s;
          case found of
            Some cur \<Rightarrow> do { s \<leftarrow> use_block size' cur s; Some (Some (cur + HEADER), s) }
          | None \<Rightarrow> do { (a, s) \<leftarrow> new_block size' pre s; Some (Some (a + HEADER), s) }
        })"

definition free_neighbour :: "nat option \<Rightarrow> mm \<Rightarrow> bool option" where
  "free_neighbour n s = (case n of None \<Rightarrow> Some False | Some a \<Rightarrow> do { b \<leftarrow> blocks s a; Some (bfree b) })"

definition mm_free :: "nat option \<Rightarrow> mm \<Rightarrow> mm option" where
  "mm_free ptr s =
     (case ptr of None \<Rightarrow> Some s
      | Some p \<Rightarrow> do {
          let cur = p - HEADER;
          b \<leftarrow> blocks s cur;
          fp \<leftarrow> free_neighbour (bprev b) s;
          (cur, s) \<leftarrow> if fp then do { s \<leftarrow> merge_block (the (bprev b)) cur s; Some (the (bprev b), s) } else Some (cur, s);
          fn \<leftarrow> free_neighbour (bnext b) s;
          if fn then merge_block cur (the (bnext b)) s else Some s
        })"

definition mm_realloc :: "nat option \<Rightarrow> nat \<Rightarrow> mm \<Rightarrow> (nat option \<times> mm) option" where
  "mm_realloc ptr size' s =
     (case ptr of
        None \<Rightarrow> mm_malloc size' s
      | Some p \<Rightarrow>
          if size' = 0 then do { s \<leftarrow> mm_free ptr s; Some (None, s) }
          else do {
            b \<leftarrow> blocks s (p - HEADER);
            if size' \<le> bsize b
            then do { s \<leftarrow> put_block (p - HEADER) (b\<lparr>bsize := size'\<rparr>) s; Some (ptr, s) }
            else do {
              (q, s) \<leftarrow> mm_malloc size' s;
              n \<leftarrow> q;
              let s = s\<lparr>bytes := (\<lambda>x. if n \<le> x \<and> x < n + bsize b then bytes s (p + (x - n)) else bytes s x)\<rparr>;
              s \<leftarrow> mm_free ptr s;
              Some (q, s)
            }
          })"

section \<open>The states the program reaches\<close>

inductive mm_reach :: "mm \<Rightarrow> bool" where
  init: "base_block s = None \<Longrightarrow> blocks s = (\<lambda>a. None) \<Longrightarrow> mm_reach s"
| malloc: "mm_reach s \<Longrightarrow> mm_malloc size' s = Some (p, s') \<Longrightarrow> mm_reach s'"
| free: "mm_reach s \<Longrightarrow> blocks s a \<noteq> None \<Longrightarrow> mm_free (Some (a + HEADER)) s = Some s' \<Longrightarrow> mm_reach s'"
| realloc: "mm_reach s \<Longrightarrow> blocks s a \<noteq> None \<Longrightarrow> mm_realloc (Some (a + HEADER)) size' s = Some (p, s') \<Longrightarrow> mm_reach s'"

definition extent :: "nat \<Rightarrow> mm_block \<Rightarrow> nat set" where
  "extent a b = {a..<a + HEADER + bsize b}"

text \<open>No block is ever free or linked to a successor, and the blocks are disjoint.\<close>

definition block_ok :: "mm \<Rightarrow> nat \<Rightarrow> mm_block \<Rightarrow> bool" where
  "block_ok s a b \<longleftrightarrow> \<not> bfree b \<and> bnext b = None \<and> a + HEADER + bsize b \<le> brk s \<and>
     (\<forall>p. bprev b = Some p \<longrightarrow> blocks s p \<noteq> None)"

definition mm_inv :: "mm \<Rightarrow> bool" where
  "mm_inv s \<longleftrightarrow> (\<forall>a b. blocks s a = Some b \<longrightarrow> block_ok s a b) \<and>
     (\<forall>a b a' b'. blocks s a = Some b \<longrightarrow> blocks s a' = Some b' \<longrightarrow> a < a' \<longrightarrow> a + HEADER + bsize b \<le> a') \<and>
     (\<forall>a. base_block s = Some a \<longrightarrow> blocks s a \<noteq> None)"

lemma mm_invI:
  assumes "\<And>a b. blocks s a = Some b \<Longrightarrow> block_ok s a b"
    "\<And>a b a' b'. blocks s a = Some b \<Longrightarrow> blocks s a' = Some b' \<Longrightarrow> a < a' \<Longrightarrow> a + HEADER + bsize b \<le> a'"
    "\<And>a. base_block s = Some a \<Longrightarrow> blocks s a \<noteq> None"
  shows "mm_inv s"
  using assms unfolding mm_inv_def by blast

lemma mm_invD:
  assumes "mm_inv s" "blocks s a = Some b"
  shows "\<not> bfree b" "bnext b = None" "a + HEADER + bsize b \<le> brk s" "bprev b = Some p \<Longrightarrow> blocks s p \<noteq> None"
    "blocks s a' = Some b' \<Longrightarrow> a < a' \<Longrightarrow> a + HEADER + bsize b \<le> a'"
  using assms unfolding mm_inv_def block_ok_def by blast+

lemma mm_inv_base: "mm_inv s \<Longrightarrow> base_block s = Some a \<Longrightarrow> \<exists>b. blocks s a = Some b"
  unfolding mm_inv_def by blast

lemma mm_free_same:
  assumes "mm_inv s" "blocks s a = Some b"
  shows "mm_free (Some (a + HEADER)) s = Some s"
proof -
  have "free_neighbour (bprev b) s = Some False"
    using mm_invD(4) [OF assms] mm_invD(1) [OF assms(1)]
    by (cases "bprev b") (auto simp: free_neighbour_def)
  then show ?thesis
    using assms(2) mm_invD(2) [OF assms] by (simp add: mm_free_def) (simp add: free_neighbour_def)
qed

lemma find_block_none:
  assumes "mm_inv s" "blocks s a = Some b"
  shows "find_block size' pre a s = Some (None, Some a)"
  using assms mm_invD [OF assms] by (subst find_block.simps) simp

definition grown :: "nat \<Rightarrow> nat option \<Rightarrow> mm \<Rightarrow> mm" where
  "grown size' pre s = s\<lparr>blocks := (blocks s)(brk s \<mapsto> \<lparr>bsize = size', bfree = False, bprev = pre, bnext = None\<rparr>),
     bytes := (\<lambda>x. if brk s + HEADER \<le> x \<and> x < brk s + HEADER + size' then 0 else bytes s x),
     brk := brk s + (HEADER + size')\<rparr>"

lemma new_block_grown:
  assumes "mm_inv s"
  shows "new_block size' pre s = (if brk s + (HEADER + size') \<le> limit s then Some (brk s, grown size' pre s) else None)"
proof (cases "brk s + (HEADER + size') \<le> limit s")
  case True
  have "blocks s x = None" if "brk s + HEADER \<le> x" for x
  proof (rule ccontr)
    assume "blocks s x \<noteq> None"
    then obtain b where "blocks s x = Some b" by auto
    from mm_invD(3) [OF assms this] that show False by (simp add: HEADER_def)
  qed
  then have "(\<lambda>x. if (brk s + HEADER \<le> x \<and> x < brk s + HEADER + size') \<and> ((blocks s)(brk s \<mapsto> b)) x \<noteq> None then z
      else ((blocks s)(brk s \<mapsto> b)) x) = (blocks s)(brk s \<mapsto> b)" for b z
    by (auto simp: fun_eq_iff HEADER_def)
  then show ?thesis
    using True by (simp add: new_block_def put_block_def zero_block_def sbrk_def grown_def Let_def cong: if_cong)
next
  case False
  then show ?thesis by (simp add: new_block_def put_block_def sbrk_def HEADER_def)
qed

lemma mm_inv_grown:
  assumes "mm_inv s" "\<And>p. pre = Some p \<Longrightarrow> blocks s p \<noteq> None" "\<And>a. base = Some a \<Longrightarrow> blocks (grown size' pre s) a \<noteq> None"
  shows "mm_inv ((grown size' pre s)\<lparr>base_block := base\<rparr>)"
proof (rule mm_invI)
  let ?s = "(grown size' pre s)\<lparr>base_block := base\<rparr>"
  have below: "x + HEADER + bsize b \<le> brk s" if "blocks s x = Some b" for x b using mm_invD(3) [OF assms(1) that] .
  fix a b
  assume ab: "blocks ?s a = Some b"
  show "block_ok ?s a b"
  proof (cases "a = brk s")
    case True
    then show ?thesis using ab assms(2) by (auto simp: grown_def block_ok_def)
  next
    case False
    then have "blocks s a = Some b" using ab by (simp add: grown_def)
    with mm_invD [OF assms(1) this] show ?thesis by (auto simp: grown_def block_ok_def)
  qed
  fix a' b'
  assume ab': "blocks ?s a' = Some b'" "a < a'"
  have old: "blocks s a = Some b"
  proof (rule ccontr)
    assume "\<not> ?thesis"
    then have "a = brk s" using ab by (auto simp: grown_def split: if_splits)
    with ab' obtain c where "blocks s a' = Some c" by (auto simp: grown_def split: if_splits)
    from below [OF this] ab'(2) \<open>a = brk s\<close> show False by simp
  qed
  show "a + HEADER + bsize b \<le> a'"
    using ab' old below [OF old] mm_invD(5) [OF assms(1) old] by (auto simp: grown_def split: if_splits)
next
  show "blocks ((grown size' pre s)\<lparr>base_block := base\<rparr>) a \<noteq> None"
    if "base_block ((grown size' pre s)\<lparr>base_block := base\<rparr>) = Some a" for a
    using that assms(3) by simp
qed

lemma mm_inv_bytes [simp]: "mm_inv (s\<lparr>bytes := f\<rparr>) = mm_inv s"
  by (simp add: mm_inv_def block_ok_def)

lemma mm_malloc_grows:
  assumes "mm_inv s" "0 < size'"
  shows "mm_malloc size' s =
    (if brk s + (HEADER + size') \<le> limit s
     then Some (Some (brk s + HEADER), (grown size' (base_block s) s)\<lparr>base_block :=
       Some (case base_block s of None \<Rightarrow> brk s | Some b \<Rightarrow> b)\<rparr>) else None)"
proof (cases "base_block s")
  case None
  then show ?thesis using assms(2) by (simp add: mm_malloc_def new_block_grown [OF assms(1)])
next
  case (Some a)
  then obtain b where b: "blocks s a = Some b" using mm_inv_base [OF assms(1)] by blast
  have "grown size' (Some a) s = (grown size' (Some a) s)\<lparr>base_block := Some a\<rparr>"
    using Some by (simp add: grown_def)
  then show ?thesis
    using assms(2) Some b by (simp add: mm_malloc_def find_block_none [OF assms(1) b] new_block_grown [OF assms(1)])
qed

lemma mm_malloc_inv:
  assumes "mm_inv s" "mm_malloc size' s = Some (p, s')"
  shows "mm_inv s'"
proof (cases "size' = 0")
  case True
  then show ?thesis using assms by (simp add: mm_malloc_def)
next
  case False
  have base: "blocks s p \<noteq> None" if "base_block s = Some p" for p using mm_inv_base [OF assms(1) that] by simp
  have "mm_inv ((grown size' (base_block s) s)\<lparr>base_block := Some (case base_block s of None \<Rightarrow> brk s | Some b \<Rightarrow> b)\<rparr>)"
    by (rule mm_inv_grown [OF assms(1) base]) (use base in \<open>auto simp: grown_def split: option.splits\<close>)
  moreover have "s' = (grown size' (base_block s) s)\<lparr>base_block := Some (case base_block s of None \<Rightarrow> brk s | Some b \<Rightarrow> b)\<rparr>"
    using assms(2) mm_malloc_grows [OF assms(1), of size'] False by (simp split: if_splits)
  ultimately show ?thesis by simp
qed

lemma mm_inv_shrink:
  assumes "mm_inv s" "blocks s a = Some b" "n \<le> bsize b"
  shows "mm_inv (s\<lparr>blocks := (blocks s)(a \<mapsto> b\<lparr>bsize := n\<rparr>)\<rparr>)"
proof (rule mm_invI)
  let ?s = "s\<lparr>blocks := (blocks s)(a \<mapsto> b\<lparr>bsize := n\<rparr>)\<rparr>"
  have old: "\<exists>c'. blocks s x = Some c' \<and> bsize c \<le> bsize c' \<and> bfree c = bfree c' \<and> bprev c = bprev c' \<and> bnext c = bnext c'"
    if "blocks ?s x = Some c" for x c
    using that assms(2,3) by (auto split: if_splits)
  fix x c
  assume x: "blocks ?s x = Some c"
  obtain c' where c': "blocks s x = Some c'" "bsize c \<le> bsize c'" "bfree c = bfree c'" "bprev c = bprev c'" "bnext c = bnext c'"
    using old [OF x] by blast
  show "block_ok ?s x c"
    using mm_invD(1-4) [OF assms(1) c'(1)] c'(2-5) by (auto simp: block_ok_def)
  fix y d
  assume y: "blocks ?s y = Some d" "x < y"
  obtain d' where "blocks s y = Some d'" using old [OF y(1)] by blast
  from mm_invD(5) [OF assms(1) c'(1) this y(2)] c'(2) show "x + HEADER + bsize c \<le> y" by simp
next
  show "blocks (s\<lparr>blocks := (blocks s)(a \<mapsto> b\<lparr>bsize := n\<rparr>)\<rparr>) x \<noteq> None"
    if "base_block (s\<lparr>blocks := (blocks s)(a \<mapsto> b\<lparr>bsize := n\<rparr>)\<rparr>) = Some x" for x
    using that mm_inv_base [OF assms(1)] by fastforce
qed

lemma mm_realloc_inv:
  assumes "mm_inv s" "blocks s a = Some b" "mm_realloc (Some (a + HEADER)) size' s = Some (p, s')"
  shows "mm_inv s'"
proof (cases "size' = 0")
  case True
  then show ?thesis using assms mm_free_same [OF assms(1,2)] by (simp add: mm_realloc_def)
next
  case False
  show ?thesis
  proof (cases "size' \<le> bsize b")
    case True
    then show ?thesis
      using assms(2,3) False mm_inv_shrink [OF assms(1,2) True] by (simp add: mm_realloc_def put_block_def ASSERT_bind split: if_splits)
  next
    case big: False
    then obtain q s1 n where m: "mm_malloc size' s = Some (q, s1)" "q = Some n"
      using assms(2,3) False by (auto simp: mm_realloc_def split: bind_splits)
    define s2 where "s2 = s1\<lparr>bytes := (\<lambda>x. if n \<le> x \<and> x < n + bsize b then bytes s1 (a + HEADER + (x - n)) else bytes s1 x)\<rparr>"
    have inv: "mm_inv s2" using mm_malloc_inv [OF assms(1) m(1)] by (simp add: s2_def)
    have "blocks s2 a \<noteq> None"
      using assms(2) m(1) mm_malloc_grows [OF assms(1)] False by (auto simp: s2_def grown_def split: if_splits)
    then obtain b2 where "blocks s2 a = Some b2" by auto
    from mm_free_same [OF inv this] have "s' = s2"
      using assms(2,3) False big m by (simp add: mm_realloc_def s2_def Let_def)
    then show ?thesis using inv by simp
  qed
qed

lemma mm_reach_inv: "mm_reach s \<Longrightarrow> mm_inv s"
proof (induction rule: mm_reach.induct)
  case (init s)
  then show ?case by (simp add: mm_inv_def)
next
  case (malloc s size' p s')
  then show ?case using mm_malloc_inv by blast
next
  case (free s a s')
  then show ?case using mm_free_same by fastforce
next
  case (realloc s a size' p s')
  then show ?case using mm_realloc_inv by blast
qed

section \<open>Properties\<close>

text \<open>C36. Allocation is safe: in every state that the program reaches by allocating, freeing and
  reallocating, a request that the operating system can meet succeeds with zeroed memory that lies
  outside every block handed out before, and changes no byte outside it.\<close>

theorem mm_malloc_safe:
  assumes "mm_reach s" "0 < size'" "brk s + (HEADER + size') \<le> limit s"
  shows "\<exists>p s'. mm_malloc size' s = Some (Some p, s') \<and> mm_reach s' \<and>
    (\<forall>x. p \<le> x \<and> x < p + size' \<longrightarrow> bytes s' x = 0) \<and> (\<forall>x. x < p \<or> p + size' \<le> x \<longrightarrow> bytes s' x = bytes s x) \<and>
    (\<forall>a b. blocks s a = Some b \<longrightarrow> extent a b \<inter> {p..<p + size'} = {} \<and> blocks s' a = Some b)"
proof -
  note inv = mm_reach_inv [OF assms(1)]
  define s' where "s' = (grown size' (base_block s) s)\<lparr>base_block := Some (case base_block s of None \<Rightarrow> brk s | Some b \<Rightarrow> b)\<rparr>"
  have m: "mm_malloc size' s = Some (Some (brk s + HEADER), s')"
    using mm_malloc_grows [OF inv assms(2)] assms(3) by (simp add: s'_def)
  have "extent a b \<inter> {brk s + HEADER..<brk s + HEADER + size'} = {} \<and> blocks s' a = Some b" if "blocks s a = Some b" for a b
    using mm_invD(3) [OF inv that] that by (auto simp: extent_def s'_def grown_def HEADER_def)
  moreover have "mm_reach s'" by (rule mm_reach.malloc [OF assms(1) m])
  ultimately show ?thesis using m by (intro exI conjI) (auto simp: s'_def grown_def)
qed

definition sample_mm :: mm where
  "sample_mm = \<lparr>base_block = None, blocks = (\<lambda>a. None), bytes = (\<lambda>x. 0), brk = 1000, limit = 5000\<rparr>"

lemma sample_mm_reach: "mm_reach sample_mm"
  by (rule mm_reach.init) (simp_all add: sample_mm_def)

theorem mm_malloc_safe_witness: "\<exists>p s'. mm_malloc 100 sample_mm = Some (Some p, s') \<and> mm_reach s'"
  using mm_malloc_safe [OF sample_mm_reach, of 100] by (auto simp: sample_mm_def HEADER_def)

text \<open>C37. Memory is never reused: in every state that the program reaches, \<open>mm_free\<close> of any block that
  was handed out changes nothing at all, because it marks a block as free only while it merges it with
  a neighbour that is already free, and so every allocation moves the break.\<close>

theorem mm_free_leaks:
  assumes "mm_reach s" "blocks s a \<noteq> None"
  shows "mm_free (Some (a + HEADER)) s = Some s \<and>
    (\<forall>size' p s'. 0 < size' \<longrightarrow> mm_malloc size' s = Some (p, s') \<longrightarrow> brk s' = brk s + (HEADER + size'))"
proof -
  note inv = mm_reach_inv [OF assms(1)]
  obtain b where "blocks s a = Some b" using assms(2) by auto
  from mm_free_same [OF inv this] show ?thesis
    using mm_malloc_grows [OF inv] by (auto simp: grown_def split: if_splits)
qed

theorem mm_free_leaks_witness:
  "\<exists>s. mm_malloc 100 sample_mm = Some (Some 1032, s) \<and> mm_free (Some (1000 + HEADER)) s = Some s"
proof -
  have "mm_inv sample_mm" by (rule mm_reach_inv [OF sample_mm_reach])
  from mm_malloc_grows [OF this, of 100] obtain s where
    s: "mm_malloc 100 sample_mm = Some (Some 1032, s)" "blocks s 1000 \<noteq> None"
    by (auto simp: sample_mm_def HEADER_def grown_def)
  from mm_free_leaks [OF mm_reach.malloc [OF sample_mm_reach s(1)] s(2)] s(1) show ?thesis by auto
qed

end
