(* ===== verification/Spec2Isabelle.thy ===== *)
theory Spec2Isabelle
  imports Pintos_List_Sort Pintos_Bitmap Pintos_Arithmetic Pintos_Sched_Props
    Pintos_String Pintos_Hash Pintos_Pagedir Pintos_Malloc Pintos_Cache_Keys Pintos_Stdlib
    Pintos_Intq Pintos_Random Pintos_Syscall Pintos_Ustar Pintos_Exec Pintos_Load
    Pintos_Devices Pintos_Descriptors Hw_Tokenizer Hw_Mm_Alloc
begin

text \<open>
  Verification of the Pintos kernel of the repository, \<open>src/group/pintos/src\<close>: a teaching kernel for
  the 80x86 with kernel threads, priority scheduling with donation, user processes, a page and a
  block allocator, and a file system on a buffer cache.

  \<^bold>\<open>Conventions.\<close>  A definition has the name of the C function it translates; a loop is a function of
  its own.  A kernel failure (a failed \<open>ASSERT\<close>, \<open>PANIC\<close>, a null pointer, an access outside an
  object) is \<open>None\<close> in the option monad, so a theorem that an operation returns \<open>Some\<close> says that it
  does not fail.  A loop that might not end is a \<open>partial_function (option)\<close>, and the theorems
  about it state that it returns.  \<open>size_t\<close> is \<open>nat\<close> with \<open>size_add\<close> where a sum may wrap around, and
  other integers are words of their width, or \<open>int\<close> with the wrap-around written out.  There is no
  fuel: every recursion is structural, has a termination proof, or is a partial function.

  \<^bold>\<open>The parts.\<close>
  \<^item> \<open>Pintos_Prelude\<close>: word types, \<open>ASSERT\<close>, \<open>round.h\<close>, checked access to lists.
  \<^item> \<open>Pintos_List\<close>, \<open>Pintos_List_Rep\<close>, \<open>Pintos_Order\<close>, \<open>Pintos_List_Sort\<close>: \<open>lib/kernel/list.c\<close> on a store
    of \<open>prev\<close> and \<open>next\<close> pointers.  \<open>list_rep\<close> relates a store to the sequence of elements; each
    operation is shown to act on the sequence as its comment says.  The contract of a
    \<open>list_less_func\<close> is the locale \<open>strict_weak_order\<close>; \<open>list_sort\<close>, an iterative merge sort by
    splicing, terminates and sorts stably.
  \<^item> \<open>Pintos_Bitmap\<close>: \<open>lib/kernel/bitmap.c\<close>, with \<open>bitmap_abs\<close> the list of bits; \<open>bitmap_scan_and_flip\<close> is
    first fit.
  \<^item> \<open>Pintos_Arithmetic\<close>: \<open>lib/arithmetic.c\<close>; 64-bit division from the 32-bit instruction.
  \<^item> \<open>Pintos_Fixed_Point\<close>, \<open>Pintos_Stdlib\<close>: \<open>threads/fixed-point.h\<close> and \<open>lib/stdlib.c\<close>; heap sort and
    binary search on byte arrays under the contract \<open>strcmp_type\<close> of a comparison function.
  \<^item> \<open>Pintos_String\<close>: \<open>lib/string.c\<close> on a byte-addressed memory.
  \<^item> \<open>Pintos_Hash\<close>: \<open>lib/kernel/hash.c\<close>; the contract of a hash function and its comparison is the
    locale \<open>hash_order\<close>, and \<open>hash_wf\<close> is the invariant that \<open>rehash\<close> and every operation keep.
  \<^item> \<open>Pintos_Random\<close>: \<open>lib/random.c\<close>.
  \<^item> \<open>Pintos_Kernel\<close>, \<open>Pintos_Thread\<close>, \<open>Pintos_Synch\<close>, \<open>Pintos_Sched\<close>: the state of the kernel and
    \<open>threads/thread.c\<close>, \<open>threads/synch.c\<close>, \<open>threads/interrupt.c\<close>, \<open>devices/timer.c\<close> and the waiting part
    of \<open>userprog/process.c\<close>.  A thread that gives up the processor leaves a stack of \<open>frame\<close>s, the
    rest of the calls it is in; \<open>resume\<close> continues them, \<open>perform\<close> starts an operation, and
    \<open>kernel_step\<close> is a step of the machine: an operation of the running thread or a timer interrupt.
    \<open>Pintos_Sched_Inv\<close>, \<open>Pintos_Sched_Steps\<close> and \<open>Pintos_Sched_Props\<close> show that every step keeps the
    scheduler invariant and that the scheduler and the alarm choose the right threads.
  \<^item> \<open>Pintos_Palloc\<close>, \<open>Pintos_Pagedir\<close>, \<open>Pintos_Malloc\<close>: \<open>threads/vaddr.h\<close>, \<open>threads/palloc.c\<close>,
    \<open>threads/pte.h\<close>, \<open>userprog/pagedir.c\<close>, \<open>threads/malloc.c\<close>.  The page allocator uses the bitmap
    component, page directories get their tables from it, and the block allocator its arenas.
  \<^item> \<open>Pintos_Intq\<close>: \<open>devices/intq.c\<close>, a ring buffer that implements the interface \<open>bounded_fifo\<close>.  A call is
    cut where its thread blocks, waits for the lock, or yields while it releases the lock; \<open>others\<close> is
    what other threads do in the meantime, and a woken reader is followed through it.
  \<^item> \<open>Pintos_Cache\<close>, \<open>Pintos_Cache_Keys\<close>: sector access of \<open>devices/block.c\<close> and \<open>filesys/cache.c\<close>.
    \<open>contents\<close> is the value of every sector that a reader sees; reads return it, writes change it at
    one place and a flush stores it on the disk.
  \<^item> \<open>Pintos_Inode\<close>: \<open>filesys/free-map.c\<close>, \<open>filesys/inode.c\<close> and \<open>filesys/file.c\<close> on the cache.  Writing the
    free map to its file may again allocate from the free map; the operations take that write as an
    argument, and \<open>bitmap_write\<close> nests it to a depth of 2, which is enough because the free map file
    has its full size when it is first written.  \<open>reads\<close> is what an operation that only reads leaves
    unchanged, \<open>writes\<close> what one leaves unchanged that writes to given sectors.  The end of a range wraps
    around to a negative \<open>off_t\<close>.  Reads and writes of files in direct sectors are followed through the
    cache, also when memory runs out or sectors are allocated and the free map is written.
  \<^item> \<open>Pintos_Directory\<close>: \<open>filesys/directory.c\<close> and \<open>filesys/filesys.c\<close>: entries, path walking, creating, opening
    and removing files, formatting.
  \<^item> \<open>Pintos_Syscall\<close>: \<open>userprog/syscall.c\<close>: decoding of arguments in user memory, the handlers and the
    dispatcher; a page fault on an argument makes \<open>get_user\<close> return -1.
  \<^item> \<open>Pintos_Stdio\<close>, \<open>Pintos_Printf\<close>: \<open>lib/ctype.h\<close>, \<open>lib/stdio.c\<close> and \<open>atoi\<close>, as the characters passed to the
    output callback.  The bases of numbers are the instances of the locale \<open>number_base\<close>; digits read
    back as the number, \<open>atoi\<close> inverts a decimal conversion and \<open>vsnprintf\<close> stays inside its buffer.
  \<^item> \<open>Pintos_Ustar\<close>: \<open>lib/ustar.c\<close>; parsing inverts making a header.
  \<^item> \<open>Pintos_Exec\<close>, \<open>Pintos_Load\<close>: \<open>start_process\<close> and \<open>load\<close> of \<open>userprog/process.c\<close>: the initial stack,
    the failure paths, and the segments that \<open>validate_segment\<close> accepts.
  \<^item> \<open>Pintos_Devices\<close>: \<open>devices/partition.c\<close>, \<open>devices/rtc.c\<close>, \<open>devices/kbd.c\<close> and \<open>devices/input.c\<close>, with what is
    read from a port or a sector as an argument.  A registered partition lies inside its device, a scan
    never completes if the first extended partition begins before the middle of the device, and a
    letter key yields its letter.
  \<^item> \<open>Pintos_Descriptors\<close>: gates and registration of \<open>threads/interrupt.c\<close>, \<open>userprog/exception.c\<close>,
    \<open>userprog/gdt.c\<close> and \<open>userprog/tss.c\<close>.  The processor reads a descriptor back as its arguments, the
    gates stay right under every registration, and user programs can invoke four of them.
  \<^item> \<open>Hw_Tokenizer\<close>, \<open>Hw_Mm_Alloc\<close>: the tokenizer, the work queue and the allocator of the homework under
    \<open>src/personal\<close>.  Escaped words come back from the tokenizer; the allocator is safe and never reuses
    memory.

  \<^bold>\<open>Parameters.\<close>  The disk driver below \<open>block_operations\<close>, the bytes in freshly allocated memory, the
  success of an allocation where the allocator is another component, and comparison and hash
  functions are arguments.  Locks of the allocators and of the cache are flags: a call that would
  sleep on them is not part of those components, and \<open>Pintos_Synch\<close> treats sleeping.

  \<^bold>\<open>Not modelled.\<close>  \<open>process_execute\<close>, the registry of block devices, \<open>bitmap_dump\<close>, \<open>buffer_cache_destroy\<close>,
  calibration of the timer, and functions that only print.  The drivers of the disk, the serial port,
  the screen, the timer chip and the speaker, the interrupt controller and the assembly stubs act on
  hardware.  Start-up, the console and the file system utilities are sequences of calls and messages.
  The shell, the server and the word counter of the homework are calls of an operating system.
\<close>

end
